(* ===== verification/Prelude.thy ===== *)
theory Prelude
  imports Main "HOL-Library.Word"
begin

unbundle bit_operations_syntax

text \<open>
  What every component of the development shares: the C integer types of
  \<^verbatim>\<open>src/xv6/types.h\<close> as words, the result type in which a kernel panic is a value,
  the flat 32-bit byte memory the kernel's C code reads and writes, and the generic
  lemmas on lists and words that carry the component proofs.
\<close>

section \<open>C integer types\<close>

text \<open>
  \<^verbatim>\<open>types.h\<close>: \<open>uint\<close> is 32 bits wide, \<open>ushort\<close> 16 and \<open>uchar\<close> 8; a pointer of
  the x86 kernel is a \<open>uint\<close> as well.  C's \<open>int\<close> is a \<open>uint\<close> read with \<open>sint\<close> where the
  code depends on its sign and an \<open>int\<close> where only its value matters.
\<close>

type_synonym uint = "32 word"
type_synonym ushort = "16 word"
type_synonym uchar = "8 word"

lemma unat_uint_less: "unat (x :: uint) < 2 ^ 32"
proof -
  have "unat x < 2 ^ LENGTH(32)" by (rule unsigned_less)
  then show ?thesis by simp
qed

lemma of_nat_uint_inject:
  "i < 2 ^ 32 \<Longrightarrow> j < 2 ^ 32 \<Longrightarrow> (of_nat i :: uint) = of_nat j \<longleftrightarrow> i = j"
  by (simp add: word_of_nat_eq_iff take_bit_nat_eq_self)

lemma unat_of_nat_uint: "i < 2 ^ 32 \<Longrightarrow> unat (of_nat i :: uint) = i"
  by (simp add: unat_of_nat take_bit_nat_eq_self)

lemma unat_add_uint: "unat (a :: uint) + unat b < 2 ^ 32 \<Longrightarrow> unat (a + b) = unat a + unat b"
  by (simp add: unat_word_ariths(1))

lemma unat_sub_uint: "(b :: uint) \<le> a \<Longrightarrow> unat (a - b) = unat a - unat b"
  by (rule unat_sub)

lemma sint_uint32: "sint (x :: uint) = (if uint x < 2 ^ 31 then uint x else uint x - 2 ^ 32)"
proof -
  have b: "0 \<le> uint x" "uint x < 2 ^ 32" using uint_bounded [of x] by auto
  have "sint x = signed_take_bit 31 (uint x)" by (simp add: sint_uint)
  also have "\<dots> = (uint x + 2 ^ 31) mod 2 ^ 32 - 2 ^ 31"
    by (simp add: signed_take_bit_eq_take_bit_shift take_bit_eq_mod)
  finally have e: "sint x = (uint x + 2 ^ 31) mod 2 ^ 32 - 2 ^ 31" .
  show ?thesis
  proof (cases "uint x < 2 ^ 31")
    case True
    then show ?thesis unfolding e using b by (simp add: mod_pos_pos_trivial)
  next
    case False
    have "(uint x + 2 ^ 31) mod 2 ^ 32 = (uint x + 2 ^ 31 - 2 ^ 32) mod 2 ^ 32" by (metis minus_mod_self2)
    also have "\<dots> = uint x + 2 ^ 31 - 2 ^ 32" using b False by (intro mod_pos_pos_trivial) auto
    finally show ?thesis unfolding e using False by simp
  qed
qed
lemma uint_minus32: "sint (x :: uint) < 0 \<Longrightarrow> int (unat (- x)) = - sint x"
proof -
  assume n: "sint x < 0"
  then have h: "2 ^ 31 \<le> uint x" "sint x = uint x - 2 ^ 32" by (auto simp: sint_uint32 split: if_splits)
  have "uint (- x) = (- uint x) mod 2 ^ 32" by (simp add: uint_word_ariths)
  also have "\<dots> = (2 ^ 32 - uint x) mod 2 ^ 32" by (metis mod_add_self1 uminus_add_conv_diff diff_conv_add_uminus)
  also have "\<dots> = 2 ^ 32 - uint x" using h(1) uint_bounded [of x] by (intro mod_pos_pos_trivial) auto
  finally show ?thesis using h(2) by simp
qed

lemma mask8_uint: "(0xFF :: uint) = mask 8"
  by (simp add: mask_eq_exp_minus_1)

text \<open>Character constants and string literals of the C code.\<close>

abbreviation byte :: "char \<Rightarrow> uchar" where
  "byte c \<equiv> of_char c"

abbreviation bytes :: "string \<Rightarrow> uchar list" where
  "bytes s \<equiv> map of_char s"

section \<open>Outcomes: a result, a kernel panic, or a call that sleeps\<close>

text \<open>
  \<^verbatim>\<open>panic(s)\<close> (\<^verbatim>\<open>console.c\<close>) never returns.  A function that may panic returns an
  \<open>outcome\<close>; \<open>Block\<close> is a call that has to wait for another process or CPU (it spins on a held
  lock or sleeps) and cannot finish in the state it was started in.  \<open>obind\<close> is sequential
  composition, which anything but \<open>Done\<close> cuts short.
\<close>

datatype 'a outcome = Done 'a | Panic string | Block

definition obind :: "'a outcome \<Rightarrow> ('a \<Rightarrow> 'b outcome) \<Rightarrow> 'b outcome" where
  "obind r f = (case r of Done x \<Rightarrow> f x | Panic s \<Rightarrow> Panic s | Block \<Rightarrow> Block)"

lemma obind_simps [simp]:
  "obind (Done x) f = f x" "obind (Panic s) f = Panic s" "obind Block f = Block"
  by (simp_all add: obind_def)

lemma obind_eq_Done_iff: "obind r f = Done y \<longleftrightarrow> (\<exists>x. r = Done x \<and> f x = Done y)"
  by (cases r) auto

lemma obind_eq_DoneE:
  assumes "obind r f = Done y"
  obtains x where "r = Done x" and "f x = Done y"
  using assms by (auto simp: obind_eq_Done_iff)

lemma obind_assoc: "obind (obind r f) g = obind r (\<lambda>x. obind (f x) g)"
  by (cases r) auto

lemma obind_cong [fundef_cong]:
  "r = r' \<Longrightarrow> (\<And>x. r' = Done x \<Longrightarrow> f x = g x) \<Longrightarrow> obind r f = obind r' g"
  by (cases r') auto

lemma case_prod_obind [simp]: "obind (case x of (a, b) \<Rightarrow> f a b) g = (case x of (a, b) \<Rightarrow> obind (f a b) g)"
  by (cases x) simp

section \<open>Lists\<close>

lemma find_SomeE:
  assumes "find P xs = Some x"
  obtains "P x" and "x \<in> set xs"
  using assms by (induction xs) (auto split: if_splits)

lemma find_ex:
  assumes "x \<in> set xs" and "P x"
  obtains y where "find P xs = Some y"
  using assms by (cases "find P xs") (auto simp: find_None_iff)

section \<open>Byte memory\<close>

text \<open>
  The flat address space in which C pointers live.  \<open>load32\<close> and \<open>store32\<close> are the
  little-endian accesses the compiler emits for a \<open>uint\<close> or a pointer.
\<close>

type_synonym cmem = "uint \<Rightarrow> uchar"

definition load32 :: "cmem \<Rightarrow> uint \<Rightarrow> uint" where
  "load32 m a = ucast (m a) OR push_bit 8 (ucast (m (a + 1)))
     OR push_bit 16 (ucast (m (a + 2))) OR push_bit 24 (ucast (m (a + 3)))"

definition store32 :: "cmem \<Rightarrow> uint \<Rightarrow> uint \<Rightarrow> cmem" where
  "store32 m a v = m(a := ucast v, a + 1 := ucast (drop_bit 8 v),
     a + 2 := ucast (drop_bit 16 v), a + 3 := ucast (drop_bit 24 v))"

lemma bytes32_join:
  "ucast (ucast v :: uchar) OR push_bit 8 (ucast (ucast (drop_bit 8 v) :: uchar))
     OR push_bit 16 (ucast (ucast (drop_bit 16 v) :: uchar))
     OR push_bit 24 (ucast (ucast (drop_bit 24 v) :: uchar)) = (v :: uint)"
proof (rule bit_word_eqI)
  fix n :: nat
  assume n: "n < LENGTH(32)"
  consider "n < 8" | "8 \<le> n" "n < 16" | "16 \<le> n" "n < 24" | "24 \<le> n" by linarith
  then show "bit (ucast (ucast v :: uchar) OR push_bit 8 (ucast (ucast (drop_bit 8 v) :: uchar))
     OR push_bit 16 (ucast (ucast (drop_bit 16 v) :: uchar))
     OR push_bit 24 (ucast (ucast (drop_bit 24 v) :: uchar) :: uint)) n = bit v n"
    using n by cases (auto simp: bit_simps)
qed

lemma load32_store32_same: "load32 (store32 m a v) a = v"
  by (simp add: load32_def store32_def bytes32_join)

text \<open>Stores four or more bytes away do not interfere.\<close>

lemma store32_other:
  assumes "x \<noteq> a" "x \<noteq> a + 1" "x \<noteq> a + 2" "x \<noteq> a + 3"
  shows "store32 m a v x = m x"
  using assms by (simp add: store32_def)

section \<open>Records in a block of bytes\<close>

text \<open>
  On-disk structures are read and written by casting a pointer into the data of a buffer to a
  pointer to the structure.  \<open>get32\<close>/\<open>put32\<close> and \<open>get16\<close>/\<open>put16\<close> are the accesses to a \<open>uint\<close> and a
  \<open>short\<close> member at a byte offset, in the byte order of the x86.
\<close>

definition get32 :: "nat \<Rightarrow> uchar list \<Rightarrow> uint" where
  "get32 a bs = ucast (bs ! a) OR push_bit 8 (ucast (bs ! (a + 1)))
     OR push_bit 16 (ucast (bs ! (a + 2))) OR push_bit 24 (ucast (bs ! (a + 3)))"

definition put32 :: "nat \<Rightarrow> uint \<Rightarrow> uchar list \<Rightarrow> uchar list" where
  "put32 a v bs = bs[a := ucast v, a + 1 := ucast (drop_bit 8 v),
     a + 2 := ucast (drop_bit 16 v), a + 3 := ucast (drop_bit 24 v)]"

definition get16 :: "nat \<Rightarrow> uchar list \<Rightarrow> ushort" where
  "get16 a bs = ucast (bs ! a) OR push_bit 8 (ucast (bs ! (a + 1)))"

definition put16 :: "nat \<Rightarrow> ushort \<Rightarrow> uchar list \<Rightarrow> uchar list" where
  "put16 a v bs = bs[a := ucast v, a + 1 := ucast (drop_bit 8 v)]"

lemma length_put [simp]: "length (put32 a v bs) = length bs" "length (put16 a w bs) = length bs"
  by (simp_all add: put32_def put16_def)

lemma get32_put32_same [simp]: "a + 3 < length bs \<Longrightarrow> get32 a (put32 a v bs) = v"
  by (simp add: get32_def put32_def bytes32_join)

lemma get32_put32_other [simp]: "b + 3 < a \<or> a + 3 < b \<Longrightarrow> get32 b (put32 a v bs) = get32 b bs"
  by (elim disjE) (simp_all add: get32_def put32_def)

lemma bytes16_join: "ucast (ucast v :: uchar) OR push_bit 8 (ucast (ucast (drop_bit 8 v) :: uchar)) = (v :: ushort)"
proof (rule bit_word_eqI)
  fix n :: nat
  assume "n < LENGTH(16)"
  then show "bit (ucast (ucast v :: uchar) OR push_bit 8 (ucast (ucast (drop_bit 8 v) :: uchar) :: ushort)) n = bit v n"
    by (cases "n < 8") (auto simp: bit_simps)
qed

lemma get16_put16_same [simp]: "a + 1 < length bs \<Longrightarrow> get16 a (put16 a v bs) = v"
  by (simp add: get16_def put16_def bytes16_join)

lemma get16_put16_other [simp]: "b + 1 < a \<or> a + 1 < b \<Longrightarrow> get16 b (put16 a v bs) = get16 b bs"
  by (elim disjE) (simp_all add: get16_def put16_def)

lemma get16_put32_other [simp]: "b + 1 < a \<or> a + 3 < b \<Longrightarrow> get16 b (put32 a v bs) = get16 b bs"
  by (elim disjE) (simp_all add: get16_def put32_def)

lemma get32_put16_other [simp]: "b + 3 < a \<or> a + 1 < b \<Longrightarrow> get32 b (put16 a v bs) = get32 b bs"
  by (elim disjE) (simp_all add: get32_def put16_def)

end
