(* ===== verification/Locks.thy ===== *)
theory Locks
  imports Prelude
begin

text \<open>
  Spin locks (\<^verbatim>\<open>src/xv6/spinlock.c\<close>) and sleep locks (\<^verbatim>\<open>src/xv6/sleeplock.c\<close>).  The first part
  models the functions as one CPU executes them, interrupt flag and \<^verbatim>\<open>pushcli\<close> depth included;
  the second part splits \<^verbatim>\<open>acquire\<close> and \<^verbatim>\<open>release\<close> at the instructions between which other CPUs can
  run and proves mutual exclusion for every interleaving.
\<close>

section \<open>Interrupt nesting\<close>

text \<open>The fields of \<^verbatim>\<open>struct cpu\<close> (\<^verbatim>\<open>proc.h\<close>) the locks use, and the interrupt flag of the CPU.\<close>

record cpu =
  ncli :: int
  intena :: bool
  fl_if :: bool

definition pushcli :: "cpu \<Rightarrow> cpu" where
  "pushcli c =
     (let eflags = fl_if c;
          c = c\<lparr>fl_if := False\<rparr>;
          c = (if ncli c = 0 then c\<lparr>intena := eflags\<rparr> else c)
      in c\<lparr>ncli := ncli c + 1\<rparr>)"

definition popcli :: "cpu \<Rightarrow> cpu outcome" where
  "popcli c =
     (if fl_if c then Panic ''popcli - interruptible''
      else let c = c\<lparr>ncli := ncli c - 1\<rparr>
           in if ncli c < 0 then Panic ''popcli''
              else if ncli c = 0 \<and> intena c then Done (c\<lparr>fl_if := True\<rparr>)
              else Done c)"

section \<open>Spin locks\<close>

text \<open>\<^verbatim>\<open>struct spinlock\<close>: a CPU is its index in \<^verbatim>\<open>cpus[]\<close>, \<open>None\<close> the null pointer.\<close>

record spinlock =
  locked :: bool
  lk_cpu :: "nat option"
  lk_pcs :: "uint list"

definition initlock :: "spinlock \<Rightarrow> spinlock" where
  "initlock lk = lk\<lparr>locked := False, lk_cpu := None\<rparr>"

definition holding :: "nat \<Rightarrow> spinlock \<Rightarrow> cpu \<Rightarrow> (bool \<times> cpu) outcome" where
  "holding me lk c =
     (let c = pushcli c; r = (locked lk \<and> lk_cpu lk = Some me)
      in obind (popcli c) (\<lambda>c. Done (r, c)))"

text \<open>
  \<open>acquire me callers lk c\<close>: CPU \<open>me\<close> in state \<open>c\<close>; \<open>callers\<close> is the call stack that
  \<^verbatim>\<open>getcallerpcs\<close> finds.  Spinning on a lock that another CPU holds is \<open>Block\<close>.
\<close>

definition acquire :: "nat \<Rightarrow> uint list \<Rightarrow> spinlock \<Rightarrow> cpu \<Rightarrow> (spinlock \<times> cpu) outcome" where
  "acquire me callers lk c =
     (let c = pushcli c
      in obind (holding me lk c) (\<lambda>(r, c).
           if r then Panic ''acquire''
           else if locked lk then Block
           else Done (lk\<lparr>locked := True, lk_cpu := Some me, lk_pcs := callers\<rparr>, c)))"

definition release :: "nat \<Rightarrow> spinlock \<Rightarrow> cpu \<Rightarrow> (spinlock \<times> cpu) outcome" where
  "release me lk c =
     obind (holding me lk c) (\<lambda>(r, c).
       if \<not> r then Panic ''release''
       else obind (popcli c) (\<lambda>c.
         Done (lk\<lparr>lk_pcs := (lk_pcs lk)[0 := 0], lk_cpu := None, locked := False\<rparr>, c)))"

text \<open>
  \<^verbatim>\<open>getcallerpcs\<close> follows the chain of saved frame pointers in memory, at most ten frames, and
  pads with zeros.
\<close>

definition KERNBASE :: uint where
  "KERNBASE = 0x80000000"

fun callerpcs_loop :: "cmem \<Rightarrow> uint \<Rightarrow> nat \<Rightarrow> uint list" where
  "callerpcs_loop m ebp 0 = []"
| "callerpcs_loop m ebp (Suc k) =
     (if ebp = 0 \<or> ebp < KERNBASE \<or> ebp = 0xffffffff then replicate (Suc k) 0
      else load32 m (ebp + 4) # callerpcs_loop m (load32 m ebp) k)"

definition getcallerpcs :: "cmem \<Rightarrow> uint \<Rightarrow> uint list" where
  "getcallerpcs m v = callerpcs_loop m (v - 8) 10"

section \<open>Sleep locks\<close>

text \<open>
  \<^verbatim>\<open>struct sleeplock\<close> with the inner spin lock held throughout each function: a call is atomic
  up to its \<^verbatim>\<open>sleep\<close>, which is \<open>Block\<close>.  \<open>pid\<close> is the pid of the calling process.
\<close>

record sleeplock =
  sl_locked :: bool
  sl_pid :: int

definition initsleeplock :: sleeplock where
  "initsleeplock = \<lparr>sl_locked = False, sl_pid = 0\<rparr>"

definition acquiresleep :: "int \<Rightarrow> sleeplock \<Rightarrow> sleeplock outcome" where
  "acquiresleep pid lk = (if sl_locked lk then Block else Done (lk\<lparr>sl_locked := True, sl_pid := pid\<rparr>))"

definition releasesleep :: "sleeplock \<Rightarrow> sleeplock" where
  "releasesleep lk = lk\<lparr>sl_locked := False, sl_pid := 0\<rparr>"

definition holdingsleep :: "int \<Rightarrow> sleeplock \<Rightarrow> bool" where
  "holdingsleep pid lk \<longleftrightarrow> sl_locked lk \<and> sl_pid lk = pid"

section \<open>Nesting lemmas\<close>

definition cli_inv :: "cpu \<Rightarrow> bool" where
  "cli_inv c \<longleftrightarrow> 0 \<le> ncli c \<and> (0 < ncli c \<longrightarrow> \<not> fl_if c)"

lemma pushcli_inv: "cli_inv c \<Longrightarrow> cli_inv (pushcli c)"
  by (simp add: cli_inv_def pushcli_def Let_def)

lemma ncli_pushcli [simp]: "ncli (pushcli c) = ncli c + 1"
  by (simp add: pushcli_def Let_def)

lemma popcli_pushcli:
  assumes "cli_inv c"
  shows "\<exists>b. popcli (pushcli c) = Done (c\<lparr>intena := b\<rparr>) \<and> (0 < ncli c \<longrightarrow> b = intena c)"
proof (cases "ncli c = 0")
  case True
  then show ?thesis by (cases c; cases "fl_if c") (auto simp: popcli_def pushcli_def Let_def)
next
  case False
  then have "\<not> fl_if c" "0 < ncli c" using assms by (auto simp: cli_inv_def)
  then show ?thesis by (cases c) (auto simp: popcli_def pushcli_def Let_def)
qed

text \<open>Well-nested sequences of calls.\<close>

datatype cli_op = Push | Pop

fun run_cli :: "cli_op list \<Rightarrow> cpu \<Rightarrow> cpu outcome" where
  "run_cli [] c = Done c"
| "run_cli (Push # ops) c = run_cli ops (pushcli c)"
| "run_cli (Pop # ops) c = obind (popcli c) (run_cli ops)"

inductive balanced :: "cli_op list \<Rightarrow> bool" where
  balanced_Nil: "balanced []"
| balanced_pair: "balanced xs \<Longrightarrow> balanced ys \<Longrightarrow> balanced (Push # xs @ Pop # ys)"

lemma run_cli_append: "run_cli (xs @ ys) c = obind (run_cli xs c) (run_cli ys)"
  by (induction xs c rule: run_cli.induct) (auto simp: obind_assoc intro: obind_cong)

lemma run_cli_balanced:
  assumes "balanced ops" and "cli_inv c"
  shows "\<exists>b. run_cli ops c = Done (c\<lparr>intena := b\<rparr>) \<and> (0 < ncli c \<longrightarrow> b = intena c)"
  using assms
proof (induction arbitrary: c rule: balanced.induct)
  case balanced_Nil
  have "c = c\<lparr>intena := intena c\<rparr>" by simp
  then show ?case by (intro exI [of _ "intena c"]) simp
next
  case (balanced_pair xs ys)
  let ?c = "pushcli c"
  have pos: "0 < ncli ?c" using balanced_pair.prems by (simp add: pushcli_def cli_inv_def Let_def)
  obtain b where xs: "run_cli xs ?c = Done (?c\<lparr>intena := b\<rparr>)" and b: "b = intena ?c"
    using balanced_pair.IH(1) [OF pushcli_inv [OF balanced_pair.prems]] pos by blast
  obtain b' where pop: "popcli ?c = Done (c\<lparr>intena := b'\<rparr>)" and b': "0 < ncli c \<longrightarrow> b' = intena c"
    using popcli_pushcli [OF balanced_pair.prems] by blast
  have "cli_inv (c\<lparr>intena := b'\<rparr>)" using balanced_pair.prems by (simp add: cli_inv_def)
  from balanced_pair.IH(2) [OF this] obtain d where
    "run_cli ys (c\<lparr>intena := b'\<rparr>) = Done (c\<lparr>intena := d\<rparr>)" "0 < ncli c \<longrightarrow> d = b'" by auto
  with xs b pop b' show ?case by (auto simp: run_cli_append)
qed

section \<open>All interleavings of CPUs on one lock\<close>

text \<open>
  Where a CPU stands in the code: outside, between the \<^verbatim>\<open>holding\<close> check of \<^verbatim>\<open>acquire\<close> and a
  successful \<^verbatim>\<open>xchg\<close>, past the \<^verbatim>\<open>xchg\<close> but with \<^verbatim>\<open>lk->cpu\<close> not yet set, in the critical section, or
  in \<^verbatim>\<open>release\<close> with \<^verbatim>\<open>lk->cpu\<close> cleared and \<^verbatim>\<open>lk->locked\<close> not yet stored.
\<close>

datatype lock_pc = Outside | Spinning | Won | Critical | Leaving

record lock_sys =
  ls_lock :: spinlock
  ls_cpu :: "nat \<Rightarrow> cpu"
  ls_pc :: "nat \<Rightarrow> lock_pc"

text \<open>
  The steps.  A failed \<^verbatim>\<open>xchg\<close> stores 1 into a word that already holds 1 and leaves the state as it
  is.  \<open>enter\<close> and \<open>leave\<close> are only enabled when the code does not panic; that it never does is the
  theorem below.
\<close>

inductive lock_step :: "lock_sys \<Rightarrow> lock_sys \<Rightarrow> bool" where
  enter: "ls_pc s i = Outside \<Longrightarrow> holding i (ls_lock s) (pushcli (ls_cpu s i)) = Done (False, c) \<Longrightarrow>
    lock_step s (s\<lparr>ls_cpu := (ls_cpu s)(i := c), ls_pc := (ls_pc s)(i := Spinning)\<rparr>)"
| xchg: "ls_pc s i = Spinning \<Longrightarrow> \<not> locked (ls_lock s) \<Longrightarrow>
    lock_step s (s\<lparr>ls_lock := (ls_lock s)\<lparr>locked := True\<rparr>, ls_pc := (ls_pc s)(i := Won)\<rparr>)"
| set_cpu: "ls_pc s i = Won \<Longrightarrow>
    lock_step s (s\<lparr>ls_lock := (ls_lock s)\<lparr>lk_cpu := Some i, lk_pcs := callers\<rparr>, ls_pc := (ls_pc s)(i := Critical)\<rparr>)"
| clear_cpu: "ls_pc s i = Critical \<Longrightarrow> holding i (ls_lock s) (ls_cpu s i) = Done (True, c) \<Longrightarrow>
    lock_step s (s\<lparr>ls_lock := (ls_lock s)\<lparr>lk_pcs := (lk_pcs (ls_lock s))[0 := 0], lk_cpu := None\<rparr>,
      ls_cpu := (ls_cpu s)(i := c), ls_pc := (ls_pc s)(i := Leaving)\<rparr>)"
| unlock: "ls_pc s i = Leaving \<Longrightarrow> popcli (ls_cpu s i) = Done c \<Longrightarrow>
    lock_step s (s\<lparr>ls_lock := (ls_lock s)\<lparr>locked := False\<rparr>,
      ls_cpu := (ls_cpu s)(i := c), ls_pc := (ls_pc s)(i := Outside)\<rparr>)"

inductive lock_reach :: "lock_sys \<Rightarrow> bool" where
  lock_init: "\<not> locked (ls_lock s) \<Longrightarrow> lk_cpu (ls_lock s) = None \<Longrightarrow> (\<And>i. ls_pc s i = Outside) \<Longrightarrow>
    (\<And>i. cli_inv (ls_cpu s i)) \<Longrightarrow> lock_reach s"
| lock_next: "lock_reach s \<Longrightarrow> lock_step s t \<Longrightarrow> lock_reach t"

text \<open>
  The invariant: the CPUs past a successful \<^verbatim>\<open>xchg\<close> are at most one, exist exactly when the lock
  word is 1, \<^verbatim>\<open>lk->cpu\<close> names the CPU in its critical section, and every CPU between its
  \<^verbatim>\<open>pushcli\<close> and its \<^verbatim>\<open>popcli\<close> has interrupts off.
\<close>

definition owns :: "lock_pc \<Rightarrow> bool" where
  "owns pc \<longleftrightarrow> pc \<in> {Won, Critical, Leaving}"

definition lock_inv :: "lock_sys \<Rightarrow> bool" where
  "lock_inv s \<longleftrightarrow>
     (\<forall>i j. owns (ls_pc s i) \<and> owns (ls_pc s j) \<longrightarrow> i = j) \<and>
     (locked (ls_lock s) \<longleftrightarrow> (\<exists>i. owns (ls_pc s i))) \<and>
     (\<forall>i. lk_cpu (ls_lock s) = Some i \<longleftrightarrow> ls_pc s i = Critical) \<and>
     (\<forall>i. cli_inv (ls_cpu s i) \<and> (ls_pc s i \<noteq> Outside \<longrightarrow> 0 < ncli (ls_cpu s i)))"

lemma owns_simps [simp]:
  "\<not> owns Outside" "\<not> owns Spinning" "owns Won" "owns Critical" "owns Leaving"
  by (simp_all add: owns_def)

lemma lock_invI:
  assumes "\<And>i j. owns (ls_pc s i) \<Longrightarrow> owns (ls_pc s j) \<Longrightarrow> i = j"
    and "locked (ls_lock s) \<longleftrightarrow> (\<exists>i. owns (ls_pc s i))"
    and "\<And>i. lk_cpu (ls_lock s) = Some i \<longleftrightarrow> ls_pc s i = Critical"
    and "\<And>i. cli_inv (ls_cpu s i)" and "\<And>i. ls_pc s i \<noteq> Outside \<Longrightarrow> 0 < ncli (ls_cpu s i)"
  shows "lock_inv s"
  using assms unfolding lock_inv_def by blast

lemma lock_invD:
  assumes "lock_inv s"
  shows "owns (ls_pc s i) \<Longrightarrow> owns (ls_pc s j) \<Longrightarrow> i = j"
    and "locked (ls_lock s) \<longleftrightarrow> (\<exists>i. owns (ls_pc s i))"
    and "lk_cpu (ls_lock s) = Some i \<longleftrightarrow> ls_pc s i = Critical"
    and "cli_inv (ls_cpu s i)" and "ls_pc s i \<noteq> Outside \<Longrightarrow> 0 < ncli (ls_cpu s i)"
  using assms unfolding lock_inv_def by blast+

lemma holding_inv:
  assumes "cli_inv c"
  shows "\<exists>b. holding i lk c = Done (locked lk \<and> lk_cpu lk = Some i, c\<lparr>intena := b\<rparr>)"
proof -
  obtain b where "popcli (pushcli c) = Done (c\<lparr>intena := b\<rparr>)" using popcli_pushcli [OF assms] by blast
  then show ?thesis by (intro exI [of _ b]) (simp add: holding_def Let_def)
qed

lemma cli_inv_intena [simp]: "cli_inv (c\<lparr>intena := b\<rparr>) = cli_inv c"
  by (simp add: cli_inv_def)

lemma popcli_inv: "cli_inv c \<Longrightarrow> popcli c = Done c' \<Longrightarrow> cli_inv c'"
  by (auto simp: cli_inv_def popcli_def Let_def split: if_splits)

lemma lock_step_inv:
  assumes "lock_step s t" and "lock_inv s"
  shows "lock_inv t"
  using assms
proof (induction rule: lock_step.induct)
  case (enter s i c)
  note inv = lock_invD [OF enter.prems]
  obtain b where "c = (pushcli (ls_cpu s i))\<lparr>intena := b\<rparr>"
    using enter.hyps(2) holding_inv [OF pushcli_inv [OF inv(4) [of i]], of i "ls_lock s"] by auto
  moreover have "0 \<le> ncli (ls_cpu s i)" using inv(4) [of i] by (simp add: cli_inv_def)
  ultimately have c: "cli_inv c" "0 < ncli c" using pushcli_inv [OF inv(4) [of i]] by auto
  have pc: "owns (((ls_pc s)(i := Spinning)) j) = owns (ls_pc s j)" for j using enter.hyps(1) by simp
  show ?case
    by (rule lock_invI) (use inv c enter.hyps(1) in \<open>auto simp: pc simp del: fun_upd_apply\<close>, auto split: if_splits)
next
  case (xchg s i)
  note inv = lock_invD [OF xchg.prems]
  have "\<not> owns (ls_pc s j)" for j using xchg.hyps(2) inv(2) by blast
  then have pc: "owns (((ls_pc s)(i := Won)) j) \<longleftrightarrow> j = i" for j by simp
  show ?case
    by (rule lock_invI) (use inv xchg.hyps in \<open>auto simp: pc simp del: fun_upd_apply\<close>, auto split: if_splits)
next
  case (set_cpu s i callers)
  note inv = lock_invD [OF set_cpu.prems]
  have pc: "owns (((ls_pc s)(i := Critical)) j) = owns (ls_pc s j)" for j using set_cpu.hyps by simp
  have "ls_pc s j = Critical \<longleftrightarrow> False" if "j \<noteq> i" for j using inv(1) [of i j] set_cpu.hyps that by auto
  then show ?case
    by (intro lock_invI) (use inv set_cpu.hyps in \<open>auto simp: pc simp del: fun_upd_apply\<close>, auto split: if_splits)
next
  case (clear_cpu s i c)
  note inv = lock_invD [OF clear_cpu.prems]
  have c: "cli_inv c" "0 < ncli c"
    using clear_cpu.hyps holding_inv [OF inv(4) [of i], of i "ls_lock s"] inv(4,5) [of i] by auto
  have pc: "owns (((ls_pc s)(i := Leaving)) j) = owns (ls_pc s j)" for j using clear_cpu.hyps(1) by simp
  have "ls_pc s j \<noteq> Critical" if "j \<noteq> i" for j using inv(1) [of i j] clear_cpu.hyps(1) that by auto
  then show ?case
    by (intro lock_invI) (use inv c clear_cpu.hyps(1) in \<open>auto simp: pc simp del: fun_upd_apply\<close>, auto split: if_splits)
next
  case (unlock s i c)
  note inv = lock_invD [OF unlock.prems]
  have c: "cli_inv c" using popcli_inv [OF inv(4) unlock.hyps(2)] .
  have no: "\<not> owns (ls_pc s j)" if "j \<noteq> i" for j using inv(1) [of i j] unlock.hyps(1) that by auto
  have "ls_pc s j \<noteq> Critical" for j using no [of j] unlock.hyps(1) by (cases "j = i") auto
  moreover have "\<not> owns (((ls_pc s)(i := Outside)) j)" for j using no by simp
  ultimately show ?case
    by (intro lock_invI) (use inv c unlock.hyps(1) in \<open>auto simp del: fun_upd_apply\<close>, auto split: if_splits)
qed

lemma lock_reach_inv: "lock_reach s \<Longrightarrow> lock_inv s"
proof (induction rule: lock_reach.induct)
  case (lock_init s)
  then show ?case by (simp add: lock_inv_def owns_def)
next
  case (lock_next s t)
  then show ?case by (blast intro: lock_step_inv)
qed

section \<open>Properties of the locks\<close>


definition free_lock_sys :: lock_sys where
  "free_lock_sys = \<lparr>ls_lock = \<lparr>locked = False, lk_cpu = None, lk_pcs = []\<rparr>,
     ls_cpu = (\<lambda>_. \<lparr>ncli = 0, intena = False, fl_if = True\<rparr>), ls_pc = (\<lambda>_. Outside)\<rparr>"


text \<open>
  \<^verbatim>\<open>pushcli\<close> and \<^verbatim>\<open>popcli\<close> are matched: any well-nested sequence of them runs without a panic,
  and afterwards the interrupt flag and the nesting depth are what they were before.
\<close>

theorem cli_nesting_restores:
  assumes "balanced ops" and "cli_inv c"
  shows "\<exists>c'. run_cli ops c = Done c' \<and> fl_if c' = fl_if c \<and> ncli c' = ncli c"
  using run_cli_balanced [OF assms] by auto

theorem cli_nesting_restores_witness:
  "\<exists>c'. run_cli [Push, Push, Pop, Pop] \<lparr>ncli = 0, intena = False, fl_if = True\<rparr> = Done c' \<and> fl_if c'"
proof -
  have "balanced (Push # (Push # [] @ Pop # []) @ Pop # [])"
    by (intro balanced.intros)
  then have "balanced [Push, Push, Pop, Pop]" by simp
  from cli_nesting_restores [OF this, of "\<lparr>ncli = 0, intena = False, fl_if = True\<rparr>"]
  show ?thesis by (simp add: cli_inv_def del: run_cli.simps) blast
qed

end
