(* ===== verification/Bio.thy ===== *)
theory Bio
  imports Locks
begin

text \<open>
  The buffer cache (\<^verbatim>\<open>src/xv6/bio.c\<close>, \<^verbatim>\<open>buf.h\<close>) over the memory-backed disk driver
  (\<^verbatim>\<open>src/xv6/memide.c\<close>).  A buffer is its index in \<^verbatim>\<open>bcache.buf[]\<close>, the list through
  \<^verbatim>\<open>prev\<close>/\<^verbatim>\<open>next\<close> is the list of these indices, most recently used first.  The two flag bits
  are booleans.  \<open>dwrites\<close> records the sectors written since boot, in order; no code reads it, the
  crash-recovery theorems are stated with it.
\<close>

section \<open>State\<close>

type_synonym block = "uchar list"

definition BSIZE :: nat where
  "BSIZE = 512"

definition NBUF :: nat where
  "NBUF = 30"

definition FSSIZE :: nat where
  "FSSIZE = 1000"

record buf =
  b_valid :: bool
  b_dirty :: bool
  b_dev :: uint
  b_blockno :: uint
  b_lock :: sleeplock
  b_refcnt :: nat
  b_data :: block

record bstate =
  disk :: "uint \<Rightarrow> uint \<Rightarrow> block"
  disksize :: nat
  dwrites :: "(uint \<times> uint \<times> block) list"
  bufs :: "buf list"
  mru :: "nat list"
  curpid :: int

definition upd_buf :: "nat \<Rightarrow> (buf \<Rightarrow> buf) \<Rightarrow> 'a bstate_scheme \<Rightarrow> 'a bstate_scheme" where
  "upd_buf i f s = s\<lparr>bufs := (bufs s)[i := f (bufs s ! i)]\<rparr>"

section \<open>The driver\<close>

definition disk_write :: "uint \<Rightarrow> uint \<Rightarrow> block \<Rightarrow> 'a bstate_scheme \<Rightarrow> 'a bstate_scheme" where
  "disk_write dev b d s =
     s\<lparr>disk := (disk s)(dev := (disk s dev)(b := d)), dwrites := dwrites s @ [(dev, b, d)]\<rparr>"

definition iderw :: "nat \<Rightarrow> 'a bstate_scheme \<Rightarrow> 'a bstate_scheme outcome" where
  "iderw i s =
     (let b = bufs s ! i
      in if \<not> holdingsleep (curpid s) (b_lock b) then Panic ''iderw: buf not locked''
         else if b_valid b \<and> \<not> b_dirty b then Panic ''iderw: nothing to do''
         else if b_dev b \<noteq> 1 then Panic ''iderw: request not for disk 1''
         else if disksize s \<le> unat (b_blockno b) then Panic ''iderw: block out of range''
         else if b_dirty b
              then Done (upd_buf i (\<lambda>b. b\<lparr>b_dirty := False, b_valid := True\<rparr>)
                          (disk_write (b_dev b) (b_blockno b) (b_data b) s))
              else Done (upd_buf i (\<lambda>b. b\<lparr>b_data := disk s (b_dev b) (b_blockno b), b_valid := True\<rparr>) s))"

section \<open>The cache\<close>

definition buf0 :: "block \<Rightarrow> buf" where
  "buf0 d = \<lparr>b_valid = False, b_dirty = False, b_dev = 0, b_blockno = 0,
     b_lock = initsleeplock, b_refcnt = 0, b_data = d\<rparr>"

text \<open>\<^verbatim>\<open>binit\<close> links every buffer in at the head of the list, so the last one ends up first.\<close>

fun binit_loop :: "nat \<Rightarrow> nat \<Rightarrow> nat list \<Rightarrow> nat list" where
  "binit_loop i 0 l = l"
| "binit_loop i (Suc k) l = binit_loop (Suc i) k (i # l)"

definition binit :: "'a bstate_scheme \<Rightarrow> 'a bstate_scheme" where
  "binit s = s\<lparr>bufs := replicate NBUF (buf0 (replicate BSIZE 0)), mru := binit_loop 0 NBUF []\<rparr>"

definition lock_buf :: "nat \<Rightarrow> 'a bstate_scheme \<Rightarrow> (nat \<times> 'a bstate_scheme) outcome" where
  "lock_buf i s =
     obind (acquiresleep (curpid s) (b_lock (bufs s ! i))) (\<lambda>lk.
       Done (i, upd_buf i (\<lambda>b. b\<lparr>b_lock := lk\<rparr>) s))"

definition bget :: "uint \<Rightarrow> uint \<Rightarrow> 'a bstate_scheme \<Rightarrow> (nat \<times> 'a bstate_scheme) outcome" where
  "bget dev blockno s =
     (case find (\<lambda>i. b_dev (bufs s ! i) = dev \<and> b_blockno (bufs s ! i) = blockno) (mru s) of
        Some i \<Rightarrow> lock_buf i (upd_buf i (\<lambda>b. b\<lparr>b_refcnt := b_refcnt b + 1\<rparr>) s)
      | None \<Rightarrow>
          (case find (\<lambda>i. b_refcnt (bufs s ! i) = 0 \<and> \<not> b_dirty (bufs s ! i)) (rev (mru s)) of
             Some i \<Rightarrow>
               lock_buf i (upd_buf i (\<lambda>b. b\<lparr>b_dev := dev, b_blockno := blockno, b_valid := False,
                 b_dirty := False, b_refcnt := 1\<rparr>) s)
           | None \<Rightarrow> Panic ''bget: no buffers''))"

definition bread :: "uint \<Rightarrow> uint \<Rightarrow> 'a bstate_scheme \<Rightarrow> (nat \<times> 'a bstate_scheme) outcome" where
  "bread dev blockno s =
     obind (bget dev blockno s) (\<lambda>(i, s).
       if \<not> b_valid (bufs s ! i) then obind (iderw i s) (\<lambda>s. Done (i, s)) else Done (i, s))"

definition bwrite :: "nat \<Rightarrow> 'a bstate_scheme \<Rightarrow> 'a bstate_scheme outcome" where
  "bwrite i s =
     (if \<not> holdingsleep (curpid s) (b_lock (bufs s ! i)) then Panic ''bwrite''
      else iderw i (upd_buf i (\<lambda>b. b\<lparr>b_dirty := True\<rparr>) s))"

definition brelse :: "nat \<Rightarrow> 'a bstate_scheme \<Rightarrow> 'a bstate_scheme outcome" where
  "brelse i s =
     (if \<not> holdingsleep (curpid s) (b_lock (bufs s ! i)) then Panic ''brelse''
      else let s = upd_buf i (\<lambda>b. b\<lparr>b_lock := releasesleep (b_lock b)\<rparr>) s;
               s = upd_buf i (\<lambda>b. b\<lparr>b_refcnt := b_refcnt b - 1\<rparr>) s
           in Done (if b_refcnt (bufs s ! i) = 0 then s\<lparr>mru := i # remove1 i (mru s)\<rparr> else s))"

text \<open>What client code does between \<^verbatim>\<open>bread\<close> and \<^verbatim>\<open>brelse\<close>: it stores into \<^verbatim>\<open>bp->data\<close>.\<close>

definition set_data :: "nat \<Rightarrow> block \<Rightarrow> 'a bstate_scheme \<Rightarrow> 'a bstate_scheme" where
  "set_data i d s = upd_buf i (\<lambda>b. b\<lparr>b_data := d\<rparr>) s"

section \<open>Invariant and abstraction\<close>

text \<open>
  \<open>view s dev b\<close> is the contents of a block as the kernel sees it: the cached copy if there is a
  valid one, the disk sector otherwise.  \<open>heldI\<close> and \<open>dirtyI\<close> are the buffers locked by the running
  process and the buffers pinned by the log.
\<close>

definition caches :: "'a bstate_scheme \<Rightarrow> uint \<Rightarrow> uint \<Rightarrow> nat \<Rightarrow> bool" where
  "caches s dev b i \<longleftrightarrow> b_dev (bufs s ! i) = dev \<and> b_blockno (bufs s ! i) = b"

definition view :: "'a bstate_scheme \<Rightarrow> uint \<Rightarrow> uint \<Rightarrow> block" where
  "view s dev b =
     (case find (\<lambda>i. caches s dev b i \<and> b_valid (bufs s ! i)) [0..<NBUF] of
        Some i \<Rightarrow> b_data (bufs s ! i)
      | None \<Rightarrow> disk s dev b)"

definition heldI :: "'a bstate_scheme \<Rightarrow> nat set" where
  "heldI s = {i. i < NBUF \<and> sl_locked (b_lock (bufs s ! i))}"

definition dirtyI :: "'a bstate_scheme \<Rightarrow> nat set" where
  "dirtyI s = {i. i < NBUF \<and> b_dirty (bufs s ! i)}"

definition buf_ok :: "'a bstate_scheme \<Rightarrow> nat \<Rightarrow> bool" where
  "buf_ok s i \<longleftrightarrow>
     (let b = bufs s ! i
      in (if sl_locked (b_lock b) then b_refcnt b = 1 \<and> sl_pid (b_lock b) = curpid s \<and> b_valid b
          else b_refcnt b = 0)
         \<and> (b_dirty b \<longrightarrow> b_valid b)
         \<and> (b_valid b \<longleftrightarrow> b_dev b = 1)
         \<and> (b_valid b \<longrightarrow> length (b_data b) = BSIZE \<and> unat (b_blockno b) < disksize s)
         \<and> (b_valid b \<and> \<not> b_dirty b \<and> \<not> sl_locked (b_lock b) \<longrightarrow>
              b_data b = disk s (b_dev b) (b_blockno b)))"

definition bio_inv :: "'a bstate_scheme \<Rightarrow> bool" where
  "bio_inv s \<longleftrightarrow>
     length (bufs s) = NBUF \<and> distinct (mru s) \<and> set (mru s) = {..<NBUF} \<and>
     (\<forall>i<NBUF. buf_ok s i) \<and>
     (\<forall>i<NBUF. \<forall>j<NBUF. \<forall>b. caches s 1 b i \<and> caches s 1 b j \<longrightarrow> i = j) \<and>
     (\<forall>b. length (disk s 1 b) = BSIZE)"

section \<open>Basic facts\<close>

lemma bio_invD:
  assumes "bio_inv s"
  shows "length (bufs s) = NBUF" and "distinct (mru s)" and "set (mru s) = {..<NBUF}"
    and "i < NBUF \<Longrightarrow> buf_ok s i"
    and "i < NBUF \<Longrightarrow> j < NBUF \<Longrightarrow> caches s 1 b i \<Longrightarrow> caches s 1 b j \<Longrightarrow> i = j"
    and "length (disk s 1 b) = BSIZE"
  using assms unfolding bio_inv_def by blast+

lemma upd_buf_simps [simp]:
  "disk (upd_buf i f s) = disk s" "disksize (upd_buf i f s) = disksize s"
  "dwrites (upd_buf i f s) = dwrites s" "mru (upd_buf i f s) = mru s"
  "curpid (upd_buf i f s) = curpid s" "length (bufs (upd_buf i f s)) = length (bufs s)"
  "bstate.more (upd_buf i f s) = bstate.more s"
  by (simp_all add: upd_buf_def)

lemma bufs_upd_buf [simp]:
  "bufs (upd_buf i f s) ! j = (if j = i \<and> i < length (bufs s) then f (bufs s ! i) else bufs s ! j)"
  by (cases "i < length (bufs s)") (auto simp: upd_buf_def list_update_beyond)

lemma disk_write_simps [simp]:
  "disk (disk_write dev b d s) = (disk s)(dev := (disk s dev)(b := d))"
  "disksize (disk_write dev b d s) = disksize s"
  "dwrites (disk_write dev b d s) = dwrites s @ [(dev, b, d)]" "mru (disk_write dev b d s) = mru s"
  "curpid (disk_write dev b d s) = curpid s" "bufs (disk_write dev b d s) = bufs s"
  "bstate.more (disk_write dev b d s) = bstate.more s"
  by (simp_all add: disk_write_def)

lemma find_upt_unique:
  assumes "i < n" and "P i" and "\<And>j. j < n \<Longrightarrow> P j \<Longrightarrow> j = i"
  shows "find P [0..<n] = Some i"
proof -
  obtain j where j: "find P [0..<n] = Some j"
    using assms(1,2) by (cases "find P [0..<n]") (auto simp: find_None_iff)
  then have "P j" "j \<in> set [0..<n]" by (auto elim: find_SomeE)
  then show ?thesis using j assms(3) by simp
qed

lemma view_cached:
  assumes "bio_inv s" and "i < NBUF" and "caches s 1 b i"
  shows "view s 1 b = b_data (bufs s ! i)"
proof -
  have "b_valid (bufs s ! i)"
    using bio_invD(4) [OF assms(1,2)] assms(3) by (auto simp: buf_ok_def Let_def caches_def)
  then have "find (\<lambda>i. caches s 1 b i \<and> b_valid (bufs s ! i)) [0..<NBUF] = Some i"
    using assms bio_invD(5) [OF assms(1)] by (intro find_upt_unique) auto
  then show ?thesis by (simp add: view_def)
qed

lemma view_uncached:
  assumes "\<And>i. i < NBUF \<Longrightarrow> \<not> caches s dev b i"
  shows "view s dev b = disk s dev b"
proof -
  have "find (\<lambda>i. caches s dev b i \<and> b_valid (bufs s ! i)) [0..<NBUF] = None"
    using assms by (auto simp: find_None_iff)
  then show ?thesis by (simp add: view_def)
qed

lemma view_eqI:
  assumes "bio_inv s"
    and "\<And>i b. i < NBUF \<Longrightarrow> caches s 1 b i \<Longrightarrow> d b = b_data (bufs s ! i)"
    and "\<And>b. (\<And>i. i < NBUF \<Longrightarrow> \<not> caches s 1 b i) \<Longrightarrow> d b = disk s 1 b"
  shows "view s 1 = d"
proof
  fix b
  show "view s 1 b = d b"
  proof (cases "\<exists>i<NBUF. caches s 1 b i")
    case True
    then show ?thesis using view_cached [OF assms(1)] assms(2) by metis
  next
    case False
    then show ?thesis using view_uncached [of s 1 b] assms(3) by auto
  qed
qed

lemma view_cong:
  assumes "bio_inv s" and "bio_inv t"
    and "\<And>i. i < NBUF \<Longrightarrow> b_dev (bufs t ! i) = b_dev (bufs s ! i) \<and>
           b_blockno (bufs t ! i) = b_blockno (bufs s ! i) \<and> b_data (bufs t ! i) = b_data (bufs s ! i)"
    and "\<And>b. (\<And>i. i < NBUF \<Longrightarrow> \<not> caches s 1 b i) \<Longrightarrow> disk t 1 b = disk s 1 b"
  shows "view t 1 = view s 1"
proof (rule view_eqI [OF assms(2)])
  fix i b assume i: "i < NBUF" "caches t 1 b i"
  then show "view s 1 b = b_data (bufs t ! i)"
    using view_cached [OF assms(1) i(1)] assms(3) by (auto simp: caches_def)
next
  fix b assume b: "\<And>i. i < NBUF \<Longrightarrow> \<not> caches t 1 b i"
  have "\<not> caches s 1 b i" if "i < NBUF" for i
    using b [OF that] assms(3) [OF that] by (simp add: caches_def)
  then show "view s 1 b = disk t 1 b" using view_uncached assms(4) by metis
qed

lemma view_length:
  assumes "bio_inv s"
  shows "length (view s 1 b) = BSIZE"
proof (cases "\<exists>i<NBUF. caches s 1 b i")
  case True
  then obtain i where i: "i < NBUF" "caches s 1 b i" by blast
  then show ?thesis
    using view_cached [OF assms i] bio_invD(4) [OF assms i(1)] by (auto simp: buf_ok_def Let_def caches_def)
next
  case False
  then show ?thesis using view_uncached [of s 1 b] bio_invD(6) [OF assms] by auto
qed

text \<open>A buffer the running process holds for block \<open>b\<close> of the disk.\<close>

definition holds :: "'a bstate_scheme \<Rightarrow> nat \<Rightarrow> uint \<Rightarrow> bool" where
  "holds s i b \<longleftrightarrow> i < NBUF \<and> caches s 1 b i \<and> holdingsleep (curpid s) (b_lock (bufs s ! i))"

lemma holds_heldI: "holds s i b \<Longrightarrow> i \<in> heldI s"
  by (simp add: holds_def heldI_def holdingsleep_def)

lemma view_holds: "bio_inv s \<Longrightarrow> holds s i b \<Longrightarrow> view s 1 b = b_data (bufs s ! i)"
  by (simp add: view_cached holds_def)

text \<open>
  Every operation changes one buffer: what has to be checked for the invariant to survive is the
  changed buffer itself, that no other buffer caches its block, and that the sectors cached by
  other buffers stay as they were.
\<close>

lemma bio_inv_change_buf:
  assumes inv: "bio_inv s" and i: "i < NBUF"
    and frame: "length (bufs t) = NBUF" "\<And>j. j < NBUF \<Longrightarrow> j \<noteq> i \<Longrightarrow> bufs t ! j = bufs s ! j"
      "disksize t = disksize s" "curpid t = curpid s" "distinct (mru t)" "set (mru t) = {..<NBUF}"
    and disk: "\<And>b. length (disk t 1 b) = BSIZE"
      "\<And>b. b \<noteq> b_blockno (bufs t ! i) \<Longrightarrow> disk t 1 b = disk s 1 b"
    and ok: "buf_ok t i"
    and uniq: "\<And>j b. j < NBUF \<Longrightarrow> j \<noteq> i \<Longrightarrow> caches s 1 b j \<Longrightarrow> b_blockno (bufs t ! i) \<noteq> b"
  shows "bio_inv t"
proof -
  have caches: "caches t d b j = caches s d b j" if "j < NBUF" "j \<noteq> i" for d b j
    using frame(2) that by (simp add: caches_def)
  have "buf_ok t j" if j: "j < NBUF" for j
  proof (cases "j = i")
    case False
    have "buf_ok s j" using inv j by (rule bio_invD(4))
    moreover have "disk t 1 (b_blockno (bufs s ! j)) = disk s 1 (b_blockno (bufs s ! j))"
      if "b_dev (bufs s ! j) = 1"
      using uniq [OF j False, of "b_blockno (bufs s ! j)"] disk(2) that by (auto simp: caches_def)
    ultimately show ?thesis
      using frame(2) [OF j False] frame(3,4) by (auto simp: buf_ok_def Let_def)
  qed (use ok in simp)
  moreover have "j = k" if "j < NBUF" "k < NBUF" "caches t 1 b j" "caches t 1 b k" for j k b
  proof (cases "j = i \<or> k = i")
    case True
    then show ?thesis using that uniq caches by (metis caches_def)
  next
    case False
    then show ?thesis using that caches bio_invD(5) [OF inv] by blast
  qed
  ultimately show ?thesis using frame disk(1) unfolding bio_inv_def by blast
qed

section \<open>What the operations do\<close>

lemma lock_buf_ok:
  assumes "\<not> sl_locked (b_lock (bufs s ! i))"
  shows "lock_buf i s = Done (i, upd_buf i (\<lambda>b. b\<lparr>b_lock := (b_lock b)\<lparr>sl_locked := True, sl_pid := curpid s\<rparr>\<rparr>) s)"
  using assms by (simp add: lock_buf_def acquiresleep_def upd_buf_def)

lemma find_mru_cached:
  assumes "bio_inv s" and "i < NBUF" and "caches s 1 b i"
  shows "find (\<lambda>i. b_dev (bufs s ! i) = 1 \<and> b_blockno (bufs s ! i) = b) (mru s) = Some i"
    (is "find ?P _ = _")
proof -
  have "i \<in> set (mru s)" using bio_invD(3) [OF assms(1)] assms(2) by simp
  moreover have "?P i" using assms(3) by (simp add: caches_def)
  ultimately obtain j where j: "find ?P (mru s) = Some j" by (rule find_ex)
  then have "?P j" "j \<in> set (mru s)" by (auto elim: find_SomeE)
  then have "caches s 1 b j" "j < NBUF" using bio_invD(3) [OF assms(1)] by (auto simp: caches_def)
  then have "j = i" using bio_invD(5) [OF assms(1)] assms(2,3) by blast
  with j show ?thesis by simp
qed

text \<open>\<^verbatim>\<open>bread\<close> of a block that is in the cache and not locked: the buffer is locked, nothing else changes.\<close>

lemma bread_cached:
  assumes "bio_inv s" and "i < NBUF" and "caches s 1 b i" and "i \<notin> heldI s"
  shows "bread 1 b s = Done (i, upd_buf i (\<lambda>x. x\<lparr>b_refcnt := 1,
           b_lock := (b_lock x)\<lparr>sl_locked := True, sl_pid := curpid s\<rparr>\<rparr>) s)"
proof -
  have l: "\<not> sl_locked (b_lock (bufs s ! i))" using assms(2,4) by (simp add: heldI_def)
  have len: "i < length (bufs s)" using bio_invD(1) [OF assms(1)] assms(2) by simp
  have ok: "b_valid (bufs s ! i)" "b_refcnt (bufs s ! i) = 0"
    using bio_invD(4) [OF assms(1,2)] assms(3) l by (auto simp: buf_ok_def Let_def caches_def)
  let ?s = "upd_buf i (\<lambda>b. b\<lparr>b_refcnt := b_refcnt b + 1\<rparr>) s"
  have "bget 1 b s = lock_buf i ?s" using find_mru_cached [OF assms(1-3)] by (simp add: bget_def)
  also have "\<dots> = Done (i, upd_buf i (\<lambda>b. b\<lparr>b_lock := (b_lock b)\<lparr>sl_locked := True, sl_pid := curpid s\<rparr>\<rparr>) ?s)"
    using lock_buf_ok [of ?s i] l len by simp
  also have "upd_buf i (\<lambda>b. b\<lparr>b_lock := (b_lock b)\<lparr>sl_locked := True, sl_pid := curpid s\<rparr>\<rparr>) ?s =
      upd_buf i (\<lambda>x. x\<lparr>b_refcnt := 1, b_lock := (b_lock x)\<lparr>sl_locked := True, sl_pid := curpid s\<rparr>\<rparr>) s"
    using len ok(2) by (simp add: upd_buf_def)
  finally show ?thesis using ok(1) len by (simp add: bread_def)
qed

text \<open>\<^verbatim>\<open>bread\<close> of a block that is not cached: some clean unused buffer is recycled and filled from disk.\<close>

lemma bread_uncached:
  assumes "bio_inv s" and "\<And>i. i < NBUF \<Longrightarrow> \<not> caches s 1 b i" and "unat b < disksize s"
    and "card (heldI s \<union> dirtyI s) < NBUF"
  shows "\<exists>i. i < NBUF \<and> i \<notin> heldI s \<union> dirtyI s \<and>
    bread 1 b s = Done (i, upd_buf i (\<lambda>x. x\<lparr>b_dev := 1, b_blockno := b, b_dirty := False, b_refcnt := 1,
      b_lock := (b_lock x)\<lparr>sl_locked := True, sl_pid := curpid s\<rparr>, b_data := disk s 1 b, b_valid := True\<rparr>) s)"
proof -
  let ?P = "\<lambda>i. b_refcnt (bufs s ! i) = 0 \<and> \<not> b_dirty (bufs s ! i)"
  have "heldI s \<union> dirtyI s \<subseteq> {..<NBUF}" by (auto simp: heldI_def dirtyI_def)
  moreover have "heldI s \<union> dirtyI s \<noteq> {..<NBUF}" using assms(4) by (metis card_lessThan less_irrefl)
  ultimately obtain k where k: "k < NBUF" "k \<notin> heldI s \<union> dirtyI s" by blast
  have "k \<in> set (rev (mru s))" using bio_invD(3) [OF assms(1)] k by simp
  moreover have "?P k"
    using bio_invD(4) [OF assms(1) k(1)] k by (simp add: buf_ok_def Let_def heldI_def dirtyI_def)
  ultimately obtain i where fi: "find ?P (rev (mru s)) = Some i"
    by (rule find_ex [of k "rev (mru s)" ?P])
  then have Pi: "?P i" and "i \<in> set (rev (mru s))" by (auto elim: find_SomeE)
  then have i: "i < NBUF" using bio_invD(3) [OF assms(1)] by auto
  have len: "i < length (bufs s)" using bio_invD(1) [OF assms(1)] i by simp
  have l: "\<not> sl_locked (b_lock (bufs s ! i))"
    using bio_invD(4) [OF assms(1) i] Pi by (auto simp: buf_ok_def Let_def split: if_splits)
  have "find (\<lambda>i. b_dev (bufs s ! i) = 1 \<and> b_blockno (bufs s ! i) = b) (mru s) = None"
    using assms(2) bio_invD(3) [OF assms(1)] by (auto simp: find_None_iff caches_def)
  then have "bget 1 b s = lock_buf i (upd_buf i (\<lambda>x. x\<lparr>b_dev := 1, b_blockno := b, b_valid := False,
                 b_dirty := False, b_refcnt := 1\<rparr>) s)"
    using fi by (simp add: bget_def)
  also have "\<dots> = Done (i, upd_buf i (\<lambda>x. x\<lparr>b_dev := 1, b_blockno := b, b_valid := False, b_dirty := False,
      b_refcnt := 1, b_lock := (b_lock x)\<lparr>sl_locked := True, sl_pid := curpid s\<rparr>\<rparr>) s)"
    using l len by (subst lock_buf_ok) (simp_all add: upd_buf_def)
  finally have "bread 1 b s = Done (i, upd_buf i (\<lambda>x. x\<lparr>b_dev := 1, b_blockno := b, b_dirty := False, b_refcnt := 1,
      b_lock := (b_lock x)\<lparr>sl_locked := True, sl_pid := curpid s\<rparr>, b_data := disk s 1 b, b_valid := True\<rparr>) s)"
    using len assms(3) by (simp add: bread_def iderw_def Let_def holdingsleep_def) (simp add: upd_buf_def)
  moreover have "i \<notin> heldI s \<union> dirtyI s" using Pi l by (simp add: heldI_def dirtyI_def)
  ultimately show ?thesis using i by blast
qed

text \<open>
  What a client may rely on.  \<open>same_others s s' i\<close>: buffers other than \<open>i\<close> that are locked or pinned
  are untouched.
\<close>

definition bio_frame :: "'a bstate_scheme \<Rightarrow> 'a bstate_scheme \<Rightarrow> bool" where
  "bio_frame s t \<longleftrightarrow> disksize t = disksize s \<and> curpid t = curpid s \<and> bstate.more t = bstate.more s"

lemma bio_frame_refl [simp]: "bio_frame s s"
  by (simp add: bio_frame_def)

lemma bio_frame_trans: "bio_frame s t \<Longrightarrow> bio_frame t u \<Longrightarrow> bio_frame s u"
  by (simp add: bio_frame_def)

theorem bread_spec:
  assumes inv: "bio_inv s" and b: "unat b < disksize s"
    and free: "\<And>i. holds s i b \<Longrightarrow> False"
    and room: "(\<exists>i\<in>dirtyI s. caches s 1 b i) \<or> card (heldI s \<union> dirtyI s) < NBUF"
  obtains i t where "bread 1 b s = Done (i, t)" and "bio_inv t" and "holds t i b"
    and "b_data (bufs t ! i) = view s 1 b" and "view t 1 = view s 1" and "disk t = disk s"
    and "dwrites t = dwrites s" and "bio_frame s t"
    and "heldI t = insert i (heldI s)" and "i \<notin> heldI s" and "dirtyI t = dirtyI s"
    and "\<And>j. j \<in> dirtyI s \<Longrightarrow> b_blockno (bufs t ! j) = b_blockno (bufs s ! j)"
    and "\<And>j. j < NBUF \<Longrightarrow> j \<noteq> i \<Longrightarrow> bufs t ! j = bufs s ! j"
proof (cases "\<exists>i<NBUF. caches s 1 b i")
  case True
  then obtain i where i: "i < NBUF" "caches s 1 b i" by blast
  have ok: "buf_ok s i" using bio_invD(4) [OF inv i(1)] .
  have nh: "i \<notin> heldI s"
    using free [of i] i ok by (auto simp: holds_def heldI_def holdingsleep_def buf_ok_def Let_def)
  let ?t = "upd_buf i (\<lambda>x. x\<lparr>b_refcnt := 1, b_lock := (b_lock x)\<lparr>sl_locked := True, sl_pid := curpid s\<rparr>\<rparr>) s"
  have len: "length (bufs s) = NBUF" using bio_invD(1) [OF inv] .
  have invt: "bio_inv ?t"
    using inv i(1)
  proof (rule bio_inv_change_buf)
    show "buf_ok ?t i" using ok i len by (auto simp: buf_ok_def Let_def caches_def)
    show "b_blockno (bufs ?t ! i) \<noteq> c" if "j < NBUF" "j \<noteq> i" "caches s 1 c j" for j c
      using that i len bio_invD(5) [OF inv that(1) i(1)] by (auto simp: caches_def)
  qed (use inv i len in \<open>auto simp: bio_invD\<close>)
  show thesis
  proof (rule that [OF bread_cached [OF inv i nh] invt])
    show "view ?t 1 = view s 1"
      by (rule view_cong [OF inv invt]) (use len in auto)
  qed (use i len nh view_cached [OF inv i] in
       \<open>auto simp: holds_def caches_def holdingsleep_def heldI_def dirtyI_def bio_frame_def\<close>)
next
  case False
  then have unc: "\<And>i. i < NBUF \<Longrightarrow> \<not> caches s 1 b i" by blast
  then have "card (heldI s \<union> dirtyI s) < NBUF" using room by (auto simp: dirtyI_def)
  from bread_uncached [OF inv unc b this] obtain i where i: "i < NBUF" "i \<notin> heldI s" "i \<notin> dirtyI s"
    and br: "bread 1 b s = Done (i, upd_buf i (\<lambda>x. x\<lparr>b_dev := 1, b_blockno := b, b_dirty := False, b_refcnt := 1,
      b_lock := (b_lock x)\<lparr>sl_locked := True, sl_pid := curpid s\<rparr>, b_data := disk s 1 b, b_valid := True\<rparr>) s)"
    (is "_ = Done (i, ?t)") by blast
  have len: "length (bufs s) = NBUF" using bio_invD(1) [OF inv] .
  have invt: "bio_inv ?t"
    using inv i(1)
  proof (rule bio_inv_change_buf)
    show "buf_ok ?t i" using i len b bio_invD(6) [OF inv] by (auto simp: buf_ok_def Let_def)
    show "b_blockno (bufs ?t ! i) \<noteq> c" if "j < NBUF" "j \<noteq> i" "caches s 1 c j" for j c
      using that i len unc by auto
  qed (use inv i len in \<open>auto simp: bio_invD\<close>)
  have old: "b_data (bufs s ! i) = disk s 1 (b_blockno (bufs s ! i))" if "b_dev (bufs s ! i) = 1"
    using bio_invD(4) [OF inv i(1)] i that by (auto simp: buf_ok_def Let_def heldI_def dirtyI_def)
  show thesis
  proof (rule that [OF br invt])
    show "view ?t 1 = view s 1"
    proof (rule view_eqI [OF invt])
      fix j c assume j: "j < NBUF" "caches ?t 1 c j"
      show "view s 1 c = b_data (bufs ?t ! j)"
      proof (cases "j = i")
        case True
        then show ?thesis using j i len view_uncached [OF unc] by (auto simp: caches_def)
      next
        case False
        then show ?thesis using j len view_cached [OF inv j(1)] by (auto simp: caches_def)
      qed
    next
      fix c assume c: "\<And>j. j < NBUF \<Longrightarrow> \<not> caches ?t 1 c j"
      show "view s 1 c = disk ?t 1 c"
      proof (cases "caches s 1 c i")
        case True
        then show ?thesis using view_cached [OF inv i(1) True] old by (simp add: caches_def)
      next
        case False
        have "\<not> caches s 1 c j" if "j < NBUF" for j
          using c [OF that] False len by (auto simp: caches_def split: if_splits)
        then show ?thesis using view_uncached by auto
      qed
    qed
  qed (use i len view_uncached [OF unc] in
       \<open>auto simp: holds_def caches_def holdingsleep_def heldI_def dirtyI_def bio_frame_def\<close>)
qed

text \<open>Changes to a buffer that stays locked on its block: the block is unique, so the invariant survives.\<close>

lemma bio_inv_change_held:
  assumes inv: "bio_inv s" and h: "holds s i b"
    and frame: "length (bufs t) = NBUF" "\<And>j. j < NBUF \<Longrightarrow> j \<noteq> i \<Longrightarrow> bufs t ! j = bufs s ! j"
      "disksize t = disksize s" "curpid t = curpid s" "mru t = mru s \<or> mru t = i # remove1 i (mru s)"
      "b_blockno (bufs t ! i) = b"
    and disk: "\<And>c. length (disk t 1 c) = BSIZE" "\<And>c. c \<noteq> b \<Longrightarrow> disk t 1 c = disk s 1 c"
    and ok: "buf_ok t i"
  shows "bio_inv t"
  using inv
proof (rule bio_inv_change_buf)
  show i: "i < NBUF" using h by (simp add: holds_def)
  have m: "distinct (mru s)" "set (mru s) = {..<NBUF}" using bio_invD(2,3) [OF inv] by auto
  show "distinct (mru t)" using frame(5) m(1) by (elim disjE) simp_all
  have "set (i # remove1 i (mru s)) = insert i ({..<NBUF} - {i})" using m by simp
  also have "\<dots> = {..<NBUF}" using i by blast
  finally show "set (mru t) = {..<NBUF}" using frame(5) m(2) by (elim disjE) simp_all
  show "b_blockno (bufs t ! i) \<noteq> c" if "j < NBUF" "j \<noteq> i" "caches s 1 c j" for j c
    using bio_invD(5) [OF inv that(1) i that(3)] that(2) h frame(6) by (auto simp: holds_def)
  show "disk t 1 c = disk s 1 c" if "c \<noteq> b_blockno (bufs t ! i)" for c
    using disk(2) that frame(6) by simp
qed (fact frame disk ok)+

lemma holds_buf:
  assumes "bio_inv s" and "holds s i b"
  shows "i < NBUF" and "b_dev (bufs s ! i) = 1" and "b_blockno (bufs s ! i) = b" and "b_valid (bufs s ! i)"
    and "sl_locked (b_lock (bufs s ! i))" and "sl_pid (b_lock (bufs s ! i)) = curpid s"
    and "b_refcnt (bufs s ! i) = 1" and "unat b < disksize s" and "length (b_data (bufs s ! i)) = BSIZE"
    and "length (bufs s) = NBUF"
  using assms bio_invD(1) [OF assms(1)] bio_invD(4) [OF assms(1), of i]
  by (auto simp: holds_def caches_def holdingsleep_def buf_ok_def Let_def)

lemma set_data_spec:
  assumes inv: "bio_inv s" and h: "holds s i b" and d: "length d = BSIZE"
  shows "bio_inv (set_data i d s)" and "view (set_data i d s) 1 = (view s 1)(b := d)"
proof -
  note hb = holds_buf [OF inv h]
  show inv': "bio_inv (set_data i d s)"
    using inv h
  proof (rule bio_inv_change_held)
    show "buf_ok (set_data i d s) i"
      using bio_invD(4) [OF inv hb(1)] hb d by (auto simp: buf_ok_def Let_def set_data_def)
  qed (use hb bio_invD(6) [OF inv] in \<open>auto simp: set_data_def\<close>)
  show "view (set_data i d s) 1 = (view s 1)(b := d)"
  proof (rule view_eqI [OF inv'])
    fix j c assume j: "j < NBUF" "caches (set_data i d s) 1 c j"
    show "((view s 1)(b := d)) c = b_data (bufs (set_data i d s) ! j)"
    proof (cases "j = i")
      case False
      then have c: "caches s 1 c j" using j hb by (auto simp: caches_def set_data_def)
      then have "c \<noteq> b" using bio_invD(5) [OF inv j(1) hb(1), of b] False hb by (auto simp: caches_def)
      then show ?thesis using view_cached [OF inv j(1) c] False by (simp add: set_data_def)
    qed (use j hb in \<open>auto simp: caches_def set_data_def\<close>)
  next
    fix c assume c: "\<And>j. j < NBUF \<Longrightarrow> \<not> caches (set_data i d s) 1 c j"
    have "\<not> caches s 1 c j" if "j < NBUF" for j
      using c [OF that] hb by (auto simp: caches_def set_data_def split: if_splits)
    moreover have "c \<noteq> b" using c [OF hb(1)] hb by (auto simp: caches_def set_data_def)
    ultimately show "((view s 1)(b := d)) c = disk (set_data i d s) 1 c"
      using view_uncached [of s 1 c] by (auto simp: set_data_def)
  qed
qed

lemma set_data_frame [simp]:
  "disk (set_data i d s) = disk s" "disksize (set_data i d s) = disksize s"
  "dwrites (set_data i d s) = dwrites s" "curpid (set_data i d s) = curpid s"
  "bstate.more (set_data i d s) = bstate.more s" "bio_frame s (set_data i d s)"
  "heldI (set_data i d s) = heldI s" "dirtyI (set_data i d s) = dirtyI s"
  "holds (set_data i d s) j b = holds s j b"
  "j \<noteq> i \<Longrightarrow> bufs (set_data i d s) ! j = bufs s ! j"
  by (auto simp: set_data_def bio_frame_def heldI_def dirtyI_def holds_def caches_def)

lemma set_data_data:
  "bio_inv s \<Longrightarrow> holds s i b \<Longrightarrow> b_data (bufs (set_data i d s) ! i) = d"
  using holds_buf [of s i b] by (simp add: set_data_def)

text \<open>Marking a buffer dirty is how \<^verbatim>\<open>log_write\<close> pins it in the cache.\<close>

definition pin :: "nat \<Rightarrow> 'a bstate_scheme \<Rightarrow> 'a bstate_scheme" where
  "pin i s = upd_buf i (\<lambda>b. b\<lparr>b_dirty := True\<rparr>) s"

lemma pin_spec:
  assumes inv: "bio_inv s" and h: "holds s i b"
  shows "bio_inv (pin i s)" and "view (pin i s) 1 = view s 1" and "dirtyI (pin i s) = insert i (dirtyI s)"
proof -
  note hb = holds_buf [OF inv h]
  show inv': "bio_inv (pin i s)"
    using inv h
  proof (rule bio_inv_change_held)
    show "buf_ok (pin i s) i"
      using bio_invD(4) [OF inv hb(1)] hb by (auto simp: buf_ok_def Let_def pin_def)
  qed (use hb bio_invD(6) [OF inv] in \<open>auto simp: pin_def\<close>)
  show "view (pin i s) 1 = view s 1"
    by (rule view_cong [OF inv inv']) (use hb in \<open>auto simp: pin_def\<close>)
  show "dirtyI (pin i s) = insert i (dirtyI s)"
    using hb by (auto simp: dirtyI_def pin_def split: if_splits)
qed

lemma pin_frame [simp]:
  "disk (pin i s) = disk s" "disksize (pin i s) = disksize s"
  "dwrites (pin i s) = dwrites s" "curpid (pin i s) = curpid s"
  "bstate.more (pin i s) = bstate.more s" "bio_frame s (pin i s)"
  "heldI (pin i s) = heldI s" "holds (pin i s) j b = holds s j b"
  "b_data (bufs (pin i s) ! j) = b_data (bufs s ! j)"
  "j \<noteq> i \<Longrightarrow> bufs (pin i s) ! j = bufs s ! j"
  by (auto simp: pin_def bio_frame_def heldI_def holds_def caches_def)

theorem bwrite_spec:
  assumes inv: "bio_inv s" and h: "holds s i b"
  obtains t where "bwrite i s = Done t" and "bio_inv t" and "holds t i b" and "view t 1 = view s 1"
    and "disk t = (disk s)(1 := (disk s 1)(b := view s 1 b))" and "dwrites t = dwrites s @ [(1, b, view s 1 b)]"
    and "bio_frame s t" and "heldI t = heldI s" and "dirtyI t = dirtyI s - {i}"
    and "b_data (bufs t ! i) = b_data (bufs s ! i)" and "\<And>j. j \<noteq> i \<Longrightarrow> bufs t ! j = bufs s ! j"
proof -
  note hb = holds_buf [OF inv h]
  have vb: "view s 1 b = b_data (bufs s ! i)" using view_holds [OF inv h] .
  let ?t = "upd_buf i (\<lambda>b. b\<lparr>b_dirty := False, b_valid := True\<rparr>)
              (disk_write 1 b (b_data (bufs s ! i)) (upd_buf i (\<lambda>b. b\<lparr>b_dirty := True\<rparr>) s))"
  have run: "bwrite i s = Done ?t"
    using hb by (simp add: bwrite_def iderw_def Let_def holdingsleep_def)
  have inv': "bio_inv ?t"
    using inv h
  proof (rule bio_inv_change_held)
    show "buf_ok ?t i" using bio_invD(4) [OF inv hb(1)] hb by (auto simp: buf_ok_def Let_def)
  qed (use hb bio_invD(6) [OF inv] in auto)
  show thesis
  proof (rule that [OF run inv'])
    show "view ?t 1 = view s 1"
      by (rule view_cong [OF inv inv']) (use hb in \<open>auto simp: caches_def\<close>)
  qed (use hb h vb in \<open>auto simp: bio_frame_def heldI_def dirtyI_def holds_def caches_def split: if_splits\<close>)
qed

theorem brelse_spec:
  assumes inv: "bio_inv s" and h: "holds s i b" and clean: "i \<in> dirtyI s \<or> view s 1 b = disk s 1 b"
  obtains t where "brelse i s = Done t" and "bio_inv t" and "view t 1 = view s 1"
    and "disk t = disk s" and "dwrites t = dwrites s"
    and "bio_frame s t" and "heldI t = heldI s - {i}" and "dirtyI t = dirtyI s"
    and "\<And>j. j < NBUF \<Longrightarrow> j \<noteq> i \<Longrightarrow> bufs t ! j = bufs s ! j"
    and "\<And>j. b_blockno (bufs t ! j) = b_blockno (bufs s ! j)"
proof -
  note hb = holds_buf [OF inv h]
  have vb: "view s 1 b = b_data (bufs s ! i)" using view_holds [OF inv h] .
  let ?u = "upd_buf i (\<lambda>b. b\<lparr>b_refcnt := b_refcnt b - 1\<rparr>) (upd_buf i (\<lambda>b. b\<lparr>b_lock := releasesleep (b_lock b)\<rparr>) s)"
  let ?t = "?u\<lparr>mru := i # remove1 i (mru s)\<rparr>"
  have run: "brelse i s = Done ?t" using hb by (simp add: brelse_def Let_def holdingsleep_def)
  have inv': "bio_inv ?t"
    using inv h
  proof (rule bio_inv_change_held)
    show "buf_ok ?t i"
      using bio_invD(4) [OF inv hb(1)] hb clean vb
      by (auto simp: buf_ok_def Let_def releasesleep_def dirtyI_def)
  qed (use hb bio_invD(6) [OF inv] in auto)
  show thesis
  proof (rule that [OF run inv'])
    show "view ?t 1 = view s 1"
      by (rule view_cong [OF inv inv']) (use hb in auto)
  qed (use hb in \<open>auto simp: bio_frame_def heldI_def dirtyI_def releasesleep_def split: if_splits\<close>)
qed

text \<open>\<^verbatim>\<open>bread\<close> touches nothing but the cache, whatever state it is started in.\<close>

lemma bread_more: "bread dev b s = Done (i, t) \<Longrightarrow> bio_frame s t"
  by (auto simp: bread_def bget_def lock_buf_def iderw_def Let_def obind_eq_Done_iff bio_frame_def
      split: option.splits if_splits)

lemma bwrite_more: "bwrite i s = Done t \<Longrightarrow> bio_frame s t"
  by (auto simp: bwrite_def iderw_def Let_def bio_frame_def split: if_splits)

lemma brelse_more: "brelse i s = Done t \<Longrightarrow> bio_frame s t"
  by (auto simp: brelse_def Let_def bio_frame_def upd_buf_def split: if_splits)

section \<open>The contract with the code above the cache\<close>

text \<open>
  In terms of block numbers: the blocks the running process holds and the blocks pinned by the log.
\<close>

definition heldB :: "'a bstate_scheme \<Rightarrow> uint set" where
  "heldB s = (\<lambda>i. b_blockno (bufs s ! i)) ` heldI s"

definition dirtyB :: "'a bstate_scheme \<Rightarrow> uint set" where
  "dirtyB s = (\<lambda>i. b_blockno (bufs s ! i)) ` dirtyI s"

lemma busy_cached:
  assumes "bio_inv s" and "i \<in> heldI s \<union> dirtyI s"
  shows "i < NBUF" and "caches s 1 (b_blockno (bufs s ! i)) i" and "b_valid (bufs s ! i)"
  using assms bio_invD(4) [OF assms(1), of i]
  by (auto simp: heldI_def dirtyI_def buf_ok_def Let_def caches_def)

lemma busy_inj:
  assumes "bio_inv s"
  shows "inj_on (\<lambda>i. b_blockno (bufs s ! i)) (heldI s \<union> dirtyI s)"
proof (rule inj_onI)
  fix i j assume i: "i \<in> heldI s \<union> dirtyI s" and j: "j \<in> heldI s \<union> dirtyI s"
    and eq: "b_blockno (bufs s ! i) = b_blockno (bufs s ! j)"
  show "i = j"
    using bio_invD(5) [OF assms busy_cached(1) [OF assms i] busy_cached(1) [OF assms j]
        busy_cached(2) [OF assms i]] busy_cached(2) [OF assms j] eq by simp
qed

lemma card_busy: "bio_inv s \<Longrightarrow> card (heldI s \<union> dirtyI s) = card (heldB s \<union> dirtyB s)"
  using card_image [OF busy_inj [of s]] by (simp add: heldB_def dirtyB_def image_Un)

lemma holds_heldB: "holds s i b \<Longrightarrow> b \<in> heldB s"
  using holds_heldI [of s i b] by (force simp: heldB_def holds_def caches_def)

lemma heldB_holds:
  assumes "bio_inv s" and "b \<in> heldB s"
  obtains i where "holds s i b"
proof -
  obtain i where i: "i \<in> heldI s" "b = b_blockno (bufs s ! i)" using assms(2) by (auto simp: heldB_def)
  then have "holds s i b"
    using busy_cached [OF assms(1), of i] bio_invD(4) [OF assms(1), of i]
    by (auto simp: holds_def holdingsleep_def heldI_def buf_ok_def Let_def)
  then show thesis by (rule that)
qed

lemma holds_unique: "bio_inv s \<Longrightarrow> holds s i b \<Longrightarrow> holds s j b \<Longrightarrow> i = j"
  using bio_invD(5) [of s i j b] by (auto simp: holds_def)

lemma finite_heldB [simp]: "finite (heldB s)" "finite (dirtyB s)"
  by (simp_all add: heldB_def dirtyB_def heldI_def dirtyI_def)

lemma view_clean:
  assumes "bio_inv s" and "b \<notin> heldB s" and "b \<notin> dirtyB s"
  shows "view s 1 b = disk s 1 b"
proof (cases "\<exists>i<NBUF. caches s 1 b i")
  case True
  then obtain i where i: "i < NBUF" "caches s 1 b i" by blast
  then have "i \<notin> heldI s" "i \<notin> dirtyI s" using assms(2,3) by (auto simp: heldB_def dirtyB_def caches_def)
  then show ?thesis
    using view_cached [OF assms(1) i] bio_invD(4) [OF assms(1) i(1)] i
    by (auto simp: buf_ok_def Let_def heldI_def dirtyI_def caches_def)
next
  case False
  then show ?thesis using view_uncached by blast
qed

lemma bread_contract:
  assumes inv: "bio_inv s" and b: "unat b < disksize s" and free: "b \<notin> heldB s"
    and room: "b \<in> dirtyB s \<or> card (heldB s \<union> dirtyB s) < NBUF"
  obtains i t where "bread 1 b s = Done (i, t)" and "bio_inv t" and "holds t i b"
    and "view t 1 = view s 1" and "disk t = disk s" and "dwrites t = dwrites s" and "bio_frame s t"
    and "heldB t = insert b (heldB s)" and "dirtyB t = dirtyB s"
    and "\<And>j c. holds s j c \<Longrightarrow> holds t j c"
proof -
  have "(\<exists>i\<in>dirtyI s. caches s 1 b i) \<or> card (heldI s \<union> dirtyI s) < NBUF"
    using room busy_cached [OF inv] card_busy [OF inv] by (auto simp: dirtyB_def)
  with inv b obtain i t where br: "bread 1 b s = Done (i, t)" "bio_inv t" "holds t i b"
    "view t 1 = view s 1" "disk t = disk s" "dwrites t = dwrites s" "bio_frame s t"
    and I: "heldI t = insert i (heldI s)" "i \<notin> heldI s" "dirtyI t = dirtyI s"
    and dirty: "\<And>j. j \<in> dirtyI s \<Longrightarrow> b_blockno (bufs t ! j) = b_blockno (bufs s ! j)"
    and o: "\<And>j. j < NBUF \<Longrightarrow> j \<noteq> i \<Longrightarrow> bufs t ! j = bufs s ! j"
    using bread_spec [of s b] holds_heldB free by metis
  have old: "bufs t ! j = bufs s ! j" if "j \<in> heldI s" for j
    using that o I(2) by (auto simp: heldI_def)
  have bi: "b_blockno (bufs t ! i) = b" using br(3) by (simp add: holds_def caches_def)
  show thesis
  proof (rule that [OF br])
    show "heldB t = insert b (heldB s)" using I(1) bi old by (auto simp: heldB_def)
    show "dirtyB t = dirtyB s" using I(3) dirty by (simp add: dirtyB_def)
    show "holds t j c" if "holds s j c" for j c
      using that old [OF holds_heldI [OF that]] br(7) by (simp add: holds_def caches_def bio_frame_def)
  qed
qed

lemma block_eq_iff: "bio_inv s \<Longrightarrow> holds s i b \<Longrightarrow> j < NBUF \<Longrightarrow> caches s 1 b j \<longleftrightarrow> j = i"
  using bio_invD(5) [of s i j b] by (auto simp: holds_def)

lemma set_data_contract:
  assumes "bio_inv s" and "holds s i b" and "length d = BSIZE"
  shows "bio_inv (set_data i d s)" and "view (set_data i d s) 1 = (view s 1)(b := d)"
    and "heldB (set_data i d s) = heldB s" and "dirtyB (set_data i d s) = dirtyB s"
proof -
  have "b_blockno (bufs (set_data i d s) ! j) = b_blockno (bufs s ! j)" for j by (simp add: set_data_def)
  then show "heldB (set_data i d s) = heldB s" "dirtyB (set_data i d s) = dirtyB s"
    by (simp_all add: heldB_def dirtyB_def)
qed (use set_data_spec [OF assms] in auto)

lemma pin_contract:
  assumes "bio_inv s" and "holds s i b"
  shows "bio_inv (pin i s)" and "view (pin i s) 1 = view s 1"
    and "heldB (pin i s) = heldB s" and "dirtyB (pin i s) = insert b (dirtyB s)"
proof -
  have "b_blockno (bufs (pin i s) ! j) = b_blockno (bufs s ! j)" for j by (simp add: pin_def)
  then show "heldB (pin i s) = heldB s" "dirtyB (pin i s) = insert b (dirtyB s)"
    using pin_spec(3) [OF assms] holds_buf(3) [OF assms] by (simp_all add: heldB_def dirtyB_def)
qed (use pin_spec [OF assms] in auto)

lemma bwrite_contract:
  assumes inv: "bio_inv s" and h: "holds s i b"
  obtains t where "bwrite i s = Done t" and "bio_inv t" and "view t 1 = view s 1"
    and "disk t = (disk s)(1 := (disk s 1)(b := view s 1 b))" and "dwrites t = dwrites s @ [(1, b, view s 1 b)]"
    and "bio_frame s t" and "heldB t = heldB s" and "dirtyB t = dirtyB s - {b}"
    and "\<And>j c. holds s j c \<Longrightarrow> holds t j c"
proof -
  from bwrite_spec [OF inv h] obtain t where t: "bwrite i s = Done t" "bio_inv t" "view t 1 = view s 1"
    "disk t = (disk s)(1 := (disk s 1)(b := view s 1 b))" "dwrites t = dwrites s @ [(1, b, view s 1 b)]"
    "bio_frame s t"
    and ht: "holds t i b" "heldI t = heldI s" "dirtyI t = dirtyI s - {i}" "\<And>j. j \<noteq> i \<Longrightarrow> bufs t ! j = bufs s ! j"
    by metis
  have bn: "b_blockno (bufs t ! j) = b_blockno (bufs s ! j)" for j
    using ht(1,4) h by (cases "j = i") (auto simp: holds_def caches_def)
  show thesis
  proof (rule that [OF t])
    show "heldB t = heldB s" by (simp add: heldB_def ht(2) bn)
    have "b_blockno (bufs s ! j) = b \<longleftrightarrow> j = i" if "j \<in> dirtyI s" for j
      using block_eq_iff [OF inv h] busy_cached [OF inv, of j] that by (auto simp: caches_def)
    then show "dirtyB t = dirtyB s - {b}" by (auto simp: dirtyB_def ht(3) bn)
    show "holds t j c" if "holds s j c" for j c
      using that ht(1,4) h t(6) by (cases "j = i") (auto simp: holds_def caches_def bio_frame_def)
  qed
qed

lemma brelse_contract:
  assumes inv: "bio_inv s" and h: "holds s i b" and clean: "b \<in> dirtyB s \<or> view s 1 b = disk s 1 b"
  obtains t where "brelse i s = Done t" and "bio_inv t" and "view t 1 = view s 1"
    and "disk t = disk s" and "dwrites t = dwrites s" and "bio_frame s t"
    and "heldB t = heldB s - {b}" and "dirtyB t = dirtyB s"
    and "\<And>j c. holds s j c \<Longrightarrow> c \<noteq> b \<Longrightarrow> holds t j c"
proof -
  have eqi: "b_blockno (bufs s ! j) = b \<longleftrightarrow> j = i" if "j \<in> heldI s \<union> dirtyI s" for j
    using block_eq_iff [OF inv h] busy_cached [OF inv that] by (auto simp: caches_def)
  have "i \<in> dirtyI s \<or> view s 1 b = disk s 1 b" using clean eqi by (auto simp: dirtyB_def)
  from brelse_spec [OF inv h this] obtain t where t: "brelse i s = Done t" "bio_inv t" "view t 1 = view s 1"
    "disk t = disk s" "dwrites t = dwrites s" "bio_frame s t"
    and ht: "heldI t = heldI s - {i}" "dirtyI t = dirtyI s" "\<And>j. j < NBUF \<Longrightarrow> j \<noteq> i \<Longrightarrow> bufs t ! j = bufs s ! j"
    and bn: "\<And>j. b_blockno (bufs t ! j) = b_blockno (bufs s ! j)"
    by metis
  show thesis
  proof (rule that [OF t])
    show "heldB t = heldB s - {b}" using eqi by (auto simp: heldB_def ht(1) bn)
    show "dirtyB t = dirtyB s" by (simp add: dirtyB_def ht(2) bn)
    show "holds t j c" if "holds s j c" "c \<noteq> b" for j c
      using that ht(3) [of j] h t(6) by (cases "j = i") (auto simp: holds_def caches_def bio_frame_def)
  qed
qed

text \<open>
  The interface as a locale: a cache of blocks over a disk, in which a block is read (\<open>rd\<close>), its
  buffer overwritten (\<open>st\<close>), written through (\<open>wr\<close>) and released (\<open>rl\<close>).  The log moves whole
  blocks with it, in two orders.
\<close>

locale block_cache =
  fixes rd :: "uint \<Rightarrow> 's \<Rightarrow> (nat \<times> 's) outcome"
    and wr :: "nat \<Rightarrow> 's \<Rightarrow> 's outcome"
    and rl :: "nat \<Rightarrow> 's \<Rightarrow> 's outcome"
    and st :: "nat \<Rightarrow> block \<Rightarrow> 's \<Rightarrow> 's"
    and inv :: "'s \<Rightarrow> bool"
    and hold :: "'s \<Rightarrow> nat \<Rightarrow> uint \<Rightarrow> bool"
    and got :: "'s \<Rightarrow> nat \<Rightarrow> block"
    and vw dk :: "'s \<Rightarrow> uint \<Rightarrow> block"
    and hist :: "'s \<Rightarrow> (uint \<times> uint \<times> block) list"
    and held dirty :: "'s \<Rightarrow> uint set"
    and frame :: "'s \<Rightarrow> 's \<Rightarrow> bool"
    and dsize :: "'s \<Rightarrow> nat"
    and cap :: nat
  assumes rd: "inv s \<Longrightarrow> unat b < dsize s \<Longrightarrow> b \<notin> held s \<Longrightarrow>
      b \<in> dirty s \<or> card (held s \<union> dirty s) < cap \<Longrightarrow>
      \<exists>i t. rd b s = Done (i, t) \<and> inv t \<and> hold t i b \<and> vw t = vw s \<and> dk t = dk s \<and> hist t = hist s
        \<and> frame s t \<and> held t = insert b (held s) \<and> dirty t = dirty s \<and> (\<forall>j c. hold s j c \<longrightarrow> hold t j c)"
    and st: "inv s \<Longrightarrow> hold s i b \<Longrightarrow> length d = BSIZE \<Longrightarrow>
      inv (st i d s) \<and> vw (st i d s) = (vw s)(b := d) \<and> dk (st i d s) = dk s \<and> hist (st i d s) = hist s
        \<and> frame s (st i d s) \<and> held (st i d s) = held s \<and> dirty (st i d s) = dirty s
        \<and> (\<forall>j c. hold s j c \<longrightarrow> hold (st i d s) j c)"
    and wr: "inv s \<Longrightarrow> hold s i b \<Longrightarrow>
      \<exists>t. wr i s = Done t \<and> inv t \<and> vw t = vw s \<and> dk t = (dk s)(b := vw s b)
        \<and> hist t = hist s @ [(1, b, vw s b)] \<and> frame s t \<and> held t = held s \<and> dirty t = dirty s - {b}
        \<and> (\<forall>j c. hold s j c \<longrightarrow> hold t j c)"
    and rl: "inv s \<Longrightarrow> hold s i b \<Longrightarrow> b \<in> dirty s \<or> vw s b = dk s b \<Longrightarrow>
      \<exists>t. rl i s = Done t \<and> inv t \<and> vw t = vw s \<and> dk t = dk s \<and> hist t = hist s
        \<and> frame s t \<and> held t = held s - {b} \<and> dirty t = dirty s \<and> (\<forall>j c. hold s j c \<longrightarrow> c \<noteq> b \<longrightarrow> hold t j c)"
    and got: "inv s \<Longrightarrow> hold s i b \<Longrightarrow> got s i = vw s b"
    and len: "inv s \<Longrightarrow> hold s i b \<Longrightarrow> length (vw s b) = BSIZE"
    and clean: "inv s \<Longrightarrow> b \<notin> held s \<Longrightarrow> b \<notin> dirty s \<Longrightarrow> vw s b = dk s b"
    and fin: "finite (held s)" "finite (dirty s)"
    and frame: "frame s t \<Longrightarrow> dsize t = dsize s" "frame s t \<Longrightarrow> frame t u \<Longrightarrow> frame s u"
begin

text \<open>Overwrite block \<open>a\<close> with the contents of block \<open>b\<close>, reading \<open>a\<close> first.\<close>

lemma copy_to_first:
  assumes s: "inv s" "held s = {}" and a: "unat a < dsize s" "a \<notin> dirty s" "card (dirty s) < cap"
    and b: "unat b < dsize s" "b \<noteq> a" "b \<in> dirty s"
  shows "\<exists>t. obind (rd a s) (\<lambda>(i, s). obind (rd b s) (\<lambda>(j, s).
      obind (wr i (st i (got s j) s)) (\<lambda>s. obind (rl j s) (\<lambda>s. rl i s)))) = Done t
    \<and> inv t \<and> held t = {} \<and> vw t = (vw s)(a := vw s b) \<and> dk t = (dk s)(a := vw s b)
    \<and> hist t = hist s @ [(1, a, vw s b)] \<and> dirty t = dirty s \<and> frame s t"
proof -
  obtain i s1 where 1: "rd a s = Done (i, s1)" "inv s1" "hold s1 i a" "vw s1 = vw s" "dk s1 = dk s"
    "hist s1 = hist s" "frame s s1" "held s1 = {a}" "dirty s1 = dirty s"
    using rd [OF s(1) a(1)] s(2) a(2,3) by auto
  have "unat b < dsize s1" using b(1) frame(1) [OF 1(7)] by simp
  then obtain j s2 where 2: "rd b s1 = Done (j, s2)" "inv s2" "hold s2 j b" "vw s2 = vw s" "dk s2 = dk s"
    "hist s2 = hist s" "frame s1 s2" "held s2 = {b, a}" "dirty s2 = dirty s" "hold s2 i a"
    using rd [OF 1(2), of b] 1 b(2,3) by auto
  have g: "got s2 j = vw s b" using got [OF 2(2,3)] 2(4) by simp
  let ?s3 = "st i (vw s b) s2"
  have 3: "inv ?s3" "vw ?s3 = (vw s)(a := vw s b)" "dk ?s3 = dk s" "hist ?s3 = hist s" "frame s2 ?s3"
    "held ?s3 = {b, a}" "dirty ?s3 = dirty s" "hold ?s3 i a" "hold ?s3 j b"
    using st [OF 2(2,10), of "vw s b"] len [OF 2(2,3)] 2 by auto
  obtain s4 where 4: "wr i ?s3 = Done s4" "inv s4" "vw s4 = (vw s)(a := vw s b)" "dk s4 = (dk s)(a := vw s b)"
    "hist s4 = hist s @ [(1, a, vw s b)]" "frame ?s3 s4" "held s4 = {b, a}" "dirty s4 = dirty s"
    "hold s4 i a" "hold s4 j b"
    using wr [OF 3(1,8)] 3 a(2) by auto
  obtain s5 where 5: "rl j s4 = Done s5" "inv s5" "vw s5 = vw s4" "dk s5 = dk s4"
    "hist s5 = hist s4" "frame s4 s5" "held s5 = {a}" "dirty s5 = dirty s" "hold s5 i a"
    using rl [OF 4(2,10)] 4 b by auto
  obtain s6 where 6: "rl i s5 = Done s6" "inv s6" "vw s6 = vw s4" "dk s6 = dk s4"
    "hist s6 = hist s4" "frame s5 s6" "held s6 = {}" "dirty s6 = dirty s"
    using rl [OF 5(2,9)] 5 4 by auto
  have "frame s s6" using 1(7) 2(7) 3(5) 4(6) 5(6) 6(6) frame(2) by blast
  then show ?thesis using 1(1) 2(1) g 4 5(1) 6 by simp
qed

text \<open>Overwrite block \<open>b\<close> with the contents of block \<open>a\<close>, reading \<open>a\<close> first.\<close>

lemma copy_to_second:
  assumes s: "inv s" "held s = {}" and a: "unat a < dsize s" "a \<notin> dirty s" "card (dirty s) < cap"
    and b: "unat b < dsize s" "b \<noteq> a" "b \<in> dirty s \<or> Suc (card (dirty s)) < cap"
  shows "\<exists>t. obind (rd a s) (\<lambda>(i, s). obind (rd b s) (\<lambda>(j, s).
      obind (wr j (st j (got s i) s)) (\<lambda>s. obind (rl i s) (\<lambda>s. rl j s)))) = Done t
    \<and> inv t \<and> held t = {} \<and> vw t = (vw s)(b := vw s a) \<and> dk t = (dk s)(b := vw s a)
    \<and> hist t = hist s @ [(1, b, vw s a)] \<and> dirty t = dirty s - {b} \<and> frame s t"
proof -
  obtain i s1 where 1: "rd a s = Done (i, s1)" "inv s1" "hold s1 i a" "vw s1 = vw s" "dk s1 = dk s"
    "hist s1 = hist s" "frame s s1" "held s1 = {a}" "dirty s1 = dirty s"
    using rd [OF s(1) a(1)] s(2) a(2,3) by auto
  have "unat b < dsize s1" using b(1) frame(1) [OF 1(7)] by simp
  moreover have "card (insert a (dirty s)) = Suc (card (dirty s))" using a(2) fin by simp
  ultimately obtain j s2 where 2: "rd b s1 = Done (j, s2)" "inv s2" "hold s2 j b" "vw s2 = vw s" "dk s2 = dk s"
    "hist s2 = hist s" "frame s1 s2" "held s2 = {b, a}" "dirty s2 = dirty s" "hold s2 i a"
    using rd [OF 1(2), of b] 1 b(2,3) by auto
  have g: "got s2 i = vw s a" using got [OF 2(2,10)] 2(4) by simp
  let ?s3 = "st j (vw s a) s2"
  have 3: "inv ?s3" "vw ?s3 = (vw s)(b := vw s a)" "dk ?s3 = dk s" "hist ?s3 = hist s" "frame s2 ?s3"
    "held ?s3 = {b, a}" "dirty ?s3 = dirty s" "hold ?s3 i a" "hold ?s3 j b"
    using st [OF 2(2,3), of "vw s a"] len [OF 2(2,10)] 2 by auto
  obtain s4 where 4: "wr j ?s3 = Done s4" "inv s4" "vw s4 = (vw s)(b := vw s a)" "dk s4 = (dk s)(b := vw s a)"
    "hist s4 = hist s @ [(1, b, vw s a)]" "frame ?s3 s4" "held s4 = {b, a}" "dirty s4 = dirty s - {b}"
    "hold s4 i a" "hold s4 j b"
    using wr [OF 3(1,9)] 3 by auto
  have "vw s a = dk s a" "{b, a} - {a} = {b}" using clean [OF s(1)] s(2) a(2) b(2) by auto
  then obtain s5 where 5: "rl i s4 = Done s5" "inv s5" "vw s5 = vw s4" "dk s5 = dk s4"
    "hist s5 = hist s4" "frame s4 s5" "held s5 = {b}" "dirty s5 = dirty s - {b}" "hold s5 j b"
    using rl [OF 4(2,9)] 4 b(2) by auto
  obtain s6 where 6: "rl j s5 = Done s6" "inv s6" "vw s6 = vw s4" "dk s6 = dk s4"
    "hist s6 = hist s4" "frame s5 s6" "held s6 = {}" "dirty s6 = dirty s - {b}"
    using rl [OF 5(2,9)] 5 4 by auto
  have "frame s s6" using 1(7) 2(7) 3(5) 4(6) 5(6) 6(6) frame(2) by blast
  then show ?thesis using 1(1) 2(1) g 4 5(1) 6 by simp
qed

text \<open>Replace the contents of a block and write it through.\<close>

lemma rewrite_block:
  assumes s: "inv s" "held s = {}" and a: "unat a < dsize s" "a \<notin> dirty s" "card (dirty s) < cap"
    and f: "\<And>d. length d = BSIZE \<Longrightarrow> length (f d) = BSIZE"
  shows "\<exists>t. obind (rd a s) (\<lambda>(i, s). obind (wr i (st i (f (got s i)) s)) (\<lambda>s. rl i s)) = Done t
    \<and> inv t \<and> held t = {} \<and> vw t = (vw s)(a := f (vw s a)) \<and> dk t = (dk s)(a := f (vw s a))
    \<and> hist t = hist s @ [(1, a, f (vw s a))] \<and> dirty t = dirty s \<and> frame s t"
proof -
  obtain i s1 where 1: "rd a s = Done (i, s1)" "inv s1" "hold s1 i a" "vw s1 = vw s" "dk s1 = dk s"
    "hist s1 = hist s" "frame s s1" "held s1 = {a}" "dirty s1 = dirty s"
    using rd [OF s(1) a(1)] s(2) a(2,3) by auto
  have g: "got s1 i = vw s a" using got [OF 1(2,3)] 1(4) by simp
  let ?s3 = "st i (f (vw s a)) s1"
  have 3: "inv ?s3" "vw ?s3 = (vw s)(a := f (vw s a))" "dk ?s3 = dk s" "hist ?s3 = hist s" "frame s1 ?s3"
    "held ?s3 = {a}" "dirty ?s3 = dirty s" "hold ?s3 i a"
    using st [OF 1(2,3), of "f (vw s a)"] f [OF len [OF 1(2,3)]] 1 by auto
  obtain s4 where 4: "wr i ?s3 = Done s4" "inv s4" "vw s4 = (vw s)(a := f (vw s a))"
    "dk s4 = (dk s)(a := f (vw s a))" "hist s4 = hist s @ [(1, a, f (vw s a))]" "frame ?s3 s4"
    "held s4 = {a}" "dirty s4 = dirty s" "hold s4 i a"
    using wr [OF 3(1,8)] 3 a(2) by auto
  obtain s5 where 5: "rl i s4 = Done s5" "inv s5" "vw s5 = vw s4" "dk s5 = dk s4"
    "hist s5 = hist s4" "frame s4 s5" "held s5 = {}" "dirty s5 = dirty s"
    using rl [OF 4(2,9)] 4 by auto
  have "frame s s5" using 1(7) 3(5) 4(6) 5(6) frame(2) by blast
  then show ?thesis using 1(1) g 4 5 by simp
qed

text \<open>Look at a block.\<close>

lemma peek_block:
  assumes s: "inv s" "held s = {}" and a: "unat a < dsize s" "a \<notin> dirty s" "card (dirty s) < cap"
  shows "\<exists>t. obind (rd a s) (\<lambda>(i, s). obind (rl i s) (\<lambda>t. Done (f (got s i), t))) = Done (f (vw s a), t)
    \<and> inv t \<and> held t = {} \<and> vw t = vw s \<and> dk t = dk s \<and> hist t = hist s \<and> dirty t = dirty s \<and> frame s t"
proof -
  obtain i s1 where 1: "rd a s = Done (i, s1)" "inv s1" "hold s1 i a" "vw s1 = vw s" "dk s1 = dk s"
    "hist s1 = hist s" "frame s s1" "held s1 = {a}" "dirty s1 = dirty s"
    using rd [OF s(1) a(1)] s(2) a(2,3) by auto
  have g: "got s1 i = vw s a" using got [OF 1(2,3)] 1(4) by simp
  have "vw s a = dk s a" using clean [OF s(1)] s(2) a(2) by simp
  then obtain s2 where 2: "rl i s1 = Done s2" "inv s2" "vw s2 = vw s" "dk s2 = dk s"
    "hist s2 = hist s" "frame s1 s2" "held s2 = {}" "dirty s2 = dirty s"
    using rl [OF 1(2,3)] 1 by auto
  have "frame s s2" using 1(7) 2(6) frame(2) by blast
  then show ?thesis using 1(1) g 2 by simp
qed

end

interpretation bc: block_cache "bread 1" bwrite brelse set_data bio_inv holds "\<lambda>s i. b_data (bufs s ! i)"
  "\<lambda>s. view s 1" "\<lambda>s. disk s 1" dwrites heldB dirtyB bio_frame disksize NBUF
proof (unfold_locales, goal_cases)
  case (1 s b)
  then show ?case using bread_contract [of s b] by metis
next
  case (3 s i b)
  obtain t where "bwrite i s = Done t" "bio_inv t" "view t 1 = view s 1"
    "disk t = (disk s)(1 := (disk s 1)(b := view s 1 b))" "dwrites t = dwrites s @ [(1, b, view s 1 b)]"
    "bio_frame s t" "heldB t = heldB s" "dirtyB t = dirtyB s - {b}" "\<And>j c. holds s j c \<Longrightarrow> holds t j c"
    using bwrite_contract [OF 3] by metis
  then show ?case by auto
next
  case (4 s i b)
  then show ?case using brelse_contract [of s i b] by metis
next
  case (5 s i b)
  then show ?case by (rule view_holds [symmetric])
next
  case (6 s i b)
  then show ?case using view_holds holds_buf(9) by metis
next
  case (2 s i b d)
  then show ?case using set_data_contract [OF 2] by simp
qed (use view_holds view_clean in \<open>auto simp: bio_frame_def\<close>)

section \<open>Properties\<close>

lemma binit_loop_eq: "binit_loop i k l = rev [i..<i + k] @ l"
  by (induction k arbitrary: i l) (simp_all add: upt_conv_Cons)

lemma binit_inv:
  assumes "\<And>b. length (disk s 1 b) = BSIZE"
  shows "bio_inv (binit s)" and "heldB (binit s) = {}" and "dirtyB (binit s) = {}"
    and "view (binit s) 1 = disk s 1"
proof -
  have b: "bufs (binit s) ! i = buf0 (replicate BSIZE 0)" if "i < NBUF" for i
    using that by (simp add: binit_def)
  show "bio_inv (binit s)" unfolding bio_inv_def
  proof (intro conjI allI impI)
    show "length (bufs (binit s)) = NBUF" "distinct (mru (binit s))" "set (mru (binit s)) = {..<NBUF}"
      by (auto simp: binit_def binit_loop_eq)
    show "length (disk (binit s) 1 c) = BSIZE" for c using assms by (simp add: binit_def)
  qed (use b in \<open>auto simp: buf_ok_def buf0_def initsleeplock_def caches_def\<close>)
  have I: "heldI (binit s) = {}" "dirtyI (binit s) = {}"
    using b by (auto simp: heldI_def dirtyI_def buf0_def initsleeplock_def)
  then show "heldB (binit s) = {}" "dirtyB (binit s) = {}" by (simp_all add: heldB_def dirtyB_def)
  have "view (binit s) 1 c = disk s 1 c" for c
    using view_uncached [of "binit s" 1 c] b by (auto simp: caches_def buf0_def) (simp add: binit_def)
  then show "view (binit s) 1 = disk s 1" by blast
qed

text \<open>
  C20. The buffer cache is coherent.  From a state that satisfies the cache's invariant, with no
  buffer held and at least one buffer not pinned by the log, the sequence \<^verbatim>\<open>bread\<close>, store, \<^verbatim>\<open>bwrite\<close>, \<^verbatim>\<open>brelse\<close> on a
  block runs to its end: it never panics and never waits.  It re-establishes the invariant, changes
  exactly that sector of the disk, and a later \<^verbatim>\<open>bread\<close> of any block of the disk gives a buffer
  locked by the caller that holds what was stored last.
\<close>

theorem buffer_cache_coherent:
  assumes "bio_inv s" and "heldB s = {}" and "card (dirtyB s) < NBUF" and "b \<notin> dirtyB s"
    and "unat b < disksize s" and "length d = BSIZE"
  shows "\<exists>t. obind (bread 1 b s) (\<lambda>(i, s). obind (bwrite i (set_data i d s)) (brelse i)) = Done t
    \<and> bio_inv t \<and> heldB t = {} \<and> disk t 1 = (disk s 1)(b := d)
    \<and> (\<forall>c. unat c < disksize s \<longrightarrow> (\<exists>j u. bread 1 c t = Done (j, u) \<and> holds u j c
          \<and> b_data (bufs u ! j) = (if c = b then d else view s 1 c)))"
proof -
  obtain t where t: "obind (bread 1 b s) (\<lambda>(i, s). obind (bwrite i (set_data i d s)) (brelse i)) = Done t"
    "bio_inv t" "heldB t = {}" "view t 1 = (view s 1)(b := d)" "disk t 1 = (disk s 1)(b := d)"
    "dirtyB t = dirtyB s" "bio_frame s t"
    using bc.rewrite_block [OF assms(1,2,5,4,3), of "\<lambda>_. d"] assms(6) by auto
  have "\<exists>j u. bread 1 c t = Done (j, u) \<and> holds u j c \<and> b_data (bufs u ! j) = (if c = b then d else view s 1 c)"
    if c: "unat c < disksize s" for c
  proof -
    obtain j u where "bread 1 c t = Done (j, u)" "bio_inv u" "holds u j c" "view u 1 = view t 1"
      using bc.rd [OF t(2), of c] c t(3,6,7) assms(3) by (auto simp: bio_frame_def)
    then show ?thesis using view_holds [of u j c] t(4) by auto
  qed
  then show ?thesis using t by blast
qed

definition zero_disk :: "nat \<Rightarrow> bstate" where
  "zero_disk n = \<lparr>disk = \<lambda>_ _. replicate BSIZE 0, disksize = n, dwrites = [], bufs = [], mru = [], curpid = 1\<rparr>"

theorem buffer_cache_coherent_witness:
  "\<exists>t. obind (bread 1 7 (binit (zero_disk 1000)))
       (\<lambda>(i, s). obind (bwrite i (set_data i (replicate BSIZE 255) s)) (brelse i)) = Done t
     \<and> (\<exists>j u. bread 1 7 t = Done (j, u) \<and> b_data (bufs u ! j) = replicate BSIZE 255)"
proof -
  have inv: "bio_inv (binit (zero_disk 1000))" "heldB (binit (zero_disk 1000)) = {}"
    "dirtyB (binit (zero_disk 1000)) = {}"
    using binit_inv [of "zero_disk 1000"] by (simp_all add: zero_disk_def)
  have size: "disksize (binit (zero_disk 1000)) = 1000" by (simp add: binit_def zero_disk_def)
  have "card (dirtyB (binit (zero_disk 1000))) < NBUF" by (simp add: inv(3) NBUF_def)
  from buffer_cache_coherent [OF inv(1,2) this, of 7 "replicate BSIZE 255"]
  obtain t where "obind (bread 1 7 (binit (zero_disk 1000)))
       (\<lambda>(i, s). obind (bwrite i (set_data i (replicate BSIZE 255) s)) (brelse i)) = Done t"
    and r: "\<forall>c. unat c < 1000 \<longrightarrow> (\<exists>j u. bread 1 c t = Done (j, u) \<and> holds u j c
      \<and> b_data (bufs u ! j) = (if c = 7 then replicate BSIZE 255 else view (binit (zero_disk 1000)) 1 c))"
    unfolding inv(3) size by auto
  moreover from r [rule_format, of 7] have "\<exists>j u. bread 1 7 t = Done (j, u) \<and> b_data (bufs u ! j) = replicate BSIZE 255"
    by auto
  ultimately show ?thesis by blast
qed

end
