(* ===== verification/Log.thy ===== *)
theory Log
  imports Bio
begin

text \<open>
  The redo log (\<^verbatim>\<open>src/xv6/log.c\<close>) over the buffer cache, and the super block it is configured from
  (\<^verbatim>\<open>fs.h\<close>, \<^verbatim>\<open>readsb\<close> of \<^verbatim>\<open>fs.c\<close>).  The theorems are about crashes: whatever prefix of its disk
  writes a commit has performed when the machine stops, recovery leaves every block outside the log
  as it was before the transaction, or every block as the transaction left it.
\<close>

section \<open>The super block\<close>

record superblock =
  sb_size :: uint
  sb_nblocks :: uint
  sb_ninodes :: uint
  sb_nlog :: uint
  sb_logstart :: uint
  sb_inodestart :: uint
  sb_bmapstart :: uint

definition superblock_of :: "block \<Rightarrow> superblock" where
  "superblock_of d = \<lparr>sb_size = get32 0 d, sb_nblocks = get32 4 d, sb_ninodes = get32 8 d,
     sb_nlog = get32 12 d, sb_logstart = get32 16 d, sb_inodestart = get32 20 d, sb_bmapstart = get32 24 d\<rparr>"

definition readsb :: "uint \<Rightarrow> 'a bstate_scheme \<Rightarrow> (superblock \<times> 'a bstate_scheme) outcome" where
  "readsb dev s =
     obind (bread dev 1 s) (\<lambda>(bp, s).
       obind (brelse bp s) (\<lambda>t. Done (superblock_of (b_data (bufs s ! bp)), t)))"

section \<open>State\<close>

definition MAXOPBLOCKS :: nat where
  "MAXOPBLOCKS = 10"

definition LOGSIZE :: nat where
  "LOGSIZE = MAXOPBLOCKS * 3"

text \<open>\<^verbatim>\<open>struct log\<close>, with the in-memory \<^verbatim>\<open>struct logheader\<close> as the count \<open>lh_n\<close> and the array \<open>lh_block\<close>.\<close>

record lstate = bstate +
  l_start :: uint
  l_size :: int
  outstanding :: int
  committing :: bool
  l_dev :: uint
  lh_n :: int
  lh_block :: "uint list"

section \<open>Copying between the log and the home blocks\<close>

fun install_trans_loop :: "nat \<Rightarrow> nat \<Rightarrow> 'a lstate_scheme \<Rightarrow> 'a lstate_scheme outcome" where
  "install_trans_loop tail 0 s = Done s"
| "install_trans_loop tail (Suc k) s =
     obind (obind (bread (l_dev s) (l_start s + of_nat tail + 1) s) (\<lambda>(lbuf, s).
       obind (bread (l_dev s) (lh_block s ! tail) s) (\<lambda>(dbuf, s).
         obind (bwrite dbuf (set_data dbuf (b_data (bufs s ! lbuf)) s)) (\<lambda>s.
           obind (brelse lbuf s) (\<lambda>s. brelse dbuf s)))))
     (install_trans_loop (Suc tail) k)"

definition install_trans :: "'a lstate_scheme \<Rightarrow> 'a lstate_scheme outcome" where
  "install_trans s = install_trans_loop 0 (nat (lh_n s)) s"

fun write_log_loop :: "nat \<Rightarrow> nat \<Rightarrow> 'a lstate_scheme \<Rightarrow> 'a lstate_scheme outcome" where
  "write_log_loop tail 0 s = Done s"
| "write_log_loop tail (Suc k) s =
     obind (obind (bread (l_dev s) (l_start s + of_nat tail + 1) s) (\<lambda>(to, s).
       obind (bread (l_dev s) (lh_block s ! tail) s) (\<lambda>(from, s).
         obind (bwrite to (set_data to (b_data (bufs s ! from)) s)) (\<lambda>s.
           obind (brelse from s) (\<lambda>s. brelse to s)))))
     (write_log_loop (Suc tail) k)"

definition write_log :: "'a lstate_scheme \<Rightarrow> 'a lstate_scheme outcome" where
  "write_log s = write_log_loop 0 (nat (lh_n s)) s"

section \<open>The header\<close>

fun header_blocks :: "nat \<Rightarrow> nat \<Rightarrow> block \<Rightarrow> uint list \<Rightarrow> uint list" where
  "header_blocks i 0 d bs = bs"
| "header_blocks i (Suc k) d bs = header_blocks (Suc i) k d (bs[i := get32 (4 + 4 * i) d])"

text \<open>
  \<^verbatim>\<open>read_head\<close> trusts the count it finds: a count beyond \<open>LOGSIZE\<close> overruns the array
  \<^verbatim>\<open>log.lh.block\<close>, which C leaves undefined and the model makes a \<open>Panic\<close>.
\<close>

definition read_head :: "'a lstate_scheme \<Rightarrow> 'a lstate_scheme outcome" where
  "read_head s =
     obind (bread (l_dev s) (l_start s) s) (\<lambda>(buf, s).
       let d = b_data (bufs s ! buf);
           n = sint (get32 0 d);
           s = s\<lparr>lh_n := n\<rparr>
       in if int LOGSIZE < n then Panic ''undefined: log.lh.block overrun''
          else brelse buf (s\<lparr>lh_block := header_blocks 0 (nat n) d (lh_block s)\<rparr>))"

fun put_header_blocks :: "nat \<Rightarrow> nat \<Rightarrow> uint list \<Rightarrow> block \<Rightarrow> block" where
  "put_header_blocks i 0 bs d = d"
| "put_header_blocks i (Suc k) bs d = put_header_blocks (Suc i) k bs (put32 (4 + 4 * i) (bs ! i) d)"

definition put_header :: "int \<Rightarrow> uint list \<Rightarrow> block \<Rightarrow> block" where
  "put_header n bs d = put_header_blocks 0 (nat n) bs (put32 0 (word_of_int n) d)"

definition write_head :: "'a lstate_scheme \<Rightarrow> 'a lstate_scheme outcome" where
  "write_head s =
     obind (bread (l_dev s) (l_start s) s) (\<lambda>(buf, s).
       obind (bwrite buf (set_data buf (put_header (lh_n s) (lh_block s) (b_data (bufs s ! buf))) s)) (\<lambda>s.
         brelse buf s))"

section \<open>Recovery, transactions, commit\<close>

definition recover_from_log :: "'a lstate_scheme \<Rightarrow> 'a lstate_scheme outcome" where
  "recover_from_log s =
     obind (read_head s) (\<lambda>s.
       obind (install_trans s) (\<lambda>s.
         write_head (s\<lparr>lh_n := 0\<rparr>)))"

definition initlog :: "uint \<Rightarrow> 'a lstate_scheme \<Rightarrow> 'a lstate_scheme outcome" where
  "initlog dev s =
     (if BSIZE \<le> 4 + 4 * LOGSIZE then Panic ''initlog: too big logheader''
      else obind (readsb dev s) (\<lambda>(sb, s).
        recover_from_log (s\<lparr>l_start := sb_logstart sb, l_size := sint (sb_nlog sb), l_dev := dev\<rparr>)))"

definition begin_op :: "'a lstate_scheme \<Rightarrow> 'a lstate_scheme outcome" where
  "begin_op s =
     (if committing s then Block
      else if int LOGSIZE < lh_n s + (outstanding s + 1) * int MAXOPBLOCKS then Block
      else Done (s\<lparr>outstanding := outstanding s + 1\<rparr>))"

definition commit :: "'a lstate_scheme \<Rightarrow> 'a lstate_scheme outcome" where
  "commit s =
     (if 0 < lh_n s
      then obind (write_log s) (\<lambda>s.
             obind (write_head s) (\<lambda>s.
               obind (install_trans s) (\<lambda>s.
                 write_head (s\<lparr>lh_n := 0\<rparr>))))
      else Done s)"

definition end_op :: "'a lstate_scheme \<Rightarrow> 'a lstate_scheme outcome" where
  "end_op s =
     (let s = s\<lparr>outstanding := outstanding s - 1\<rparr>
      in if committing s then Panic ''log.committing''
         else if outstanding s = 0
              then obind (commit (s\<lparr>committing := True\<rparr>)) (\<lambda>s. Done (s\<lparr>committing := False\<rparr>))
              else Done s)"

fun absorb :: "uint \<Rightarrow> nat \<Rightarrow> nat \<Rightarrow> uint list \<Rightarrow> nat" where
  "absorb b i 0 bs = i"
| "absorb b i (Suc k) bs = (if bs ! i = b then i else absorb b (Suc i) k bs)"

definition log_write :: "nat \<Rightarrow> 'a lstate_scheme \<Rightarrow> 'a lstate_scheme outcome" where
  "log_write bp s =
     (if int LOGSIZE \<le> lh_n s \<or> l_size s - 1 \<le> lh_n s then Panic ''too big a transaction''
      else if outstanding s < 1 then Panic ''log_write outside of trans''
      else let b = b_blockno (bufs s ! bp);
               i = absorb b 0 (nat (lh_n s)) (lh_block s);
               s = s\<lparr>lh_block := (lh_block s)[i := b]\<rparr>;
               s = (if int i = lh_n s then s\<lparr>lh_n := lh_n s + 1\<rparr> else s)
           in Done (upd_buf bp (\<lambda>b. b\<lparr>b_dirty := True\<rparr>) s))"

section \<open>Lifting the cache's contract to the log's state\<close>

lemma bstate_more_cong:
  fixes s t :: "'a lstate_scheme"
  assumes "bstate.more t = bstate.more s"
  shows "l_start t = l_start s" and "l_size t = l_size s" and "outstanding t = outstanding s"
    and "committing t = committing s" and "l_dev t = l_dev s" and "lh_n t = lh_n s"
    and "lh_block t = lh_block s" and "lstate.more t = lstate.more s"
  using assms by (cases s; cases t; simp)+

lemma bio_frame_log:
  fixes s t :: "'a lstate_scheme"
  assumes "bio_frame s t"
  shows "l_start t = l_start s" and "l_size t = l_size s" and "outstanding t = outstanding s"
    and "committing t = committing s" and "l_dev t = l_dev s" and "lh_n t = lh_n s"
    and "lh_block t = lh_block s" and "lstate.more t = lstate.more s"
    and "disksize t = disksize s" and "curpid t = curpid s"
  using assms bstate_more_cong [of t s] by (auto simp: bio_frame_def)

text \<open>The cache does not look at the fields of the log.\<close>

definition same_cache :: "'a bstate_scheme \<Rightarrow> 'b bstate_scheme \<Rightarrow> bool" where
  "same_cache s t \<longleftrightarrow> bufs t = bufs s \<and> disk t = disk s \<and> disksize t = disksize s \<and>
     dwrites t = dwrites s \<and> mru t = mru s \<and> curpid t = curpid s"

lemma same_cacheD:
  assumes "same_cache s t"
  shows "bio_inv t = bio_inv s" and "view t = view s" and "heldB t = heldB s" and "dirtyB t = dirtyB s"
    and "holds t = holds s"
proof -
  have c: "bufs t = bufs s" "disk t = disk s" "disksize t = disksize s" "mru t = mru s" "curpid t = curpid s"
    using assms by (simp_all add: same_cache_def)
  have k: "caches t = caches s" by (intro ext) (simp add: caches_def c)
  show "bio_inv t = bio_inv s" by (simp add: bio_inv_def buf_ok_def k c)
  show "view t = view s" by (intro ext) (unfold view_def k c, rule refl)
  show "heldB t = heldB s" "dirtyB t = dirtyB s" by (simp_all add: heldB_def dirtyB_def heldI_def dirtyI_def c)
  show "holds t = holds s" by (intro ext) (simp add: holds_def k c)
qed

lemma same_cache_upd [simp]:
  "same_cache s (s\<lparr>lh_n := n\<rparr>)" "same_cache s (s\<lparr>lh_block := bs\<rparr>)" "same_cache s (s\<lparr>committing := c\<rparr>)"
  "same_cache s (s\<lparr>outstanding := n\<rparr>)" "same_cache s (s\<lparr>l_start := a, l_size := m, l_dev := d\<rparr>)"
  by (simp_all add: same_cache_def)

lemmas cache_upd [simp] =
  same_cache_upd(1) [THEN same_cacheD(1)] same_cache_upd(1) [THEN same_cacheD(2)]
  same_cache_upd(1) [THEN same_cacheD(3)] same_cache_upd(1) [THEN same_cacheD(4)]
  same_cache_upd(2) [THEN same_cacheD(1)] same_cache_upd(2) [THEN same_cacheD(2)]
  same_cache_upd(2) [THEN same_cacheD(3)] same_cache_upd(2) [THEN same_cacheD(4)]
  same_cache_upd(3) [THEN same_cacheD(1)] same_cache_upd(3) [THEN same_cacheD(2)]
  same_cache_upd(3) [THEN same_cacheD(3)] same_cache_upd(3) [THEN same_cacheD(4)]
  same_cache_upd(4) [THEN same_cacheD(1)] same_cache_upd(4) [THEN same_cacheD(2)]
  same_cache_upd(4) [THEN same_cacheD(3)] same_cache_upd(4) [THEN same_cacheD(4)]
  same_cache_upd(5) [THEN same_cacheD(1)] same_cache_upd(5) [THEN same_cacheD(2)]
  same_cache_upd(5) [THEN same_cacheD(3)] same_cache_upd(5) [THEN same_cacheD(4)]

section \<open>Sequences of disk writes\<close>

definition apply_writes :: "(uint \<times> block) list \<Rightarrow> (uint \<Rightarrow> block) \<Rightarrow> uint \<Rightarrow> block" where
  "apply_writes ws D = fold (\<lambda>(b, d) D. D(b := d)) ws D"

lemma apply_writes_simps [simp]:
  "apply_writes [] D = D" "apply_writes ((b, d) # ws) D = apply_writes ws (D(b := d))"
  "apply_writes (ws @ vs) D = apply_writes vs (apply_writes ws D)"
  by (simp_all add: apply_writes_def)

lemma apply_writes_other: "b \<notin> fst ` set ws \<Longrightarrow> apply_writes ws D b = D b"
  by (induction ws arbitrary: D) auto

lemma apply_writes_in:
  "distinct (map fst ws) \<Longrightarrow> (b, d) \<in> set ws \<Longrightarrow> apply_writes ws D b = d"
  by (induction ws arbitrary: D) (auto simp: apply_writes_other)

text \<open>\<open>wrote s ws t\<close>: between \<open>s\<close> and \<open>t\<close> the sectors \<open>ws\<close> of disk 1 were written, in this order.\<close>

definition wrote :: "'a bstate_scheme \<Rightarrow> (uint \<times> block) list \<Rightarrow> 'a bstate_scheme \<Rightarrow> bool" where
  "wrote s ws t \<longleftrightarrow> dwrites t = dwrites s @ map (Pair 1) ws \<and> disk t 1 = apply_writes ws (disk s 1)"

lemma wrote_trans: "wrote s ws t \<Longrightarrow> wrote t vs u \<Longrightarrow> wrote s (ws @ vs) u"
  by (simp add: wrote_def)

lemma wrote_Nil: "dwrites t = dwrites s \<Longrightarrow> disk t 1 = disk s 1 \<Longrightarrow> wrote s [] t"
  by (simp add: wrote_def)

lemma wrote_unique: "wrote s ws t \<Longrightarrow> wrote s vs t \<Longrightarrow> ws = vs"
  by (auto simp: wrote_def inj_on_def map_injective)

section \<open>Geometry\<close>

definition in_log :: "uint \<Rightarrow> int \<Rightarrow> uint \<Rightarrow> bool" where
  "in_log st sz b \<longleftrightarrow> unat st \<le> unat b \<and> unat b < unat st + nat sz"

definition log_geom :: "uint \<Rightarrow> int \<Rightarrow> nat \<Rightarrow> bool" where
  "log_geom st sz ds \<longleftrightarrow> 1 < unat st \<and> 1 < sz \<and> sz \<le> int LOGSIZE \<and> unat st + nat sz \<le> ds \<and> ds \<le> 2 ^ 32"

definition entries_ok :: "uint \<Rightarrow> int \<Rightarrow> nat \<Rightarrow> uint list \<Rightarrow> bool" where
  "entries_ok st sz ds bs \<longleftrightarrow> distinct bs \<and> int (length bs) < sz \<and>
     (\<forall>b\<in>set bs. unat b < ds \<and> \<not> in_log st sz b \<and> b \<noteq> 1)"

lemma unat_log_block:
  assumes "log_geom st sz ds" and "int j < sz - 1"
  shows "unat (st + of_nat j + 1) = unat st + j + 1"
proof -
  have "unat st + j + 1 < 2 ^ 32" using assms unfolding log_geom_def by linarith
  then have "unat (of_nat (unat st + j + 1) :: uint) = unat st + j + 1" by (rule unat_of_nat_uint)
  then show ?thesis by (simp add: ac_simps)
qed

lemma log_block_facts:
  assumes "log_geom st sz ds" and "int j < sz - 1"
  shows "unat (st + of_nat j + 1) < ds" and "in_log st sz (st + of_nat j + 1)" and "st + of_nat j + 1 \<noteq> st"
    and "int k < sz - 1 \<Longrightarrow> st + of_nat j + 1 = st + of_nat k + 1 \<longleftrightarrow> j = k"
proof -
  note u = unat_log_block [OF assms]
  show "unat (st + of_nat j + 1) < ds" "in_log st sz (st + of_nat j + 1)"
    using assms unfolding log_geom_def in_log_def u by linarith+
  show "st + of_nat j + 1 \<noteq> st"
  proof
    assume "st + of_nat j + 1 = st"
    then have "unat (st + of_nat j + 1) = unat st" by (rule arg_cong)
    with u show False by linarith
  qed
  show "st + of_nat j + 1 = st + of_nat k + 1 \<longleftrightarrow> j = k" if "int k < sz - 1"
    using u unat_log_block [OF assms(1) that] by (metis add_right_cancel add_left_cancel)
qed

section \<open>What the loops write\<close>

definition log_writes :: "uint \<Rightarrow> uint list \<Rightarrow> (uint \<Rightarrow> block) \<Rightarrow> nat list \<Rightarrow> (uint \<times> block) list" where
  "log_writes st bs D js = map (\<lambda>j. (st + of_nat j + 1, D (bs ! j))) js"

definition home_writes :: "uint \<Rightarrow> uint list \<Rightarrow> (uint \<Rightarrow> block) \<Rightarrow> nat list \<Rightarrow> (uint \<times> block) list" where
  "home_writes st bs D js = map (\<lambda>j. (bs ! j, D (st + of_nat j + 1))) js"

lemma writes_Cons:
  "i < n \<Longrightarrow> log_writes st bs D [i..<n] = (st + of_nat i + 1, D (bs ! i)) # log_writes st bs D [Suc i..<n]"
  "i < n \<Longrightarrow> home_writes st bs D [i..<n] = (bs ! i, D (st + of_nat i + 1)) # home_writes st bs D [Suc i..<n]"
  by (simp_all add: log_writes_def home_writes_def upt_conv_Cons)

text \<open>The loops read \<^verbatim>\<open>log.dev\<close> and \<^verbatim>\<open>log.lh\<close> again after each \<^verbatim>\<open>bread\<close>, which does not change them.\<close>

lemma bread_log_fields:
  fixes s :: "'a lstate_scheme"
  shows "obind (bread d b s) (\<lambda>(i, t). F (l_dev t) (lh_n t) (lh_block t) i t) =
    obind (bread d b s) (\<lambda>(i, t). F (l_dev s) (lh_n s) (lh_block s) i t)"
proof (rule obind_cong [OF refl])
  fix x assume r: "bread d b s = Done x"
  obtain i t where x: "x = (i, t)" by (cases x)
  show "(\<lambda>(i, t). F (l_dev t) (lh_n t) (lh_block t) i t) x = (\<lambda>(i, t). F (l_dev s) (lh_n s) (lh_block s) i t) x"
    using bio_frame_log(5,6,7) [OF bread_more [OF r [unfolded x]]] x by simp
qed

text \<open>A state in which the loops of the log can run: the cache's invariant, no buffer held.\<close>

definition idle :: "'a lstate_scheme \<Rightarrow> bool" where
  "idle s \<longleftrightarrow> bio_inv s \<and> heldB s = {} \<and> l_dev s = 1 \<and> log_geom (l_start s) (l_size s) (disksize s)
     \<and> length (lh_block s) = LOGSIZE"

lemma entries_ok_nth:
  assumes "entries_ok st sz ds (take n bs)" and "j < n" and "n \<le> length bs"
  shows "unat (bs ! j) < ds" and "\<not> in_log st sz (bs ! j)" and "bs ! j \<noteq> 1" and "int j < sz - 1"
proof -
  have "bs ! j \<in> set (take n bs)" using assms(2,3) by (auto simp: in_set_conv_nth intro: exI [of _ j])
  then show "unat (bs ! j) < ds" "\<not> in_log st sz (bs ! j)" "bs ! j \<noteq> 1"
    using assms(1) by (auto simp: entries_ok_def)
  have "int (length (take n bs)) < sz" using assms(1) unfolding entries_ok_def by blast
  then show "int j < sz - 1" using assms(2,3) by simp
qed

lemma card_dirty:
  assumes "entries_ok st sz ds bs" and "log_geom st sz ds'" and "D \<subseteq> set bs"
  shows "card D < NBUF"
proof -
  have "card D \<le> card (set bs)" using assms(3) by (simp add: card_mono)
  moreover have "card (set bs) \<le> length bs" by (rule card_length)
  moreover have "int (length bs) < sz" using assms(1) unfolding entries_ok_def by blast
  moreover have "sz \<le> int NBUF" using assms(2) by (simp add: log_geom_def LOGSIZE_def MAXOPBLOCKS_def NBUF_def)
  ultimately show ?thesis by linarith
qed

lemma write_log_loop_spec:
  assumes "idle s" and "tail + k = n" and "n \<le> LOGSIZE"
    and ok: "entries_ok (l_start s) (l_size s) (disksize s) (take n (lh_block s))"
    and dirty: "dirtyB s = set (take n (lh_block s))"
  shows "\<exists>t. write_log_loop tail k s = Done t \<and> idle t \<and> dirtyB t = dirtyB s \<and> bio_frame s t
    \<and> (\<forall>b. \<not> in_log (l_start s) (l_size s) b \<longrightarrow> view t 1 b = view s 1 b)
    \<and> wrote s (log_writes (l_start s) (lh_block s) (view s 1) [tail..<n]) t"
  using assms
proof (induction k arbitrary: tail s)
  case 0
  then show ?case by (auto simp: log_writes_def wrote_def)
next
  case (Suc k)
  let ?st = "l_start s" and ?bs = "lh_block s"
  let ?a = "?st + of_nat tail + 1" and ?b = "?bs ! tail"
  have id: "bio_inv s" "heldB s = {}" "l_dev s = 1" "log_geom ?st (l_size s) (disksize s)" "length ?bs = LOGSIZE"
    using Suc.prems(1) by (auto simp: idle_def)
  have tl: "tail < n" "n \<le> length ?bs" using Suc.prems(2,3) id(5) by auto
  note e = entries_ok_nth [OF Suc.prems(4) tl]
  note a = log_block_facts [OF id(4) e(4)]
  have notin: "c \<notin> dirtyB s" if "in_log ?st (l_size s) c" for c
    using that Suc.prems(4,5) by (auto simp: entries_ok_def)
  have bin: "?b \<in> dirtyB s"
    using Suc.prems(5) tl by (auto simp: in_set_conv_nth intro: exI [of _ tail])
  have card: "card (dirtyB s) < NBUF" by (rule card_dirty [OF Suc.prems(4) id(4)]) (simp add: Suc.prems(5))
  have ne: "?b \<noteq> ?a" using a(2) e(2) by metis
  from bc.copy_to_first [OF id(1,2) a(1) notin [OF a(2)] card e(1) ne bin]
  obtain t where run: "obind (bread 1 ?a s) (\<lambda>(i, s). obind (bread 1 ?b s) (\<lambda>(j, s).
      obind (bwrite i (set_data i (b_data (bufs s ! j)) s)) (\<lambda>s. obind (brelse j s) (\<lambda>s. brelse i s)))) = Done t"
    and t: "bio_inv t" "heldB t = {}" "view t 1 = (view s 1)(?a := view s 1 ?b)" "disk t 1 = (disk s 1)(?a := view s 1 ?b)"
      "dwrites t = dwrites s @ [(1, ?a, view s 1 ?b)]" "dirtyB t = dirtyB s" "bio_frame s t"
    by blast
  have step: "write_log_loop tail (Suc k) s = write_log_loop (Suc tail) k t"
    using run id(3) bread_log_fields [of 1 ?a s "\<lambda>d n bs i s. obind (bread d (bs ! tail) s) (\<lambda>(j, s).
      obind (bwrite i (set_data i (b_data (bufs s ! j)) s)) (\<lambda>s. obind (brelse j s) (\<lambda>s. brelse i s)))"]
    by simp
  note fr = bio_frame_log [OF t(7)]
  have idt: "idle t" using t id fr by (simp add: idle_def)
  have w: "wrote s [(?a, view s 1 ?b)] t" using t by (simp add: wrote_def)
  have "entries_ok (l_start t) (l_size t) (disksize t) (take n (lh_block t))" "dirtyB t = set (take n (lh_block t))"
    using Suc.prems(4,5) fr t(6) by simp_all
  from Suc.IH [OF idt _ Suc.prems(3) this] obtain u where
    u: "write_log_loop (Suc tail) k t = Done u" "idle u" "dirtyB u = dirtyB t" "bio_frame t u"
      "\<And>b. \<not> in_log ?st (l_size s) b \<Longrightarrow> view u 1 b = view t 1 b"
      "wrote t (log_writes ?st ?bs (view t 1) [Suc tail..<n]) u"
    using Suc.prems(2) fr by auto
  have "log_writes ?st ?bs (view t 1) [Suc tail..<n] = log_writes ?st ?bs (view s 1) [Suc tail..<n]"
    unfolding log_writes_def
  proof (rule map_cong [OF refl])
    fix j assume "j \<in> set [Suc tail..<n]"
    then have "\<not> in_log ?st (l_size s) (?bs ! j)" using entries_ok_nth(2) [OF Suc.prems(4) _ tl(2)] by simp
    then show "(?st + of_nat j + 1, view t 1 (?bs ! j)) = (?st + of_nat j + 1, view s 1 (?bs ! j))"
      using t(3) a(2) by auto
  qed
  then have "wrote s (log_writes ?st ?bs (view s 1) [tail..<n]) u"
    using wrote_trans [OF w u(6)] writes_Cons(1) [OF tl(1)] by simp
  moreover have "view u 1 b = view s 1 b" if "\<not> in_log ?st (l_size s) b" for b
    using u(5) [OF that] t(3) a(2) that by auto
  ultimately show ?case using step t(6) u bio_frame_trans [OF t(7) u(4)] by auto
qed

text \<open>
  \<^verbatim>\<open>install_trans\<close> runs with the home blocks pinned (in \<^verbatim>\<open>commit\<close>, \<open>E = UNIV\<close>) or with nothing
  pinned (in \<^verbatim>\<open>recover_from_log\<close>, \<open>E = {}\<close>).
\<close>

lemma install_trans_loop_spec:
  assumes "idle s" and "tail + k = n" and "n \<le> LOGSIZE"
    and ok: "entries_ok (l_start s) (l_size s) (disksize s) (take n (lh_block s))"
    and E: "E = UNIV \<or> E = {}"
    and dirty: "dirtyB s = E \<inter> set (drop tail (take n (lh_block s)))"
  shows "\<exists>t. install_trans_loop tail k s = Done t \<and> idle t \<and> dirtyB t = {} \<and> bio_frame s t
    \<and> wrote s (home_writes (l_start s) (lh_block s) (disk s 1) [tail..<n]) t"
  using assms
proof (induction k arbitrary: tail s)
  case 0
  then show ?case by (auto simp: home_writes_def wrote_def)
next
  case (Suc k)
  let ?st = "l_start s" and ?bs = "lh_block s"
  let ?a = "?st + of_nat tail + 1" and ?b = "?bs ! tail"
  have id: "bio_inv s" "heldB s = {}" "l_dev s = 1" "log_geom ?st (l_size s) (disksize s)" "length ?bs = LOGSIZE"
    using Suc.prems(1) by (auto simp: idle_def)
  have tl: "tail < n" "n \<le> length ?bs" using Suc.prems(2,3) id(5) by auto
  note e = entries_ok_nth [OF Suc.prems(4) tl]
  note a = log_block_facts [OF id(4) e(4)]
  have sub: "dirtyB s \<subseteq> set (take n ?bs)" using Suc.prems(6) by (auto dest: in_set_dropD)
  have notin: "c \<notin> dirtyB s" if "in_log ?st (l_size s) c" for c
    using that Suc.prems(4) sub by (auto simp: entries_ok_def)
  have dr: "drop tail (take n ?bs) = ?b # drop (Suc tail) (take n ?bs)"
    using tl by (simp add: Cons_nth_drop_Suc [symmetric])
  have bin: "?b \<in> dirtyB s \<or> Suc (card (dirtyB s)) < NBUF"
    using Suc.prems(5,6) dr by (auto simp: NBUF_def)
  have card: "card (dirtyB s) < NBUF" by (rule card_dirty [OF Suc.prems(4) id(4) sub])
  have ne: "?b \<noteq> ?a" using a(2) e(2) by metis
  have va: "view s 1 ?a = disk s 1 ?a" using view_clean [OF id(1)] id(2) notin [OF a(2)] by simp
  from bc.copy_to_second [OF id(1,2) a(1) notin [OF a(2)] card e(1) ne bin]
  obtain t where run: "obind (bread 1 ?a s) (\<lambda>(i, s). obind (bread 1 ?b s) (\<lambda>(j, s).
      obind (bwrite j (set_data j (b_data (bufs s ! i)) s)) (\<lambda>s. obind (brelse i s) (\<lambda>s. brelse j s)))) = Done t"
    and t: "bio_inv t" "heldB t = {}" "disk t 1 = (disk s 1)(?b := disk s 1 ?a)"
      "dwrites t = dwrites s @ [(1, ?b, disk s 1 ?a)]" "dirtyB t = dirtyB s - {?b}" "bio_frame s t"
    using va by auto
  have step: "install_trans_loop tail (Suc k) s = install_trans_loop (Suc tail) k t"
    using run id(3) bread_log_fields [of 1 ?a s "\<lambda>d n bs i s. obind (bread d (bs ! tail) s) (\<lambda>(j, s).
      obind (bwrite j (set_data j (b_data (bufs s ! i)) s)) (\<lambda>s. obind (brelse i s) (\<lambda>s. brelse j s)))"]
    by simp
  note fr = bio_frame_log [OF t(6)]
  have idt: "idle t" using t id fr by (simp add: idle_def)
  have w: "wrote s [(?b, disk s 1 ?a)] t" using t by (simp add: wrote_def)
  have "distinct (drop tail (take n ?bs))" using Suc.prems(4) by (simp add: entries_ok_def)
  then have "dirtyB t = E \<inter> set (drop (Suc tail) (take n ?bs))" using Suc.prems(6) t(5) dr by auto
  moreover have "entries_ok (l_start t) (l_size t) (disksize t) (take n (lh_block t))"
    using Suc.prems(4) fr by simp
  ultimately obtain u where
    u: "install_trans_loop (Suc tail) k t = Done u" "idle u" "dirtyB u = {}" "bio_frame t u"
      "wrote t (home_writes ?st ?bs (disk t 1) [Suc tail..<n]) u"
    using Suc.IH [OF idt _ Suc.prems(3) _ Suc.prems(5)] Suc.prems(2) fr by auto
  have "home_writes ?st ?bs (disk t 1) [Suc tail..<n] = home_writes ?st ?bs (disk s 1) [Suc tail..<n]"
    unfolding home_writes_def
  proof (rule map_cong [OF refl])
    fix j assume "j \<in> set [Suc tail..<n]"
    then have "int j < l_size s - 1" using entries_ok_nth(4) [OF Suc.prems(4) _ tl(2)] by simp
    then have "in_log ?st (l_size s) (?st + of_nat j + 1)" by (rule log_block_facts(2) [OF id(4)])
    then show "(?bs ! j, disk t 1 (?st + of_nat j + 1)) = (?bs ! j, disk s 1 (?st + of_nat j + 1))"
      using t(3) e(2) by auto
  qed
  then have "wrote s (home_writes ?st ?bs (disk s 1) [tail..<n]) u"
    using wrote_trans [OF w u(5)] writes_Cons(2) [OF tl(1)] by simp
  then show ?case using step u bio_frame_trans [OF t(6) u(4)] by auto
qed

section \<open>The header on disk\<close>

definition header_n :: "block \<Rightarrow> int" where
  "header_n d = sint (get32 0 d)"

definition header_list :: "block \<Rightarrow> uint list" where
  "header_list d = map (\<lambda>i. get32 (4 + 4 * i) d) [0..<nat (header_n d)]"

lemma header_blocks_nth:
  "length (header_blocks i k d bs) = length bs \<and>
   (\<forall>j<length bs. header_blocks i k d bs ! j = (if i \<le> j \<and> j < i + k then get32 (4 + 4 * j) d else bs ! j))"
  by (induction i k d bs rule: header_blocks.induct) (auto simp: nth_list_update not_less_eq_eq dest: le_antisym)

lemma take_header_blocks:
  assumes "nat (header_n d) \<le> length bs"
  shows "take (nat (header_n d)) (header_blocks 0 (nat (header_n d)) d bs) = header_list d"
  using assms header_blocks_nth [of 0 "nat (header_n d)" d bs]
  by (intro nth_equalityI) (auto simp: header_list_def)

lemma get32_put_header_blocks:
  assumes "4 + 4 * (j + k) \<le> length d"
  shows "length (put_header_blocks j k bs d) = length d"
    and "get32 0 (put_header_blocks j k bs d) = get32 0 d"
    and "i < j + k \<Longrightarrow> get32 (4 + 4 * i) (put_header_blocks j k bs d) = (if j \<le> i then bs ! i else get32 (4 + 4 * i) d)"
  using assms
proof (induction j k bs d rule: put_header_blocks.induct)
  case (2 j k bs d)
  note IH = 2
  { case 1 then show ?case using IH(1) by simp }
  { case 2 then show ?case using IH(2) by simp }
  { case 3
    have "get32 (4 + 4 * i) (put32 (4 + 4 * j) (bs ! j) d) = (if i = j then bs ! i else get32 (4 + 4 * i) d)"
      using 3(2) by (cases i j rule: linorder_cases) simp_all
    then show ?case using IH(3) 3 by auto }
qed auto

lemma sint_word_of_int_small: "0 \<le> n \<Longrightarrow> n < 2 ^ 31 \<Longrightarrow> sint (word_of_int n :: uint) = n"
  by (simp add: signed_of_int signed_take_bit_int_eq_self)

lemma put_header_decode:
  assumes "length d = BSIZE" and "0 \<le> n" and "n \<le> int LOGSIZE" and "nat n \<le> length bs"
  shows "length (put_header n bs d) = BSIZE" and "header_n (put_header n bs d) = n"
    and "header_list (put_header n bs d) = take (nat n) bs"
proof -
  let ?e = "put32 0 (word_of_int n) d"
  have len: "4 + 4 * (0 + nat n) \<le> length ?e"
    using assms by (simp add: BSIZE_def LOGSIZE_def MAXOPBLOCKS_def)
  note g = get32_put_header_blocks [OF len]
  show "length (put_header n bs d) = BSIZE" using g(1) assms(1) by (simp add: put_header_def)
  have "sint (word_of_int n :: uint) = n"
    using assms(2,3) by (intro sint_word_of_int_small) (simp_all add: LOGSIZE_def MAXOPBLOCKS_def)
  then show h: "header_n (put_header n bs d) = n"
    using g(2) assms(1) by (simp add: header_n_def put_header_def BSIZE_def)
  show "header_list (put_header n bs d) = take (nat n) bs"
    using g(3) assms(4) h by (intro nth_equalityI) (auto simp: header_list_def put_header_def)
qed

lemma write_head_spec:
  assumes "idle s" and "l_start s \<notin> dirtyB s" and "card (dirtyB s) < NBUF" and "0 \<le> lh_n s" "lh_n s \<le> int LOGSIZE"
  shows "\<exists>t. write_head s = Done t \<and> idle t \<and> dirtyB t = dirtyB s \<and> bio_frame s t
    \<and> (\<forall>b. b \<noteq> l_start s \<longrightarrow> view t 1 b = view s 1 b)
    \<and> wrote s [(l_start s, put_header (lh_n s) (lh_block s) (disk s 1 (l_start s)))] t"
proof -
  let ?f = "put_header (lh_n s) (lh_block s)"
  have id: "bio_inv s" "heldB s = {}" "l_dev s = 1" "log_geom (l_start s) (l_size s) (disksize s)"
    "length (lh_block s) = LOGSIZE"
    using assms(1) by (auto simp: idle_def)
  have st: "unat (l_start s) < disksize s" using id(4) unfolding log_geom_def by linarith
  have f: "length (?f d) = BSIZE" if "length d = BSIZE" for d
    using put_header_decode(1) [OF that assms(4,5)] id(5) assms(5) by simp
  have v: "view s 1 (l_start s) = disk s 1 (l_start s)" using view_clean [OF id(1)] id(2) assms(2) by simp
  from bc.rewrite_block [OF id(1,2) st assms(2,3), of ?f] f v
  obtain t where run: "obind (bread 1 (l_start s) s)
      (\<lambda>(i, s). obind (bwrite i (set_data i (?f (b_data (bufs s ! i))) s)) (\<lambda>s. brelse i s)) = Done t"
    and t: "bio_inv t" "heldB t = {}" "view t 1 = (view s 1)(l_start s := ?f (disk s 1 (l_start s)))"
      "disk t 1 = (disk s 1)(l_start s := ?f (disk s 1 (l_start s)))"
      "dwrites t = dwrites s @ [(1, l_start s, ?f (disk s 1 (l_start s)))]" "dirtyB t = dirtyB s" "bio_frame s t"
    by auto
  have "write_head s = Done t"
    using run id(3) bread_log_fields [of 1 "l_start s" s "\<lambda>d n bs i s.
      obind (bwrite i (set_data i (put_header n bs (b_data (bufs s ! i))) s)) (\<lambda>s. brelse i s)"]
    by (simp add: write_head_def)
  moreover have "idle t" using t id bio_frame_log [OF t(7)] by (simp add: idle_def)
  ultimately show ?thesis using t by (auto simp: wrote_def)
qed

lemma read_head_spec:
  assumes "idle s" and "dirtyB s = {}" and n: "header_n (disk s 1 (l_start s)) \<le> int LOGSIZE"
  shows "\<exists>t. read_head s = Done t \<and> idle t \<and> dirtyB t = {} \<and> wrote s [] t \<and> l_start t = l_start s
    \<and> l_size t = l_size s \<and> disksize t = disksize s \<and> lh_n t = header_n (disk s 1 (l_start s))
    \<and> take (nat (lh_n t)) (lh_block t) = header_list (disk s 1 (l_start s))
    \<and> outstanding t = outstanding s \<and> committing t = committing s"
proof -
  let ?d = "disk s 1 (l_start s)"
  have id: "bio_inv s" "heldB s = {}" "l_dev s = 1" "log_geom (l_start s) (l_size s) (disksize s)"
    "length (lh_block s) = LOGSIZE"
    using assms(1) by (auto simp: idle_def)
  have st: "unat (l_start s) < disksize s" using id(4) unfolding log_geom_def by linarith
  from bc.rd [OF id(1) st] obtain i t where t: "bread 1 (l_start s) s = Done (i, t)" "bio_inv t"
    "holds t i (l_start s)" "view t 1 = view s 1" "disk t 1 = disk s 1" "dwrites t = dwrites s" "bio_frame s t"
    "heldB t = {l_start s}" "dirtyB t = {}"
    using id(2) assms(2) by (auto simp: NBUF_def)
  note fr = bio_frame_log [OF t(7)]
  have v: "view s 1 (l_start s) = ?d" using view_clean [OF id(1)] id(2) assms(2) by simp
  have d: "b_data (bufs t ! i) = ?d" using view_holds [OF t(2,3)] t(4) v by simp
  let ?bs = "header_blocks 0 (nat (header_n ?d)) ?d (lh_block s)"
  let ?u = "t\<lparr>lh_n := header_n ?d, lh_block := ?bs\<rparr>"
  have sc: "same_cache t ?u" by (simp add: same_cache_def)
  have "bio_inv ?u" "holds ?u i (l_start s)" "view ?u 1 (l_start s) = disk ?u 1 (l_start s)"
    using t v same_cacheD [OF sc] by auto
  from bc.rl [OF this(1,2) disjI2, OF this(3)] obtain w where w: "brelse i ?u = Done w" "bio_inv w" "view w 1 = view ?u 1"
    "disk w 1 = disk ?u 1" "dwrites w = dwrites ?u" "bio_frame ?u w" "heldB w = heldB ?u - {l_start s}" "dirtyB w = dirtyB ?u"
    by metis
  note fw = bio_frame_log [OF w(6)]
  have run: "read_head s = Done w"
    using t(1) d n w(1) id(3) fr by (simp add: read_head_def Let_def header_n_def)
  have "nat (header_n ?d) \<le> length (lh_block s)" using n id(5) by simp
  note tk = take_header_blocks [OF this]
  have "idle w" using w t fw fr id same_cacheD [OF sc] header_blocks_nth [of 0 "nat (header_n ?d)" ?d "lh_block s"]
    by (simp add: idle_def)
  moreover have "wrote s [] w" using w t by (simp add: wrote_def)
  ultimately show ?thesis using run w(8) t(9) fw fr tk same_cacheD [OF sc] by auto
qed

section \<open>The logical disk\<close>

text \<open>
  What a disk means once its log is taken into account: a block listed in the committed header has
  the contents of its log block, every other block its own.
\<close>

definition logical :: "uint \<Rightarrow> (uint \<Rightarrow> block) \<Rightarrow> uint \<Rightarrow> block" where
  "logical st D b =
     (case find (\<lambda>j. header_list (D st) ! j = b) [0..<length (header_list (D st))] of
        Some j \<Rightarrow> D (st + of_nat j + 1)
      | None \<Rightarrow> D b)"

lemma logical_unlisted: "b \<notin> set (header_list (D st)) \<Longrightarrow> logical st D b = D b"
proof -
  assume "b \<notin> set (header_list (D st))"
  then have "find (\<lambda>j. header_list (D st) ! j = b) [0..<length (header_list (D st))] = None"
    by (auto simp: find_None_iff in_set_conv_nth)
  then show ?thesis by (simp add: logical_def)
qed

lemma logical_listed:
  assumes "distinct (header_list (D st))" and "j < length (header_list (D st))"
  shows "logical st D (header_list (D st) ! j) = D (st + of_nat j + 1)"
proof -
  have "find (\<lambda>i. header_list (D st) ! i = header_list (D st) ! j) [0..<length (header_list (D st))] = Some j"
    using assms by (intro find_upt_unique) (auto simp: nth_eq_iff_index_eq)
  then show ?thesis by (simp add: logical_def)
qed

text \<open>A disk that carries a log of this geometry, with a header \<^verbatim>\<open>write_head\<close> could have written.\<close>

definition log_disk :: "uint \<Rightarrow> int \<Rightarrow> nat \<Rightarrow> (uint \<Rightarrow> block) \<Rightarrow> bool" where
  "log_disk st sz ds D \<longleftrightarrow> log_geom st sz ds \<and> (\<forall>b. length (D b) = BSIZE)
     \<and> sb_logstart (superblock_of (D 1)) = st \<and> sint (sb_nlog (superblock_of (D 1))) = sz
     \<and> 0 \<le> header_n (D st) \<and> header_n (D st) < sz \<and> entries_ok st sz ds (header_list (D st))"

lemma log_disk_home_writes:
  assumes "log_disk st sz ds D" and bs: "header_list (D st) = take n bs" and n: "n \<le> length bs"
    and D': "D' = apply_writes (take m (home_writes st bs D [0..<n])) D"
  shows "log_disk st sz ds D'" and "D' st = D st"
    and "\<And>b. \<not> in_log st sz b \<Longrightarrow> logical st D' b = logical st D b"
    and "n \<le> m \<Longrightarrow> \<not> in_log st sz b \<Longrightarrow> D' b = logical st D b"
proof -
  let ?ws = "home_writes st bs D [0..<n]"
  have g: "log_geom st sz ds" and ent: "entries_ok st sz ds (take n bs)" and lenD: "\<And>b. length (D b) = BSIZE"
    using assms(1) bs by (auto simp: log_disk_def)
  have dist: "distinct (take n bs)" using ent by (simp add: entries_ok_def)
  have fst_ws: "map fst ?ws = take n bs"
    using n by (intro nth_equalityI) (auto simp: home_writes_def)
  have sub: "fst ` set (take m ?ws) \<subseteq> set (take n bs)"
    using set_take_subset [of m ?ws] fst_ws by (metis image_mono set_map)
  have same: "D' b = D b" if "b \<notin> set (take n bs)" for b
    using apply_writes_other [of b "take m ?ws"] sub that D' by blast
  have stin: "in_log st sz st" using g by (auto simp: in_log_def log_geom_def)
  have logsame: "D' b = D b" if "in_log st sz b" for b
    using that ent by (intro same) (auto simp: entries_ok_def)
  show st: "D' st = D st" by (rule logsame [OF stin])
  have one: "D' 1 = D 1" using ent by (intro same) (auto simp: entries_ok_def)
  have dec: "D' b = D b \<or> (\<exists>j<n. b = bs ! j \<and> D' b = D (st + of_nat j + 1))" for b
  proof (cases "b \<in> fst ` set (take m ?ws)")
    case True
    then obtain d where d: "(b, d) \<in> set (take m ?ws)" by force
    have "distinct (map fst (take m ?ws))" using dist fst_ws by (metis distinct_take take_map)
    then have "D' b = d" using apply_writes_in d D' by metis
    moreover have "(b, d) \<in> set ?ws" using d by (rule in_set_takeD)
    ultimately show ?thesis by (auto simp: home_writes_def)
  next
    case False
    then show ?thesis using apply_writes_other D' by metis
  qed
  have len: "length (D' b) = BSIZE" for b using dec [of b] lenD by metis
  show "log_disk st sz ds D'" using assms(1) st one len by (simp add: log_disk_def)
  have lg: "logical st D (bs ! j) = D (st + of_nat j + 1)" if "j < n" for j
    using logical_listed [of D st j] dist bs that n by simp
  show L: "logical st D' b = logical st D b" if b: "\<not> in_log st sz b" for b
  proof (cases "b \<in> set (take n bs)")
    case True
    then obtain j where j: "j < n" "b = bs ! j" using n by (auto simp: in_set_conv_nth)
    have "in_log st sz (st + of_nat j + 1)"
      using log_block_facts(2) [OF g] entries_ok_nth(4) [OF ent j(1) n] by blast
    then show ?thesis
      using logical_listed [of D' st j] dist bs j n st lg [OF j(1)] logsame by simp
  next
    case False
    then show ?thesis using logical_unlisted bs st same by metis
  qed
  show "D' b = logical st D b" if m: "n \<le> m" and b: "\<not> in_log st sz b"
  proof (cases "b \<in> set (take n bs)")
    case True
    then obtain j where j: "j < n" "b = bs ! j" using n by (auto simp: in_set_conv_nth)
    have "take m ?ws = ?ws" using m by (simp add: home_writes_def)
    moreover have "(b, D (st + of_nat j + 1)) \<in> set ?ws" using j by (auto simp: home_writes_def)
    ultimately have "D' b = D (st + of_nat j + 1)" using apply_writes_in dist fst_ws D' by metis
    then show ?thesis using lg j by simp
  next
    case False
    then show ?thesis using logical_unlisted bs same by metis
  qed
qed

text \<open>Writing the header makes a log; clearing it forgets one.\<close>

lemma log_disk_clear:
  assumes "log_disk st sz ds D" and "length bs = LOGSIZE" and D': "D' = D(st := put_header 0 bs (D st))"
  shows "log_disk st sz ds D'" and "header_list (D' st) = []" and "header_n (D' st) = 0"
    and "\<And>b. b \<noteq> st \<Longrightarrow> logical st D' b = D b"
proof -
  have l: "length (D st) = BSIZE" and g: "log_geom st sz ds" using assms(1) by (auto simp: log_disk_def)
  note p = put_header_decode [OF l, of 0 bs]
  show h: "header_list (D' st) = []" and "header_n (D' st) = 0" using p D' by simp_all
  have "1 \<noteq> st" using g by (auto simp: log_geom_def)
  then show "log_disk st sz ds D'" using assms(1) D' p by (auto simp: log_disk_def entries_ok_def)
  show "logical st D' b = D b" if "b \<noteq> st" for b using logical_unlisted [of b D' st] h that D' by simp
qed

section \<open>Recovery\<close>

text \<open>The kernel's memory after a reboot: an empty cache and zeroed log fields over the surviving disk.\<close>

definition boot :: "(uint \<Rightarrow> block) \<Rightarrow> nat \<Rightarrow> int \<Rightarrow> lstate" where
  "boot D ds pid = binit \<lparr>disk = \<lambda>_. D, disksize = ds, dwrites = [], bufs = [], mru = [], curpid = pid,
     l_start = 0, l_size = 0, outstanding = 0, committing = False, l_dev = 0, lh_n = 0,
     lh_block = replicate LOGSIZE 0\<rparr>"

lemma boot_simps [simp]:
  "disk (boot D ds pid) = (\<lambda>_. D)" "disksize (boot D ds pid) = ds" "dwrites (boot D ds pid) = []"
  "outstanding (boot D ds pid) = 0" "committing (boot D ds pid) = False"
  "lh_block (boot D ds pid) = replicate LOGSIZE 0"
  by (simp_all add: boot_def binit_def)

lemma boot_cache:
  assumes "\<And>b. length (D b) = BSIZE"
  shows "bio_inv (boot D ds pid)" and "heldB (boot D ds pid) = {}" and "dirtyB (boot D ds pid) = {}"
    and "view (boot D ds pid) 1 = D"
  using assms unfolding boot_def by (subst binit_inv; simp)+

lemma recover_from_log_spec:
  assumes id: "idle s" and dirty: "dirtyB s = {}"
    and ld: "log_disk (l_start s) (l_size s) (disksize s) (disk s 1)"
  obtains u ws where "recover_from_log s = Done u" and "idle u" and "dirtyB u = {}" and "lh_n u = 0"
    and "l_start u = l_start s" and "l_size u = l_size s" and "disksize u = disksize s"
    and "outstanding u = outstanding s" and "committing u = committing s" and "wrote s ws u"
    and "header_n (disk u 1 (l_start s)) = 0" and "log_disk (l_start s) (l_size s) (disksize s) (disk u 1)"
    and "\<And>b. \<not> in_log (l_start s) (l_size s) b \<Longrightarrow> disk u 1 b = logical (l_start s) (disk s 1) b"
    and "\<And>k. log_disk (l_start s) (l_size s) (disksize s) (apply_writes (take k ws) (disk s 1))"
    and "\<And>k b. \<not> in_log (l_start s) (l_size s) b \<Longrightarrow>
      logical (l_start s) (apply_writes (take k ws) (disk s 1)) b = logical (l_start s) (disk s 1) b"
proof -
  let ?st = "l_start s" and ?sz = "l_size s" and ?D = "disk s 1"
  have h: "header_n (?D ?st) < ?sz" "0 \<le> header_n (?D ?st)" "?sz \<le> int LOGSIZE"
    using ld by (auto simp: log_disk_def log_geom_def)
  then have "header_n (?D ?st) \<le> int LOGSIZE" by linarith
  from read_head_spec [OF id dirty this] obtain t where t: "read_head s = Done t" "idle t" "dirtyB t = {}"
    "wrote s [] t" "l_start t = ?st" "l_size t = ?sz" "disksize t = disksize s" "lh_n t = header_n (?D ?st)"
    "take (nat (lh_n t)) (lh_block t) = header_list (?D ?st)" "outstanding t = outstanding s" "committing t = committing s"
    by blast
  let ?n = "nat (lh_n t)" and ?bs = "lh_block t"
  have Dt: "disk t 1 = ?D" using t(4) by (simp add: wrote_def)
  have n: "?n \<le> LOGSIZE" "?n \<le> length ?bs" using h t(2,8) by (auto simp: idle_def)
  have ok: "entries_ok (l_start t) (l_size t) (disksize t) (take ?n ?bs)"
    using ld t by (simp add: log_disk_def)
  obtain v where v: "install_trans t = Done v" "idle v" "dirtyB v = {}" "bio_frame t v"
    "wrote t (home_writes ?st ?bs ?D [0..<?n]) v"
    using install_trans_loop_spec [OF t(2) _ n(1) ok, of 0 ?n "{}"] t(3,5) Dt
    unfolding install_trans_def by auto
  note fv = bio_frame_log [OF v(4)]
  let ?w = "v\<lparr>lh_n := 0\<rparr>" and ?hw = "home_writes ?st ?bs ?D [0..<?n]"
  have idw: "idle ?w" "l_start ?w \<notin> dirtyB ?w" "card (dirtyB ?w) < NBUF" using v(2,3) by (auto simp: idle_def NBUF_def)
  let ?x = "(?st, put_header 0 ?bs (disk v 1 ?st))"
  obtain u where u: "write_head ?w = Done u" "idle u" "dirtyB u = {}" "bio_frame ?w u" "wrote ?w [?x] u"
    using write_head_spec [OF idw] v(3) fv t(5) by auto
  note fu = bio_frame_log [OF u(4)]
  have Dv: "disk v 1 = apply_writes (take (length ?hw) ?hw) ?D" using v(5) Dt by (simp add: wrote_def)
  have "wrote v [?x] u" using u(5) by (simp add: wrote_def)
  then have w: "wrote s (?hw @ [?x]) u"
    using wrote_trans [OF wrote_trans [OF t(4) v(5)]] by simp
  have run: "recover_from_log s = Done u" using t(1) v(1) u(1) by (simp add: recover_from_log_def)
  note hb = log_disk_home_writes [OF ld t(9) [symmetric] n(2), OF refl]
  have lenhw: "length ?hw = ?n" by (simp add: home_writes_def)
  have lv: "log_disk ?st ?sz (disksize s) (disk v 1)" unfolding Dv by (rule hb(1))
  have Du: "disk u 1 = (disk v 1)(?st := put_header 0 ?bs (disk v 1 ?st))" using u(5) by (simp add: wrote_def)
  have lb: "length ?bs = LOGSIZE" using t(2) by (simp add: idle_def)
  note cl = log_disk_clear [OF lv lb Du]
  have nst: "b \<noteq> ?st" if "\<not> in_log ?st ?sz b" for b
    using that ld by (auto simp: in_log_def log_disk_def log_geom_def)
  have full: "disk v 1 b = logical ?st ?D b" if "\<not> in_log ?st ?sz b" for b
    unfolding Dv by (rule hb(4)) (use lenhw that in simp_all)
  have pre: "log_disk ?st ?sz (disksize s) (apply_writes (take k (?hw @ [?x])) ?D) \<and>
    (\<forall>b. \<not> in_log ?st ?sz b \<longrightarrow> logical ?st (apply_writes (take k (?hw @ [?x])) ?D) b = logical ?st ?D b)" for k
  proof (cases "k \<le> length ?hw")
    case True
    then show ?thesis using hb(1,3) by simp
  next
    case False
    then have "take k (?hw @ [?x]) = ?hw @ [?x]" by simp
    then have "apply_writes (take k (?hw @ [?x])) ?D = disk u 1" using w by (simp add: wrote_def)
    then show ?thesis using cl(1,4) full nst by auto
  qed
  show thesis
  proof (rule that [OF run u(2,3) _ _ _ _ _ _ w cl(3,1)])
    show "disk u 1 b = logical ?st ?D b" if "\<not> in_log ?st ?sz b" for b
      using Du full [OF that] nst [OF that] by simp
  qed (use pre fu fv t in auto)
qed

lemma readsb_spec:
  assumes "bio_inv s" and "heldB s = {}" and "dirtyB s = {}" and "1 < disksize s"
  obtains t where "readsb 1 s = Done (superblock_of (disk s 1 1), t)" and "bio_inv t" and "heldB t = {}"
    and "dirtyB t = {}" and "disk t 1 = disk s 1" and "dwrites t = dwrites s" and "bio_frame s t"
proof -
  have "unat (1 :: uint) < disksize s" "(1 :: uint) \<notin> dirtyB s" "card (dirtyB s) < NBUF"
    using assms(3,4) by (simp_all add: NBUF_def)
  from bc.peek_block [OF assms(1,2) this, of superblock_of] view_clean [OF assms(1), of 1] assms(2,3) that
  show thesis unfolding readsb_def by auto
qed

theorem initlog_spec:
  assumes ld: "log_disk st sz ds D"
  obtains u ws where "initlog 1 (boot D ds pid) = Done u" and "idle u" and "dirtyB u = {}" and "lh_n u = 0"
    and "l_start u = st" and "l_size u = sz" and "disksize u = ds"
    and "outstanding u = 0" and "\<not> committing u" and "dwrites u = map (Pair 1) ws" and "disk u 1 = apply_writes ws D"
    and "header_n (disk u 1 st) = 0" and "log_disk st sz ds (disk u 1)"
    and "\<And>b. \<not> in_log st sz b \<Longrightarrow> disk u 1 b = logical st D b"
    and "\<And>k. log_disk st sz ds (apply_writes (take k ws) D)"
    and "\<And>k b. \<not> in_log st sz b \<Longrightarrow> logical st (apply_writes (take k ws) D) b = logical st D b"
proof -
  let ?s = "boot D ds pid"
  have len: "\<And>b. length (D b) = BSIZE" and g: "log_geom st sz ds"
    and sb: "sb_logstart (superblock_of (D 1)) = st" "sint (sb_nlog (superblock_of (D 1))) = sz"
    using ld by (auto simp: log_disk_def)
  have "1 < disksize ?s" using g by (auto simp: log_geom_def)
  from readsb_spec [OF boot_cache(1,2,3) [OF len] this]
  obtain t where t: "readsb 1 ?s = Done (superblock_of (D 1), t)" "bio_inv t" "heldB t = {}"
    "dirtyB t = {}" "disk t 1 = D" "dwrites t = []" "bio_frame ?s t"
    by auto
  let ?t = "t\<lparr>l_start := st, l_size := sz, l_dev := 1\<rparr>"
  note fr = bio_frame_log [OF t(7)]
  have id: "idle ?t" "dirtyB ?t = {}" using t fr g by (auto simp: idle_def)
  have ldt: "log_disk (l_start ?t) (l_size ?t) (disksize ?t) (disk ?t 1)" using t(5) fr ld by simp
  have run: "initlog 1 ?s = recover_from_log ?t"
    using t(1) sb by (simp add: initlog_def BSIZE_def LOGSIZE_def MAXOPBLOCKS_def)
  show thesis
  proof (rule recover_from_log_spec [OF id ldt], goal_cases)
    case (1 u ws)
    have w: "dwrites u = map (Pair 1) ws" "disk u 1 = apply_writes ws D"
      using 1(10) t(5,6) by (simp_all add: wrote_def)
    show thesis
      using 1(1-9) 1(11-15) t(5) fr run w by (intro that [of u ws]) auto
  qed
qed

section \<open>Commit\<close>

text \<open>
  The invariant of the log: the blocks recorded in the in-memory header are exactly the blocks pinned
  in the cache, each of them once, none of them in the log; the header on disk is empty.
\<close>

definition log_inv :: "'a lstate_scheme \<Rightarrow> bool" where
  "log_inv s \<longleftrightarrow> bio_inv s \<and> l_dev s = 1 \<and> length (lh_block s) = LOGSIZE \<and> 0 \<le> lh_n s
     \<and> entries_ok (l_start s) (l_size s) (disksize s) (take (nat (lh_n s)) (lh_block s)) \<and> lh_n s \<le> int LOGSIZE
     \<and> dirtyB s = set (take (nat (lh_n s)) (lh_block s))
     \<and> log_disk (l_start s) (l_size s) (disksize s) (disk s 1) \<and> header_n (disk s 1 (l_start s)) = 0"

lemma log_inv_idle: "log_inv s \<Longrightarrow> heldB s = {} \<Longrightarrow> idle s"
  by (simp add: log_inv_def idle_def log_disk_def)

text \<open>The sectors a commit writes, in order.\<close>

definition commit_writes :: "'a lstate_scheme \<Rightarrow> (uint \<times> block) list" where
  "commit_writes s =
     (let st = l_start s; n = nat (lh_n s); bs = lh_block s; D = view s 1; H = put_header (lh_n s) bs (disk s 1 st)
      in log_writes st bs D [0..<n] @ [(st, H)] @ map (\<lambda>j. (bs ! j, D (bs ! j))) [0..<n] @ [(st, put_header 0 bs H)])"

text \<open>The log blocks and the home blocks, as they stand after \<^verbatim>\<open>write_log\<close> and \<^verbatim>\<open>write_head\<close>.\<close>

lemma log_written:
  assumes inv: "log_inv s" and hd: "heldB s = {}"
    and D1: "D1 = apply_writes (take m (log_writes (l_start s) (lh_block s) (view s 1) [0..<nat (lh_n s)])) (disk s 1)"
    and D2: "D2 = D1(l_start s := put_header (lh_n s) (lh_block s) (disk s 1 (l_start s)))"
  shows "log_disk (l_start s) (l_size s) (disksize s) D1" and "D1 (l_start s) = disk s 1 (l_start s)"
    and "\<And>b. \<not> in_log (l_start s) (l_size s) b \<Longrightarrow> D1 b = disk s 1 b"
    and "log_disk (l_start s) (l_size s) (disksize s) D2"
    and "header_list (D2 (l_start s)) = take (nat (lh_n s)) (lh_block s)"
    and "\<And>j. nat (lh_n s) \<le> m \<Longrightarrow> j < nat (lh_n s) \<Longrightarrow> D2 (l_start s + of_nat j + 1) = view s 1 (lh_block s ! j)"
proof -
  let ?st = "l_start s" and ?sz = "l_size s" and ?n = "nat (lh_n s)" and ?bs = "lh_block s"
  let ?ws = "log_writes ?st ?bs (view s 1) [0..<?n]"
  have i: "bio_inv s" "length ?bs = LOGSIZE" "0 \<le> lh_n s" "lh_n s \<le> int LOGSIZE"
    "entries_ok ?st ?sz (disksize s) (take ?n ?bs)" "log_disk ?st ?sz (disksize s) (disk s 1)"
    and g: "log_geom ?st ?sz (disksize s)" and h: "header_n (disk s 1 ?st) = 0"
    using inv by (auto simp: log_inv_def log_disk_def)
  have n: "?n \<le> length ?bs" using i(2,4) by simp
  have j: "int j < ?sz - 1" if "j < ?n" for j using entries_ok_nth(4) [OF i(5) that n] .
  have sub: "in_log ?st ?sz b \<and> b \<noteq> ?st" if "b \<in> fst ` set (take m ?ws)" for b
  proof -
    have "b \<in> fst ` set ?ws" using that set_take_subset [of m ?ws] by blast
    then show ?thesis using log_block_facts(2,3) [OF g j] by (auto simp: log_writes_def)
  qed
  show st: "D1 ?st = disk s 1 ?st" using sub apply_writes_other D1 by metis
  show other: "D1 b = disk s 1 b" if "\<not> in_log ?st ?sz b" for b using sub that apply_writes_other D1 by metis
  have dist: "distinct (map fst ?ws)"
    using log_block_facts(4) [OF g j j] by (auto simp: log_writes_def distinct_map inj_on_def)
  have len: "length (D1 b) = BSIZE" for b
  proof (cases "b \<in> fst ` set (take m ?ws)")
    case True
    then obtain d where d: "(b, d) \<in> set (take m ?ws)" by force
    have "distinct (map fst (take m ?ws))" using dist by (metis distinct_take take_map)
    then have "D1 b = d" using apply_writes_in d D1 by metis
    moreover have "(b, d) \<in> set ?ws" using d by (rule in_set_takeD)
    ultimately obtain k where "k < ?n" "D1 b = view s 1 (?bs ! k)" by (auto simp: log_writes_def)
    then show ?thesis using view_length [OF i(1)] by simp
  next
    case False
    then show ?thesis using apply_writes_other D1 bio_invD(6) [OF i(1)] by metis
  qed
  have one: "\<not> in_log ?st ?sz 1" "1 \<noteq> ?st" using g by (auto simp: in_log_def log_geom_def)
  show "log_disk ?st ?sz (disksize s) D1" using i(6) st other [OF one(1)] len by (simp add: log_disk_def)
  note p = put_header_decode [OF bio_invD(6) [OF i(1)] i(3,4) n]
  show hl: "header_list (D2 ?st) = take ?n ?bs" using p(3) D2 by simp
  have "lh_n s < ?sz" using i(3,5) n unfolding entries_ok_def by (auto simp: min_def split: if_splits)
  then show "log_disk ?st ?sz (disksize s) D2"
    using i(3,5,6) other [OF one(1)] len p hl one D2 by (auto simp: log_disk_def)
  show "D2 (?st + of_nat k + 1) = view s 1 (?bs ! k)" if "?n \<le> m" "k < ?n" for k
  proof -
    have "(?st + of_nat k + 1, view s 1 (?bs ! k)) \<in> set ?ws" using that by (auto simp: log_writes_def)
    moreover have "take m ?ws = ?ws" using that by (simp add: log_writes_def)
    ultimately have "D1 (?st + of_nat k + 1) = view s 1 (?bs ! k)" using apply_writes_in [OF dist] D1 by metis
    then show ?thesis using log_block_facts(3) [OF g j [OF that(2)]] D2 by simp
  qed
qed

lemma log_inv_view:
  assumes "log_inv s" and "heldB s = {}" and "b \<notin> set (take (nat (lh_n s)) (lh_block s))"
  shows "view s 1 b = disk s 1 b"
  using assms view_clean [of s b] by (simp add: log_inv_def)

text \<open>Once the header is written the logical disk is the one the transaction built in the cache.\<close>

lemma logical_committed:
  assumes inv: "log_inv s" and hd: "heldB s = {}" and b: "\<not> in_log (l_start s) (l_size s) b"
    and D1: "D1 = apply_writes (log_writes (l_start s) (lh_block s) (view s 1) [0..<nat (lh_n s)]) (disk s 1)"
    and D2: "D2 = D1(l_start s := put_header (lh_n s) (lh_block s) (disk s 1 (l_start s)))"
  shows "logical (l_start s) D2 b = view s 1 b"
proof -
  let ?st = "l_start s" and ?n = "nat (lh_n s)" and ?bs = "lh_block s"
  have D1': "D1 = apply_writes (take ?n (log_writes ?st ?bs (view s 1) [0..<?n])) (disk s 1)"
    unfolding D1 by (simp add: log_writes_def)
  note lw = log_written [OF inv hd D1' D2]
  have dist: "distinct (take ?n ?bs)" and n: "?n \<le> length ?bs"
    using inv by (auto simp: log_inv_def entries_ok_def)
  show ?thesis
  proof (cases "b \<in> set (take ?n ?bs)")
    case True
    then obtain j where j: "j < ?n" "b = ?bs ! j" using n by (auto simp: in_set_conv_nth)
    then show ?thesis using logical_listed [of D2 ?st j] lw(5) lw(6) [OF order_refl j(1)] dist n by simp
  next
    case False
    have "b \<noteq> ?st" using b inv by (auto simp: in_log_def log_inv_def log_disk_def log_geom_def)
    then show ?thesis
      using logical_unlisted [of b D2 ?st] False lw(3) [OF b] lw(5) D2 log_inv_view [OF inv hd False] by simp
  qed
qed

lemma commit_run:
  assumes inv: "log_inv s" and hd: "heldB s = {}" and pos: "0 < lh_n s"
  obtains t where "commit s = Done t" and "idle t" and "dirtyB t = {}" and "lh_n t = 0"
    and "bio_frame (s\<lparr>lh_n := 0\<rparr>) t" and "wrote s (commit_writes s) t"
proof -
  let ?st = "l_start s" and ?sz = "l_size s" and ?n = "nat (lh_n s)" and ?bs = "lh_block s"
  have i: "idle s" "0 \<le> lh_n s" "lh_n s \<le> int LOGSIZE" "dirtyB s = set (take ?n ?bs)"
    "entries_ok ?st ?sz (disksize s) (take ?n ?bs)" "log_geom ?st ?sz (disksize s)" "length ?bs = LOGSIZE"
    using inv log_inv_idle [OF inv hd] by (auto simp: log_inv_def log_disk_def)
  have n: "?n \<le> LOGSIZE" using i(3) by simp
  let ?D1 = "apply_writes (log_writes ?st ?bs (view s 1) [0..<?n]) (disk s 1)"
  let ?H = "put_header (lh_n s) ?bs (disk s 1 ?st)"
  let ?D2 = "?D1(?st := ?H)"
  have D1: "?D1 = apply_writes (take ?n (log_writes ?st ?bs (view s 1) [0..<?n])) (disk s 1)"
    by (simp add: log_writes_def)
  note lw = log_written [OF inv hd D1 refl]
  obtain t1 where t1: "write_log s = Done t1" "idle t1" "dirtyB t1 = dirtyB s" "bio_frame s t1"
    "wrote s (log_writes ?st ?bs (view s 1) [0..<?n]) t1"
    using write_log_loop_spec [OF i(1) _ n i(5,4), of 0 ?n] unfolding write_log_def by auto
  note f1 = bio_frame_log [OF t1(4)]
  have E1: "disk t1 1 = ?D1" using t1(5) by (simp add: wrote_def)
  have "l_start t1 \<notin> dirtyB t1" "card (dirtyB t1) < NBUF"
    using i(4,5,6) t1(3) f1(1) card_dirty [OF i(5,6), of "dirtyB s"]
    by (auto simp: entries_ok_def in_log_def log_geom_def)
  from write_head_spec [OF t1(2) this] f1 i(2,3) E1 lw(2) obtain t2 where t2: "write_head t1 = Done t2" "idle t2"
    "dirtyB t2 = dirtyB s" "bio_frame t1 t2" "wrote t1 [(?st, ?H)] t2"
    using t1(3) by auto
  note f2 = bio_frame_log [OF t2(4)]
  have E2: "disk t2 1 = ?D2" using t2(5) E1 by (simp add: wrote_def)
  have "entries_ok (l_start t2) (l_size t2) (disksize t2) (take ?n (lh_block t2))"
    "dirtyB t2 = UNIV \<inter> set (drop 0 (take ?n (lh_block t2)))"
    using i(4,5) f1 f2 t2(3) by simp_all
  from install_trans_loop_spec [OF t2(2) _ n this(1) _ this(2), of ?n] f1 f2 E2
  obtain t3 where t3: "install_trans t2 = Done t3" "idle t3" "dirtyB t3 = {}" "bio_frame t2 t3"
    "wrote t2 (home_writes ?st ?bs ?D2 [0..<?n]) t3"
    unfolding install_trans_def by auto
  note f3 = bio_frame_log [OF t3(4)]
  have hw: "home_writes ?st ?bs ?D2 [0..<?n] = map (\<lambda>j. (?bs ! j, view s 1 (?bs ! j))) [0..<?n]"
    unfolding home_writes_def using lw(6) [OF order_refl] by simp
  have nth: "?n \<le> length ?bs" using n i(7) by simp
  have E3: "disk t3 1 ?st = ?H"
  proof -
    have "disk t3 1 = apply_writes (take ?n (home_writes ?st ?bs ?D2 [0..<?n])) ?D2"
      using t3(5) E2 by (simp add: wrote_def home_writes_def)
    from log_disk_home_writes(2) [OF lw(4,5) nth this] show ?thesis by simp
  qed
  let ?u = "t3\<lparr>lh_n := 0\<rparr>"
  have idu: "idle ?u" "l_start ?u \<notin> dirtyB ?u" "card (dirtyB ?u) < NBUF" using t3(2,3) by (auto simp: idle_def NBUF_def)
  obtain t4 where t4: "write_head ?u = Done t4" "idle t4" "dirtyB t4 = {}" "bio_frame ?u t4"
    "wrote ?u [(?st, put_header 0 ?bs ?H)] t4"
    using write_head_spec [OF idu] t3(3) f1 f2 f3 E3 by auto
  have "wrote t3 [(?st, put_header 0 ?bs ?H)] t4" using t4(5) by (simp add: wrote_def)
  from wrote_trans [OF t1(5) wrote_trans [OF t2(5) wrote_trans [OF t3(5) this]]]
  have w: "wrote s (commit_writes s) t4" by (simp add: commit_writes_def Let_def hw)
  have bm: "bstate.more (x\<lparr>lh_n := 0\<rparr>) = bstate.more (y\<lparr>lh_n := 0\<rparr>)" if "bstate.more x = bstate.more y"
    for x y :: "'a lstate_scheme" using that by (cases x; cases y) simp
  have fr: "bio_frame (s\<lparr>lh_n := 0\<rparr>) t4"
    using t1(4) t2(4) t3(4) t4(4) bm [of t3 s] by (simp add: bio_frame_def)
  show thesis
    using that [OF _ t4(2,3) _ fr w] t1(1) t2(1) t3(1) t4(1) pos bio_frame_log(6) [OF fr] by (simp add: commit_def)
qed

lemma commit_prefix:
  assumes inv: "log_inv s" and hd: "heldB s = {}" and D: "D = apply_writes (take k (commit_writes s)) (disk s 1)"
  shows "log_disk (l_start s) (l_size s) (disksize s) D"
    and "\<not> in_log (l_start s) (l_size s) b \<Longrightarrow>
      logical (l_start s) D b = (if k \<le> nat (lh_n s) then disk s 1 b else view s 1 b)"
proof -
  let ?st = "l_start s" and ?sz = "l_size s" and ?n = "nat (lh_n s)" and ?bs = "lh_block s"
  let ?lw = "log_writes ?st ?bs (view s 1) [0..<?n]" and ?H = "put_header (lh_n s) ?bs (disk s 1 ?st)"
  let ?D1 = "apply_writes ?lw (disk s 1)"
  let ?D2 = "?D1(?st := ?H)"
  let ?hw = "home_writes ?st ?bs ?D2 [0..<?n]" and ?x = "(?st, put_header 0 ?bs ?H)"
  have len: "length ?lw = ?n" "length ?hw = ?n" by (simp_all add: log_writes_def home_writes_def)
  have D1: "?D1 = apply_writes (take ?n ?lw) (disk s 1)" using len by simp
  note lw = log_written [OF inv hd D1 refl]
  have hw: "?hw = map (\<lambda>j. (?bs ! j, view s 1 (?bs ! j))) [0..<?n]"
    unfolding home_writes_def using lw(6) [OF order_refl] by simp
  have cw: "commit_writes s = ?lw @ [(?st, ?H)] @ ?hw @ [?x]" unfolding hw commit_writes_def Let_def by simp
  have nth: "?n \<le> length ?bs" and lb: "length ?bs = LOGSIZE" using inv by (auto simp: log_inv_def)
  have nst: "b \<noteq> ?st" if "\<not> in_log ?st ?sz b" for b
    using that inv by (auto simp: in_log_def log_inv_def log_disk_def log_geom_def)
  note vw = logical_committed [OF inv hd _ refl refl]
  consider (log) "k \<le> ?n" | (home) m where "k = ?n + 1 + m" "m \<le> ?n" | (all) "?n + 1 + ?n < k"
    by (metis Suc_eq_plus1 le_add_diff_inverse less_eq_Suc_le nat_add_left_cancel_less not_less)
  then have "log_disk ?st ?sz (disksize s) D \<and>
    (\<forall>b. \<not> in_log ?st ?sz b \<longrightarrow> logical ?st D b = (if k \<le> ?n then disk s 1 b else view s 1 b))"
  proof cases
    case log
    then have D': "D = apply_writes (take k ?lw) (disk s 1)" using D cw len by simp
    note lk = log_written [OF inv hd D' refl]
    have "header_list (D ?st) = []" using lk(2) inv by (simp add: header_list_def log_inv_def)
    then show ?thesis using lk(1,3) log logical_unlisted [of _ D ?st] by simp
  next
    case home
    then have D': "D = apply_writes (take m ?hw) ?D2" using D cw len by simp
    note hb = log_disk_home_writes [OF lw(4,5) nth D']
    show ?thesis using hb(1,3) vw home by simp
  next
    case all
    moreover have "length (commit_writes s) = ?n + 1 + ?n + 1" unfolding cw using len by simp
    ultimately have "take k (commit_writes s) = commit_writes s" by simp
    then have D': "D = (apply_writes (take ?n ?hw) ?D2)(?st := put_header 0 ?bs ?H)"
      using D cw len by simp
    note hb = log_disk_home_writes [OF lw(4,5) nth refl, where m = ?n]
    have H: "apply_writes (take ?n ?hw) ?D2 ?st = ?H" using hb(2) unfolding fun_upd_same .
    note cl = log_disk_clear [OF hb(1) lb, unfolded H, OF D']
    have "logical ?st D b = view s 1 b" if b: "\<not> in_log ?st ?sz b" for b
      using cl(4) [OF nst [OF b]] hb(4) [OF order_refl b] vw [OF b] by (rule trans [OF trans])
    then show ?thesis using cl(1) all by simp
  qed
  then show "log_disk ?st ?sz (disksize s) D"
    and "\<not> in_log ?st ?sz b \<Longrightarrow> logical ?st D b = (if k \<le> ?n then disk s 1 b else view s 1 b)"
    by auto
qed

section \<open>Adding a block to the transaction\<close>

lemma absorb_spec:
  "i + k \<le> length bs \<Longrightarrow> i \<le> absorb b i k bs \<and> absorb b i k bs \<le> i + k
     \<and> (absorb b i k bs < i + k \<longrightarrow> bs ! absorb b i k bs = b)
     \<and> (absorb b i k bs = i + k \<longrightarrow> b \<notin> set (take k (drop i bs)))"
proof (induction b i k bs rule: absorb.induct)
  case (2 b i k bs)
  have "take (Suc k) (drop i bs) = bs ! i # take k (drop (Suc i) bs)"
    using 2(2) by (simp add: Cons_nth_drop_Suc [symmetric])
  then show ?case using 2 by (cases "bs ! i = b") auto
qed simp

text \<open>
  What \<^verbatim>\<open>log_write\<close> does to a buffer the caller holds: the block joins the transaction (once) and its
  buffer is pinned.
\<close>

lemma log_write_spec:
  assumes inv: "log_inv s" and h: "holds s i b" and b: "\<not> in_log (l_start s) (l_size s) b" "b \<noteq> 1"
    and space: "lh_n s < int LOGSIZE" "lh_n s < l_size s - 1" and op: "0 < outstanding s"
  obtains t where "log_write i s = Done t" and "log_inv t" and "view t 1 = view s 1" and "disk t = disk s"
    and "dwrites t = dwrites s" and "heldB t = heldB s" and "dirtyB t = insert b (dirtyB s)"
    and "holds t = holds s" and "lh_n t = (if b \<in> dirtyB s then lh_n s else lh_n s + 1)"
    and "l_start t = l_start s" and "l_size t = l_size s" and "disksize t = disksize s" and "curpid t = curpid s"
    and "outstanding t = outstanding s" and "committing t = committing s" and "lstate.more t = lstate.more s"
proof -
  let ?n = "nat (lh_n s)" and ?bs = "lh_block s"
  have i: "bio_inv s" "l_dev s = 1" "length ?bs = LOGSIZE" "0 \<le> lh_n s" "dirtyB s = set (take ?n ?bs)"
    "entries_ok (l_start s) (l_size s) (disksize s) (take ?n ?bs)"
    "log_disk (l_start s) (l_size s) (disksize s) (disk s 1)" "header_n (disk s 1 (l_start s)) = 0"
    using inv by (auto simp: log_inv_def)
  have n: "?n < length ?bs" using space(1) i(3,4) by simp
  note hb = holds_buf [OF i(1) h]
  let ?j = "absorb b 0 ?n ?bs"
  have j: "?j \<le> ?n" "?j < ?n \<Longrightarrow> ?bs ! ?j = b" "?j = ?n \<Longrightarrow> b \<notin> set (take ?n ?bs)"
    using absorb_spec [of 0 ?n ?bs b] n by auto
  have mem: "b \<in> set (take ?n ?bs) \<longleftrightarrow> ?j \<noteq> ?n"
  proof
    assume "?j \<noteq> ?n"
    then have "?j < length (take ?n ?bs)" "take ?n ?bs ! ?j = b" using j n by auto
    then show "b \<in> set (take ?n ?bs)" by (metis nth_mem)
  qed (use j(3) in auto)
  let ?bs' = "?bs[?j := b]"
  define n' where "n' = (if int ?j = lh_n s then lh_n s + 1 else lh_n s)"
  let ?u = "s\<lparr>lh_block := ?bs', lh_n := n'\<rparr>"
  have sc: "same_cache s ?u" by (simp add: same_cache_def)
  note c = same_cacheD [OF sc]
  have run: "log_write i s = Done (pin i ?u)"
    using space op hb(3) by (auto simp: log_write_def pin_def Let_def n'_def)
  have pu: "bio_inv ?u" "holds ?u i b" using i(1) h c by auto
  note p = pin_contract [OF pu]
  have list: "take (nat n') ?bs' = (if b \<in> set (take ?n ?bs) then take ?n ?bs else take ?n ?bs @ [b])"
  proof (cases "?j = ?n")
    case True
    then show ?thesis using j(3) n i(4) by (simp add: n'_def nat_add_distrib take_Suc_conv_app_nth)
  next
    case False
    then have "?bs ! ?j = b" using j(1,2) by auto
    then have "?bs' = ?bs" by (metis list_update_id)
    then show ?thesis using False i(4) mem by (auto simp: n'_def)
  qed
  have n'_eq: "n' = (if b \<in> dirtyB s then lh_n s else lh_n s + 1)"
    using mem i(4,5) by (auto simp: n'_def)
  have ent: "entries_ok (l_start s) (l_size s) (disksize s) (take (nat n') ?bs')"
    using i(4,6) b hb(8) space(2) n unfolding list entries_ok_def by auto
  have "log_inv (pin i ?u)"
    using i p c ent list n'_eq space(1) bstate_more_cong [of "pin i ?u" ?u] by (auto simp: log_inv_def)
  then show thesis
    using that [OF run] p c n'_eq bstate_more_cong [of "pin i ?u" ?u] by (auto simp: fun_eq_iff)
qed

lemma brelse_log:
  assumes inv: "log_inv s" and h: "holds s i b" and clean: "b \<in> dirtyB s \<or> view s 1 b = disk s 1 b"
  obtains t where "brelse i s = Done t" and "log_inv t" and "view t 1 = view s 1" and "disk t 1 = disk s 1"
    and "dwrites t = dwrites s" and "heldB t = heldB s - {b}" and "dirtyB t = dirtyB s"
    and "\<And>j c. holds s j c \<Longrightarrow> c \<noteq> b \<Longrightarrow> holds t j c" and "bio_frame s t"
proof -
  have "bio_inv s" using inv by (simp add: log_inv_def)
  from bc.rl [OF this h clean] obtain t where t: "brelse i s = Done t" "bio_inv t" "view t 1 = view s 1"
    "disk t 1 = disk s 1" "dwrites t = dwrites s" "bio_frame s t" "heldB t = heldB s - {b}" "dirtyB t = dirtyB s"
    "\<forall>j c. holds s j c \<longrightarrow> c \<noteq> b \<longrightarrow> holds t j c"
    by blast
  moreover have "log_inv t" using inv t bio_frame_log [OF t(6)] by (simp add: log_inv_def)
  ultimately show thesis using that by blast
qed

lemma bread_log:
  assumes inv: "log_inv s" and b: "unat b < disksize s" "b \<notin> heldB s"
    and room: "b \<in> dirtyB s \<or> card (heldB s) + nat (lh_n s) < NBUF"
  obtains i t where "bread 1 b s = Done (i, t)" and "log_inv t" and "holds t i b"
    and "view t 1 = view s 1" and "disk t 1 = disk s 1" and "dwrites t = dwrites s" and "bio_frame s t"
    and "heldB t = insert b (heldB s)" and "dirtyB t = dirtyB s" and "\<And>j c. holds s j c \<Longrightarrow> holds t j c"
proof -
  have bi: "bio_inv s" and d: "dirtyB s = set (take (nat (lh_n s)) (lh_block s))"
    using inv by (auto simp: log_inv_def)
  have "card (dirtyB s) \<le> length (take (nat (lh_n s)) (lh_block s))" unfolding d by (rule card_length)
  then have "card (heldB s \<union> dirtyB s) \<le> card (heldB s) + nat (lh_n s)"
    using card_Un_le [of "heldB s" "dirtyB s"] by (simp add: le_trans)
  then have "b \<in> dirtyB s \<or> card (heldB s \<union> dirtyB s) < NBUF" using room by auto
  from bc.rd [OF bi b this] obtain i t where t: "bread 1 b s = Done (i, t)" "bio_inv t" "holds t i b"
    "view t 1 = view s 1" "disk t 1 = disk s 1" "dwrites t = dwrites s" "bio_frame s t"
    "heldB t = insert b (heldB s)" "dirtyB t = dirtyB s" "\<forall>j c. holds s j c \<longrightarrow> holds t j c"
    by blast
  moreover have "log_inv t" using inv t bio_frame_log [OF t(7)] by (simp add: log_inv_def)
  ultimately show thesis using that by blast
qed

lemma set_data_log:
  assumes inv: "log_inv s" and h: "holds s i b" and d: "length d = BSIZE"
  shows "log_inv (set_data i d s)" and "view (set_data i d s) 1 = (view s 1)(b := d)"
    and "heldB (set_data i d s) = heldB s" and "dirtyB (set_data i d s) = dirtyB s"
    and "holds (set_data i d s) = holds s"
proof -
  have bi: "bio_inv s" using inv by (simp add: log_inv_def)
  note c = set_data_contract [OF bi h d]
  show "log_inv (set_data i d s)"
    using inv c bio_frame_log [of s "set_data i d s"] by (simp add: log_inv_def)
  show "view (set_data i d s) 1 = (view s 1)(b := d)" "heldB (set_data i d s) = heldB s"
    "dirtyB (set_data i d s) = dirtyB s" "holds (set_data i d s) = holds s"
    using c by (auto simp: fun_eq_iff)
qed

text \<open>The idiom of the file system: read a block, change it, log it, release it.\<close>

definition log_update :: "uint \<Rightarrow> (block \<Rightarrow> block) \<Rightarrow> 'a lstate_scheme \<Rightarrow> 'a lstate_scheme outcome" where
  "log_update b f s =
     obind (bread 1 b s) (\<lambda>(bp, s).
       obind (log_write bp (set_data bp (f (b_data (bufs s ! bp))) s)) (\<lambda>s. brelse bp s))"

lemma log_update_spec:
  assumes inv: "log_inv s" and b: "unat b < disksize s" "b \<notin> heldB s" "\<not> in_log (l_start s) (l_size s) b" "b \<noteq> 1"
    and f: "\<And>d. length d = BSIZE \<Longrightarrow> length (f d) = BSIZE"
    and room: "card (heldB s) + nat (lh_n s) < NBUF" "lh_n s < l_size s - 1" and op: "0 < outstanding s"
  obtains t where "log_update b f s = Done t" and "log_inv t" and "view t 1 = (view s 1)(b := f (view s 1 b))"
    and "disk t 1 = disk s 1" and "dwrites t = dwrites s" and "heldB t = heldB s" and "dirtyB t = insert b (dirtyB s)"
    and "lh_n t = (if b \<in> dirtyB s then lh_n s else lh_n s + 1)"
    and "l_start t = l_start s" and "l_size t = l_size s" and "disksize t = disksize s"
    and "outstanding t = outstanding s" and "committing t = committing s" and "lstate.more t = lstate.more s" and "curpid t = curpid s"
    and "\<And>j c. holds s j c \<Longrightarrow> holds t j c"
proof -
  obtain i s1 where 1: "bread 1 b s = Done (i, s1)" "log_inv s1" "holds s1 i b" "view s1 1 = view s 1"
    "disk s1 1 = disk s 1" "dwrites s1 = dwrites s" "bio_frame s s1" "heldB s1 = insert b (heldB s)"
    "dirtyB s1 = dirtyB s" "\<And>j c. holds s j c \<Longrightarrow> holds s1 j c"
    using bread_log [OF inv b(1,2) disjI2 [OF room(1)]] by metis
  note f1 = bio_frame_log [OF 1(7)]
  have bi: "bio_inv s1" using 1(2) by (simp add: log_inv_def)
  have d: "b_data (bufs s1 ! i) = view s 1 b" using view_holds [OF bi 1(3)] 1(4) by simp
  have len: "length (f (view s 1 b)) = BSIZE" using f view_length [OF bi, of b] 1(4) by simp
  let ?s2 = "set_data i (f (view s 1 b)) s1"
  note s2 = set_data_log [OF 1(2,3) len]
  note f2 = bio_frame_log [OF set_data_frame(6) [of s1 i "f (view s 1 b)"]]
  have n: "lh_n s < int NBUF" using room(1) by linarith
  have "holds ?s2 i b" "\<not> in_log (l_start ?s2) (l_size ?s2) b" "lh_n ?s2 < int LOGSIZE" "lh_n ?s2 < l_size ?s2 - 1"
    "0 < outstanding ?s2"
    using s2(5) 1(3) b(3) f1 f2 room(2) op n by (auto simp: NBUF_def LOGSIZE_def MAXOPBLOCKS_def)
  from log_write_spec [OF s2(1) this(1,2) b(4) this(3-5)]
  obtain s3 where 3: "log_write i ?s2 = Done s3" "log_inv s3" "view s3 1 = view ?s2 1" "disk s3 = disk ?s2"
    "dwrites s3 = dwrites ?s2" "heldB s3 = heldB ?s2" "dirtyB s3 = insert b (dirtyB ?s2)" "holds s3 = holds ?s2"
    "lh_n s3 = (if b \<in> dirtyB ?s2 then lh_n ?s2 else lh_n ?s2 + 1)"
    "l_start s3 = l_start ?s2" "l_size s3 = l_size ?s2" "disksize s3 = disksize ?s2" "outstanding s3 = outstanding ?s2"
    "committing s3 = committing ?s2" "lstate.more s3 = lstate.more ?s2" "curpid s3 = curpid ?s2"
    by metis
  have "holds s3 i b" "b \<in> dirtyB s3" using 3(7,8) s2(5) 1(3) by auto
  from brelse_log [OF 3(2) this(1) disjI1 [OF this(2)]]
  obtain s4 where 4: "brelse i s3 = Done s4" "log_inv s4" "view s4 1 = view s3 1" "disk s4 1 = disk s3 1"
    "dwrites s4 = dwrites s3" "heldB s4 = heldB s3 - {b}" "dirtyB s4 = dirtyB s3"
    "\<And>j c. holds s3 j c \<Longrightarrow> c \<noteq> b \<Longrightarrow> holds s4 j c" "bio_frame s3 s4"
    by metis
  note f4 = bio_frame_log [OF 4(9)]
  have hb: "c \<noteq> b" if "holds s j c" for j c using holds_heldB [OF that] b(2) by auto
  show thesis
  proof (rule that)
    show "log_update b f s = Done s4" using 1(1) d 3(1) 4(1) by (simp add: log_update_def)
    show "heldB s4 = heldB s" using 4(6) 3(6) s2(3) 1(8) b(2) by auto
    show "holds s4 j c" if "holds s j c" for j c
      using 4(8) [of j c] 3(8) s2(5) 1(10) [OF that] hb [OF that] by simp
  qed (use 4 3 s2 1 f1 f2 f4 in auto)
qed

section \<open>Reserving space\<close>

text \<open>
  The protocol of \<^verbatim>\<open>begin_op\<close>, \<^verbatim>\<open>log_write\<close> and \<^verbatim>\<open>end_op\<close> as concurrent system calls use it: \<open>left\<close> is,
  for every call inside a transaction, how many more blocks it may write of the \<open>MAXOPBLOCKS\<close> it is
  allowed.
\<close>

inductive log_calls :: "lstate \<Rightarrow> nat list \<Rightarrow> bool" where
  init: "lh_n s = 0 \<Longrightarrow> outstanding s = 0 \<Longrightarrow> log_calls s []"
| enter: "log_calls s left \<Longrightarrow> begin_op s = Done t \<Longrightarrow> log_calls t (MAXOPBLOCKS # left)"
| call: "log_calls s (xs @ Suc m # ys) \<Longrightarrow> log_write i s = Done t \<Longrightarrow> log_calls t (xs @ m # ys)"
| rest: "log_calls s left \<Longrightarrow> lh_n t = lh_n s \<Longrightarrow> outstanding t = outstanding s \<Longrightarrow> log_calls t left"
| leave: "log_calls s (xs @ m # ys) \<Longrightarrow> end_op s = Done t \<Longrightarrow> log_calls t (xs @ ys)"

lemma write_head_more: "write_head s = Done t \<Longrightarrow> bio_frame s t"
  unfolding write_head_def
  by (auto simp: obind_eq_Done_iff dest!: bread_more bwrite_more brelse_more simp: bio_frame_def)

lemma commit_count:
  assumes "commit s = Done t" and "0 \<le> lh_n s"
  shows "lh_n t = 0 \<and> outstanding t = outstanding s"
proof (cases "0 < lh_n s")
  case False
  then show ?thesis using assms by (auto simp: commit_def)
next
  case True
  have wl: "outstanding u = outstanding s" if "write_log_loop i k s = Done u" for i k s u
    using that
  proof (induction k arbitrary: i s)
    case (Suc k)
    then show ?case
      by (auto simp: obind_eq_Done_iff dest!: bread_more bwrite_more brelse_more)
        (metis bio_frame_log(3) bio_frame_trans set_data_frame(6))
  qed simp
  have il: "outstanding u = outstanding s" if "install_trans_loop i k s = Done u" for i k s u
    using that
  proof (induction k arbitrary: i s)
    case (Suc k)
    then show ?case
      by (auto simp: obind_eq_Done_iff dest!: bread_more bwrite_more brelse_more)
        (metis bio_frame_log(3) bio_frame_trans set_data_frame(6))
  qed simp
  obtain a b c where "write_log s = Done a" "write_head a = Done b" "install_trans b = Done c"
    "write_head (c\<lparr>lh_n := 0\<rparr>) = Done t"
    using assms True by (auto simp: commit_def obind_eq_Done_iff)
  then show ?thesis
    using wl il bio_frame_log(3,6) [OF write_head_more] by (fastforce simp: write_log_def install_trans_def)
qed

lemma sum_list_bound: "(\<And>m. m \<in> set ms \<Longrightarrow> m \<le> (k :: nat)) \<Longrightarrow> sum_list ms \<le> k * length ms"
  by (induction ms) force+

lemma log_calls_reserved:
  "log_calls s left \<Longrightarrow>
     0 \<le> lh_n s \<and> outstanding s = int (length left) \<and> lh_n s + int (sum_list left) \<le> int LOGSIZE
     \<and> (\<forall>m\<in>set left. m \<le> MAXOPBLOCKS)"
proof (induction rule: log_calls.induct)
  case (enter s left t)
  then have "\<not> int LOGSIZE < lh_n s + (outstanding s + 1) * int MAXOPBLOCKS" "t = s\<lparr>outstanding := outstanding s + 1\<rparr>"
    by (auto simp: begin_op_def split: if_splits)
  moreover have "int (sum_list left) \<le> int (MAXOPBLOCKS * length left)"
    using sum_list_bound [of left MAXOPBLOCKS] enter.IH by (simp only: of_nat_le_iff)
  ultimately show ?case using enter.IH by (simp add: algebra_simps)
next
  case (call s xs m ys i t)
  then have "lh_n t \<le> lh_n s + 1 \<and> 0 \<le> lh_n t \<and> outstanding t = outstanding s"
    by (auto simp: log_write_def Let_def upd_buf_def split: if_splits)
  then show ?case using call.IH by auto
next
  case (leave s xs m ys t)
  let ?s = "s\<lparr>outstanding := outstanding s - 1, committing := True\<rparr>"
  consider "outstanding s = 1" "\<exists>u. commit ?s = Done u \<and> t = u\<lparr>committing := False\<rparr>"
    | "t = s\<lparr>outstanding := outstanding s - 1\<rparr>"
    using leave.hyps(2) by (auto simp: end_op_def Let_def obind_eq_Done_iff split: if_splits)
  then show ?case
  proof cases
    case 1
    then obtain u where u: "commit ?s = Done u" "t = u\<lparr>committing := False\<rparr>" by blast
    have "lh_n u = 0 \<and> outstanding u = 0" using commit_count [OF u(1)] 1(1) leave.IH by simp
    then show ?thesis using u(2) 1(1) leave.IH by (auto simp: LOGSIZE_def)
  next
    case 2
    then show ?thesis using leave.IH by auto
  qed
qed auto

section \<open>Properties\<close>

text \<open>The layout \<^verbatim>\<open>mkfs\<close> gives the disk (1000 blocks, the log in blocks 2 to 31), all data zero.\<close>

definition sample_disk :: "uint \<Rightarrow> block" where
  "sample_disk b = (if b = 1 then put32 12 30 (put32 16 2 (replicate BSIZE 0)) else replicate BSIZE 0)"

lemma sample_log_disk: "log_disk 2 30 1000 sample_disk"
proof -
  have "get32 0 (replicate BSIZE 0) = 0" by (simp add: get32_def BSIZE_def)
  then have h: "header_n (sample_disk 2) = 0" by (simp add: sample_disk_def header_n_def)
  then have "header_list (sample_disk 2) = []" by (simp add: header_list_def)
  moreover have "log_geom 2 30 1000" by (simp add: log_geom_def LOGSIZE_def MAXOPBLOCKS_def)
  moreover have "length (sample_disk b) = BSIZE" for b by (simp add: sample_disk_def)
  moreover have "sb_logstart (superblock_of (sample_disk 1)) = 2" "sb_nlog (superblock_of (sample_disk 1)) = 30"
    by (simp_all add: superblock_of_def sample_disk_def BSIZE_def)
  ultimately show ?thesis using h by (simp add: log_disk_def entries_ok_def)
qed

text \<open>
  C1. Commit is atomic.  Take any state in which a transaction has been built in the cache and \<^verbatim>\<open>commit\<close>
  is called.  It completes; and if the machine stops after any number \<open>k\<close> of the sector writes it
  performs, then booting from the disk left behind and running \<^verbatim>\<open>initlog\<close> gives a disk on which every
  block outside the log is as it was before the transaction (if the header had not reached the disk,
  \<open>k \<le> n\<close>) or every block is as the transaction left it (otherwise), with an empty log.
\<close>

theorem commit_crash_atomic:
  assumes "log_inv s" and "heldB s = {}" and "0 < lh_n s"
  shows "\<exists>t ws. commit s = Done t \<and> dwrites t = dwrites s @ map (Pair 1) ws \<and> log_inv t \<and> heldB t = {} \<and> lh_n t = 0
    \<and> (\<forall>b. \<not> in_log (l_start s) (l_size s) b \<longrightarrow> disk t 1 b = view s 1 b \<and> view t 1 b = view s 1 b)
    \<and> (\<forall>k. \<exists>u. initlog 1 (boot (apply_writes (take k ws) (disk s 1)) (disksize s) pid) = Done u
          \<and> header_n (disk u 1 (l_start s)) = 0
          \<and> (\<forall>b. \<not> in_log (l_start s) (l_size s) b \<longrightarrow>
               disk u 1 b = (if k \<le> nat (lh_n s) then disk s 1 b else view s 1 b)))"
proof -
  let ?st = "l_start s" and ?sz = "l_size s"
  obtain t where t: "commit s = Done t" "idle t" "dirtyB t = {}" "lh_n t = 0" "bio_frame (s\<lparr>lh_n := 0\<rparr>) t"
    "wrote s (commit_writes s) t"
    using commit_run [OF assms] by blast
  note fr = bio_frame_log [OF t(5)]
  let ?m = "length (commit_writes s)"
  have Dt: "disk t 1 = apply_writes (take ?m (commit_writes s)) (disk s 1)" using t(6) by (simp add: wrote_def)
  note cp = commit_prefix [OF assms(1,2) Dt]
  have m: "\<not> ?m \<le> nat (lh_n s)" by (simp add: commit_writes_def log_writes_def Let_def)
  have bt: "bio_inv t" "heldB t = {}" using t(2) by (simp_all add: idle_def)
  have vt: "view t 1 b = disk t 1 b" for b using view_clean [OF bt(1)] bt(2) t(3) by simp
  let ?H = "put_header (lh_n s) (lh_block s) (disk s 1 ?st)"
  have E: "disk t 1 ?st = put_header 0 (lh_block s) ?H" using Dt by (simp add: commit_writes_def Let_def)
  have "length ?H = BSIZE"
    using assms(1) by (intro put_header_decode(1)) (auto simp: log_inv_def bio_invD)
  then have h0: "header_n (disk t 1 ?st) = 0" using put_header_decode(2) [of ?H 0] E by simp
  have "log_inv t"
    using t(2,3,4) fr cp(1) h0 assms(1) by (simp add: log_inv_def idle_def entries_ok_def log_disk_def log_geom_def)
  moreover have "disk t 1 b = view s 1 b" if b: "\<not> in_log ?st ?sz b" for b
    using cp(2) [OF b] m logical_unlisted [of b "disk t 1" ?st] h0 by (simp add: header_list_def)
  moreover have "\<exists>u. initlog 1 (boot (apply_writes (take k (commit_writes s)) (disk s 1)) (disksize s) pid) = Done u
      \<and> header_n (disk u 1 ?st) = 0
      \<and> (\<forall>b. \<not> in_log ?st ?sz b \<longrightarrow> disk u 1 b = (if k \<le> nat (lh_n s) then disk s 1 b else view s 1 b))" for k
  proof -
    note cpk = commit_prefix [OF assms(1,2) refl, where k = k]
    show ?thesis by (rule initlog_spec [OF cpk(1), of pid]) (use cpk(2) in auto)
  qed
  ultimately show ?thesis using t(1,4,6) bt vt unfolding wrote_def by metis
qed

text \<open>
  C2. Recovery is idempotent and itself safe against crashes.  From any disk with a well-formed log,
  \<^verbatim>\<open>initlog\<close> completes without a panic, gives every block outside the log its logical contents (the
  committed log block if the header lists the block, its own otherwise) and empties the log; if the
  machine stops after any number \<open>k\<close> of the writes recovery performs, a second recovery gives the
  same contents.
\<close>

theorem recovery_idempotent:
  assumes "log_disk st sz ds D"
  shows "\<exists>u ws. initlog 1 (boot D ds pid) = Done u \<and> dwrites u = map (Pair 1) ws \<and> log_inv u
    \<and> outstanding u = 0 \<and> lh_n u = 0
    \<and> (\<forall>b. \<not> in_log st sz b \<longrightarrow> disk u 1 b = logical st D b)
    \<and> (\<forall>k. \<exists>v. initlog 1 (boot (apply_writes (take k ws) D) ds pid) = Done v
          \<and> (\<forall>b. \<not> in_log st sz b \<longrightarrow> disk v 1 b = logical st D b))"
proof (rule initlog_spec [OF assms, of pid], goal_cases)
  case (1 u ws)
  have "log_inv u" using 1 by (simp add: log_inv_def idle_def entries_ok_def log_disk_def log_geom_def)
  moreover have "\<exists>v. initlog 1 (boot (apply_writes (take k ws) D) ds pid) = Done v
      \<and> (\<forall>b. \<not> in_log st sz b \<longrightarrow> disk v 1 b = logical st D b)" for k
    by (rule initlog_spec [OF 1(15) [of k], of pid]) (use 1(16) in auto)
  ultimately show ?case using 1(1,4,8,10,14) by blast
qed

theorem recovery_idempotent_witness:
  "\<exists>u. initlog 1 (boot sample_disk 1000 1) = Done u \<and> (\<forall>b. \<not> in_log 2 30 b \<longrightarrow> disk u 1 b = logical 2 sample_disk b)"
  using recovery_idempotent [OF sample_log_disk, of 1] by blast



text \<open>
  The reservation of \<^verbatim>\<open>begin_op\<close> is against \<open>LOGSIZE\<close> blocks, the check in \<^verbatim>\<open>log_write\<close> against
  \<^verbatim>\<open>log.size - 1\<close>.  \<^verbatim>\<open>mkfs\<close> makes a log of \<open>LOGSIZE\<close> blocks, header included, so three admitted
  calls may together be one block short: the last of their \<open>3 * MAXOPBLOCKS\<close> writes panics.
\<close>

lemma log_write_short_by_one:
  assumes "l_size s = int LOGSIZE" and "lh_n s = int (3 * MAXOPBLOCKS) - 1"
  shows "log_write i s = Panic ''too big a transaction''"
  using assms by (simp add: log_write_def LOGSIZE_def MAXOPBLOCKS_def)

text \<open>A transaction of one block on the sample disk.\<close>

definition sample_txn :: "lstate outcome" where
  "sample_txn =
     obind (initlog 1 (boot sample_disk 1000 1)) (\<lambda>s.
       obind (begin_op s) (\<lambda>s. log_update 100 (\<lambda>d. d[0 := 42]) s))"

lemma sample_txn_run:
  obtains s where "sample_txn = Done s" and "log_inv s" and "heldB s = {}" and "lh_n s = 1"
    and "view s 1 100 = (replicate BSIZE 0)[0 := 42]" and "disk s 1 100 = replicate BSIZE 0"
    and "l_start s = 2" and "l_size s = 30"
proof -
  show thesis
  proof (rule initlog_spec [OF sample_log_disk, of 1], goal_cases)
    case (1 u ws)
    have hl: "header_list (sample_disk 2) = []"
      using sample_log_disk by (simp add: log_disk_def header_list_def header_n_def sample_disk_def get32_def BSIZE_def)
    have inv: "log_inv u" using 1 by (simp add: log_inv_def idle_def entries_ok_def log_disk_def log_geom_def)
    let ?v = "u\<lparr>outstanding := 1\<rparr>"
    have b: "begin_op u = Done ?v" using 1 by (simp add: begin_op_def LOGSIZE_def MAXOPBLOCKS_def)
    have bi: "bio_inv u" "heldB u = {}" using 1(2) by (simp_all add: idle_def)
    have d100: "disk u 1 100 = replicate BSIZE 0"
      using 1(14) [of 100] logical_unlisted [of 100 sample_disk 2] hl by (simp add: in_log_def sample_disk_def)
    have v100: "view u 1 100 = replicate BSIZE 0" using view_clean [OF bi(1), of 100] bi(2) 1(3) d100 by simp
    have iv: "log_inv ?v" using inv by (simp add: log_inv_def)
    have p: "unat (100 :: uint) < disksize ?v" "100 \<notin> heldB ?v" "\<not> in_log (l_start ?v) (l_size ?v) 100"
      "(100 :: uint) \<noteq> 1" "card (heldB ?v) + nat (lh_n ?v) < NBUF" "lh_n ?v < l_size ?v - 1" "0 < outstanding ?v"
      using 1 bi by (simp_all add: in_log_def NBUF_def)
    have nd: "100 \<notin> dirtyB ?v" using 1(3) by simp
    obtain s where "log_update 100 (\<lambda>d. d[0 := 42]) ?v = Done s" "log_inv s"
      "view s 1 = (view ?v 1)(100 := (view ?v 1 100)[0 := 42])" "disk s 1 = disk ?v 1" "heldB s = heldB ?v"
      "lh_n s = lh_n ?v + 1" "l_start s = l_start ?v" "l_size s = l_size ?v"
      by (rule log_update_spec [OF iv p(1-4) _ p(5-7), of "\<lambda>d. d[0 := 42]"]) (use nd in simp_all)
    then show thesis using 1 b bi d100 v100 by (intro that [of s]) (simp_all add: sample_txn_def)
  qed
qed

theorem commit_crash_atomic_witness:
  "\<exists>s t ws. sample_txn = Done s \<and> commit s = Done t \<and> dwrites t = dwrites s @ map (Pair 1) ws
     \<and> (\<exists>u. initlog 1 (boot (apply_writes (take 1 ws) (disk s 1)) (disksize s) 1) = Done u
            \<and> disk u 1 100 = replicate BSIZE 0)
     \<and> (\<exists>u. initlog 1 (boot (apply_writes (take 2 ws) (disk s 1)) (disksize s) 1) = Done u
            \<and> disk u 1 100 = (replicate BSIZE 0)[0 := 42])"
proof (rule sample_txn_run)
  fix s assume s: "sample_txn = Done s" "log_inv s" "heldB s = {}" "lh_n s = 1"
    "view s 1 100 = (replicate BSIZE 0)[0 := 42]" "disk s 1 100 = replicate BSIZE 0" "l_start s = 2" "l_size s = 30"
  have out: "\<not> in_log (l_start s) (l_size s) 100" using s(7,8) by (simp add: in_log_def)
  have "0 < lh_n s" using s(4) by simp
  from commit_crash_atomic [OF s(2,3) this, of 1] obtain t ws where t: "commit s = Done t" "dwrites t = dwrites s @ map (Pair 1) ws"
    and r: "\<And>k. \<exists>u. initlog 1 (boot (apply_writes (take k ws) (disk s 1)) (disksize s) 1) = Done u
      \<and> (\<forall>b. \<not> in_log (l_start s) (l_size s) b \<longrightarrow> disk u 1 b = (if k \<le> nat (lh_n s) then disk s 1 b else view s 1 b))"
    by metis
  show ?thesis
    using s(1) t r [of 1] r [of 2] out s(4,5,6) by (intro exI [of _ s] exI [of _ t] exI [of _ ws]) auto
qed

end
