(* ===== verification/CString.thy ===== *)
theory CString
  imports Prelude
begin

text \<open>
  The string and memory routines of the kernel (\<^verbatim>\<open>src/xv6/string.c\<close>, with the
  \<^verbatim>\<open>rep stos\<close> instructions of \<^verbatim>\<open>src/xv6/x86.h\<close>), over the byte memory of the prelude.  A pointer is an
  address, a loop is a recursion on its counter, and the loops whose end depends on a NUL byte are
  \<open>partial_function\<close>s, so that running past the string is the value \<open>None\<close>.
\<close>

section \<open>string.c: blocks of bytes\<close>

fun stosb :: "cmem \<Rightarrow> uint \<Rightarrow> uchar \<Rightarrow> nat \<Rightarrow> cmem" where
  "stosb m addr data 0 = m"
| "stosb m addr data (Suc cnt) = stosb (m(addr := data)) (addr + 1) data cnt"

fun stosl :: "cmem \<Rightarrow> uint \<Rightarrow> uint \<Rightarrow> nat \<Rightarrow> cmem" where
  "stosl m addr data 0 = m"
| "stosl m addr data (Suc cnt) = stosl (store32 m addr data) (addr + 4) data cnt"

definition memset :: "cmem \<Rightarrow> uint \<Rightarrow> uint \<Rightarrow> uint \<Rightarrow> cmem" where
  "memset m dst c n =
     (if dst mod 4 = 0 \<and> n mod 4 = 0
      then let c = c AND 0xFF
           in stosl m dst (push_bit 24 c OR push_bit 16 c OR push_bit 8 c OR c) (unat (n div 4))
      else stosb m dst (ucast c) (unat n))"

fun memcmp_loop :: "cmem \<Rightarrow> uint \<Rightarrow> uint \<Rightarrow> nat \<Rightarrow> int" where
  "memcmp_loop m s1 s2 0 = 0"
| "memcmp_loop m s1 s2 (Suc n) =
     (if m s1 \<noteq> m s2 then Word.uint (m s1) - Word.uint (m s2)
      else memcmp_loop m (s1 + 1) (s2 + 1) n)"

definition memcmp :: "cmem \<Rightarrow> uint \<Rightarrow> uint \<Rightarrow> uint \<Rightarrow> int" where
  "memcmp m v1 v2 n = memcmp_loop m v1 v2 (unat n)"

fun copy_forward :: "cmem \<Rightarrow> uint \<Rightarrow> uint \<Rightarrow> nat \<Rightarrow> cmem" where
  "copy_forward m d s 0 = m"
| "copy_forward m d s (Suc n) = copy_forward (m(d := m s)) (d + 1) (s + 1) n"

fun copy_backward :: "cmem \<Rightarrow> uint \<Rightarrow> uint \<Rightarrow> nat \<Rightarrow> cmem" where
  "copy_backward m d s 0 = m"
| "copy_backward m d s (Suc n) = copy_backward (m(d - 1 := m (s - 1))) (d - 1) (s - 1) n"

definition memmove :: "cmem \<Rightarrow> uint \<Rightarrow> uint \<Rightarrow> uint \<Rightarrow> cmem" where
  "memmove m dst src n =
     (if src < dst \<and> src + n > dst
      then copy_backward m (dst + n) (src + n) (unat n)
      else copy_forward m dst src (unat n))"

definition memcpy :: "cmem \<Rightarrow> uint \<Rightarrow> uint \<Rightarrow> uint \<Rightarrow> cmem" where
  "memcpy m dst src n = memmove m dst src n"

section \<open>string.c: NUL-terminated strings\<close>

fun strncmp_loop :: "cmem \<Rightarrow> uint \<Rightarrow> uint \<Rightarrow> nat \<Rightarrow> int" where
  "strncmp_loop m p q 0 = 0"
| "strncmp_loop m p q (Suc n) =
     (if m p \<noteq> 0 \<and> m p = m q then strncmp_loop m (p + 1) (q + 1) n
      else Word.uint (m p) - Word.uint (m q))"

definition strncmp :: "cmem \<Rightarrow> uint \<Rightarrow> uint \<Rightarrow> uint \<Rightarrow> int" where
  "strncmp m p q n = strncmp_loop m p q (unat n)"

text \<open>
  \<^verbatim>\<open>strncpy\<close>: the first loop copies until it has copied a NUL or the counter is used up,
  the second one pads with NULs.  \<open>n\<close> is the C \<open>int\<close> counter; a loop body runs while it is
  positive before the decrement.
\<close>

fun strncpy_pad :: "cmem \<Rightarrow> uint \<Rightarrow> nat \<Rightarrow> cmem" where
  "strncpy_pad m s 0 = m"
| "strncpy_pad m s (Suc n) = strncpy_pad (m(s := 0)) (s + 1) n"

fun strncpy_loop :: "cmem \<Rightarrow> uint \<Rightarrow> uint \<Rightarrow> nat \<Rightarrow> cmem" where
  "strncpy_loop m s t 0 = m"
| "strncpy_loop m s t (Suc n) =
     (let m' = m(s := m t)
      in if m t \<noteq> 0 then strncpy_loop m' (s + 1) (t + 1) n else strncpy_pad m' (s + 1) n)"

definition strncpy :: "cmem \<Rightarrow> uint \<Rightarrow> uint \<Rightarrow> int \<Rightarrow> cmem" where
  "strncpy m s t n = strncpy_loop m s t (nat n)"

text \<open>
  \<^verbatim>\<open>safestrcpy\<close>: at most \<open>n - 1\<close> bytes are copied, then a NUL is stored where the pointer
  stands.
\<close>

fun safestrcpy_loop :: "cmem \<Rightarrow> uint \<Rightarrow> uint \<Rightarrow> nat \<Rightarrow> cmem" where
  "safestrcpy_loop m s t 0 = m(s := 0)"
| "safestrcpy_loop m s t (Suc n) =
     (let m' = m(s := m t)
      in if m t \<noteq> 0 then safestrcpy_loop m' (s + 1) (t + 1) n else m'(s + 1 := 0))"

definition safestrcpy :: "cmem \<Rightarrow> uint \<Rightarrow> uint \<Rightarrow> int \<Rightarrow> cmem" where
  "safestrcpy m s t n = (if n \<le> 0 then m else safestrcpy_loop m s t (nat (n - 1)))"

partial_function (option) strlen_loop :: "cmem \<Rightarrow> uint \<Rightarrow> nat \<Rightarrow> nat option" where
  "strlen_loop m s n = (if m (s + of_nat n) = 0 then Some n else strlen_loop m s (Suc n))"

definition strlen :: "cmem \<Rightarrow> uint \<Rightarrow> nat option" where
  "strlen m s = strlen_loop m s 0"

section \<open>The bytes of a region\<close>

text \<open>\<open>bytes_at m a k\<close> lists the \<open>k\<close> bytes from \<open>a\<close> on; \<open>cstring_at m a s\<close> says that the
  C string \<open>s\<close> (without its NUL) is stored at \<open>a\<close>.\<close>

definition bytes_at :: "cmem \<Rightarrow> uint \<Rightarrow> nat \<Rightarrow> uchar list" where
  "bytes_at m a k = map (\<lambda>i. m (a + of_nat i)) [0..<k]"

definition cstring_at :: "cmem \<Rightarrow> uint \<Rightarrow> uchar list \<Rightarrow> bool" where
  "cstring_at m a s \<longleftrightarrow> bytes_at m a (length s) = s \<and> m (a + of_nat (length s)) = 0 \<and> 0 \<notin> set s"

lemma length_bytes_at [simp]: "length (bytes_at m a k) = k"
  by (simp add: bytes_at_def)

lemma nth_bytes_at [simp]: "i < k \<Longrightarrow> bytes_at m a k ! i = m (a + of_nat i)"
  by (simp add: bytes_at_def)

lemma bytes_at_Suc: "bytes_at m a (Suc k) = m a # bytes_at m (a + 1) k"
proof (rule nth_equalityI)
  fix i assume "i < length (bytes_at m a (Suc k))"
  then show "bytes_at m a (Suc k) ! i = (m a # bytes_at m (a + 1) k) ! i"
    by (cases i) (simp_all add: algebra_simps)
qed simp

text \<open>
  The offset of an address inside a region that starts at \<open>a\<close> is \<open>x - a\<close>, also when the
  region wraps around the end of the address space.
\<close>

lemma unat_diff_Suc:
  fixes x a :: uint
  assumes "x \<noteq> a"
  shows "unat (x - a) = Suc (unat (x - (a + 1)))"
proof -
  have "x - a \<noteq> 0" using assms by simp
  then have "unat (x - a - 1) = unat (x - a) - 1" by (rule unat_minus_one)
  moreover have "0 < unat (x - a)" using \<open>x - a \<noteq> 0\<close> by (simp add: unat_gt_0)
  ultimately show ?thesis by (simp add: algebra_simps)
qed

lemma unat_pred_self: "unat (a - (a + 1) :: uint) = 2 ^ 32 - 1"
  by (simp add: unsigned_minus_1_eq_mask mask_eq_exp_minus_1)

lemma stosb_spec:
  "k \<le> 2 ^ 32 \<Longrightarrow> stosb m a c k = (\<lambda>x. if unat (x - a) < k then c else m x)"
proof (induction k arbitrary: m a)
  case (Suc k)
  define m' where "m' = m(a := c)"
  have IH: "stosb m' (a + 1) c k x = (if unat (x - (a + 1)) < k then c else m' x)" for x
    using Suc.IH [of m' "a + 1"] Suc.prems by simp
  have m': "m' a = c" "x \<noteq> a \<Longrightarrow> m' x = m x" for x by (simp_all add: m'_def)
  have "stosb m' (a + 1) c k x = (if unat (x - a) < Suc k then c else m x)" for x
  proof (cases "x = a")
    case True
    then show ?thesis using IH [of a] m'(1) by simp
  next
    case False
    then show ?thesis using IH [of x] m'(2) unat_diff_Suc [OF False] by simp
  qed
  then show ?case by (simp add: m'_def fun_eq_iff)
qed simp

lemma stosb_add: "stosb (stosb m a c j) (a + of_nat j) c k = stosb m a c (j + k)"
proof (induction j arbitrary: m a)
  case (Suc j)
  have "a + of_nat (Suc j) = a + 1 + of_nat j" by simp
  then show ?case using Suc.IH [of "m(a := c)" "a + 1"] by (simp only: stosb.simps add_Suc)
qed simp

lemma store32_bytes:
  fixes c :: uint
  assumes "c = c AND 0xFF"
  shows "store32 m a (push_bit 24 c OR push_bit 16 c OR push_bit 8 c OR c) = stosb m a (ucast c) 4"
proof -
  let ?w = "push_bit 24 c OR push_bit 16 c OR push_bit 8 c OR c"
  have hi: "\<not> bit c n" if "8 \<le> n" for n
  proof -
    have "bit c n = (bit c n \<and> bit (0xFF :: uint) n)"
      by (subst assms) (simp add: bit_and_iff)
    then show ?thesis using that by (simp add: mask8_uint bit_mask_iff del: mask_numeral)
  qed
  have b: "(ucast (drop_bit k ?w) :: uchar) = ucast c" if "k \<in> {0, 8, 16, 24}" for k
  proof (rule bit_word_eqI)
    fix n :: nat assume "n < LENGTH(8)"
    then show "bit (ucast (drop_bit k ?w) :: uchar) n = bit (ucast c :: uchar) n"
      using that hi by (auto simp: bit_simps)
  qed
  have b0: "(ucast ?w :: uchar) = ucast c" using b [of 0] by simp
  show ?thesis
    using b [of 8] b [of 16] b [of 24] b0
    by (simp add: store32_def numeral_eq_Suc algebra_simps)
qed

lemma stosl_bytes:
  fixes c :: uint
  assumes "c = c AND 0xFF"
  shows "stosl m a (push_bit 24 c OR push_bit 16 c OR push_bit 8 c OR c) k = stosb m a (ucast c) (4 * k)"
proof (induction k arbitrary: m a)
  case (Suc k)
  have "4 * Suc k = 4 + 4 * k" by simp
  then show ?case
    using Suc.IH stosb_add [of m a "ucast c" 4 "4 * k"]
    by (simp add: store32_bytes [OF assms] del: stosb.simps)
qed simp

lemma memset_spec:
  "memset m dst c n = (\<lambda>x. if unat (x - dst) < unat n then ucast c else m x)"
proof -
  have le: "unat n \<le> 2 ^ 32" using unat_uint_less [of n] by simp
  show ?thesis
  proof (cases "dst mod 4 = 0 \<and> n mod 4 = 0")
    case True
    let ?c = "c AND 0xFF"
    have cc: "?c = ?c AND 0xFF" by (simp add: and.assoc)
    have uc: "(ucast ?c :: uchar) = ucast c"
    proof (rule bit_word_eqI)
      fix k :: nat assume "k < LENGTH(8)"
      then show "bit (ucast ?c :: uchar) k = bit (ucast c :: uchar) k"
        by (simp only: mask8_uint) (simp add: bit_simps)
    qed
    have "unat (n mod 4) = 0" using True by simp
    then have "unat n mod 4 = 0" by (simp add: unat_mod)
    then have "4 * unat (n div 4) = unat n" by (simp add: unat_div) presburger
    then show ?thesis
      using True stosl_bytes [OF cc, of m dst "unat (n div 4)"] stosb_spec [OF le, of m dst "ucast c"]
      by (simp add: memset_def uc Let_def)
  next
    case False
    then show ?thesis using stosb_spec [OF le, of m dst "ucast c"] by (auto simp: memset_def)
  qed
qed

lemma memcmp_loop_eq_0: "memcmp_loop m a b k = 0 \<longleftrightarrow> bytes_at m a k = bytes_at m b k"
proof (induction k arbitrary: a b)
  case 0
  show ?case by (simp add: bytes_at_def)
next
  case (Suc k)
  then show ?case by (simp add: bytes_at_Suc word_uint_eq_iff [of "m a"])
qed

lemma copy_forward_spec:
  assumes "k \<le> 2 ^ 32" and "\<And>i j. i < j \<Longrightarrow> j < k \<Longrightarrow> d + of_nat i \<noteq> s + of_nat j"
  shows "copy_forward m d s k = (\<lambda>x. if unat (x - d) < k then m (s + (x - d)) else m x)"
  using assms
proof (induction k arbitrary: m d s)
  case (Suc k)
  define m' where "m' = m(d := m s)"
  have m': "m' d = m s" "x \<noteq> d \<Longrightarrow> m' x = m x" for x by (simp_all add: m'_def)
  have dj: "d \<noteq> s + of_nat j" if "0 < j" "j < Suc k" for j
    using Suc.prems(2) [of 0 j] that by simp
  have sep: "d + 1 + of_nat i \<noteq> s + 1 + of_nat j" if "i < j" "j < k" for i j
    using Suc.prems(2) [of "Suc i" "Suc j"] that by (simp add: algebra_simps)
  have "copy_forward m' (d + 1) (s + 1) k =
      (\<lambda>x. if unat (x - (d + 1)) < k then m' (s + 1 + (x - (d + 1))) else m' x)"
    by (rule Suc.IH) (use Suc.prems(1) sep in simp_all)
  then have IH: "copy_forward m' (d + 1) (s + 1) k x =
      (if unat (x - (d + 1)) < k then m' (s + (x - d)) else m' x)" for x
    by (simp add: algebra_simps)
  have "copy_forward m' (d + 1) (s + 1) k x =
      (if unat (x - d) < Suc k then m (s + (x - d)) else m x)" for x
  proof (cases "x = d")
    case True
    then show ?thesis using IH [of d] m'(1) unat_pred_self [of d] Suc.prems(1) by simp
  next
    case False
    have "s + (x - d) \<noteq> d" if "unat (x - (d + 1)) < k"
      using dj [of "unat (x - d)"] that unat_diff_Suc [OF False] by (simp add: eq_commute)
    then show ?thesis using IH [of x] m'(2) [of "s + (x - d)"] m'(2) [OF False] unat_diff_Suc [OF False] by simp
  qed
  then show ?case by (simp add: m'_def fun_eq_iff)
qed simp

lemma copy_backward_spec:
  assumes "k \<le> 2 ^ 32" and "\<And>i j. i < j \<Longrightarrow> j < k \<Longrightarrow> s + of_nat i \<noteq> d + of_nat j"
  shows "copy_backward m (d + of_nat k) (s + of_nat k) k =
    (\<lambda>x. if unat (x - d) < k then m (s + (x - d)) else m x)"
  using assms
proof (induction k arbitrary: m)
  case (Suc k)
  define m' where "m' = m(d + of_nat k := m (s + of_nat k))"
  have m': "m' (d + of_nat k) = m (s + of_nat k)" "x \<noteq> d + of_nat k \<Longrightarrow> m' x = m x" for x
    by (simp_all add: m'_def)
  have IH: "copy_backward m' (d + of_nat k) (s + of_nat k) k x =
      (if unat (x - d) < k then m' (s + (x - d)) else m' x)" for x
    using Suc.IH [of m'] Suc.prems by simp
  have k: "unat (of_nat k :: uint) = k" using Suc.prems(1) by (simp add: unat_of_nat_uint)
  have "copy_backward m' (d + of_nat k) (s + of_nat k) k x =
      (if unat (x - d) < Suc k then m (s + (x - d)) else m x)" for x
  proof (cases "x = d + of_nat k")
    case True
    then show ?thesis using IH [of x] m'(1) k by simp
  next
    case False
    have ne: "unat (x - d) \<noteq> k"
    proof
      assume "unat (x - d) = k"
      then have "x - d = of_nat k" by auto
      with False show False by (simp add: algebra_simps)
    qed
    have "s + (x - d) \<noteq> d + of_nat k" if "unat (x - d) < k"
      using Suc.prems(2) [of "unat (x - d)" k] that by simp
    then show ?thesis using IH [of x] m'(2) [of "s + (x - d)"] m'(2) [OF False] ne by auto
  qed
  then show ?case by (simp add: m'_def fun_eq_iff algebra_simps)
qed simp

text \<open>
  \<open>memmove\<close> copies correctly whether or not the regions overlap, as long as neither of them
  runs past the end of the address space.
\<close>

lemma memmove_spec:
  assumes "unat src + unat n < 2 ^ 32" and "unat dst + unat n \<le> 2 ^ 32"
  shows "memmove m dst src n = (\<lambda>x. if unat (x - dst) < unat n then m (src + (x - dst)) else m x)"
proof -
  have add: "unat (a + of_nat i) = unat a + i" if "unat a + unat n \<le> 2 ^ 32" "i < unat n" for a :: uint and i
    using that by (simp add: unat_word_ariths unat_of_nat take_bit_nat_eq_self)
  have n: "unat n \<le> 2 ^ 32" using unat_uint_less [of n] by simp
  show ?thesis
  proof (cases "src < dst \<and> src + n > dst")
    case True
    have "src + of_nat i \<noteq> dst + of_nat j" if "i < j" "j < unat n" for i j
    proof
      assume "src + of_nat i = dst + of_nat j"
      then have "unat (src + of_nat i) = unat (dst + of_nat j)" by simp
      then show False using that add [OF less_imp_le [OF assms(1)], of i] add [OF assms(2), of j] True
        by (simp add: word_less_nat_alt)
    qed
    then show ?thesis using True copy_backward_spec [OF n, of src dst m] by (simp add: memmove_def)
  next
    case False
    have "dst + of_nat i \<noteq> src + of_nat j" if "i < j" "j < unat n" for i j
    proof
      assume "dst + of_nat i = src + of_nat j"
      then have eq: "unat dst + i = unat src + j"
        using that add [OF less_imp_le [OF assms(1)], of j] add [OF assms(2), of i] by simp
      then have lt: "src < dst" using that by (simp add: word_less_nat_alt)
      have "unat dst < unat src + unat n" using eq that by linarith
      moreover have "unat (src + n) = unat src + unat n" using assms(1) by (simp add: unat_word_ariths)
      ultimately have "src + n > dst" by (simp add: word_less_nat_alt)
      then show False using False lt by simp
    qed
    then show ?thesis using False copy_forward_spec [OF n, of dst src m] by (auto simp: memmove_def)
  qed
qed


section \<open>NUL-terminated strings\<close>

lemma bytes_at_0 [simp]: "bytes_at m a 0 = []"
  by (simp add: bytes_at_def)

lemma cstring_at_Nil [simp]: "cstring_at m a [] \<longleftrightarrow> m a = 0"
  by (simp add: cstring_at_def)

lemma cstring_at_Cons [simp]:
  "cstring_at m a (c # cs) \<longleftrightarrow> m a = c \<and> c \<noteq> 0 \<and> cstring_at m (a + 1) cs"
  by (auto simp: cstring_at_def bytes_at_Suc algebra_simps)

lemma cstring_at_upd:
  "(\<And>j. j \<le> length str \<Longrightarrow> x \<noteq> a + of_nat j) \<Longrightarrow> cstring_at (m(x := v)) a str = cstring_at m a str"
proof (induction str arbitrary: a)
  case Nil
  then show ?case by simp
next
  case (Cons c cs)
  have "x \<noteq> a" using Cons.prems [of 0] by simp
  moreover have "x \<noteq> a + 1 + of_nat j" if "j \<le> length cs" for j
    using Cons.prems [of "Suc j"] that by (simp add: algebra_simps)
  ultimately show ?case using Cons.IH [of "a + 1"] by simp
qed

lemma strncpy_pad_stosb: "strncpy_pad m s n = stosb m s 0 n"
  by (induction n arbitrary: m s) simp_all

lemma strncpy_loop_spec:
  assumes "n \<le> 2 ^ 32" and "cstring_at m t str"
    and "\<And>i j. i < n \<Longrightarrow> j \<le> length str \<Longrightarrow> s + of_nat i \<noteq> t + of_nat j"
  shows "strncpy_loop m s t n x =
    (if unat (x - s) < n then if unat (x - s) < length str then str ! unat (x - s) else 0 else m x)"
  using assms
proof (induction n arbitrary: m s t str)
  case (Suc n)
  define m' where "m' = m(s := m t)"
  have m': "m' s = m t" "x \<noteq> s \<Longrightarrow> m' x = m x" by (simp_all add: m'_def)
  show ?case
  proof (cases str)
    case Nil
    then have "m t = 0" using Suc.prems(2) by simp
    moreover from this have "m(s := 0) = m'" by (simp add: m'_def)
    ultimately have "strncpy_loop m s t (Suc n) x = (if unat (x - (s + 1)) < n then 0 else m' x)"
      using stosb_spec [of n m' "s + 1" 0] Suc.prems(1) by (simp add: strncpy_pad_stosb Let_def)
    then show ?thesis using Nil m' unat_diff_Suc [of x s] \<open>m t = 0\<close> by (cases "x = s") simp_all
  next
    case (Cons c cs)
    have sep: "s + 1 + of_nat i \<noteq> t + 1 + of_nat j" if "i < n" "j \<le> length cs" for i j
      using Suc.prems(3) [of "Suc i" "Suc j"] that Cons by (simp add: algebra_simps)
    have "cstring_at m' (t + 1) cs"
      using Suc.prems(2) Suc.prems(3) [of 0 "Suc j" for j] Cons
      by (simp add: m'_def cstring_at_upd algebra_simps)
    then have IH: "strncpy_loop m' (s + 1) (t + 1) n x =
      (if unat (x - (s + 1)) < n then if unat (x - (s + 1)) < length cs then cs ! unat (x - (s + 1)) else 0 else m' x)"
      using Suc.IH [of m' "t + 1" cs "s + 1"] Suc.prems(1) sep by simp
    have "m t = c" "c \<noteq> 0" using Suc.prems(2) Cons by simp_all
    then have "strncpy_loop m s t (Suc n) x = strncpy_loop m' (s + 1) (t + 1) n x"
      by (simp add: m'_def Let_def)
    then show ?thesis
      using IH m' Cons \<open>m t = c\<close> unat_diff_Suc [of x s] unat_pred_self [of s] Suc.prems(1)
      by (cases "x = s") simp_all
  qed
qed simp

lemma safestrcpy_loop_frame:
  "n < unat (x - s) \<Longrightarrow> safestrcpy_loop m s t n x = m x"
proof (induction n arbitrary: m s t)
  case 0
  then show ?case by auto
next
  case (Suc n)
  then have ne: "x \<noteq> s" "x \<noteq> s + 1" by auto
  then show ?case using Suc unat_diff_Suc [OF ne(1)] by (simp add: Let_def)
qed

lemma safestrcpy_loop_cstring:
  assumes "n < 2 ^ 32 - 1" and "cstring_at m t str"
    and "\<And>i j. i \<le> n \<Longrightarrow> j \<le> length str \<Longrightarrow> s + of_nat i \<noteq> t + of_nat j"
  shows "cstring_at (safestrcpy_loop m s t n) s (take n str)"
  using assms
proof (induction n arbitrary: m s t str)
  case (Suc n)
  define m' where "m' = m(s := m t)"
  show ?case
  proof (cases str)
    case Nil
    then show ?thesis using Suc.prems(2) by (simp add: Let_def)
  next
    case (Cons c cs)
    have sep: "s + 1 + of_nat i \<noteq> t + 1 + of_nat j" if "i \<le> n" "j \<le> length cs" for i j
      using Suc.prems(3) [of "Suc i" "Suc j"] that Cons by (simp add: algebra_simps)
    have "cstring_at m' (t + 1) cs"
      using Suc.prems(2) Suc.prems(3) [of 0 "Suc j" for j] Cons
      by (simp add: m'_def cstring_at_upd algebra_simps)
    then have IH: "cstring_at (safestrcpy_loop m' (s + 1) (t + 1) n) (s + 1) (take n cs)"
      using Suc.IH [of m' "t + 1" cs "s + 1"] Suc.prems(1) sep by simp
    have c: "m t = c" "c \<noteq> 0" using Suc.prems(2) Cons by simp_all
    have "safestrcpy_loop m' (s + 1) (t + 1) n s = m' s"
      using Suc.prems(1) unat_pred_self [of s] by (intro safestrcpy_loop_frame) simp
    then show ?thesis using IH c Cons by (simp add: m'_def Let_def)
  qed
qed simp

lemma strlen_loop_cstring:
  "cstring_at m (s + of_nat n) str \<Longrightarrow> strlen_loop m s n = Some (n + length str)"
proof (induction str arbitrary: n)
  case Nil
  then show ?case by (simp add: strlen_loop.simps)
next
  case (Cons c cs)
  then show ?case using Cons.IH [of "Suc n"] by (simp add: strlen_loop.simps [of m s n] algebra_simps)
qed


section \<open>Properties of string.c\<close>

text \<open>
  \<^verbatim>\<open>memset\<close> has two implementations, word stores when address and length are multiples of
  four and byte stores otherwise; both set exactly the \<open>n\<close> bytes from \<open>dst\<close> on to the low byte
  of \<open>c\<close> and leave every other byte as it was.
\<close>

theorem memset_sets_region:
  "memset m dst c n = (\<lambda>x. if unat (x - dst) < unat n then ucast c else m x)"
  by (rule memset_spec)

text \<open>
  C37.  \<^verbatim>\<open>memmove\<close> delivers the old contents of the source region in the destination region and
  changes nothing else, also when the regions overlap, provided that neither region wraps around
  the end of the address space.
\<close>

theorem memmove_copies_region:
  assumes "unat src + unat n < 2 ^ 32" and "unat dst + unat n \<le> 2 ^ 32"
  shows "bytes_at (memmove m dst src n) dst (unat n) = bytes_at m src (unat n) \<and>
    (\<forall>x. unat n \<le> unat (x - dst) \<longrightarrow> memmove m dst src n x = m x)"
proof -
  have "memmove m dst src n (dst + of_nat i) = m (src + of_nat i)" if "i < unat n" for i
    using that unat_uint_less [of n] by (simp add: memmove_spec [OF assms] unat_of_nat_uint)
  then have "bytes_at (memmove m dst src n) dst (unat n) = bytes_at m src (unat n)"
    by (simp add: bytes_at_def)
  then show ?thesis by (simp add: memmove_spec [OF assms])
qed

theorem memmove_copies_region_witness:
  "bytes_at (memmove (\<lambda>x. ucast x) 102 100 4) 102 4 = bytes_at (\<lambda>x. ucast x) 100 4
   \<and> memmove (\<lambda>x. ucast x) 102 100 4 200 = (ucast (200 :: uint) :: uchar)"
  using memmove_copies_region [of 100 4 102 "\<lambda>x. ucast x"] by simp

text \<open>
  C38.  \<^verbatim>\<open>safestrcpy\<close> leaves a NUL-terminated string in a buffer of \<open>n\<close> bytes, the first \<open>n - 1\<close>
  bytes of the source string at most, and writes no byte outside the buffer.
\<close>

theorem safestrcpy_terminates_in_bounds:
  assumes "0 < n" and "n < 2 ^ 31" and "cstring_at m t str"
    and "\<And>i j. i < nat n \<Longrightarrow> j \<le> length str \<Longrightarrow> s + of_nat i \<noteq> t + of_nat j"
  shows "cstring_at (safestrcpy m s t n) s (take (nat n - 1) str) \<and>
    (\<forall>x. nat n \<le> unat (x - s) \<longrightarrow> safestrcpy m s t n x = m x)"
proof -
  have "nat (n - 1) = nat n - 1" using assms(1) by simp
  then have "cstring_at (safestrcpy m s t n) s (take (nat n - 1) str)"
    using assms safestrcpy_loop_cstring [of "nat n - 1" m t str s] by (simp add: safestrcpy_def)
  then show ?thesis using assms(1) by (simp add: safestrcpy_def safestrcpy_loop_frame)
qed

theorem safestrcpy_terminates_in_bounds_witness:
  "cstring_at (safestrcpy (\<lambda>x. if x < 3 then 65 else 0) 16 0 3) 16 [65, 65] \<and>
   safestrcpy (\<lambda>x. if x < 3 then 65 else 0) 16 0 3 19 = 0"
proof -
  let ?m = "\<lambda>x :: uint. if x < 3 then 65 else 0 :: uchar"
  have "cstring_at ?m 0 [65, 65, 65]" by simp
  moreover have "(16 :: uint) + of_nat i \<noteq> 0 + of_nat j" if "i < nat 3" "j \<le> length [65, 65, 65 :: uchar]" for i j
    using that of_nat_uint_inject [of "16 + i" j] by simp
  ultimately show ?thesis
    using safestrcpy_terminates_in_bounds [of 3 ?m 0 "[65, 65, 65]" 16] by simp
qed

end
