(* ===== verification/FS.thy ===== *)
theory FS
  imports Log CString
begin

text \<open>
  The file system proper (\<^verbatim>\<open>src/xv6/fs.c\<close>, \<^verbatim>\<open>fs.h\<close>, \<^verbatim>\<open>file.h\<close>, \<^verbatim>\<open>stat.h\<close>): blocks, inodes, inode contents,
  directories and path names, over the log.  A pointer to an inode is its index in \<^verbatim>\<open>icache.inode[]\<close>, and a
  pointer that may be null is an option.  On-disk structures are read and written at their byte offsets.  The spin
  lock of the inode cache protects updates that are single steps here; the sleep locks are in the model.
  \<^verbatim>\<open>readi\<close> returns the bytes it would store at \<^verbatim>\<open>dst\<close> and \<^verbatim>\<open>writei\<close> is given the bytes at \<^verbatim>\<open>src\<close>.
\<close>

section \<open>Constants and types\<close>

definition ROOTINO :: uint where
  "ROOTINO = 1"

definition ROOTDEV :: uint where
  "ROOTDEV = 1"

definition NINODE :: nat where
  "NINODE = 50"

definition NDEV :: nat where
  "NDEV = 10"

definition NDIRECT :: nat where
  "NDIRECT = 12"

definition NINDIRECT :: nat where
  "NINDIRECT = BSIZE div 4"

definition MAXFILE :: nat where
  "MAXFILE = NDIRECT + NINDIRECT"

definition DIRSIZ :: nat where
  "DIRSIZ = 14"

definition T_DIR :: ushort where
  "T_DIR = 1"

definition T_FILE :: ushort where
  "T_FILE = 2"

definition T_DEV :: ushort where
  "T_DEV = 3"

record dinode =
  d_type :: ushort
  d_major :: ushort
  d_minor :: ushort
  d_nlink :: ushort
  d_size :: uint
  d_addrs :: "uint list"

definition dinode_size :: nat where
  "dinode_size = 64"

definition IPB :: nat where
  "IPB = BSIZE div dinode_size"

definition IBLOCK :: "uint \<Rightarrow> superblock \<Rightarrow> uint" where
  "IBLOCK i sb = i div of_nat IPB + sb_inodestart sb"

definition BPB :: nat where
  "BPB = BSIZE * 8"

definition BBLOCK :: "uint \<Rightarrow> superblock \<Rightarrow> uint" where
  "BBLOCK b sb = b div of_nat BPB + sb_bmapstart sb"

text \<open>\<^verbatim>\<open>(struct dinode*)bp->data + inum%IPB\<close>, read and written.\<close>

definition get_dinode :: "uint \<Rightarrow> block \<Rightarrow> dinode" where
  "get_dinode inum d =
     (let o0 = dinode_size * (unat inum mod IPB)
      in \<lparr>d_type = get16 o0 d, d_major = get16 (o0 + 2) d, d_minor = get16 (o0 + 4) d, d_nlink = get16 (o0 + 6) d,
          d_size = get32 (o0 + 8) d, d_addrs = map (\<lambda>i. get32 (o0 + 12 + 4 * i) d) [0..<NDIRECT + 1]\<rparr>)"

fun put_addrs :: "nat \<Rightarrow> uint list \<Rightarrow> block \<Rightarrow> block" where
  "put_addrs a [] d = d"
| "put_addrs a (v # vs) d = put_addrs (a + 4) vs (put32 a v d)"

definition put_dinode :: "uint \<Rightarrow> dinode \<Rightarrow> block \<Rightarrow> block" where
  "put_dinode inum di d =
     (let o0 = dinode_size * (unat inum mod IPB);
          d = put16 o0 (d_type di) d;
          d = put16 (o0 + 2) (d_major di) d;
          d = put16 (o0 + 4) (d_minor di) d;
          d = put16 (o0 + 6) (d_nlink di) d;
          d = put32 (o0 + 8) (d_size di) d
      in put_addrs (o0 + 12) (d_addrs di) d)"

record dirent =
  de_inum :: ushort
  de_name :: "uchar list"

definition dirent_size :: nat where
  "dirent_size = 16"

definition get_dirent :: "uchar list \<Rightarrow> dirent" where
  "get_dirent bs = \<lparr>de_inum = get16 0 bs, de_name = take DIRSIZ (drop 2 bs)\<rparr>"

definition put_dirent :: "dirent \<Rightarrow> uchar list" where
  "put_dirent de = put16 0 (de_inum de) [0, 0] @ de_name de"

record inode =
  i_dev :: uint
  i_inum :: uint
  i_ref :: nat
  i_lock :: sleeplock
  i_valid :: bool
  i_type :: ushort
  i_major :: ushort
  i_minor :: ushort
  i_nlink :: ushort
  i_size :: uint
  i_addrs :: "uint list"

record stat =
  st_type :: ushort
  st_dev :: uint
  st_ino :: uint
  st_nlink :: ushort
  st_size :: uint

record fstate = lstate +
  sb :: superblock
  icache :: "inode list"

abbreviation inode_at :: "'a fstate_scheme \<Rightarrow> nat \<Rightarrow> inode" where
  "inode_at s ip \<equiv> icache s ! ip"

definition upd_inode :: "nat \<Rightarrow> (inode \<Rightarrow> inode) \<Rightarrow> 'a fstate_scheme \<Rightarrow> 'a fstate_scheme" where
  "upd_inode ip f s = s\<lparr>icache := (icache s)[ip := f (icache s ! ip)]\<rparr>"

text \<open>
  \<^verbatim>\<open>devsw[]\<close>: for a major device number, its read and write functions.  The table is filled at boot and an
  argument of the functions that call through it.
\<close>

type_synonym 's dev_read = "nat \<Rightarrow> uint \<Rightarrow> 's \<Rightarrow> (int \<times> uchar list \<times> 's) outcome"
type_synonym 's dev_write = "nat \<Rightarrow> uchar list \<Rightarrow> uint \<Rightarrow> 's \<Rightarrow> (int \<times> 's) outcome"
type_synonym 's devsw = "nat \<Rightarrow> 's dev_read option \<times> 's dev_write option"

section \<open>Blocks\<close>

definition bzero :: "uint \<Rightarrow> uint \<Rightarrow> 'a fstate_scheme \<Rightarrow> 'a fstate_scheme outcome" where
  "bzero dev bno s =
     obind (bread dev bno s) (\<lambda>(bp, s).
       obind (log_write bp (set_data bp (replicate BSIZE 0) s)) (brelse bp))"

definition bm_test :: "block \<Rightarrow> nat \<Rightarrow> bool" where
  "bm_test d bi \<longleftrightarrow> d ! (bi div 8) AND push_bit (bi mod 8) 1 \<noteq> 0"

definition bm_set :: "block \<Rightarrow> nat \<Rightarrow> block" where
  "bm_set d bi = d[bi div 8 := d ! (bi div 8) OR push_bit (bi mod 8) 1]"

definition bm_clear :: "block \<Rightarrow> nat \<Rightarrow> block" where
  "bm_clear d bi = d[bi div 8 := d ! (bi div 8) AND NOT (push_bit (bi mod 8) 1)]"

lemma BPB_pos [simp]: "0 < BPB"
  by (simp add: BPB_def BSIZE_def)

definition balloc_block :: "uint \<Rightarrow> nat \<Rightarrow> nat \<Rightarrow> 'a fstate_scheme \<Rightarrow> (uint option \<times> 'a fstate_scheme) outcome" where
  "balloc_block dev b sz s =
     obind (bread dev (BBLOCK (of_nat b) (sb s)) s) (\<lambda>(bp, s).
       case find (\<lambda>bi. b + bi < sz \<and> \<not> bm_test (b_data (bufs s ! bp)) bi) [0..<BPB] of
         Some bi \<Rightarrow>
           obind (log_write bp (set_data bp (bm_set (b_data (bufs s ! bp)) bi) s)) (\<lambda>s.
             obind (brelse bp s) (\<lambda>s.
               obind (bzero dev (of_nat (b + bi)) s) (\<lambda>s.
                 Done (Some (of_nat (b + bi)), s))))
       | None \<Rightarrow> obind (brelse bp s) (\<lambda>s. Done (None, s)))"

function balloc_loop :: "uint \<Rightarrow> nat \<Rightarrow> nat \<Rightarrow> 'a fstate_scheme \<Rightarrow> (uint \<times> 'a fstate_scheme) outcome" where
  "balloc_loop dev b sz s =
     (if b < sz
      then obind (balloc_block dev b sz s) (\<lambda>(r, s).
             case r of
               Some a \<Rightarrow> Done (a, s)
             | None \<Rightarrow> balloc_loop dev (b + BPB) sz s)
      else Panic ''balloc: out of blocks'')"
  by pat_completeness auto
termination by (relation "measure (\<lambda>(dev, b, sz, s). sz - b)") (auto intro: diff_less_mono2)

definition balloc :: "uint \<Rightarrow> 'a fstate_scheme \<Rightarrow> (uint \<times> 'a fstate_scheme) outcome" where
  "balloc dev s = balloc_loop dev 0 (unat (sb_size (sb s))) s"

definition bfree :: "uint \<Rightarrow> uint \<Rightarrow> 'a fstate_scheme \<Rightarrow> 'a fstate_scheme outcome" where
  "bfree dev b s =
     obind (bread dev (BBLOCK b (sb s)) s) (\<lambda>(bp, s).
       let bi = unat b mod BPB;
           d = b_data (bufs s ! bp)
       in if \<not> bm_test d bi then Panic ''freeing free block''
          else obind (log_write bp (set_data bp (bm_clear d bi) s)) (brelse bp))"

section \<open>Inodes\<close>

definition inode0 :: inode where
  "inode0 = \<lparr>i_dev = 0, i_inum = 0, i_ref = 0, i_lock = initsleeplock, i_valid = False, i_type = 0, i_major = 0,
     i_minor = 0, i_nlink = 0, i_size = 0, i_addrs = replicate (NDIRECT + 1) 0\<rparr>"

definition iinit :: "uint \<Rightarrow> 'a fstate_scheme \<Rightarrow> 'a fstate_scheme outcome" where
  "iinit dev s =
     obind (readsb dev (s\<lparr>icache := replicate NINODE inode0\<rparr>)) (\<lambda>(b, s). Done (s\<lparr>sb := b\<rparr>))"

definition iget :: "uint \<Rightarrow> uint \<Rightarrow> 'a fstate_scheme \<Rightarrow> (nat \<times> 'a fstate_scheme) outcome" where
  "iget dev inum s =
     (case find (\<lambda>ip. 0 < i_ref (inode_at s ip) \<and> i_dev (inode_at s ip) = dev \<and> i_inum (inode_at s ip) = inum) [0..<NINODE] of
        Some ip \<Rightarrow> Done (ip, upd_inode ip (\<lambda>i. i\<lparr>i_ref := i_ref i + 1\<rparr>) s)
      | None \<Rightarrow>
          (case find (\<lambda>ip. i_ref (inode_at s ip) = 0) [0..<NINODE] of
             Some ip \<Rightarrow> Done (ip, upd_inode ip (\<lambda>i. i\<lparr>i_dev := dev, i_inum := inum, i_ref := 1, i_valid := False\<rparr>) s)
           | None \<Rightarrow> Panic ''iget: no inodes''))"

function ialloc_loop :: "uint \<Rightarrow> ushort \<Rightarrow> nat \<Rightarrow> nat \<Rightarrow> 'a fstate_scheme \<Rightarrow> (nat \<times> 'a fstate_scheme) outcome" where
  "ialloc_loop dev ty inum n s =
     (if inum < n
      then obind (bread dev (IBLOCK (of_nat inum) (sb s)) s) (\<lambda>(bp, s).
             let d = b_data (bufs s ! bp)
             in if d_type (get_dinode (of_nat inum) d) = 0
                then let dip = \<lparr>d_type = ty, d_major = 0, d_minor = 0, d_nlink = 0, d_size = 0, d_addrs = replicate (NDIRECT + 1) 0\<rparr>
                     in obind (log_write bp (set_data bp (put_dinode (of_nat inum) dip d) s)) (\<lambda>s.
                          obind (brelse bp s) (iget dev (of_nat inum)))
                else obind (brelse bp s) (ialloc_loop dev ty (inum + 1) n))
      else Panic ''ialloc: no inodes'')"
  by pat_completeness auto
termination by (relation "measure (\<lambda>(dev, ty, inum, n, s). n - inum)") auto

definition ialloc :: "uint \<Rightarrow> ushort \<Rightarrow> 'a fstate_scheme \<Rightarrow> (nat \<times> 'a fstate_scheme) outcome" where
  "ialloc dev ty s = ialloc_loop dev ty 1 (unat (sb_ninodes (sb s))) s"

definition dinode_of :: "inode \<Rightarrow> dinode" where
  "dinode_of i = \<lparr>d_type = i_type i, d_major = i_major i, d_minor = i_minor i, d_nlink = i_nlink i,
     d_size = i_size i, d_addrs = i_addrs i\<rparr>"

definition load_dinode :: "dinode \<Rightarrow> inode \<Rightarrow> inode" where
  "load_dinode di i = i\<lparr>i_type := d_type di, i_major := d_major di, i_minor := d_minor di, i_nlink := d_nlink di,
     i_size := d_size di, i_addrs := d_addrs di\<rparr>"

definition iupdate :: "nat \<Rightarrow> 'a fstate_scheme \<Rightarrow> 'a fstate_scheme outcome" where
  "iupdate ip s =
     obind (bread (i_dev (inode_at s ip)) (IBLOCK (i_inum (inode_at s ip)) (sb s)) s) (\<lambda>(bp, s).
       let d = put_dinode (i_inum (inode_at s ip)) (dinode_of (inode_at s ip)) (b_data (bufs s ! bp))
       in obind (log_write bp (set_data bp d s)) (brelse bp))"

definition idup :: "nat \<Rightarrow> 'a fstate_scheme \<Rightarrow> nat \<times> 'a fstate_scheme" where
  "idup ip s = (ip, upd_inode ip (\<lambda>i. i\<lparr>i_ref := i_ref i + 1\<rparr>) s)"

definition ilock :: "nat \<Rightarrow> 'a fstate_scheme \<Rightarrow> 'a fstate_scheme outcome" where
  "ilock ip s =
     (if i_ref (inode_at s ip) < 1 then Panic ''ilock''
      else obind (acquiresleep (curpid s) (i_lock (inode_at s ip))) (\<lambda>lk.
        let s = upd_inode ip (\<lambda>i. i\<lparr>i_lock := lk\<rparr>) s
        in if i_valid (inode_at s ip) then Done s
           else obind (bread (i_dev (inode_at s ip)) (IBLOCK (i_inum (inode_at s ip)) (sb s)) s) (\<lambda>(bp, s).
                  let di = get_dinode (i_inum (inode_at s ip)) (b_data (bufs s ! bp));
                      s = upd_inode ip (load_dinode di) s
                  in obind (brelse bp s) (\<lambda>s.
                       let s = upd_inode ip (\<lambda>i. i\<lparr>i_valid := True\<rparr>) s
                       in if i_type (inode_at s ip) = 0 then Panic ''ilock: no type'' else Done s))))"

definition iunlock :: "nat \<Rightarrow> 'a fstate_scheme \<Rightarrow> 'a fstate_scheme outcome" where
  "iunlock ip s =
     (if \<not> holdingsleep (curpid s) (i_lock (inode_at s ip)) \<or> i_ref (inode_at s ip) < 1 then Panic ''iunlock''
      else Done (upd_inode ip (\<lambda>i. i\<lparr>i_lock := releasesleep (i_lock i)\<rparr>) s))"

fun itrunc_direct :: "nat \<Rightarrow> nat \<Rightarrow> nat \<Rightarrow> 'a fstate_scheme \<Rightarrow> 'a fstate_scheme outcome" where
  "itrunc_direct ip i 0 s = Done s"
| "itrunc_direct ip i (Suc k) s =
     (if i_addrs (inode_at s ip) ! i \<noteq> 0
      then obind (bfree (i_dev (inode_at s ip)) (i_addrs (inode_at s ip) ! i) s) (\<lambda>s.
             itrunc_direct ip (Suc i) k (upd_inode ip (\<lambda>n. n\<lparr>i_addrs := (i_addrs n)[i := 0]\<rparr>) s))
      else itrunc_direct ip (Suc i) k s)"

fun itrunc_indirect :: "nat \<Rightarrow> nat \<Rightarrow> nat \<Rightarrow> nat \<Rightarrow> 'a fstate_scheme \<Rightarrow> 'a fstate_scheme outcome" where
  "itrunc_indirect ip bp j 0 s = Done s"
| "itrunc_indirect ip bp j (Suc k) s =
     (let a = get32 (4 * j) (b_data (bufs s ! bp))
      in if a \<noteq> 0 then obind (bfree (i_dev (inode_at s ip)) a s) (itrunc_indirect ip bp (Suc j) k)
         else itrunc_indirect ip bp (Suc j) k s)"

definition itrunc :: "nat \<Rightarrow> 'a fstate_scheme \<Rightarrow> 'a fstate_scheme outcome" where
  "itrunc ip s =
     obind (itrunc_direct ip 0 NDIRECT s) (\<lambda>s.
       obind (if i_addrs (inode_at s ip) ! NDIRECT \<noteq> 0
              then obind (bread (i_dev (inode_at s ip)) (i_addrs (inode_at s ip) ! NDIRECT) s) (\<lambda>(bp, s).
                     obind (itrunc_indirect ip bp 0 NINDIRECT s) (\<lambda>s.
                       obind (brelse bp s) (\<lambda>s.
                         obind (bfree (i_dev (inode_at s ip)) (i_addrs (inode_at s ip) ! NDIRECT) s) (\<lambda>s.
                           Done (upd_inode ip (\<lambda>i. i\<lparr>i_addrs := (i_addrs i)[NDIRECT := 0]\<rparr>) s)))))
              else Done s) (\<lambda>s.
         iupdate ip (upd_inode ip (\<lambda>i. i\<lparr>i_size := 0\<rparr>) s)))"

definition iput :: "nat \<Rightarrow> 'a fstate_scheme \<Rightarrow> 'a fstate_scheme outcome" where
  "iput ip s =
     obind (acquiresleep (curpid s) (i_lock (inode_at s ip))) (\<lambda>lk.
       let s = upd_inode ip (\<lambda>i. i\<lparr>i_lock := lk\<rparr>) s
       in obind (if i_valid (inode_at s ip) \<and> i_nlink (inode_at s ip) = 0 \<and> i_ref (inode_at s ip) = 1
                 then obind (itrunc ip s) (\<lambda>s.
                        obind (iupdate ip (upd_inode ip (\<lambda>i. i\<lparr>i_type := 0\<rparr>) s)) (\<lambda>s.
                          Done (upd_inode ip (\<lambda>i. i\<lparr>i_valid := False\<rparr>) s)))
                 else Done s) (\<lambda>s.
            let s = upd_inode ip (\<lambda>i. i\<lparr>i_lock := releasesleep (i_lock i)\<rparr>) s
            in Done (upd_inode ip (\<lambda>i. i\<lparr>i_ref := i_ref i - 1\<rparr>) s)))"

definition iunlockput :: "nat \<Rightarrow> 'a fstate_scheme \<Rightarrow> 'a fstate_scheme outcome" where
  "iunlockput ip s = obind (iunlock ip s) (iput ip)"

section \<open>Inode contents\<close>

definition bmap :: "nat \<Rightarrow> uint \<Rightarrow> 'a fstate_scheme \<Rightarrow> (uint \<times> 'a fstate_scheme) outcome" where
  "bmap ip bn s =
     (if bn < of_nat NDIRECT
      then let addr = i_addrs (inode_at s ip) ! unat bn
           in if addr = 0
              then obind (balloc (i_dev (inode_at s ip)) s) (\<lambda>(addr, s).
                     Done (addr, upd_inode ip (\<lambda>i. i\<lparr>i_addrs := (i_addrs i)[unat bn := addr]\<rparr>) s))
              else Done (addr, s)
      else let bn = bn - of_nat NDIRECT
           in if bn < of_nat NINDIRECT
              then let addr = i_addrs (inode_at s ip) ! NDIRECT
                   in obind (if addr = 0
                             then obind (balloc (i_dev (inode_at s ip)) s) (\<lambda>(addr, s).
                                    Done (addr, upd_inode ip (\<lambda>i. i\<lparr>i_addrs := (i_addrs i)[NDIRECT := addr]\<rparr>) s))
                             else Done (addr, s)) (\<lambda>(addr, s).
                        obind (bread (i_dev (inode_at s ip)) addr s) (\<lambda>(bp, s).
                          let addr = get32 (4 * unat bn) (b_data (bufs s ! bp))
                          in obind (if addr = 0
                                    then obind (balloc (i_dev (inode_at s ip)) s) (\<lambda>(addr, s).
                                           obind (log_write bp (set_data bp (put32 (4 * unat bn) addr (b_data (bufs s ! bp))) s)) (\<lambda>s.
                                             Done (addr, s)))
                                    else Done (addr, s)) (\<lambda>(addr, s).
                               obind (brelse bp s) (\<lambda>s. Done (addr, s)))))
              else Panic ''bmap: out of range'')"

definition stati :: "nat \<Rightarrow> 'a fstate_scheme \<Rightarrow> stat" where
  "stati ip s = \<lparr>st_type = i_type (inode_at s ip), st_dev = i_dev (inode_at s ip), st_ino = i_inum (inode_at s ip),
     st_nlink = i_nlink (inode_at s ip), st_size = i_size (inode_at s ip)\<rparr>"

definition off_mod :: "uint \<Rightarrow> nat" where
  "off_mod off = unat off mod BSIZE"

definition chunk :: "uint \<Rightarrow> uint \<Rightarrow> uint \<Rightarrow> uint" where
  "chunk tot off n = min (n - tot) (of_nat (BSIZE - off_mod off))"

definition readi_chunk :: "nat \<Rightarrow> uint \<Rightarrow> uint \<Rightarrow> 'a fstate_scheme \<Rightarrow> (uchar list \<times> 'a fstate_scheme) outcome" where
  "readi_chunk ip off m s =
     obind (bmap ip (off div of_nat BSIZE) s) (\<lambda>(addr, s).
       obind (bread (i_dev (inode_at s ip)) addr s) (\<lambda>(bp, s).
         let bs = take (unat m) (drop (off_mod off) (b_data (bufs s ! bp)))
         in obind (brelse bp s) (\<lambda>s. Done (bs, s))))"

fun readi_loop :: "nat \<Rightarrow> nat \<Rightarrow> uint \<Rightarrow> uint \<Rightarrow> uint \<Rightarrow> uchar list \<Rightarrow> 'a fstate_scheme \<Rightarrow> (uchar list \<times> 'a fstate_scheme) outcome" where
  "readi_loop 0 ip tot off n dst s = Block"
| "readi_loop (Suc fuel) ip tot off n dst s =
     (if tot < n
      then obind (readi_chunk ip off (chunk tot off n) s) (\<lambda>(bs, s).
             readi_loop fuel ip (tot + chunk tot off n) (off + chunk tot off n) n (dst @ bs) s)
      else Done (dst, s))"

definition readi :: "'a fstate_scheme devsw \<Rightarrow> nat \<Rightarrow> uint \<Rightarrow> uint \<Rightarrow> 'a fstate_scheme \<Rightarrow> (int \<times> uchar list \<times> 'a fstate_scheme) outcome" where
  "readi devsw ip off n s =
     (let i = inode_at s ip
      in if i_type i = T_DEV
         then if sint (i_major i) < 0 \<or> int NDEV \<le> sint (i_major i) then Done (-1, [], s)
              else case fst (devsw (unat (i_major i))) of
                     None \<Rightarrow> Done (-1, [], s)
                   | Some read \<Rightarrow> read ip n s
         else if i_size i < off \<or> off + n < off then Done (-1, [], s)
         else let n = (if i_size i < off + n then i_size i - off else n)
              in obind (readi_loop (unat n + 1) ip 0 off n [] s) (\<lambda>(dst, s). Done (sint n, dst, s)))"

definition writei_chunk :: "nat \<Rightarrow> uint \<Rightarrow> uchar list \<Rightarrow> 'a fstate_scheme \<Rightarrow> 'a fstate_scheme outcome" where
  "writei_chunk ip off bs s =
     obind (bmap ip (off div of_nat BSIZE) s) (\<lambda>(addr, s).
       obind (bread (i_dev (inode_at s ip)) addr s) (\<lambda>(bp, s).
         let d = b_data (bufs s ! bp);
             d = take (off_mod off) d @ bs @ drop (off_mod off + length bs) d
         in obind (log_write bp (set_data bp d s)) (brelse bp)))"

fun writei_loop :: "nat \<Rightarrow> nat \<Rightarrow> uchar list \<Rightarrow> uint \<Rightarrow> uint \<Rightarrow> uint \<Rightarrow> 'a fstate_scheme \<Rightarrow> (uint \<times> 'a fstate_scheme) outcome" where
  "writei_loop 0 ip src tot off n s = Block"
| "writei_loop (Suc fuel) ip src tot off n s =
     (if tot < n
      then obind (writei_chunk ip off (take (unat (chunk tot off n)) (drop (unat tot) src)) s)
             (writei_loop fuel ip src (tot + chunk tot off n) (off + chunk tot off n) n)
      else Done (off, s))"

definition writei :: "'a fstate_scheme devsw \<Rightarrow> nat \<Rightarrow> uchar list \<Rightarrow> uint \<Rightarrow> uint \<Rightarrow> 'a fstate_scheme \<Rightarrow> (int \<times> 'a fstate_scheme) outcome" where
  "writei devsw ip src off n s =
     (let i = inode_at s ip
      in if i_type i = T_DEV
         then if sint (i_major i) < 0 \<or> int NDEV \<le> sint (i_major i) then Done (-1, s)
              else case snd (devsw (unat (i_major i))) of
                     None \<Rightarrow> Done (-1, s)
                   | Some write \<Rightarrow> write ip src n s
         else if i_size i < off \<or> off + n < off then Done (-1, s)
         else if of_nat (MAXFILE * BSIZE) < off + n then Done (-1, s)
         else obind (writei_loop (unat n + 1) ip src 0 off n s) (\<lambda>(off, s).
                if 0 < n \<and> i_size (inode_at s ip) < off
                then obind (iupdate ip (upd_inode ip (\<lambda>i. i\<lparr>i_size := off\<rparr>) s)) (\<lambda>s. Done (sint n, s))
                else Done (sint n, s)))"

section \<open>Directories\<close>

text \<open>\<^verbatim>\<open>strncmp\<close> and \<^verbatim>\<open>strncpy\<close> of \<^verbatim>\<open>string.c\<close> on names held as byte lists; a list that ends is a terminated string.\<close>

fun name_ncmp :: "nat \<Rightarrow> uchar list \<Rightarrow> uchar list \<Rightarrow> int" where
  "name_ncmp 0 p q = 0"
| "name_ncmp (Suc n) p q =
     (let a = (case p of [] \<Rightarrow> 0 | x # _ \<Rightarrow> x); b = (case q of [] \<Rightarrow> 0 | x # _ \<Rightarrow> x)
      in if a \<noteq> 0 \<and> a = b then name_ncmp n (tl p) (tl q) else uint a - uint b)"

definition namecmp :: "uchar list \<Rightarrow> uchar list \<Rightarrow> int" where
  "namecmp s t = name_ncmp DIRSIZ s t"

definition name_ncpy :: "nat \<Rightarrow> uchar list \<Rightarrow> uchar list" where
  "name_ncpy n t = (let p = take n (takeWhile (\<lambda>c. c \<noteq> 0) t) in p @ replicate (n - length p) 0)"

fun dirlookup_loop :: "nat \<Rightarrow> 'a fstate_scheme devsw \<Rightarrow> nat \<Rightarrow> uchar list \<Rightarrow> uint \<Rightarrow> 'a fstate_scheme \<Rightarrow>
    ((nat \<times> uint) option \<times> 'a fstate_scheme) outcome" where
  "dirlookup_loop 0 devsw dp name off s = Block"
| "dirlookup_loop (Suc fuel) devsw dp name off s =
     (if off < i_size (inode_at s dp)
      then obind (readi devsw dp off (of_nat dirent_size) s) (\<lambda>(r, bs, s).
             if r \<noteq> int dirent_size then Panic ''dirlookup read''
             else let de = get_dirent bs
                  in if de_inum de = 0 then dirlookup_loop fuel devsw dp name (off + of_nat dirent_size) s
                     else if namecmp name (de_name de) = 0
                          then obind (iget (i_dev (inode_at s dp)) (ucast (de_inum de)) s) (\<lambda>(ip, s). Done (Some (ip, off), s))
                          else dirlookup_loop fuel devsw dp name (off + of_nat dirent_size) s)
      else Done (None, s))"

definition dirlookup :: "'a fstate_scheme devsw \<Rightarrow> nat \<Rightarrow> uchar list \<Rightarrow> 'a fstate_scheme \<Rightarrow>
    ((nat \<times> uint) option \<times> 'a fstate_scheme) outcome" where
  "dirlookup devsw dp name s =
     (if i_type (inode_at s dp) \<noteq> T_DIR then Panic ''dirlookup not DIR''
      else dirlookup_loop (unat (i_size (inode_at s dp)) div dirent_size + 2) devsw dp name 0 s)"

fun dirlink_loop :: "nat \<Rightarrow> 'a fstate_scheme devsw \<Rightarrow> nat \<Rightarrow> uint \<Rightarrow> 'a fstate_scheme \<Rightarrow>
    (uint \<times> 'a fstate_scheme) outcome" where
  "dirlink_loop 0 devsw dp off s = Block"
| "dirlink_loop (Suc fuel) devsw dp off s =
     (if off < i_size (inode_at s dp)
      then obind (readi devsw dp off (of_nat dirent_size) s) (\<lambda>(r, bs, s).
             if r \<noteq> int dirent_size then Panic ''dirlink read''
             else if de_inum (get_dirent bs) = 0 then Done (off, s)
             else dirlink_loop fuel devsw dp (off + of_nat dirent_size) s)
      else Done (off, s))"

definition dirlink :: "'a fstate_scheme devsw \<Rightarrow> nat \<Rightarrow> uchar list \<Rightarrow> uint \<Rightarrow> 'a fstate_scheme \<Rightarrow>
    (int \<times> 'a fstate_scheme) outcome" where
  "dirlink devsw dp name inum s =
     obind (dirlookup devsw dp name s) (\<lambda>(r, s).
       case r of
         Some (ip, _) \<Rightarrow> obind (iput ip s) (\<lambda>s. Done (-1, s))
       | None \<Rightarrow>
           obind (dirlink_loop (unat (i_size (inode_at s dp)) div dirent_size + 2) devsw dp 0 s) (\<lambda>(off, s).
             let de = \<lparr>de_inum = ucast inum, de_name = name_ncpy DIRSIZ name\<rparr>
             in obind (writei devsw dp (put_dirent de) off (of_nat dirent_size) s) (\<lambda>(r, s).
                  if r \<noteq> int dirent_size then Panic ''dirlink'' else Done (0, s))))"

section \<open>Paths\<close>

text \<open>
  A path is the bytes of the C string without the terminator.  \<open>name\<close> is the caller's buffer of
  \<^verbatim>\<open>DIRSIZ\<close> bytes; what was in it beyond the bytes \<^verbatim>\<open>skipelem\<close> stores stays there.
\<close>

definition slash :: uchar where
  "slash = 47"

definition skipelem :: "uchar list \<Rightarrow> uchar list \<Rightarrow> (uchar list \<times> uchar list) option" where
  "skipelem path name =
     (let path = dropWhile (\<lambda>c. c = slash) path
      in if path = [] then None
         else let s = takeWhile (\<lambda>c. c \<noteq> slash) path;
                  path = dropWhile (\<lambda>c. c \<noteq> slash) path;
                  name = (if DIRSIZ \<le> length s then take DIRSIZ s else s @ 0 # drop (length s + 1) name)
              in Some (dropWhile (\<lambda>c. c = slash) path, name))"

lemma skipelem_shorter: "skipelem path name = Some (path', name') \<Longrightarrow> length path' < length path"
proof -
  assume a: "skipelem path name = Some (path', name')"
  let ?p = "dropWhile (\<lambda>c. c = slash) path"
  let ?q = "dropWhile (\<lambda>c. c \<noteq> slash) ?p"
  have p: "?p \<noteq> []" and q: "path' = dropWhile (\<lambda>c. c = slash) ?q" using a by (auto simp: skipelem_def Let_def split: if_splits)
  have "hd ?p \<noteq> slash" using p by (rule hd_dropWhile)
  then have "length ?q < length ?p"
    using p by (cases ?p) (auto simp: le_imp_less_Suc length_dropWhile_le)
  moreover have "length path' \<le> length ?q" "length ?p \<le> length path" using q by (simp_all add: length_dropWhile_le)
  ultimately show ?thesis by simp
qed

function namex_loop :: "'a fstate_scheme devsw \<Rightarrow> uchar list \<Rightarrow> bool \<Rightarrow> uchar list \<Rightarrow> nat \<Rightarrow> 'a fstate_scheme \<Rightarrow>
    (nat option \<times> uchar list \<times> 'a fstate_scheme) outcome" where
  "namex_loop devsw path parent name ip s =
     (case skipelem path name of
        None \<Rightarrow> if parent then obind (iput ip s) (\<lambda>s. Done (None, name, s)) else Done (Some ip, name, s)
      | Some (path, name) \<Rightarrow>
          obind (ilock ip s) (\<lambda>s.
            if i_type (inode_at s ip) \<noteq> T_DIR then obind (iunlockput ip s) (\<lambda>s. Done (None, name, s))
            else if parent \<and> path = [] then obind (iunlock ip s) (\<lambda>s. Done (Some ip, name, s))
            else obind (dirlookup devsw ip name s) (\<lambda>(r, s).
                   case r of
                     None \<Rightarrow> obind (iunlockput ip s) (\<lambda>s. Done (None, name, s))
                   | Some (next_ip, _) \<Rightarrow> obind (iunlockput ip s) (namex_loop devsw path parent name next_ip))))"
  by pat_completeness auto
termination by (relation "measure (\<lambda>(devsw, path, parent, name, ip, s). length path)") (auto dest: skipelem_shorter)

text \<open>\<open>cwd\<close> is \<^verbatim>\<open>myproc()->cwd\<close>.\<close>

definition namex :: "'a fstate_scheme devsw \<Rightarrow> nat \<Rightarrow> uchar list \<Rightarrow> bool \<Rightarrow> uchar list \<Rightarrow> 'a fstate_scheme \<Rightarrow>
    (nat option \<times> uchar list \<times> 'a fstate_scheme) outcome" where
  "namex devsw cwd path parent name s =
     obind (if path \<noteq> [] \<and> hd path = slash then iget ROOTDEV ROOTINO s else Done (idup cwd s)) (\<lambda>(ip, s).
       namex_loop devsw path parent name ip s)"

definition namei :: "'a fstate_scheme devsw \<Rightarrow> nat \<Rightarrow> uchar list \<Rightarrow> 'a fstate_scheme \<Rightarrow> (nat option \<times> 'a fstate_scheme) outcome" where
  "namei devsw cwd path s =
     obind (namex devsw cwd path False (replicate DIRSIZ 0) s) (\<lambda>(ip, _, s). Done (ip, s))"

definition nameiparent :: "'a fstate_scheme devsw \<Rightarrow> nat \<Rightarrow> uchar list \<Rightarrow> uchar list \<Rightarrow> 'a fstate_scheme \<Rightarrow>
    (nat option \<times> uchar list \<times> 'a fstate_scheme) outcome" where
  "nameiparent devsw cwd path name s = namex devsw cwd path True name s"

declare balloc_loop.simps [simp del] ialloc_loop.simps [simp del] readi_loop.simps [simp del] writei_loop.simps [simp del]
  dirlookup_loop.simps [simp del] dirlink_loop.simps [simp del] namex_loop.simps [simp del]

end
