(* ===== verification/Kalloc.thy ===== *)
theory Kalloc
  imports CString Locks
begin

text \<open>
  The physical page allocator (\<^verbatim>\<open>src/xv6/kalloc.c\<close>) over the byte memory the kernel addresses,
  with the address arithmetic of \<^verbatim>\<open>mmu.h\<close> and \<^verbatim>\<open>memlayout.h\<close>.  The free list is threaded through the
  free pages themselves, as in the code.  \<open>k_end\<close> and \<open>k_data\<close> are the linker symbols \<^verbatim>\<open>end\<close> and
  \<^verbatim>\<open>data\<close>.  The allocator's spin lock makes each operation atomic; the operations are
  the critical sections.
\<close>

section \<open>Pages and addresses\<close>

definition PGSIZE :: uint where
  "PGSIZE = 4096"

definition PGROUNDUP :: "uint \<Rightarrow> uint" where
  "PGROUNDUP sz = (sz + PGSIZE - 1) AND NOT (PGSIZE - 1)"

definition PGROUNDDOWN :: "uint \<Rightarrow> uint" where
  "PGROUNDDOWN a = a AND NOT (PGSIZE - 1)"

definition EXTMEM :: uint where
  "EXTMEM = 0x100000"

definition PHYSTOP :: uint where
  "PHYSTOP = 0xE000000"

definition DEVSPACE :: uint where
  "DEVSPACE = 0xFE000000"

definition KERNLINK :: uint where
  "KERNLINK = KERNBASE + EXTMEM"

definition V2P :: "uint \<Rightarrow> uint" where
  "V2P a = a - KERNBASE"

definition P2V :: "uint \<Rightarrow> uint" where
  "P2V a = a + KERNBASE"

section \<open>The allocator\<close>

record kmem =
  mem :: cmem
  freelist :: uint
  use_lock :: bool
  k_end :: uint
  k_data :: uint

definition kfree :: "uint \<Rightarrow> 'a kmem_scheme \<Rightarrow> 'a kmem_scheme outcome" where
  "kfree v s =
     (if v mod PGSIZE \<noteq> 0 \<or> v < k_end s \<or> PHYSTOP \<le> V2P v then Panic ''kfree''
      else let m = memset (mem s) v 1 PGSIZE
           in Done (s\<lparr>mem := store32 m v (freelist s), freelist := v\<rparr>))"

definition kalloc :: "'a kmem_scheme \<Rightarrow> uint \<times> 'a kmem_scheme" where
  "kalloc s =
     (let r = freelist s
      in (r, if r \<noteq> 0 then s\<lparr>freelist := load32 (mem s) r\<rparr> else s))"

text \<open>
  \<^verbatim>\<open>freerange\<close> calls \<^verbatim>\<open>kfree\<close> on every whole page between the two addresses.  \<^verbatim>\<open>kfree\<close> panics above
  \<open>PHYSTOP\<close>, which is what ends the loop when \<open>vend\<close> is too high.
\<close>

lemma kfree_Done:
  "kfree v s = Done t \<longleftrightarrow> v mod PGSIZE = 0 \<and> k_end s \<le> v \<and> V2P v < PHYSTOP \<and>
     t = s\<lparr>mem := store32 (memset (mem s) v 1 PGSIZE) v (freelist s), freelist := v\<rparr>"
  by (auto simp: kfree_def Let_def not_le not_less)

function freerange_loop :: "uint \<Rightarrow> uint \<Rightarrow> 'a kmem_scheme \<Rightarrow> 'a kmem_scheme outcome" where
  "freerange_loop p vend s =
     (if p + PGSIZE \<le> vend then obind (kfree p s) (freerange_loop (p + PGSIZE) vend) else Done s)"
  by pat_completeness auto
termination
proof (relation "measure (\<lambda>(p, vend, s). unat (PHYSTOP + PGSIZE - V2P p))", goal_cases)
  case (2 p vend s t)
  then have "V2P p < PHYSTOP" by (simp add: kfree_Done)
  then have "unat (PHYSTOP - V2P p) \<le> unat PHYSTOP" by (simp add: unat_sub_uint)
  then have "unat (PHYSTOP - V2P p + PGSIZE) = unat (PHYSTOP - V2P p) + unat PGSIZE"
    by (intro unat_add_uint) (simp add: PHYSTOP_def PGSIZE_def)
  moreover have e: "PHYSTOP + PGSIZE - V2P p = PHYSTOP - V2P p + PGSIZE"
    "PHYSTOP + PGSIZE - V2P (p + PGSIZE) = PHYSTOP - V2P p"
    by (simp_all add: V2P_def)
  moreover have "0 < unat PGSIZE" by (simp add: PGSIZE_def)
  ultimately show ?case by (simp only: in_measure split_conv e)
qed simp

declare freerange_loop.simps [simp del]

definition freerange :: "uint \<Rightarrow> uint \<Rightarrow> 'a kmem_scheme \<Rightarrow> 'a kmem_scheme outcome" where
  "freerange vstart vend s = freerange_loop (PGROUNDUP vstart) vend s"

definition kinit1 :: "uint \<Rightarrow> uint \<Rightarrow> 'a kmem_scheme \<Rightarrow> 'a kmem_scheme outcome" where
  "kinit1 vstart vend s = freerange vstart vend (s\<lparr>use_lock := False\<rparr>)"

definition kinit2 :: "uint \<Rightarrow> uint \<Rightarrow> 'a kmem_scheme \<Rightarrow> 'a kmem_scheme outcome" where
  "kinit2 vstart vend s = obind (freerange vstart vend s) (\<lambda>s. Done (s\<lparr>use_lock := True\<rparr>))"

section \<open>Arithmetic of pages\<close>

definition aligned :: "uint \<Rightarrow> bool" where
  "aligned p \<longleftrightarrow> p AND 0xFFF = 0"

lemma mask12_uint: "(0xFFF :: uint) = mask 12"
  by (simp add: mask_eq_exp_minus_1)

lemma mod_PGSIZE: "(v :: uint) mod PGSIZE = v AND 0xFFF"
proof -
  have "v mod 2 ^ 12 = take_bit 12 v" by (simp only: take_bit_eq_mod)
  then show ?thesis by (simp add: PGSIZE_def mask12_uint take_bit_eq_mask)
qed

lemma PGROUNDDOWN_mask: "PGROUNDDOWN a = a AND NOT 0xFFF"
  by (simp add: PGROUNDDOWN_def PGSIZE_def)

lemma bit_uint_less: "bit (a :: uint) n \<Longrightarrow> n < 32"
  using bit_imp_le_length [of a n] by simp

lemma bit_PGROUNDDOWN: "bit (PGROUNDDOWN a) n \<longleftrightarrow> 12 \<le> n \<and> bit a n"
  unfolding PGROUNDDOWN_mask mask12_uint by (auto simp: bit_simps dest: bit_uint_less)

lemma aligned_bit: "aligned p \<longleftrightarrow> (\<forall>n. bit p n \<longrightarrow> 12 \<le> n)"
  unfolding aligned_def mask12_uint by (auto simp: bit_eq_iff bit_simps not_le dest: bit_uint_less)

lemma aligned_PGROUNDDOWN [simp]: "aligned (PGROUNDDOWN a)"
  by (simp add: aligned_bit bit_PGROUNDDOWN)

lemma aligned_eq: "aligned p \<Longrightarrow> PGROUNDDOWN p = p"
  by (rule bit_word_eqI) (auto simp: bit_PGROUNDDOWN aligned_bit)

text \<open>
  The bytes of an aligned block of \<open>2 ^ k\<close> bytes are the addresses that round down to it; used for
  pages (\<open>k = 12\<close>) and for 32-bit words (\<open>k = 2\<close>).
\<close>

lemma and_NOT_mask_split: "(x AND NOT (mask k)) + (x AND mask k) = (x :: uint)"
proof -
  have "(x AND NOT (mask k)) + (x AND mask k) = (x AND NOT (mask k)) OR (x AND mask k)"
    by (rule disjunctive_add_eq_or) (rule bit_eqI, simp add: bit_simps)
  also have "\<dots> = x" by (rule bit_eqI) (auto simp: bit_simps)
  finally show ?thesis .
qed

lemma in_block:
  fixes x p :: uint
  assumes p: "p AND mask k = 0" and k: "k < 32"
  shows "unat (x - p) < 2 ^ k \<longleftrightarrow> x AND NOT (mask k) = p"
proof
  assume "x AND NOT (mask k) = p"
  then have "x - p = x AND mask k" using and_NOT_mask_split [of x k] by (metis add_diff_cancel_left')
  then have "unat (x - p) = take_bit k (unat x)" by (simp add: unsigned_take_bit_eq flip: take_bit_eq_mask)
  then show "unat (x - p) < 2 ^ k" by simp
next
  assume u: "unat (x - p) < 2 ^ k"
  have pb: "bit p n \<Longrightarrow> k \<le> n" for n
    using p by (auto simp: bit_eq_iff bit_simps not_le dest: bit_uint_less)
  have y: "x - p = take_bit k (x - p)"
    by (rule word_unat_eq_iff [THEN iffD2]) (use u in \<open>simp add: unsigned_take_bit_eq take_bit_nat_eq_self\<close>)
  have yb: "bit (x - p) n \<Longrightarrow> n < k" for n using y by (metis bit_take_bit_iff)
  have "x = p + (x - p)" by simp
  also have "\<dots> = p OR (x - p)"
    by (rule disjunctive_add_eq_or) (rule bit_eqI, use pb yb in \<open>force simp: bit_simps\<close>)
  finally have x: "x = p OR (x - p)" .
  have b: "bit x n \<longleftrightarrow> bit p n \<or> bit (x - p) n" for n by (subst x) (simp add: bit_simps)
  show "x AND NOT (mask k) = p"
    by (rule bit_eqI) (use b pb yb in \<open>force simp: bit_simps dest: bit_uint_less\<close>)
qed

lemma in_page: "aligned p \<Longrightarrow> unat (x - p) < 4096 \<longleftrightarrow> PGROUNDDOWN x = p"
  using in_block [of p 12 x] by (simp add: aligned_def PGROUNDDOWN_mask mask12_uint)

definition word_aligned :: "uint \<Rightarrow> bool" where
  "word_aligned a \<longleftrightarrow> a AND 3 = 0"

lemma mask2_uint: "(3 :: uint) = mask 2"
  by (simp add: mask_eq_exp_minus_1)

lemma in_word:
  assumes "word_aligned a"
  shows "x = a \<or> x = a + 1 \<or> x = a + 2 \<or> x = a + 3 \<longleftrightarrow> x AND NOT 3 = a"
proof -
  have "x AND NOT 3 = a \<longleftrightarrow> unat (x - a) < 4"
    using in_block [of a 2 x] assms by (simp add: word_aligned_def mask2_uint)
  also have "\<dots> \<longleftrightarrow> x - a = 0 \<or> x - a = 1 \<or> x - a = 2 \<or> x - a = 3"
  proof
    assume "unat (x - a) < 4"
    then have "unat (x - a) = 0 \<or> unat (x - a) = 1 \<or> unat (x - a) = 2 \<or> unat (x - a) = 3" by linarith
    then show "x - a = 0 \<or> x - a = 1 \<or> x - a = 2 \<or> x - a = 3"
      by (simp add: word_unat_eq_iff)
  qed auto
  also have "\<dots> \<longleftrightarrow> x = a \<or> x = a + 1 \<or> x = a + 2 \<or> x = a + 3" by (auto simp: diff_eq_eq add.commute)
  finally show ?thesis by blast
qed

lemma word_aligned_page: "word_aligned a \<Longrightarrow> x AND NOT 3 = a \<Longrightarrow> PGROUNDDOWN x = PGROUNDDOWN a"
  by (rule bit_eqI) (auto simp: bit_PGROUNDDOWN mask2_uint bit_simps dest: bit_uint_less)

lemma aligned_word: "aligned p \<Longrightarrow> word_aligned p"
  unfolding aligned_def word_aligned_def mask12_uint mask2_uint
  by (auto simp: bit_eq_iff bit_simps)

section \<open>Loads and stores, by word and by page\<close>

lemma store32_apply:
  "word_aligned a \<Longrightarrow> x AND NOT 3 \<noteq> a \<Longrightarrow> store32 m a v x = m x"
  using in_word [of a x] by (intro store32_other) auto

lemma store32_page:
  "word_aligned a \<Longrightarrow> PGROUNDDOWN x \<noteq> PGROUNDDOWN a \<Longrightarrow> store32 m a v x = m x"
  using word_aligned_page [of a x] by (intro store32_apply) auto

lemma load32_cong:
  assumes "word_aligned a" and "\<And>x. x AND NOT 3 = a \<Longrightarrow> m x = m' x"
  shows "load32 m a = load32 m' a"
proof -
  have "m y = m' y" if "y = a \<or> y = a + 1 \<or> y = a + 2 \<or> y = a + 3" for y
    using assms(2) in_word [OF assms(1)] that by blast
  then show ?thesis by (simp add: load32_def)
qed

lemma load32_store32_other:
  assumes "word_aligned a" and "word_aligned b" and "a \<noteq> b"
  shows "load32 (store32 m a v) b = load32 m b"
  by (rule load32_cong [OF assms(2)]) (use assms in \<open>auto intro: store32_apply\<close>)

lemma load32_page_cong:
  assumes "word_aligned a" and "\<And>x. PGROUNDDOWN x = PGROUNDDOWN a \<Longrightarrow> m x = m' x"
  shows "load32 m a = load32 m' a"
  by (rule load32_cong [OF assms(1)]) (use assms word_aligned_page in blast)

lemma memset_page:
  "aligned p \<Longrightarrow> memset m p c PGSIZE x = (if PGROUNDDOWN x = p then ucast c else m x)"
  using in_page [of p x] by (simp add: memset_spec PGSIZE_def)

section \<open>The free list\<close>

primrec flist :: "cmem \<Rightarrow> uint \<Rightarrow> uint list \<Rightarrow> bool" where
  "flist m p [] \<longleftrightarrow> p = 0"
| "flist m p (q # qs) \<longleftrightarrow> p = q \<and> q \<noteq> 0 \<and> flist m (load32 m q) qs"

definition valid_page :: "'a kmem_scheme \<Rightarrow> uint \<Rightarrow> bool" where
  "valid_page s p \<longleftrightarrow> aligned p \<and> k_end s \<le> p \<and> V2P p < PHYSTOP"

definition kmem_inv :: "'a kmem_scheme \<Rightarrow> uint list \<Rightarrow> bool" where
  "kmem_inv s ps \<longleftrightarrow> flist (mem s) (freelist s) ps \<and> distinct ps \<and> (\<forall>p\<in>set ps. valid_page s p)
     \<and> KERNBASE < k_end s"

lemma flist_cong:
  "\<forall>q\<in>set qs. aligned q \<Longrightarrow> (\<And>x. PGROUNDDOWN x \<in> set qs \<Longrightarrow> m x = m' x) \<Longrightarrow> flist m p qs = flist m' p qs"
proof (induction qs arbitrary: p)
  case (Cons q qs)
  have "load32 m q = load32 m' q"
    using Cons.prems by (intro load32_page_cong) (auto simp: aligned_word aligned_eq)
  moreover have "flist m r qs = flist m' r qs" for r using Cons by simp
  ultimately show ?case by simp
qed simp

lemma valid_page_nonzero: "KERNBASE < k_end s \<Longrightarrow> valid_page s p \<Longrightarrow> p \<noteq> 0"
  by (auto simp: valid_page_def)

lemma valid_page_aligned [dest]: "valid_page s p \<Longrightarrow> aligned p"
  by (simp add: valid_page_def)

text \<open>Free pages may be overwritten only by the allocator; nothing else changes the list.\<close>

lemma kmem_inv_frame:
  assumes "kmem_inv s ps" and "\<And>x. PGROUNDDOWN x \<in> set ps \<Longrightarrow> m x = mem s x"
  shows "kmem_inv (s\<lparr>mem := m\<rparr>) ps"
  using assms flist_cong [of ps m "mem s" "freelist s"]
  by (auto simp: kmem_inv_def valid_page_def)

lemma kalloc_empty: "kmem_inv s [] \<Longrightarrow> kalloc s = (0, s)"
  by (simp add: kalloc_def kmem_inv_def)

lemma kalloc_Cons:
  assumes "kmem_inv s (p # ps)"
  obtains t where "kalloc s = (p, t)" and "kmem_inv t ps" and "mem t = mem s" and "k_end t = k_end s"
    and "k_data t = k_data s" and "kmem.more t = kmem.more s" and "use_lock t = use_lock s"
  using assms by (auto simp: kalloc_def kmem_inv_def valid_page_def)

lemma kfree_valid:
  assumes inv: "kmem_inv s ps" and p: "valid_page s p" "p \<notin> set ps"
  obtains t where "kfree p s = Done t" and "kmem_inv t (p # ps)" and "k_end t = k_end s"
    and "\<And>x. PGROUNDDOWN x \<noteq> p \<Longrightarrow> mem t x = mem s x" and "k_data t = k_data s"
    and "kmem.more t = kmem.more s" and "use_lock t = use_lock s"
proof -
  have al: "aligned p" using p(1) by auto
  let ?m = "store32 (memset (mem s) p 1 PGSIZE) p (freelist s)"
  let ?t = "s\<lparr>mem := ?m, freelist := p\<rparr>"
  have run: "kfree p s = Done ?t"
    using p(1) by (simp add: kfree_Done valid_page_def mod_PGSIZE aligned_def)
  have same: "?m x = mem s x" if "PGROUNDDOWN x \<noteq> p" for x
    using that store32_page [OF aligned_word [OF al]] memset_page [OF al] aligned_eq [OF al] by simp
  have "flist ?m (freelist s) ps = flist (mem s) (freelist s) ps"
  proof (rule flist_cong)
    show "\<forall>q\<in>set ps. aligned q" using inv by (auto simp: kmem_inv_def)
    show "?m x = mem s x" if "PGROUNDDOWN x \<in> set ps" for x using same p(2) that by metis
  qed
  moreover have "p \<noteq> 0" using inv p(1) valid_page_nonzero by (auto simp: kmem_inv_def)
  ultimately have "kmem_inv ?t (p # ps)"
    using inv p by (auto simp: kmem_inv_def valid_page_def load32_store32_same)
  then show thesis using that [OF run] same by simp
qed

section \<open>The allocator as an interface\<close>

text \<open>
  What code that owns pages relies on.  \<open>st\<close> is an allocator state, \<open>free s\<close> its stack of free
  pages; \<open>upd\<close> is a client overwriting a page it owns.
\<close>

locale page_allocator =
  fixes alloc :: "'s \<Rightarrow> uint \<times> 's"
    and release :: "uint \<Rightarrow> 's \<Rightarrow> 's outcome"
    and bytes :: "'s \<Rightarrow> cmem"
    and upd :: "cmem \<Rightarrow> 's \<Rightarrow> 's"
    and inv :: "'s \<Rightarrow> uint list \<Rightarrow> bool"
    and valid :: "'s \<Rightarrow> uint \<Rightarrow> bool"
  assumes alloc_none: "inv s [] \<Longrightarrow> alloc s = (0, s)"
    and alloc_some: "inv s (p # ps) \<Longrightarrow>
      \<exists>t. alloc s = (p, t) \<and> inv t ps \<and> bytes t = bytes s \<and> valid t = valid s"
    and release: "inv s ps \<Longrightarrow> valid s p \<Longrightarrow> p \<notin> set ps \<Longrightarrow>
      \<exists>t. release p s = Done t \<and> inv t (p # ps) \<and> valid t = valid s
        \<and> (\<forall>x. PGROUNDDOWN x \<noteq> p \<longrightarrow> bytes t x = bytes s x)"
    and upd: "inv s ps \<Longrightarrow> (\<And>x. PGROUNDDOWN x \<in> set ps \<Longrightarrow> m x = bytes s x) \<Longrightarrow> inv (upd m s) ps"
    and upd_valid: "valid (upd m s) = valid s"
    and bytes_upd: "bytes (upd m s) = m"
    and free_pages: "inv s ps \<Longrightarrow> distinct ps \<and> (\<forall>p\<in>set ps. valid s p \<and> p \<noteq> 0)"
begin

text \<open>Whatever pages \<open>us\<close> are out, in the hands of clients, allocation gives another one.\<close>

lemma alloc_fails_iff: "inv s ps \<Longrightarrow> fst (alloc s) = 0 \<longleftrightarrow> ps = []"
  using alloc_none alloc_some free_pages by (cases ps) fastforce+

lemma alloc_fresh:
  assumes inv: "inv s ps" and us: "set ps \<inter> us = {}" and run: "alloc s = (p, t)" "p \<noteq> 0"
  shows "p \<notin> us \<and> valid s p \<and> bytes t = bytes s \<and> inv t (tl ps) \<and> set (tl ps) \<inter> insert p us = {} \<and> valid t = valid s"
proof -
  obtain q qs where ps: "ps = q # qs" using alloc_none inv run by (cases ps) auto
  then have "inv s (q # qs)" using inv by simp
  from alloc_some [OF this] free_pages [OF this] show ?thesis using run us ps by auto
qed

lemma release_used:
  assumes "inv s ps" and "set ps \<inter> us = {}" and "\<forall>p\<in>us. valid s p" and "p \<in> us"
  shows "\<exists>t. release p s = Done t \<and> inv t (p # ps) \<and> valid t = valid s
    \<and> (\<forall>x. PGROUNDDOWN x \<noteq> p \<longrightarrow> bytes t x = bytes s x)"
  using release [of s ps p] assms by blast

end

interpretation kp: page_allocator kalloc kfree mem "\<lambda>m s. s\<lparr>mem := m\<rparr>" kmem_inv valid_page
proof (unfold_locales, goal_cases)
  case (1 s)
  then show ?case by (rule kalloc_empty)
next
  case (2 s p ps)
  obtain t where "kalloc s = (p, t)" "kmem_inv t ps" "mem t = mem s" "k_end t = k_end s"
    using kalloc_Cons [OF 2] by metis
  then show ?case by (auto simp: valid_page_def fun_eq_iff)
next
  case (3 s ps p)
  obtain t where "kfree p s = Done t" "kmem_inv t (p # ps)" "k_end t = k_end s"
    "\<And>x. PGROUNDDOWN x \<noteq> p \<Longrightarrow> mem t x = mem s x"
    using kfree_valid [OF 3] by metis
  then show ?case by (auto simp: valid_page_def fun_eq_iff)
next
  case (4 s ps m)
  then show ?case by (rule kmem_inv_frame)
next
  case (7 s ps)
  then show ?case using valid_page_nonzero by (auto simp: kmem_inv_def)
qed (auto simp: valid_page_def fun_eq_iff)

section \<open>Initialisation\<close>

lemma aligned_unat: "aligned p \<longleftrightarrow> unat p mod 4096 = 0"
proof -
  have "unat (p mod PGSIZE) = unat p mod 4096" by (simp add: PGSIZE_def unat_mod)
  then show ?thesis by (metis aligned_def mod_PGSIZE unsigned_0 word_unat_eq_iff)
qed

text \<open>Multiples of the page size.\<close>

lemma page_multiples: "(a :: nat) mod 4096 = 0 \<Longrightarrow> b mod 4096 = 0 \<Longrightarrow> a < b \<Longrightarrow> a + 4096 \<le> b"
  by (auto simp: mod_eq_0_iff_dvd elim!: dvdE)

lemma aligned_add_page: "aligned p \<Longrightarrow> aligned (p + PGSIZE)"
proof -
  assume "aligned p"
  then have "unat p mod 4096 = 0" by (simp add: aligned_unat)
  moreover have "unat (p + PGSIZE) = (unat p + 4096) mod 2 ^ 32" by (simp add: unat_word_ariths(1) PGSIZE_def)
  moreover have "x mod 2 ^ 32 mod 4096 = x mod 4096" for x :: nat by (rule mod_mod_cancel) simp
  ultimately show "aligned (p + PGSIZE)" by (simp only: aligned_unat mod_add_self2)
qed

text \<open>The kernel's window on physical memory, in numbers.\<close>

lemma V2P_le_PHYSTOP: "KERNBASE \<le> a \<Longrightarrow> V2P a \<le> PHYSTOP \<longleftrightarrow> unat a \<le> 0x8E000000"
  by (simp add: V2P_def word_le_nat_alt unat_sub_uint) (simp add: KERNBASE_def PHYSTOP_def, linarith)

lemma V2P_less_PHYSTOP: "KERNBASE \<le> a \<Longrightarrow> V2P a < PHYSTOP \<longleftrightarrow> unat a < 0x8E000000"
  by (simp add: V2P_def word_less_nat_alt word_le_nat_alt unat_sub_uint) (simp add: KERNBASE_def PHYSTOP_def, linarith)

text \<open>The whole pages between two addresses.\<close>

definition pages_between :: "uint \<Rightarrow> uint \<Rightarrow> uint set" where
  "pages_between p vend = {q. aligned q \<and> p \<le> q \<and> unat q + 4096 \<le> unat vend}"

lemma pages_between_step:
  assumes "aligned p" and "unat p + 4096 \<le> unat vend"
  shows "pages_between p vend = insert p (pages_between (p + PGSIZE) vend)" and "p \<notin> pages_between (p + PGSIZE) vend"
proof -
  have u: "unat (p + PGSIZE) = unat p + 4096"
    using assms(2) unat_uint_less [of vend] unat_add_uint [of p PGSIZE] by (simp add: PGSIZE_def)
  have "q = p \<or> p + PGSIZE \<le> q" if "aligned q" "p \<le> q" for q
  proof -
    have "unat p mod 4096 = 0" "unat q mod 4096 = 0" "unat p \<le> unat q"
      using that assms(1) by (simp_all add: aligned_unat word_le_nat_alt)
    then have "unat q = unat p \<or> unat p + 4096 \<le> unat q" using page_multiples [of "unat p" "unat q"] by linarith
    then show ?thesis using u by (auto simp: word_le_nat_alt word_unat_eq_iff)
  qed
  then show "pages_between p vend = insert p (pages_between (p + PGSIZE) vend)"
    using assms u by (auto simp: pages_between_def word_le_nat_alt)
  show "p \<notin> pages_between (p + PGSIZE) vend" using u by (simp add: pages_between_def word_le_nat_alt)
qed

lemma freerange_loop_spec:
  assumes "kmem_inv s ps" and "aligned p" and "k_end s \<le> p" and "V2P p \<le> PHYSTOP"
    and "KERNBASE \<le> vend" and "V2P vend \<le> PHYSTOP" and "set ps \<inter> pages_between p vend = {}"
  shows "\<exists>t qs. freerange_loop p vend s = Done t \<and> kmem_inv t (qs @ ps) \<and> set qs = pages_between p vend
    \<and> k_end t = k_end s \<and> k_data t = k_data s \<and> (\<forall>x. PGROUNDDOWN x \<notin> set qs \<longrightarrow> mem t x = mem s x)"
  using assms
proof (induction p vend s arbitrary: ps rule: freerange_loop.induct)
  case (1 p vend s)
  have kp: "KERNBASE \<le> p" using 1(2,4) by (auto simp: kmem_inv_def)
  have up: "unat p \<le> 0x8E000000" "unat vend \<le> 0x8E000000" using V2P_le_PHYSTOP 1(5,6,7) kp by auto
  have u: "unat (p + PGSIZE) = unat p + 4096" using up unat_add_uint [of p PGSIZE] by (simp add: PGSIZE_def)
  show ?case
  proof (cases "p + PGSIZE \<le> vend")
    case False
    have "pages_between p vend = {}" using False u by (auto simp: pages_between_def word_le_nat_alt)
    then show ?thesis using False 1(2) by (auto simp: freerange_loop.simps [of p])
  next
    case True
    then have le: "unat p + 4096 \<le> unat vend" using u by (simp add: word_le_nat_alt)
    note st = pages_between_step [OF 1(3) le]
    have v: "valid_page s p" using 1(3,4) V2P_less_PHYSTOP [OF kp] le up by (simp add: valid_page_def)
    have "p \<notin> set ps" using 1(8) st by auto
    from kfree_valid [OF 1(2) v this] obtain t where t: "kfree p s = Done t" "kmem_inv t (p # ps)" "k_end t = k_end s"
      "\<And>x. PGROUNDDOWN x \<noteq> p \<Longrightarrow> mem t x = mem s x" "k_data t = k_data s"
      by metis
    have "k_end t \<le> p + PGSIZE" "V2P (p + PGSIZE) \<le> PHYSTOP" "set (p # ps) \<inter> pages_between (p + PGSIZE) vend = {}"
      using 1(4,8) t(3) u le up st V2P_le_PHYSTOP [of "p + PGSIZE"] kp by (auto simp: word_le_nat_alt)
    from 1(1) [OF True t(1,2) aligned_add_page [OF 1(3)] this(1,2) 1(6,7) this(3)]
    obtain r qs where "freerange_loop (p + PGSIZE) vend t = Done r" "kmem_inv r (qs @ p # ps)"
      "set qs = pages_between (p + PGSIZE) vend" "k_end r = k_end t" "k_data r = k_data t"
      "\<forall>x. PGROUNDDOWN x \<notin> set qs \<longrightarrow> mem r x = mem t x"
      by blast
    then show ?thesis using True t st by (intro exI [of _ r] exI [of _ "qs @ [p]"]) (auto simp: freerange_loop.simps [of p])
  qed
qed

lemma aligned_PGROUNDUP [simp]: "aligned (PGROUNDUP a)"
  by (simp add: PGROUNDUP_def flip: PGROUNDDOWN_def)

lemma PGROUNDUP_unat:
  assumes "unat a + 4095 < 2 ^ 32"
  shows "unat a \<le> unat (PGROUNDUP a)" and "unat (PGROUNDUP a) < unat a + 4096"
proof -
  have u: "unat (a + 0xFFF) = unat a + 4095" using assms unat_add_uint [of a "0xFFF"] by simp
  have e: "PGROUNDUP a = PGROUNDDOWN (a + 0xFFF)" by (simp add: PGROUNDUP_def PGROUNDDOWN_def PGSIZE_def algebra_simps)
  have "unat ((a + 0xFFF) - PGROUNDUP a) < 4096" using in_page [of "PGROUNDUP a" "a + 0xFFF"] e by simp
  moreover have "PGROUNDUP a \<le> a + 0xFFF" unfolding e PGROUNDDOWN_mask by (rule word_and_le2)
  ultimately show "unat a \<le> unat (PGROUNDUP a)" "unat (PGROUNDUP a) < unat a + 4096"
    using u by (simp_all add: unat_sub_uint word_le_nat_alt)
qed

section \<open>The allocator in use\<close>

text \<open>
  The life of the allocator in \<^verbatim>\<open>main\<close>: \<^verbatim>\<open>kinit1\<close> on the first 4 megabytes, pages allocated,
  freed and written by their owners in any order, \<^verbatim>\<open>kinit2\<close> on the rest of memory while only pages below 4
  megabytes are known.  \<open>ps\<close> is the free list, \<open>us\<close> the pages in use.
\<close>

inductive kmem_use :: "kmem \<Rightarrow> uint list \<Rightarrow> uint set \<Rightarrow> bool" where
  first: "freelist s = 0 \<Longrightarrow> KERNBASE < k_end s \<Longrightarrow> k_end s \<le> P2V 0x400000 \<Longrightarrow>
    kinit1 (k_end s) (P2V 0x400000) s = Done t \<Longrightarrow> kmem_inv t ps \<Longrightarrow> kmem_use t ps {}"
| second: "kmem_use s ps us \<Longrightarrow> (\<forall>p\<in>set ps \<union> us. p < P2V 0x400000) \<Longrightarrow> k_end s \<le> P2V 0x400000 \<Longrightarrow>
    kinit2 (P2V 0x400000) (P2V PHYSTOP) s = Done t \<Longrightarrow> kmem_inv t qs \<Longrightarrow> kmem_use t qs us"
| alloc: "kmem_use s ps us \<Longrightarrow> kalloc s = (p, t) \<Longrightarrow> p \<noteq> 0 \<Longrightarrow> kmem_use t (tl ps) (insert p us)"
| free: "kmem_use s ps us \<Longrightarrow> p \<in> us \<Longrightarrow> kfree p s = Done t \<Longrightarrow> kmem_use t (p # ps) (us - {p})"
| store: "kmem_use s ps us \<Longrightarrow> (\<And>x. PGROUNDDOWN x \<notin> us \<Longrightarrow> m x = mem s x) \<Longrightarrow> kmem_use (s\<lparr>mem := m\<rparr>) ps us"

lemma flist_unique: "flist m p qs \<Longrightarrow> flist m p rs \<Longrightarrow> qs = rs"
  by (induction qs arbitrary: p rs) (case_tac rs; auto)+

lemma kinit2_run:
  assumes "kmem_inv s ps" and "\<forall>p\<in>set ps. p < P2V 0x400000" and "k_end s \<le> P2V 0x400000"
  shows "\<exists>t qs. kinit2 (P2V 0x400000) (P2V PHYSTOP) s = Done t \<and> kmem_inv t (qs @ ps) \<and> k_end t = k_end s
    \<and> set qs = pages_between (P2V 0x400000) (P2V PHYSTOP)"
proof -
  have c: "PGROUNDUP (P2V 0x400000) = P2V 0x400000" "aligned (P2V 0x400000)" "V2P (P2V 0x400000) \<le> PHYSTOP"
    "KERNBASE \<le> P2V PHYSTOP" "V2P (P2V PHYSTOP) \<le> PHYSTOP"
    by (simp_all add: PGROUNDUP_def aligned_def P2V_def V2P_def KERNBASE_def PHYSTOP_def PGSIZE_def)
  have "set ps \<inter> pages_between (P2V 0x400000) (P2V PHYSTOP) = {}"
    using assms(2) by (auto simp: pages_between_def not_le [symmetric])
  from freerange_loop_spec [OF assms(1) c(2) assms(3) c(3-5) this]
  obtain t qs where "freerange_loop (P2V 0x400000) (P2V PHYSTOP) s = Done t" "kmem_inv t (qs @ ps)"
    "set qs = pages_between (P2V 0x400000) (P2V PHYSTOP)" "k_end t = k_end s" by blast
  moreover have "kmem_inv (t\<lparr>use_lock := True\<rparr>) (qs @ ps)"
    using calculation(2) by (simp add: kmem_inv_def valid_page_def)
  ultimately show ?thesis by (simp add: kinit2_def freerange_def c(1)) blast
qed

lemma kmem_use_uses: "kmem_use s ps us \<Longrightarrow> kmem_inv s ps \<and> set ps \<inter> us = {} \<and> (\<forall>p\<in>us. valid_page s p)"
proof (induction rule: kmem_use.induct)
  case (second s ps us t qs)
  then have i: "kmem_inv s ps" "\<forall>p\<in>set ps. p < P2V 0x400000" by auto
  obtain t' rs where r: "kinit2 (P2V 0x400000) (P2V PHYSTOP) s = Done t'" "kmem_inv t' (rs @ ps)" "k_end t' = k_end s"
    "set rs = pages_between (P2V 0x400000) (P2V PHYSTOP)"
    using kinit2_run [OF i second.hyps(3)] by blast
  have t: "t' = t" using r(1) second.hyps(4) by simp
  then have "qs = rs @ ps" using r(2) second.hyps(5) flist_unique by (auto simp: kmem_inv_def)
  moreover have "set rs \<inter> us = {}" using r(4) second.hyps(2) by (auto simp: pages_between_def not_le [symmetric])
  ultimately show ?case using second.IH second.hyps(5) r(3) t by (auto simp: valid_page_def)
next
  case (alloc s ps us p t)
  then show ?case using kp.alloc_fresh [of s ps us p t] by auto
next
  case (free s ps us p t)
  then show ?case using kp.release_used [of s ps us p] by auto
next
  case (store s ps us m)
  have "kmem_inv (s\<lparr>mem := m\<rparr>) ps" using store by (intro kmem_inv_frame) auto
  then show ?case using store.IH by (auto simp: valid_page_def)
qed simp


text \<open>A machine whose kernel ends two pages below 4 megabytes.\<close>

definition sample_kmem :: kmem where
  "sample_kmem = \<lparr>mem = \<lambda>_. 0, freelist = 0, use_lock = False, k_end = P2V 0x3FE000, k_data = KERNLINK + 0x8000\<rparr>"


end
