(* ===== verification/VM.thy ===== *)
theory VM
  imports Kalloc
begin

text \<open>
  Page tables (\<^verbatim>\<open>src/xv6/vm.c\<close>, the constants of \<^verbatim>\<open>mmu.h\<close>).  A page directory and its page tables
  live in the byte memory, where the code and the paging hardware read and write them as arrays of 32-bit words.
  A null pointer is the address 0.  Loops carry a fuel that is computed from their bounds; running
  out of it would be the value \<open>Block\<close>.
\<close>

section \<open>Entries\<close>

definition PDX :: "uint \<Rightarrow> uint" where
  "PDX va = drop_bit 22 va AND 0x3FF"

definition PTX :: "uint \<Rightarrow> uint" where
  "PTX va = drop_bit 12 va AND 0x3FF"

definition PGADDR :: "uint \<Rightarrow> uint \<Rightarrow> uint \<Rightarrow> uint" where
  "PGADDR d t p = push_bit 22 d OR push_bit 12 t OR p"

definition NPDENTRIES :: nat where
  "NPDENTRIES = 1024"

definition PTE_P :: uint where
  "PTE_P = 0x001"

definition PTE_W :: uint where
  "PTE_W = 0x002"

definition PTE_U :: uint where
  "PTE_U = 0x004"

definition PTE_ADDR :: "uint \<Rightarrow> uint" where
  "PTE_ADDR pte = pte AND NOT 0xFFF"

definition PTE_FLAGS :: "uint \<Rightarrow> uint" where
  "PTE_FLAGS pte = pte AND 0xFFF"

section \<open>Walking and mapping\<close>

definition walkpgdir :: "uint \<Rightarrow> uint \<Rightarrow> bool \<Rightarrow> 'a kmem_scheme \<Rightarrow> uint \<times> 'a kmem_scheme" where
  "walkpgdir pgdir va alloc s =
     (let pde = pgdir + 4 * PDX va
      in if load32 (mem s) pde AND PTE_P \<noteq> 0
         then (P2V (PTE_ADDR (load32 (mem s) pde)) + 4 * PTX va, s)
         else if \<not> alloc then (0, s)
         else let (pgtab, s) = kalloc s
              in if pgtab = 0 then (0, s)
                 else let m = memset (mem s) pgtab 0 PGSIZE;
                          m = store32 m pde (V2P pgtab OR PTE_P OR PTE_W OR PTE_U)
                      in (pgtab + 4 * PTX va, s\<lparr>mem := m\<rparr>))"

fun mappages_loop :: "nat \<Rightarrow> uint \<Rightarrow> uint \<Rightarrow> uint \<Rightarrow> uint \<Rightarrow> uint \<Rightarrow> 'a kmem_scheme \<Rightarrow> (int \<times> 'a kmem_scheme) outcome" where
  "mappages_loop 0 pgdir a lst pa perm s = Block"
| "mappages_loop (Suc fuel) pgdir a lst pa perm s =
     (let (pte, s) = walkpgdir pgdir a True s
      in if pte = 0 then Done (-1, s)
         else if load32 (mem s) pte AND PTE_P \<noteq> 0 then Panic ''remap''
         else let s = s\<lparr>mem := store32 (mem s) pte (pa OR perm OR PTE_P)\<rparr>
              in if a = lst then Done (0, s)
                 else mappages_loop fuel pgdir (a + PGSIZE) lst (pa + PGSIZE) perm s)"

definition mappages :: "uint \<Rightarrow> uint \<Rightarrow> uint \<Rightarrow> uint \<Rightarrow> uint \<Rightarrow> 'a kmem_scheme \<Rightarrow> (int \<times> 'a kmem_scheme) outcome" where
  "mappages pgdir va sz pa perm s =
     (let a = PGROUNDDOWN va; lst = PGROUNDDOWN (va + sz - 1)
      in mappages_loop (Suc (unat ((lst - a) div PGSIZE))) pgdir a lst pa perm s)"

section \<open>Shrinking and freeing\<close>

fun deallocuvm_loop :: "nat \<Rightarrow> uint \<Rightarrow> uint \<Rightarrow> uint \<Rightarrow> 'a kmem_scheme \<Rightarrow> 'a kmem_scheme outcome" where
  "deallocuvm_loop 0 pgdir a oldsz s = Block"
| "deallocuvm_loop (Suc fuel) pgdir a oldsz s =
     (if a < oldsz
      then let pte = fst (walkpgdir pgdir a False s)
           in if pte = 0 then deallocuvm_loop fuel pgdir (PGADDR (PDX a + 1) 0 0 - PGSIZE + PGSIZE) oldsz s
              else if load32 (mem s) pte AND PTE_P \<noteq> 0
              then let pa = PTE_ADDR (load32 (mem s) pte)
                   in if pa = 0 then Panic ''kfree''
                      else obind (kfree (P2V pa) s) (\<lambda>s.
                             deallocuvm_loop fuel pgdir (a + PGSIZE) oldsz (s\<lparr>mem := store32 (mem s) pte 0\<rparr>))
              else deallocuvm_loop fuel pgdir (a + PGSIZE) oldsz s
      else Done s)"

definition deallocuvm :: "uint \<Rightarrow> uint \<Rightarrow> uint \<Rightarrow> 'a kmem_scheme \<Rightarrow> (uint \<times> 'a kmem_scheme) outcome" where
  "deallocuvm pgdir oldsz newsz s =
     (if oldsz \<le> newsz then Done (oldsz, s)
      else obind (deallocuvm_loop (unat oldsz div 4096 + 2) pgdir (PGROUNDUP newsz) oldsz s)
             (\<lambda>s. Done (newsz, s)))"

fun freevm_loop :: "nat \<Rightarrow> uint \<Rightarrow> uint \<Rightarrow> 'a kmem_scheme \<Rightarrow> 'a kmem_scheme outcome" where
  "freevm_loop 0 pgdir i s = Done s"
| "freevm_loop (Suc n) pgdir i s =
     (let e = load32 (mem s) (pgdir + 4 * i)
      in if e AND PTE_P \<noteq> 0 then obind (kfree (P2V (PTE_ADDR e)) s) (freevm_loop n pgdir (i + 1))
         else freevm_loop n pgdir (i + 1) s)"

definition freevm :: "uint \<Rightarrow> 'a kmem_scheme \<Rightarrow> 'a kmem_scheme outcome" where
  "freevm pgdir s =
     (if pgdir = 0 then Panic ''freevm: no pgdir''
      else obind (deallocuvm pgdir KERNBASE 0 s) (\<lambda>(_, s).
             obind (freevm_loop NPDENTRIES pgdir 0 s) (kfree pgdir)))"

section \<open>The kernel part of a page table\<close>

record kmap =
  virt :: uint
  phys_start :: uint
  phys_end :: uint
  perm :: uint

definition kmap_table :: "'a kmem_scheme \<Rightarrow> kmap list" where
  "kmap_table s =
     [\<lparr>virt = KERNBASE, phys_start = 0, phys_end = EXTMEM, perm = PTE_W\<rparr>,
      \<lparr>virt = KERNLINK, phys_start = V2P KERNLINK, phys_end = V2P (k_data s), perm = 0\<rparr>,
      \<lparr>virt = k_data s, phys_start = V2P (k_data s), phys_end = PHYSTOP, perm = PTE_W\<rparr>,
      \<lparr>virt = DEVSPACE, phys_start = DEVSPACE, phys_end = 0, perm = PTE_W\<rparr>]"

fun setupkvm_loop :: "uint \<Rightarrow> kmap list \<Rightarrow> 'a kmem_scheme \<Rightarrow> (uint \<times> 'a kmem_scheme) outcome" where
  "setupkvm_loop pgdir [] s = Done (pgdir, s)"
| "setupkvm_loop pgdir (k # ks) s =
     obind (mappages pgdir (virt k) (phys_end k - phys_start k) (phys_start k) (perm k) s) (\<lambda>(r, s).
       if r < 0 then obind (freevm pgdir s) (\<lambda>s. Done (0, s)) else setupkvm_loop pgdir ks s)"

definition setupkvm :: "'a kmem_scheme \<Rightarrow> (uint \<times> 'a kmem_scheme) outcome" where
  "setupkvm s =
     (let (pgdir, s) = kalloc s
      in if pgdir = 0 then Done (0, s)
         else let s = s\<lparr>mem := memset (mem s) pgdir 0 PGSIZE\<rparr>
              in if DEVSPACE < P2V PHYSTOP then Panic ''PHYSTOP too high''
                 else setupkvm_loop pgdir (kmap_table s) s)"

section \<open>User memory\<close>

definition inituvm :: "uint \<Rightarrow> uint \<Rightarrow> uint \<Rightarrow> 'a kmem_scheme \<Rightarrow> 'a kmem_scheme outcome" where
  "inituvm pgdir init sz s =
     (if PGSIZE \<le> sz then Panic ''inituvm: more than a page''
      else let (p, s) = kalloc s;
               s = s\<lparr>mem := memset (mem s) p 0 PGSIZE\<rparr>
           in obind (mappages pgdir 0 PGSIZE (V2P p) (PTE_W OR PTE_U) s) (\<lambda>(_, s).
                Done (s\<lparr>mem := memmove (mem s) p init sz\<rparr>)))"

fun allocuvm_loop :: "nat \<Rightarrow> uint \<Rightarrow> uint \<Rightarrow> uint \<Rightarrow> uint \<Rightarrow> 'a kmem_scheme \<Rightarrow> (uint \<times> 'a kmem_scheme) outcome" where
  "allocuvm_loop 0 pgdir a oldsz newsz s = Block"
| "allocuvm_loop (Suc fuel) pgdir a oldsz newsz s =
     (if a < newsz
      then let (p, s) = kalloc s
           in if p = 0 then obind (deallocuvm pgdir newsz oldsz s) (\<lambda>(_, s). Done (0, s))
              else let s = s\<lparr>mem := memset (mem s) p 0 PGSIZE\<rparr>
                   in obind (mappages pgdir a PGSIZE (V2P p) (PTE_W OR PTE_U) s) (\<lambda>(r, s).
                        if r < 0
                        then obind (deallocuvm pgdir newsz oldsz s) (\<lambda>(_, s).
                               obind (kfree p s) (\<lambda>s. Done (0, s)))
                        else allocuvm_loop fuel pgdir (a + PGSIZE) oldsz newsz s)
      else Done (newsz, s))"

definition allocuvm :: "uint \<Rightarrow> uint \<Rightarrow> uint \<Rightarrow> 'a kmem_scheme \<Rightarrow> (uint \<times> 'a kmem_scheme) outcome" where
  "allocuvm pgdir oldsz newsz s =
     (if KERNBASE \<le> newsz then Done (0, s)
      else if newsz < oldsz then Done (oldsz, s)
      else allocuvm_loop (unat newsz div 4096 + 2) pgdir (PGROUNDUP oldsz) oldsz newsz s)"

definition clearpteu :: "uint \<Rightarrow> uint \<Rightarrow> 'a kmem_scheme \<Rightarrow> 'a kmem_scheme outcome" where
  "clearpteu pgdir uva s =
     (let pte = fst (walkpgdir pgdir uva False s)
      in if pte = 0 then Panic ''clearpteu''
         else Done (s\<lparr>mem := store32 (mem s) pte (load32 (mem s) pte AND NOT PTE_U)\<rparr>))"

fun copyuvm_loop :: "nat \<Rightarrow> uint \<Rightarrow> uint \<Rightarrow> uint \<Rightarrow> uint \<Rightarrow> 'a kmem_scheme \<Rightarrow> (uint \<times> 'a kmem_scheme) outcome" where
  "copyuvm_loop 0 pgdir d i sz s = Block"
| "copyuvm_loop (Suc fuel) pgdir d i sz s =
     (if i < sz
      then let pte = fst (walkpgdir pgdir i False s)
           in if pte = 0 then Panic ''copyuvm: pte should exist''
              else if load32 (mem s) pte AND PTE_P = 0 then Panic ''copyuvm: page not present''
              else let pa = PTE_ADDR (load32 (mem s) pte);
                       flags = PTE_FLAGS (load32 (mem s) pte);
                       (p, s) = kalloc s
                   in if p = 0 then obind (freevm d s) (\<lambda>s. Done (0, s))
                      else let s = s\<lparr>mem := memmove (mem s) p (P2V pa) PGSIZE\<rparr>
                           in obind (mappages d i PGSIZE (V2P p) flags s) (\<lambda>(r, s).
                                if r < 0
                                then obind (kfree p s) (\<lambda>s. obind (freevm d s) (\<lambda>s. Done (0, s)))
                                else copyuvm_loop fuel pgdir d (i + PGSIZE) sz s)
      else Done (d, s))"

definition copyuvm :: "uint \<Rightarrow> uint \<Rightarrow> 'a kmem_scheme \<Rightarrow> (uint \<times> 'a kmem_scheme) outcome" where
  "copyuvm pgdir sz s =
     obind (setupkvm s) (\<lambda>(d, s).
       if d = 0 then Done (0, s) else copyuvm_loop (unat sz div 4096 + 2) pgdir d 0 sz s)"

text \<open>
  \<^verbatim>\<open>uva2ka\<close> reads through the pointer \<^verbatim>\<open>walkpgdir\<close> returned without testing it: an address with no
  page table is a read through a null pointer, undefined in C and a \<open>Panic\<close> here.
\<close>

definition uva2ka :: "uint \<Rightarrow> uint \<Rightarrow> 'a kmem_scheme \<Rightarrow> uint outcome" where
  "uva2ka pgdir uva s =
     (let pte = fst (walkpgdir pgdir uva False s)
      in if pte = 0 then Panic ''undefined: null pte''
         else if load32 (mem s) pte AND PTE_P = 0 then Done 0
         else if load32 (mem s) pte AND PTE_U = 0 then Done 0
         else Done (P2V (PTE_ADDR (load32 (mem s) pte))))"

text \<open>
  \<^verbatim>\<open>copyout\<close> is given the \<open>len\<close> bytes at \<^verbatim>\<open>p\<close>, which may be in the memory of the calling process; \<open>put_bytes\<close> is what \<^verbatim>\<open>memmove\<close> does
  with them.
\<close>

definition put_bytes :: "cmem \<Rightarrow> uint \<Rightarrow> uchar list \<Rightarrow> cmem" where
  "put_bytes m a bs = (\<lambda>x. if unat (x - a) < length bs then bs ! unat (x - a) else m x)"

fun copyout_loop :: "nat \<Rightarrow> uint \<Rightarrow> uint \<Rightarrow> uchar list \<Rightarrow> 'a kmem_scheme \<Rightarrow> (int \<times> 'a kmem_scheme) outcome" where
  "copyout_loop 0 pgdir va bs s = Block"
| "copyout_loop (Suc fuel) pgdir va bs s =
     (if bs \<noteq> []
      then let va0 = PGROUNDDOWN va
           in obind (uva2ka pgdir va0 s) (\<lambda>pa0.
                if pa0 = 0 then Done (-1, s)
                else let n = min (unat (PGSIZE - (va - va0))) (length bs);
                         s = s\<lparr>mem := put_bytes (mem s) (pa0 + (va - va0)) (take n bs)\<rparr>
                     in copyout_loop fuel pgdir (va0 + PGSIZE) (drop n bs) s)
      else Done (0, s))"

definition copyout :: "uint \<Rightarrow> uint \<Rightarrow> uchar list \<Rightarrow> 'a kmem_scheme \<Rightarrow> (int \<times> 'a kmem_scheme) outcome" where
  "copyout pgdir va bs s = copyout_loop (length bs + 1) pgdir va bs s"

declare mappages_loop.simps [simp del] deallocuvm_loop.simps [simp del] allocuvm_loop.simps [simp del]
  copyuvm_loop.simps [simp del] copyout_loop.simps [simp del] freevm_loop.simps [simp del]

section \<open>Addresses of entries\<close>

lemma PDX_less: "PDX va < 1024" and PTX_less: "PTX va < 1024"
  by (simp_all add: PDX_def PTX_def word_and_le1 order.strict_trans1 [OF word_and_le1])

lemma unat_4_times:
  assumes "(i :: uint) < 1024"
  shows "unat (4 * i) = 4 * unat i" and "unat (4 * i) < 4096"
proof -
  have "unat i < 1024" using assms by (simp add: word_less_nat_alt)
  then show "unat (4 * i) = 4 * unat i" "unat (4 * i) < 4096" by (simp_all add: unat_word_ariths(2))
qed

lemma entry_in_page: "aligned p \<Longrightarrow> i < 1024 \<Longrightarrow> PGROUNDDOWN (p + 4 * i) = p"
  using in_page [of p "p + 4 * i"] unat_4_times(2) [of i] by simp

lemma entry_word_aligned:
  assumes "aligned p" and "i < 1024"
  shows "word_aligned (p + 4 * i)"
proof -
  have "unat (p + 4 * i) = unat p + 4 * unat i"
  proof -
    have "unat p mod 4096 = 0" using assms(1) by (simp add: aligned_unat)
    moreover have "unat p < 4294967296" using unat_uint_less [of p] by simp
    ultimately have "unat p + 4096 \<le> 4294967296" using page_multiples [of "unat p" 4294967296] by simp
    then show ?thesis using unat_4_times [OF assms(2)] unat_add_uint [of p "4 * i"] by simp
  qed
  moreover have "unat p mod 4096 = 0" using assms(1) by (simp add: aligned_unat)
  ultimately have "unat (p + 4 * i) mod 4 = 0" by (auto simp: mod_eq_0_iff_dvd elim!: dvdE)
  moreover have "unat ((p + 4 * i) AND 3) = unat (p + 4 * i) mod 4"
    unfolding mask2_uint by (simp add: take_bit_eq_mod flip: take_bit_eq_mask) (simp add: unat_mod)
  ultimately show ?thesis by (metis word_aligned_def unsigned_0 word_unat_eq_iff)
qed

lemma entry_inject: "i < 1024 \<Longrightarrow> j < 1024 \<Longrightarrow> p + 4 * i = p + 4 * j \<longleftrightarrow> i = (j :: uint)"
proof -
  assume a: "i < 1024" "j < 1024"
  have "p + 4 * i = p + 4 * j \<longleftrightarrow> unat (4 * i) = unat (4 * j)" by (simp flip: word_unat_eq_iff)
  also have "\<dots> \<longleftrightarrow> i = j" using unat_4_times(1) a by (simp add: word_unat_eq_iff)
  finally show ?thesis .
qed

lemma bit_PDX: "bit (PDX va) n \<longleftrightarrow> n < 10 \<and> bit va (22 + n)"
proof -
  have m: "(0x3FF :: uint) = mask 10" by (simp add: mask_eq_exp_minus_1)
  show ?thesis unfolding PDX_def m by (auto simp: bit_simps dest: bit_uint_less)
qed

lemma bit_PTX: "bit (PTX va) n \<longleftrightarrow> n < 10 \<and> bit va (12 + n)"
proof -
  have m: "(0x3FF :: uint) = mask 10" by (simp add: mask_eq_exp_minus_1)
  show ?thesis unfolding PTX_def m by (auto simp: bit_simps dest: bit_uint_less)
qed

lemma same_page: "PDX va = PDX vb \<and> PTX va = PTX vb \<longleftrightarrow> PGROUNDDOWN va = PGROUNDDOWN vb"
proof
  assume a: "PDX va = PDX vb \<and> PTX va = PTX vb"
  have d: "bit va (22 + m) = bit vb (22 + m)" "bit va (12 + m) = bit vb (12 + m)" if "m < 10" for m
    using a that bit_PDX [of va m] bit_PDX [of vb m] bit_PTX [of va m] bit_PTX [of vb m] by auto
  show "PGROUNDDOWN va = PGROUNDDOWN vb"
  proof (rule bit_word_eqI)
    fix n :: nat assume "n < LENGTH(32)"
    then have n: "n < 32" by simp
    show "bit (PGROUNDDOWN va) n = bit (PGROUNDDOWN vb) n"
    proof (cases "n < 22")
      case True
      then show ?thesis using d(2) [of "n - 12"] by (auto simp: bit_PGROUNDDOWN)
    next
      case False
      then show ?thesis using d(1) [of "n - 22"] n by (auto simp: bit_PGROUNDDOWN)
    qed
  qed
next
  assume a: "PGROUNDDOWN va = PGROUNDDOWN vb"
  then have "bit va n = bit vb n" if "12 \<le> n" for n using that by (metis bit_PGROUNDDOWN)
  then show "PDX va = PDX vb \<and> PTX va = PTX vb" by (auto simp: bit_eq_iff bit_PDX bit_PTX)
qed

section \<open>What a page directory maps\<close>

text \<open>
  The lookup the paging hardware performs.  \<open>pte_at m pgdir va\<close> is the page table entry for \<open>va\<close>, or 0
  if there is no page table.
\<close>

definition pde_at :: "cmem \<Rightarrow> uint \<Rightarrow> uint \<Rightarrow> uint" where
  "pde_at m pgdir i = load32 m (pgdir + 4 * i)"

definition table :: "cmem \<Rightarrow> uint \<Rightarrow> uint \<Rightarrow> uint" where
  "table m pgdir i = P2V (PTE_ADDR (pde_at m pgdir i))"

definition has_table :: "cmem \<Rightarrow> uint \<Rightarrow> uint \<Rightarrow> bool" where
  "has_table m pgdir i \<longleftrightarrow> pde_at m pgdir i AND PTE_P \<noteq> 0"

definition pte_at :: "cmem \<Rightarrow> uint \<Rightarrow> uint \<Rightarrow> uint" where
  "pte_at m pgdir va =
     (if has_table m pgdir (PDX va) then load32 m (table m pgdir (PDX va) + 4 * PTX va) else 0)"

text \<open>The pages a page table consists of, and when they form a tree of distinct pages.\<close>

definition tables :: "cmem \<Rightarrow> uint \<Rightarrow> uint set" where
  "tables m pgdir = table m pgdir ` {i. i < 1024 \<and> has_table m pgdir i}"

definition pt_pages :: "cmem \<Rightarrow> uint \<Rightarrow> uint set" where
  "pt_pages m pgdir = insert pgdir (tables m pgdir)"

definition pgdir_ok :: "'a kmem_scheme \<Rightarrow> uint \<Rightarrow> bool" where
  "pgdir_ok s pgdir \<longleftrightarrow> (\<forall>p\<in>pt_pages (mem s) pgdir. valid_page s p) \<and> pgdir \<notin> tables (mem s) pgdir
     \<and> inj_on (table (mem s) pgdir) {i. i < 1024 \<and> has_table (mem s) pgdir i}"

text \<open>An address space whose page table pages are not on the free list.\<close>

definition space :: "'a kmem_scheme \<Rightarrow> uint list \<Rightarrow> uint \<Rightarrow> bool" where
  "space s ps pgdir \<longleftrightarrow> kmem_inv s ps \<and> pgdir_ok s pgdir \<and> pt_pages (mem s) pgdir \<inter> set ps = {}"

lemma spaceD:
  assumes "space s ps pgdir"
  shows "kmem_inv s ps" and "valid_page s pgdir" and "aligned pgdir" and "pgdir \<notin> set ps"
    and "i < 1024 \<Longrightarrow> has_table (mem s) pgdir i \<Longrightarrow> valid_page s (table (mem s) pgdir i)"
    and "i < 1024 \<Longrightarrow> has_table (mem s) pgdir i \<Longrightarrow> aligned (table (mem s) pgdir i)"
    and "i < 1024 \<Longrightarrow> has_table (mem s) pgdir i \<Longrightarrow> table (mem s) pgdir i \<notin> set ps"
    and "i < 1024 \<Longrightarrow> has_table (mem s) pgdir i \<Longrightarrow> table (mem s) pgdir i \<noteq> pgdir"
    and "i < 1024 \<Longrightarrow> has_table (mem s) pgdir i \<Longrightarrow> j < 1024 \<Longrightarrow> has_table (mem s) pgdir j \<Longrightarrow>
      table (mem s) pgdir i = table (mem s) pgdir j \<Longrightarrow> i = j"
  using assms by (auto simp: space_def pgdir_ok_def pt_pages_def tables_def valid_page_def inj_on_def image_iff)

lemma walk_False:
  "walkpgdir pgdir va False s =
     (if has_table (mem s) pgdir (PDX va) then table (mem s) pgdir (PDX va) + 4 * PTX va else 0, s)"
  by (simp add: walkpgdir_def has_table_def table_def pde_at_def Let_def)

text \<open>Memory that agrees on the pages of a page table has the same page table.\<close>

lemma pde_at_cong:
  assumes "aligned pgdir" and "i < 1024" and "\<And>x. PGROUNDDOWN x = pgdir \<Longrightarrow> m x = m' x"
  shows "pde_at m pgdir i = pde_at m' pgdir i"
  unfolding pde_at_def
  by (rule load32_page_cong) (use assms entry_word_aligned entry_in_page in auto)

lemma pt_cong:
  assumes ok: "space s ps pgdir" and same: "\<And>x. PGROUNDDOWN x \<in> pt_pages (mem s) pgdir \<Longrightarrow> m x = mem s x"
  shows "pte_at m pgdir va = pte_at (mem s) pgdir va" and "pt_pages m pgdir = pt_pages (mem s) pgdir"
    and "i < 1024 \<Longrightarrow> has_table m pgdir i = has_table (mem s) pgdir i"
    and "i < 1024 \<Longrightarrow> table m pgdir i = table (mem s) pgdir i"
proof -
  have pde: "pde_at m pgdir i = pde_at (mem s) pgdir i" if "i < 1024" for i
    by (rule pde_at_cong) (use spaceD(3) [OF ok] that same in \<open>auto simp: pt_pages_def\<close>)
  show ht: "has_table m pgdir i = has_table (mem s) pgdir i" if "i < 1024" for i
    using pde [OF that] by (simp add: has_table_def)
  show tb: "table m pgdir i = table (mem s) pgdir i" if "i < 1024" for i
    using pde [OF that] by (simp add: table_def)
  show "pt_pages m pgdir = pt_pages (mem s) pgdir"
    using ht tb by (auto simp: pt_pages_def tables_def)
  show "pte_at m pgdir va = pte_at (mem s) pgdir va"
  proof (cases "has_table (mem s) pgdir (PDX va)")
    case True
    note al = spaceD(6) [OF ok PDX_less True]
    have "load32 m (table (mem s) pgdir (PDX va) + 4 * PTX va) = load32 (mem s) (table (mem s) pgdir (PDX va) + 4 * PTX va)"
      by (rule load32_page_cong)
        (use entry_word_aligned [OF al PTX_less] entry_in_page [OF al PTX_less] same True PDX_less in
          \<open>auto simp: pt_pages_def tables_def\<close>)
    then show ?thesis using ht [OF PDX_less] tb [OF PDX_less] by (simp add: pte_at_def)
  qed (use ht [OF PDX_less] in \<open>simp add: pte_at_def\<close>)
qed

lemma space_frame:
  assumes ok: "space s ps pgdir"
    and same: "\<And>x. PGROUNDDOWN x \<in> pt_pages (mem s) pgdir \<union> set ps \<Longrightarrow> m x = mem s x"
  shows "space (s\<lparr>mem := m\<rparr>) ps pgdir"
proof -
  note c = pt_cong [OF ok, of m]
  have inj: "inj_on (table m pgdir) {i. i < 1024 \<and> has_table m pgdir i} \<longleftrightarrow>
    inj_on (table (mem s) pgdir) {i. i < 1024 \<and> has_table (mem s) pgdir i}"
    using c(3,4) same by (auto simp: inj_on_def)
  have tab: "tables m pgdir = tables (mem s) pgdir" using c(3,4) same by (auto simp: tables_def)
  have "kmem_inv (s\<lparr>mem := m\<rparr>) ps" using ok same by (intro kmem_inv_frame) (auto simp: space_def)
  then show ?thesis using ok c(2) same inj tab by (auto simp: space_def pgdir_ok_def valid_page_def)
qed

section \<open>Setting an entry\<close>

lemma pte_at_store:
  assumes ok: "space s ps pgdir" and ht: "has_table (mem s) pgdir (PDX va)"
    and m: "m = store32 (mem s) (table (mem s) pgdir (PDX va) + 4 * PTX va) v"
  shows "space (s\<lparr>mem := m\<rparr>) ps pgdir"
    and "pte_at m pgdir vb = (if PGROUNDDOWN vb = PGROUNDDOWN va then v else pte_at (mem s) pgdir vb)"
    and "pt_pages m pgdir = pt_pages (mem s) pgdir"
    and "\<And>x. PGROUNDDOWN x \<noteq> table (mem s) pgdir (PDX va) \<Longrightarrow> m x = mem s x"
    and "i < 1024 \<Longrightarrow> has_table m pgdir i = has_table (mem s) pgdir i"
proof -
  let ?t = "table (mem s) pgdir (PDX va)"
  note t = spaceD(6,7,8) [OF ok PDX_less ht]
  have wa: "word_aligned (?t + 4 * PTX va)" and ip: "PGROUNDDOWN (?t + 4 * PTX va) = ?t"
    using entry_word_aligned [OF t(1) PTX_less] entry_in_page [OF t(1) PTX_less] by auto
  show other: "m x = mem s x" if "PGROUNDDOWN x \<noteq> ?t" for x
    unfolding m by (rule store32_page [OF wa]) (use that ip in simp)
  have pde: "pde_at m pgdir i = pde_at (mem s) pgdir i" if "i < 1024" for i
    by (rule pde_at_cong) (use spaceD(3) [OF ok] that other t(3) in auto)
  show h: "has_table m pgdir i = has_table (mem s) pgdir i" if "i < 1024" for i
    using pde [OF that] by (simp add: has_table_def)
  have tb: "table m pgdir i = table (mem s) pgdir i" if "i < 1024" for i
    using pde [OF that] by (simp add: table_def)
  show pp: "pt_pages m pgdir = pt_pages (mem s) pgdir" using h tb by (auto simp: pt_pages_def tables_def)
  have "inj_on (table m pgdir) {i. i < 1024 \<and> has_table m pgdir i}"
    using ok h tb by (auto simp: space_def pgdir_ok_def inj_on_def)
  moreover have "kmem_inv (s\<lparr>mem := m\<rparr>) ps"
    using spaceD(1) [OF ok] by (rule kmem_inv_frame) (metis other t(2))
  moreover have "tables m pgdir = tables (mem s) pgdir" using h tb by (auto simp: tables_def)
  ultimately show "space (s\<lparr>mem := m\<rparr>) ps pgdir" using ok pp by (auto simp: space_def pgdir_ok_def valid_page_def)
  show "pte_at m pgdir vb = (if PGROUNDDOWN vb = PGROUNDDOWN va then v else pte_at (mem s) pgdir vb)"
  proof (cases "has_table (mem s) pgdir (PDX vb)")
    case False
    then have "PGROUNDDOWN vb \<noteq> PGROUNDDOWN va" using ht same_page [of vb va] by auto
    then show ?thesis using False h [OF PDX_less] by (simp add: pte_at_def)
  next
    case True
    note u = spaceD(6) [OF ok PDX_less True]
    let ?u = "table (mem s) pgdir (PDX vb)"
    have wb: "word_aligned (?u + 4 * PTX vb)" and ib: "PGROUNDDOWN (?u + 4 * PTX vb) = ?u"
      using entry_word_aligned [OF u PTX_less] entry_in_page [OF u PTX_less] by auto
    have e: "?u + 4 * PTX vb = ?t + 4 * PTX va \<longleftrightarrow> PGROUNDDOWN vb = PGROUNDDOWN va"
    proof
      assume eq: "?u + 4 * PTX vb = ?t + 4 * PTX va"
      then have "?u = ?t" using ip ib by metis
      moreover from this have "PDX vb = PDX va" using spaceD(9) [OF ok PDX_less True PDX_less ht] by simp
      ultimately show "PGROUNDDOWN vb = PGROUNDDOWN va"
        using eq entry_inject [OF PTX_less PTX_less] same_page [of vb va] by simp
    qed (use same_page [of vb va] in auto)
    show ?thesis
    proof (cases "PGROUNDDOWN vb = PGROUNDDOWN va")
      case True
      then show ?thesis using e same_page [of vb va] ht h [OF PDX_less] tb [OF PDX_less]
        by (simp add: pte_at_def m load32_store32_same)
    next
      case False
      then have "load32 m (?u + 4 * PTX vb) = load32 (mem s) (?u + 4 * PTX vb)"
        unfolding m using e by (intro load32_store32_other [OF wa wb]) auto
      then show ?thesis using False True h [OF PDX_less] tb [OF PDX_less] by (simp add: pte_at_def)
    qed
  qed
qed

section \<open>Walking with allocation\<close>

lemma bit_PTE: "bit PTE_P n \<longleftrightarrow> n = 0" "bit PTE_W n \<longleftrightarrow> n = 1" "bit PTE_U n \<longleftrightarrow> n = 2"
proof -
  have e: "PTE_P = 2 ^ 0" "PTE_W = 2 ^ 1" "PTE_U = 2 ^ 2" by (simp_all add: PTE_P_def PTE_W_def PTE_U_def)
  show "bit PTE_P n \<longleftrightarrow> n = 0" "bit PTE_W n \<longleftrightarrow> n = 1" "bit PTE_U n \<longleftrightarrow> n = 2"
    unfolding e bit_exp_iff by auto
qed

lemma present_iff: "x AND PTE_P \<noteq> 0 \<longleftrightarrow> bit x 0"
  by (simp add: PTE_P_def and_one_eq bit_0 odd_iff_mod_2_eq_one)

lemma P2V_V2P [simp]: "P2V (V2P p) = p" "V2P (P2V p) = p"
  by (simp_all add: P2V_def V2P_def)

lemma aligned_P2V: "aligned p \<Longrightarrow> aligned (P2V p)" and aligned_V2P: "aligned p \<Longrightarrow> aligned (V2P p)"
proof -
  have e: "V2P p = P2V p" by (simp add: V2P_def P2V_def KERNBASE_def)
  show *: "aligned (P2V p)" if "aligned p"
  proof -
    have "unat p mod 4096 = 0" using that by (simp add: aligned_unat)
    moreover have "unat (P2V p) = (unat p + 524288 * 4096) mod 2 ^ 32"
      by (simp add: P2V_def KERNBASE_def unat_word_ariths(1))
    moreover have "x mod 2 ^ 32 mod 4096 = x mod 4096" for x :: nat by (rule mod_mod_cancel) simp
    moreover have "(unat p + 524288 * 4096) mod 4096 = unat p mod 4096" by (rule mod_mult_self1)
    ultimately show ?thesis by (simp only: aligned_unat)
  qed
  show "aligned (V2P p)" if "aligned p" using * [OF that] e by simp
qed

lemma PTE_ADDR_PGROUNDDOWN: "PTE_ADDR = PGROUNDDOWN"
  by (rule ext) (simp add: PTE_ADDR_def PGROUNDDOWN_mask)

lemma PTE_ADDR_entry: "aligned p \<Longrightarrow> PGROUNDDOWN f = 0 \<Longrightarrow> PTE_ADDR (p OR f) = p"
  unfolding PTE_ADDR_PGROUNDDOWN
  by (rule bit_eqI) (metis aligned_eq bit_PGROUNDDOWN bit_or_iff bit_0_eq bot_apply bot_bool_def)

lemma walk_True_present:
  "has_table (mem s) pgdir (PDX va) \<Longrightarrow>
     walkpgdir pgdir va True s = (table (mem s) pgdir (PDX va) + 4 * PTX va, s)"
  by (simp add: walkpgdir_def has_table_def table_def pde_at_def Let_def)

lemma walk_True_empty:
  assumes "\<not> has_table (mem s) pgdir (PDX va)" and "kmem_inv s []"
  shows "walkpgdir pgdir va True s = (0, s)"
  using assms kalloc_empty [OF assms(2)] by (simp add: walkpgdir_def has_table_def pde_at_def Let_def)

text \<open>The number of page tables a directory may still need.\<close>

definition missing :: "cmem \<Rightarrow> uint \<Rightarrow> uint set" where
  "missing m pgdir = {i. i < 1024 \<and> \<not> has_table m pgdir i}"

lemma walk_True_alloc:
  assumes ok: "space s (q # ps) pgdir" and nt: "\<not> has_table (mem s) pgdir (PDX va)"
  obtains t where "walkpgdir pgdir va True s = (table (mem t) pgdir (PDX va) + 4 * PTX va, t)"
    and "space t ps pgdir" and "has_table (mem t) pgdir (PDX va)"
    and "\<And>vb. pte_at (mem t) pgdir vb = pte_at (mem s) pgdir vb"
    and "pt_pages (mem t) pgdir = insert q (pt_pages (mem s) pgdir)"
    and "\<And>x. PGROUNDDOWN x \<noteq> q \<Longrightarrow> PGROUNDDOWN x \<noteq> pgdir \<Longrightarrow> mem t x = mem s x"
    and "missing (mem t) pgdir = missing (mem s) pgdir - {PDX va}" and "k_end t = k_end s" and "k_data t = k_data s"
proof -
  let ?pde = "pgdir + 4 * PDX va"
  obtain u where u: "kalloc s = (q, u)" "kmem_inv u ps" "mem u = mem s" "k_end u = k_end s" "k_data u = k_data s"
    using kalloc_Cons [OF spaceD(1) [OF ok]] by metis
  have q: "valid_page s q" "q \<noteq> 0" "q \<notin> set ps" "aligned q" "q \<noteq> pgdir"
    using spaceD(1,4) [OF ok] kp.free_pages [OF spaceD(1) [OF ok]] by auto
  have nq: "q \<notin> pt_pages (mem s) pgdir" using ok by (auto simp: space_def)
  let ?e = "V2P q OR PTE_P OR PTE_W OR PTE_U"
  let ?m = "store32 (memset (mem s) q 0 PGSIZE) ?pde ?e"
  let ?t = "u\<lparr>mem := ?m\<rparr>"
  note al = spaceD(3) [OF ok]
  have wa: "word_aligned ?pde" and ip: "PGROUNDDOWN ?pde = pgdir"
    using entry_word_aligned [OF al PDX_less] entry_in_page [OF al PDX_less] by auto
  have run: "walkpgdir pgdir va True s = (q + 4 * PTX va, ?t)"
    using nt u q(2) by (simp add: walkpgdir_def has_table_def pde_at_def Let_def)
  have other: "?m x = mem s x" if "PGROUNDDOWN x \<noteq> q" "PGROUNDDOWN x \<noteq> pgdir" for x
    using that ip memset_page [OF q(4)] by (subst store32_page [OF wa]) auto
  have inq: "?m x = 0" if "PGROUNDDOWN x = q" for x
    using that ip q(5) memset_page [OF q(4)] by (subst store32_page [OF wa]) auto
  have pde: "pde_at ?m pgdir i = (if i = PDX va then ?e else pde_at (mem s) pgdir i)" if i: "i < 1024" for i
  proof (cases "i = PDX va")
    case True
    then show ?thesis by (simp add: pde_at_def load32_store32_same)
  next
    case False
    have wi: "word_aligned (pgdir + 4 * i)" using entry_word_aligned [OF al i] .
    have "load32 ?m (pgdir + 4 * i) = load32 (memset (mem s) q 0 PGSIZE) (pgdir + 4 * i)"
      using False entry_inject [OF PDX_less i, of pgdir] by (intro load32_store32_other [OF wa wi]) auto
    also have "\<dots> = load32 (mem s) (pgdir + 4 * i)"
      using entry_in_page [OF al i] q(5) memset_page [OF q(4)] by (intro load32_page_cong [OF wi]) auto
    finally show ?thesis using False by (simp add: pde_at_def)
  qed
  have e0: "bit ?e 0" by (simp add: bit_simps bit_PTE)
  have "PGROUNDDOWN (PTE_P OR PTE_W OR PTE_U) = 0" by (simp add: PGROUNDDOWN_mask PTE_P_def PTE_W_def PTE_U_def)
  then have ea: "P2V (PTE_ADDR ?e) = q"
    using PTE_ADDR_entry [OF aligned_V2P [OF q(4)], of "PTE_P OR PTE_W OR PTE_U"] by (simp add: or.assoc)
  have ht: "has_table ?m pgdir i \<longleftrightarrow> i = PDX va \<or> has_table (mem s) pgdir i" if "i < 1024" for i
    using pde [OF that] e0 by (auto simp: has_table_def present_iff)
  have tb: "table ?m pgdir i = (if i = PDX va then q else table (mem s) pgdir i)" if "i < 1024" for i
    using pde [OF that] ea by (simp add: table_def)
  have tabs: "tables ?m pgdir = insert q (tables (mem s) pgdir)"
  proof -
    have "{i. i < 1024 \<and> has_table ?m pgdir i} = insert (PDX va) {i. i < 1024 \<and> has_table (mem s) pgdir i}"
      using ht PDX_less by auto
    then show ?thesis using tb nt PDX_less by (auto simp: tables_def image_iff)
  qed
  have pp: "pt_pages ?m pgdir = insert q (pt_pages (mem s) pgdir)" using tabs by (auto simp: pt_pages_def)
  have tq: "table (mem s) pgdir i \<noteq> q" if "i < 1024" "has_table (mem s) pgdir i" for i
    using nq that by (auto simp: pt_pages_def tables_def)
  have inj: "inj_on (table ?m pgdir) {i. i < 1024 \<and> has_table ?m pgdir i}"
    using ok ht tb tq nt by (auto simp: space_def pgdir_ok_def inj_on_def)
  have km: "kmem_inv ?t ps"
    using u(2) by (rule kmem_inv_frame) (use other u(3) q(3) spaceD(4) [OF ok] in \<open>metis list.set_intros(2)\<close>)
  have sp: "space ?t ps pgdir"
    using km inj pp tabs ok q u(4) nq by (auto simp: space_def pgdir_ok_def valid_page_def pt_pages_def)
  have pte: "pte_at ?m pgdir vb = pte_at (mem s) pgdir vb" for vb
  proof (cases "PDX vb = PDX va")
    case True
    have "load32 ?m (q + 4 * PTX vb) = load32 (\<lambda>_. 0) (q + 4 * PTX vb)"
      by (rule load32_page_cong)
        (use entry_word_aligned [OF q(4) PTX_less] entry_in_page [OF q(4) PTX_less] inq in auto)
    then show ?thesis using True ht [OF PDX_less] tb [OF PDX_less] nt by (simp add: pte_at_def load32_def)
  next
    case False
    show ?thesis
    proof (cases "has_table (mem s) pgdir (PDX vb)")
      case True
      note l = spaceD(6,8) [OF ok PDX_less True]
      have "load32 ?m (table (mem s) pgdir (PDX vb) + 4 * PTX vb) = load32 (mem s) (table (mem s) pgdir (PDX vb) + 4 * PTX vb)"
        by (rule load32_page_cong)
          (use entry_word_aligned [OF l(1) PTX_less] entry_in_page [OF l(1) PTX_less] other l(2) tq [OF PDX_less True] in auto)
      then show ?thesis using True False ht [OF PDX_less] tb [OF PDX_less] by (simp add: pte_at_def)
    qed (use False ht [OF PDX_less] in \<open>simp add: pte_at_def\<close>)
  qed
  have ms: "missing ?m pgdir = missing (mem s) pgdir - {PDX va}" using ht by (auto simp: missing_def)
  show thesis
    by (rule that [of ?t]) (use run sp pte pp other ms ht [OF PDX_less] tb [OF PDX_less] u(4,5) in auto)
qed

section \<open>Mapping a range\<close>

lemma aligned_diff: "aligned x \<Longrightarrow> aligned y \<Longrightarrow> aligned (x - y)"
proof -
  assume "aligned x" "aligned y"
  then have m: "unat x mod 4096 = 0" "unat y mod 4096 = 0" by (simp_all add: aligned_unat)
  show "aligned (x - y)"
  proof (cases "y \<le> x")
    case True
    then have "unat (x - y) = unat x - unat y" by (rule unat_sub_uint)
    then show ?thesis using m by (simp add: aligned_unat mod_eq_0_iff_dvd dvd_diff_nat)
  next
    case False
    then have "unat (x - y) = unat x + 4294967296 - unat y" by (simp add: unat_sub_if' word_le_nat_alt)
    moreover have "(4096 :: nat) dvd 4294967296" by (simp add: dvd_eq_mod_eq_0)
    ultimately show ?thesis using m by (simp add: aligned_unat mod_eq_0_iff_dvd dvd_diff_nat)
  qed
qed

lemma aligned_add_pages: "aligned p \<Longrightarrow> aligned (p + of_nat n * PGSIZE)"
proof (induction n)
  case (Suc n)
  then show ?case using aligned_add_page [of "p + of_nat n * PGSIZE"] by (simp add: algebra_simps)
qed simp

text \<open>The \<open>k + 1\<close> pages from the aligned address \<open>a\<close> on.\<close>

definition in_range :: "uint \<Rightarrow> nat \<Rightarrow> uint \<Rightarrow> bool" where
  "in_range a k vb \<longleftrightarrow> unat (PGROUNDDOWN vb - a) \<le> k * 4096"

lemma in_range_0: "in_range a 0 vb \<longleftrightarrow> PGROUNDDOWN vb = a"
proof -
  have "unat (PGROUNDDOWN vb - a) = 0 \<longleftrightarrow> PGROUNDDOWN vb - a = 0" by (metis unsigned_0 word_unat_eq_iff)
  then show ?thesis by (simp add: in_range_def)
qed

lemma in_range_Suc:
  assumes "aligned a" and "Suc k < 2 ^ 20"
  shows "in_range a (Suc k) vb \<longleftrightarrow> PGROUNDDOWN vb = a \<or> in_range (a + PGSIZE) k vb"
    and "\<not> in_range (a + PGSIZE) k a"
proof -
  let ?d = "PGROUNDDOWN vb - a"
  have d: "unat ?d mod 4096 = 0" using aligned_diff [OF aligned_PGROUNDDOWN assms(1)] by (simp add: aligned_unat)
  show "in_range a (Suc k) vb \<longleftrightarrow> PGROUNDDOWN vb = a \<or> in_range (a + PGSIZE) k vb"
  proof (cases "?d = 0")
    case True
    then show ?thesis by (simp add: in_range_def)
  next
    case False
    then have "unat ?d \<noteq> 0" by (metis unsigned_0 word_unat_eq_iff)
    then have ge: "4096 \<le> unat ?d" using d page_multiples [of 0 "unat ?d"] by simp
    then have "PGSIZE \<le> ?d" by (simp add: PGSIZE_def word_le_nat_alt)
    then have "unat (?d - PGSIZE) = unat ?d - 4096" by (simp add: unat_sub_uint PGSIZE_def)
    moreover have "PGROUNDDOWN vb - (a + PGSIZE) = ?d - PGSIZE" by simp
    ultimately have "unat (PGROUNDDOWN vb - (a + PGSIZE)) = unat ?d - 4096" by (simp only:)
    then show ?thesis using ge False by (auto simp: in_range_def)
  qed
  have "PGROUNDDOWN a - (a + PGSIZE) = - 4096" using aligned_eq [OF assms(1)] by (simp add: PGSIZE_def)
  then have "unat (PGROUNDDOWN a - (a + PGSIZE)) = 4294963200" by simp
  then show "\<not> in_range (a + PGSIZE) k a" using assms(2) by (simp add: in_range_def)
qed

lemma finite_missing [simp]: "finite (missing m pgdir)"
  by (rule finite_subset [of _ UNIV]) auto

lemma entry_nonnull:
  assumes "space s ps pgdir" and "has_table (mem s) pgdir (PDX va)"
  shows "table (mem s) pgdir (PDX va) + 4 * PTX va \<noteq> 0"
proof
  note v = spaceD(5) [OF assms(1) PDX_less assms(2)]
  have al: "aligned (table (mem s) pgdir (PDX va))" using v by auto
  assume "table (mem s) pgdir (PDX va) + 4 * PTX va = 0"
  then have "table (mem s) pgdir (PDX va) = 0"
    using entry_in_page [OF al PTX_less, of va] aligned_eq [of 0] by (simp add: aligned_def)
  then show False
    using v spaceD(1) [OF assms(1)] valid_page_nonzero by (auto simp: kmem_inv_def)
qed

text \<open>One step of \<^verbatim>\<open>mappages\<close> succeeds while there is a page for every missing page table.\<close>

lemma map_one:
  assumes ok: "space s ps pgdir" and a: "\<not> bit (pte_at (mem s) pgdir a) 0"
    and room: "card (missing (mem s) pgdir) \<le> length ps"
  obtains pte u t qs where "walkpgdir pgdir a True s = (pte, u)" and "pte \<noteq> 0" and "\<not> bit (load32 (mem u) pte) 0"
    and "t = u\<lparr>mem := store32 (mem u) pte v\<rparr>" and "space t qs pgdir"
    and "\<And>vb. pte_at (mem t) pgdir vb = (if PGROUNDDOWN vb = PGROUNDDOWN a then v else pte_at (mem s) pgdir vb)"
    and "card (missing (mem t) pgdir) + length ps = card (missing (mem s) pgdir) + length qs"
    and "length qs \<le> length ps"
    and "pt_pages (mem t) pgdir \<union> set qs = pt_pages (mem s) pgdir \<union> set ps" and "set qs \<subseteq> set ps"
    and "\<And>x. PGROUNDDOWN x \<notin> pt_pages (mem t) pgdir \<Longrightarrow> mem t x = mem s x"
    and "k_end t = k_end s" and "k_data t = k_data s"
proof -
  obtain u qs where u: "walkpgdir pgdir a True s = (table (mem u) pgdir (PDX a) + 4 * PTX a, u)"
    "space u qs pgdir" "has_table (mem u) pgdir (PDX a)" "\<And>vb. pte_at (mem u) pgdir vb = pte_at (mem s) pgdir vb"
    "pt_pages (mem u) pgdir \<union> set qs = pt_pages (mem s) pgdir \<union> set ps" "set qs \<subseteq> set ps"
    "\<And>x. PGROUNDDOWN x \<notin> pt_pages (mem u) pgdir \<Longrightarrow> mem u x = mem s x"
    "card (missing (mem u) pgdir) + length ps = card (missing (mem s) pgdir) + length qs" "length qs \<le> length ps"
    "k_end u = k_end s" "k_data u = k_data s"
  proof (cases "has_table (mem s) pgdir (PDX a)")
    case True
    then show thesis using that [of s ps] walk_True_present [OF True] ok by simp
  next
    case False
    then have "PDX a \<in> missing (mem s) pgdir" using PDX_less by (simp add: missing_def)
    then have c: "card (missing (mem s) pgdir - {PDX a}) + 1 = card (missing (mem s) pgdir)"
      by (metis Suc_eq_plus1 card_Suc_Diff1 finite_missing)
    then obtain q qs where ps: "ps = q # qs" using room by (cases ps) auto
    from walk_True_alloc [OF ok [unfolded ps] False] obtain t where
      t: "walkpgdir pgdir a True s = (table (mem t) pgdir (PDX a) + 4 * PTX a, t)" "space t qs pgdir"
        "has_table (mem t) pgdir (PDX a)" "\<And>vb. pte_at (mem t) pgdir vb = pte_at (mem s) pgdir vb"
        "pt_pages (mem t) pgdir = insert q (pt_pages (mem s) pgdir)"
        "\<And>x. PGROUNDDOWN x \<noteq> q \<Longrightarrow> PGROUNDDOWN x \<noteq> pgdir \<Longrightarrow> mem t x = mem s x"
        "missing (mem t) pgdir = missing (mem s) pgdir - {PDX a}" "k_end t = k_end s" "k_data t = k_data s"
      by metis
    show thesis
      by (rule that [OF t(1-4)]) (use t ps c in \<open>auto simp: pt_pages_def\<close>)
  qed
  let ?pte = "table (mem u) pgdir (PDX a) + 4 * PTX a"
  note st = pte_at_store [OF u(2,3) refl, where v = v]
  let ?t = "u\<lparr>mem := store32 (mem u) ?pte v\<rparr>"
  have "load32 (mem u) ?pte = pte_at (mem s) pgdir a" using u(3) u(4) [of a] by (simp add: pte_at_def)
  then have nb: "\<not> bit (load32 (mem u) ?pte) 0" using a by simp
  have ms: "missing (mem ?t) pgdir = missing (mem u) pgdir" using st(5) by (auto simp: missing_def)
  have tin: "table (mem u) pgdir (PDX a) \<in> pt_pages (mem u) pgdir"
    using u(3) PDX_less by (auto simp: pt_pages_def tables_def)
  show thesis
  proof (rule that [OF u(1) entry_nonnull [OF u(2,3)] nb refl, where qs = qs])
    show "mem ?t x = mem s x" if "PGROUNDDOWN x \<notin> pt_pages (mem ?t) pgdir" for x
      using that st(3) st(4) [of x] tin u(7) [of x] by (cases "PGROUNDDOWN x = table (mem u) pgdir (PDX a)") auto
  qed (use st u ms in auto)
qed

lemma mappages_loop_spec:
  assumes "space s ps pgdir" and "aligned a" and "k < 2 ^ 20 - 1"
    and "\<And>vb. in_range a k vb \<Longrightarrow> \<not> bit (pte_at (mem s) pgdir vb) 0"
    and "card (missing (mem s) pgdir) \<le> length ps"
  shows "\<exists>t qs. mappages_loop (Suc k) pgdir a (a + of_nat k * PGSIZE) pa pm s = Done (0, t) \<and> space t qs pgdir
    \<and> (\<forall>vb. pte_at (mem t) pgdir vb = (if in_range a k vb then (pa + (PGROUNDDOWN vb - a)) OR pm OR PTE_P
              else pte_at (mem s) pgdir vb))
    \<and> card (missing (mem t) pgdir) + length ps = card (missing (mem s) pgdir) + length qs \<and> length qs \<le> length ps
    \<and> pt_pages (mem t) pgdir \<union> set qs = pt_pages (mem s) pgdir \<union> set ps \<and> set qs \<subseteq> set ps
    \<and> (\<forall>x. PGROUNDDOWN x \<notin> pt_pages (mem t) pgdir \<longrightarrow> mem t x = mem s x)
    \<and> k_end t = k_end s \<and> k_data t = k_data s"
  using assms
proof (induction k arbitrary: a pa s ps)
  case (0 a pa s ps)
  have "\<not> bit (pte_at (mem s) pgdir a) 0" using 0(2,4) by (simp add: in_range_0 aligned_eq)
  from map_one [OF 0(1) this 0(5), of "pa OR pm OR PTE_P"] show ?case
    by (force simp: mappages_loop.simps in_range_0 present_iff aligned_eq [OF 0(2)] Let_def)
next
  case (Suc k a pa s ps)
  have sk: "Suc k < 2 ^ 20" using Suc.prems(3) by simp
  note ir = in_range_Suc [OF Suc.prems(2) sk]
  have "\<not> bit (pte_at (mem s) pgdir a) 0" using Suc.prems(2,4) ir(1) [of a] by (simp add: aligned_eq)
  from map_one [OF Suc.prems(1) this Suc.prems(5), of "pa OR pm OR PTE_P"] obtain pte u t qs where
    t: "walkpgdir pgdir a True s = (pte, u)" "pte \<noteq> 0" "\<not> bit (load32 (mem u) pte) 0"
      "t = u\<lparr>mem := store32 (mem u) pte (pa OR pm OR PTE_P)\<rparr>" "space t qs pgdir"
      "\<And>vb. pte_at (mem t) pgdir vb = (if PGROUNDDOWN vb = PGROUNDDOWN a then pa OR pm OR PTE_P else pte_at (mem s) pgdir vb)"
      "card (missing (mem t) pgdir) + length ps = card (missing (mem s) pgdir) + length qs" "length qs \<le> length ps"
      "pt_pages (mem t) pgdir \<union> set qs = pt_pages (mem s) pgdir \<union> set ps" "set qs \<subseteq> set ps"
      "\<And>x. PGROUNDDOWN x \<notin> pt_pages (mem t) pgdir \<Longrightarrow> mem t x = mem s x" "k_end t = k_end s" "k_data t = k_data s"
    by metis
  have al: "PGROUNDDOWN a = a" using aligned_eq [OF Suc.prems(2)] .
  have room: "card (missing (mem t) pgdir) \<le> length qs" using t(7,8) Suc.prems(5) by linarith
  have free: "\<not> bit (pte_at (mem t) pgdir vb) 0" if "in_range (a + PGSIZE) k vb" for vb
    using that ir Suc.prems(4) [of vb] t(6) [of vb] al by (auto simp: in_range_def)
  have "k < 2 ^ 20 - 1" using Suc.prems(3) by simp
  from Suc.IH [OF t(5) aligned_add_page [OF Suc.prems(2)] this free room, of "pa + PGSIZE"]
  obtain r rs where r: "mappages_loop (Suc k) pgdir (a + PGSIZE) (a + PGSIZE + of_nat k * PGSIZE) (pa + PGSIZE) pm t = Done (0, r)"
    "space r rs pgdir"
    "\<And>vb. pte_at (mem r) pgdir vb = (if in_range (a + PGSIZE) k vb then (pa + PGSIZE + (PGROUNDDOWN vb - (a + PGSIZE))) OR pm OR PTE_P
              else pte_at (mem t) pgdir vb)"
    "card (missing (mem r) pgdir) + length qs = card (missing (mem t) pgdir) + length rs" "length rs \<le> length qs"
    "pt_pages (mem r) pgdir \<union> set rs = pt_pages (mem t) pgdir \<union> set qs" "set rs \<subseteq> set qs"
    "\<And>x. PGROUNDDOWN x \<notin> pt_pages (mem r) pgdir \<Longrightarrow> mem r x = mem t x" "k_end r = k_end t" "k_data r = k_data t"
    by blast
  have "of_nat (Suc k) * PGSIZE = (of_nat (Suc k * 4096) :: uint)" by (simp add: PGSIZE_def)
  then have "unat (of_nat (Suc k) * PGSIZE :: uint) = Suc k * 4096"
    using sk unat_of_nat_uint [of "Suc k * 4096"] by simp
  then have ne: "a \<noteq> a + of_nat (Suc k) * PGSIZE" by auto
  have e: "a + of_nat (Suc k) * PGSIZE = a + PGSIZE + of_nat k * PGSIZE" by (simp add: algebra_simps)
  have run: "mappages_loop (Suc (Suc k)) pgdir a (a + of_nat (Suc k) * PGSIZE) pa pm s = Done (0, r)"
    using t(1-4) ne r(1) by (simp only: mappages_loop.simps(2) [of "Suc k"] Let_def split_conv present_iff if_False e)
  have pte: "pte_at (mem r) pgdir vb = (if in_range a (Suc k) vb then (pa + (PGROUNDDOWN vb - a)) OR pm OR PTE_P
      else pte_at (mem s) pgdir vb)" for vb
    using r(3) [of vb] t(6) [of vb] ir al by (auto simp: in_range_def)
  have sub: "pt_pages (mem t) pgdir \<subseteq> pt_pages (mem r) pgdir"
    using r(6) t(5) r(7) by (auto simp: space_def)
  have mm: "mem r x = mem s x" if "PGROUNDDOWN x \<notin> pt_pages (mem r) pgdir" for x
    using r(8) [OF that] t(11) [of x] that sub by auto
  show ?case
    using run r t pte mm by (intro exI [of _ r] exI [of _ rs]) auto
qed

lemma mappages_page:
  assumes ok: "space s ps pgdir" and va: "aligned va" and free: "\<not> bit (pte_at (mem s) pgdir va) 0"
    and room: "card (missing (mem s) pgdir) \<le> length ps"
  obtains t qs where "mappages pgdir va PGSIZE pa pm s = Done (0, t)" and "space t qs pgdir"
    and "\<And>vb. pte_at (mem t) pgdir vb = (if PGROUNDDOWN vb = va then pa OR pm OR PTE_P else pte_at (mem s) pgdir vb)"
    and "card (missing (mem t) pgdir) + length ps = card (missing (mem s) pgdir) + length qs" and "length qs \<le> length ps"
    and "pt_pages (mem t) pgdir \<union> set qs = pt_pages (mem s) pgdir \<union> set ps" and "set qs \<subseteq> set ps"
    and "\<And>x. PGROUNDDOWN x \<notin> pt_pages (mem t) pgdir \<Longrightarrow> mem t x = mem s x"
    and "k_end t = k_end s" and "k_data t = k_data s"
proof -
  have e: "PGROUNDDOWN va = va" using aligned_eq [OF va] .
  have "unat (va + PGSIZE - 1 - va) < 4096" by (simp add: PGSIZE_def)
  then have l: "PGROUNDDOWN (va + PGSIZE - 1) = va" using in_page [OF va] by blast
  have f: "\<not> bit (pte_at (mem s) pgdir vb) 0" if "in_range va 0 vb" for vb
    using that free same_page [of vb va] e by (simp add: in_range_0 pte_at_def split: if_splits)
  have m: "mappages pgdir va PGSIZE pa pm s = mappages_loop (Suc 0) pgdir va va pa pm s"
    unfolding mappages_def Let_def l e by simp
  have k: "(0 :: nat) < 2 ^ 20 - 1" by simp
  from mappages_loop_spec [where k = 0 and pa = pa and pm = pm, OF ok va k f room]
  obtain t qs where t: "mappages_loop (Suc 0) pgdir va (va + of_nat 0 * PGSIZE) pa pm s = Done (0, t)" "space t qs pgdir"
    "\<And>vb. pte_at (mem t) pgdir vb = (if in_range va 0 vb then (pa + (PGROUNDDOWN vb - va)) OR pm OR PTE_P
              else pte_at (mem s) pgdir vb)"
    "card (missing (mem t) pgdir) + length ps = card (missing (mem s) pgdir) + length qs" "length qs \<le> length ps"
    "pt_pages (mem t) pgdir \<union> set qs = pt_pages (mem s) pgdir \<union> set ps" "set qs \<subseteq> set ps"
    "\<And>x. PGROUNDDOWN x \<notin> pt_pages (mem t) pgdir \<Longrightarrow> mem t x = mem s x" "k_end t = k_end s" "k_data t = k_data s"
    by metis
  have "mappages pgdir va PGSIZE pa pm s = Done (0, t)" using t(1) m by simp
  then show thesis by (rule that) (use t(2-) in \<open>auto simp: in_range_0\<close>)
qed

section \<open>User address spaces\<close>

definition upage :: "cmem \<Rightarrow> uint \<Rightarrow> uint \<Rightarrow> uint" where
  "upage m pgdir va = P2V (PTE_ADDR (pte_at m pgdir va))"

text \<open>The byte the process sees at \<open>va\<close>.\<close>

definition ubyte :: "cmem \<Rightarrow> uint \<Rightarrow> uint \<Rightarrow> uchar" where
  "ubyte m pgdir va = m (upage m pgdir va + (va AND 0xFFF))"

definition upages :: "cmem \<Rightarrow> uint \<Rightarrow> uint \<Rightarrow> uint set" where
  "upages m pgdir sz = upage m pgdir ` {va. PGROUNDDOWN va < sz}"

definition all_pages :: "cmem \<Rightarrow> uint \<Rightarrow> uint \<Rightarrow> uint set" where
  "all_pages m pgdir sz = pt_pages m pgdir \<union> upages m pgdir sz"

text \<open>
  The invariant of a process's memory of size \<open>sz\<close>: every page below \<open>sz\<close> is mapped, to a page of its own
  that is neither free nor part of the page table.
\<close>

definition uspace :: "'a kmem_scheme \<Rightarrow> uint list \<Rightarrow> uint \<Rightarrow> uint \<Rightarrow> bool" where
  "uspace s ps pgdir sz \<longleftrightarrow> space s ps pgdir
     \<and> (\<forall>va. PGROUNDDOWN va < sz \<longrightarrow> bit (pte_at (mem s) pgdir va) 0)
     \<and> (\<forall>va. PGROUNDDOWN va < sz \<longrightarrow> valid_page s (upage (mem s) pgdir va))
     \<and> upages (mem s) pgdir sz \<inter> (pt_pages (mem s) pgdir \<union> set ps) = {}
     \<and> (\<forall>va vb. PGROUNDDOWN va < sz \<longrightarrow> PGROUNDDOWN vb < sz \<longrightarrow> upage (mem s) pgdir va = upage (mem s) pgdir vb \<longrightarrow>
          PGROUNDDOWN va = PGROUNDDOWN vb)"

lemma in_upage: "aligned p \<Longrightarrow> PGROUNDDOWN (p + (va AND 0xFFF)) = p"
proof -
  assume p: "aligned p"
  have "va AND 0xFFF \<le> 0xFFF" by (rule word_and_le1)
  then have "unat (va AND 0xFFF) < 4096" by (simp add: word_le_nat_alt)
  then show ?thesis using in_page [OF p, of "p + (va AND 0xFFF)"] by simp
qed

text \<open>Nothing that happens outside its pages concerns an address space.\<close>

lemma uspace_frame:
  assumes u: "uspace s ps pgdir sz" and k: "kmem_inv t qs" "set qs \<subseteq> set ps" "k_end t = k_end s"
    and same: "\<And>x. PGROUNDDOWN x \<in> all_pages (mem s) pgdir sz \<Longrightarrow> mem t x = mem s x"
  shows "uspace t qs pgdir sz" and "all_pages (mem t) pgdir sz = all_pages (mem s) pgdir sz"
    and "pte_at (mem t) pgdir va = pte_at (mem s) pgdir va"
    and "PGROUNDDOWN va < sz \<Longrightarrow> ubyte (mem t) pgdir va = ubyte (mem s) pgdir va"
    and "pt_pages (mem t) pgdir = pt_pages (mem s) pgdir" and "missing (mem t) pgdir = missing (mem s) pgdir"
proof -
  have sp: "space s ps pgdir" using u by (simp add: uspace_def)
  have "mem t x = mem s x" if "PGROUNDDOWN x \<in> pt_pages (mem s) pgdir" for x
    using same that by (auto simp: all_pages_def)
  note c = pt_cong [OF sp this]
  show pte: "pte_at (mem t) pgdir va = pte_at (mem s) pgdir va" for va by (rule c(1))
  then have up: "upage (mem t) pgdir va = upage (mem s) pgdir va" for va by (simp add: upage_def)
  show "all_pages (mem t) pgdir sz = all_pages (mem s) pgdir sz" using c(2) up by (simp add: all_pages_def upages_def)
  show "pt_pages (mem t) pgdir = pt_pages (mem s) pgdir" by (rule c(2))
  show "missing (mem t) pgdir = missing (mem s) pgdir" using c(3) by (auto simp: missing_def)
  have vp: "valid_page t p = valid_page s p" for p using k(3) by (simp add: valid_page_def)
  have tab: "tables (mem t) pgdir = tables (mem s) pgdir" using c(3,4) by (auto simp: tables_def)
  have inj: "inj_on (table (mem t) pgdir) {i. i < 1024 \<and> has_table (mem t) pgdir i}"
    using sp c(3,4) by (auto simp: space_def pgdir_ok_def inj_on_def)
  have "space t qs pgdir" using sp k c(2) vp tab inj by (auto simp: space_def pgdir_ok_def)
  then show "uspace t qs pgdir sz" using u c(2) k(2) by (auto simp: uspace_def pte up upages_def vp)
  show "ubyte (mem t) pgdir va = ubyte (mem s) pgdir va" if va: "PGROUNDDOWN va < sz" for va
  proof -
    have "aligned (upage (mem s) pgdir va)" using u va by (auto simp: uspace_def)
    then show ?thesis using va by (auto simp: ubyte_def up all_pages_def upages_def in_upage intro!: same)
  qed
qed

lemma PGROUNDDOWN_less_Suc:
  assumes "aligned i" and "unat i + 4096 < 2 ^ 32"
  shows "PGROUNDDOWN va < i + PGSIZE \<longleftrightarrow> PGROUNDDOWN va < i \<or> PGROUNDDOWN va = i"
proof -
  have "unat (i + PGSIZE) = unat i + 4096" using assms(2) unat_add_uint [of i PGSIZE] by (simp add: PGSIZE_def)
  moreover have "unat i mod 4096 = 0" "unat (PGROUNDDOWN va) mod 4096 = 0"
    using assms(1) aligned_PGROUNDDOWN [of va] by (simp_all only: aligned_unat)
  moreover have "unat (PGROUNDDOWN va) < unat i + 4096 \<longleftrightarrow> unat (PGROUNDDOWN va) < unat i \<or> unat (PGROUNDDOWN va) = unat i"
    using page_multiples [OF calculation(2,3)] page_multiples [OF calculation(3,2)] by linarith
  ultimately show ?thesis by (simp add: word_less_nat_alt word_unat_eq_iff)
qed

lemma PGROUNDDOWN_PTE_FLAGS [simp]: "PGROUNDDOWN (PTE_FLAGS f) = 0"
  unfolding PTE_FLAGS_def mask12_uint by (rule bit_eqI) (simp add: bit_PGROUNDDOWN bit_simps)

lemma PGROUNDDOWN_PTE [simp]: "PGROUNDDOWN PTE_P = 0" "PGROUNDDOWN (PTE_W OR PTE_U) = 0"
  by (simp_all add: PGROUNDDOWN_mask PTE_P_def PTE_W_def PTE_U_def)

lemma PGROUNDDOWN_or: "PGROUNDDOWN (a OR b) = PGROUNDDOWN a OR PGROUNDDOWN b"
  by (rule bit_eqI) (auto simp: bit_PGROUNDDOWN bit_simps)

text \<open>Mapping a page \<open>p\<close> the caller owns just above the \<open>i\<close> bytes already there.\<close>

lemma add_page:
  assumes u: "uspace s ps d i" and i: "aligned i" "unat i + 4096 < 2 ^ 32" and free: "\<not> bit (pte_at (mem s) d i) 0"
    and room: "card (missing (mem s) d) \<le> length ps"
    and p: "valid_page s p" "p \<notin> set ps" "p \<notin> all_pages (mem s) d i" and fl: "PGROUNDDOWN fl = 0"
  obtains t qs where "mappages d i PGSIZE (V2P p) fl s = Done (0, t)" and "uspace t qs d (i + PGSIZE)"
    and "\<And>vb. pte_at (mem t) d vb = (if PGROUNDDOWN vb = i then V2P p OR fl OR PTE_P else pte_at (mem s) d vb)"
    and "upage (mem t) d i = p"
    and "card (missing (mem t) d) + length ps = card (missing (mem s) d) + length qs" and "length qs \<le> length ps"
    and "pt_pages (mem t) d \<union> set qs = pt_pages (mem s) d \<union> set ps" and "set qs \<subseteq> set ps"
    and "\<And>x. PGROUNDDOWN x \<notin> pt_pages (mem t) d \<Longrightarrow> mem t x = mem s x"
    and "k_end t = k_end s" and "k_data t = k_data s" and "all_pages (mem t) d (i + PGSIZE) \<subseteq> insert p (all_pages (mem s) d i) \<union> set ps"
    and "insert p (all_pages (mem s) d i) \<subseteq> all_pages (mem t) d (i + PGSIZE)"
    and "\<And>va. PGROUNDDOWN va < i \<Longrightarrow> ubyte (mem t) d va = ubyte (mem s) d va"
    and "\<And>va. PGROUNDDOWN va = i \<Longrightarrow> ubyte (mem t) d va = mem s (p + (va AND 0xFFF))"
proof -
  have sp: "space s ps d" using u by (simp add: uspace_def)
  obtain t qs where t: "mappages d i PGSIZE (V2P p) fl s = Done (0, t)" "space t qs d"
    "\<And>vb. pte_at (mem t) d vb = (if PGROUNDDOWN vb = i then V2P p OR fl OR PTE_P else pte_at (mem s) d vb)"
    "card (missing (mem t) d) + length ps = card (missing (mem s) d) + length qs" "length qs \<le> length ps"
    "pt_pages (mem t) d \<union> set qs = pt_pages (mem s) d \<union> set ps" "set qs \<subseteq> set ps"
    "\<And>x. PGROUNDDOWN x \<notin> pt_pages (mem t) d \<Longrightarrow> mem t x = mem s x" "k_end t = k_end s" "k_data t = k_data s"
    using mappages_page [OF sp i(1) free room] by metis
  have al: "aligned p" using p(1) by auto
  have ii: "PGROUNDDOWN i = i" using aligned_eq [OF i(1)] .
  have "PGROUNDDOWN (fl OR PTE_P) = 0" using fl by (simp add: PGROUNDDOWN_or)
  then have ad: "P2V (PTE_ADDR (V2P p OR fl OR PTE_P)) = p"
    using PTE_ADDR_entry [OF aligned_V2P [OF al], of "fl OR PTE_P"] by (simp add: or.assoc)
  have up: "upage (mem t) d vb = (if PGROUNDDOWN vb = i then p else upage (mem s) d vb)" for vb
    using t(3) [of vb] ad by (simp add: upage_def)
  note ls = PGROUNDDOWN_less_Suc [OF i]
  have b0: "bit (V2P p OR fl OR PTE_P) 0" by (simp add: bit_simps bit_PTE)
  have ups: "upages (mem t) d (i + PGSIZE) = insert p (upages (mem s) d i)"
  proof -
    have "{va. PGROUNDDOWN va < i + PGSIZE} = {va. PGROUNDDOWN va < i} \<union> {va. PGROUNDDOWN va = i}" using ls by auto
    moreover have "upage (mem t) d ` {va. PGROUNDDOWN va < i} = upage (mem s) d ` {va. PGROUNDDOWN va < i}"
      using up by (auto simp: image_iff)
    moreover have "upage (mem t) d ` {va. PGROUNDDOWN va = i} = {p}" using up ii by auto
    ultimately show ?thesis by (auto simp: upages_def image_Un)
  qed
  have vp: "valid_page t q = valid_page s q" for q using t(9) by (simp add: valid_page_def)
  have pn: "p \<notin> upages (mem s) d i" "p \<notin> pt_pages (mem t) d \<union> set qs"
    using p(2,3) t(6) by (auto simp: all_pages_def)
  have dis: "upages (mem s) d i \<inter> (pt_pages (mem t) d \<union> set qs) = {}"
    using u t(6) by (simp add: uspace_def)
  have mapped: "bit (pte_at (mem t) d va) 0" "valid_page t (upage (mem t) d va)" if "PGROUNDDOWN va < i + PGSIZE" for va
    using that u p(1) ls [of va] t(3) [of va] up [of va] b0 vp by (auto simp: uspace_def)
  have inj: "PGROUNDDOWN va = PGROUNDDOWN vb"
    if v: "PGROUNDDOWN va < i + PGSIZE" "PGROUNDDOWN vb < i + PGSIZE" "upage (mem t) d va = upage (mem t) d vb" for va vb
  proof -
    have "upage (mem s) d vc \<noteq> p" if "PGROUNDDOWN vc < i" for vc using pn(1) that by (auto simp: upages_def)
    then show ?thesis using v up [of va] up [of vb] ls u by (auto simp: uspace_def split: if_splits)
  qed
  have us: "uspace t qs d (i + PGSIZE)"
    unfolding uspace_def ups using t(2) mapped inj dis pn(2) by blast
  have sub: "all_pages (mem t) d (i + PGSIZE) \<subseteq> insert p (all_pages (mem s) d i) \<union> set ps"
    using ups t(6) by (auto simp: all_pages_def)
  have sup: "insert p (all_pages (mem s) d i) \<subseteq> all_pages (mem t) d (i + PGSIZE)"
    using ups t(6,7) sp by (auto simp: all_pages_def space_def)
  have ub: "ubyte (mem t) d va = mem s (upage (mem t) d va + (va AND 0xFFF))" if "PGROUNDDOWN va < i + PGSIZE" for va
  proof -
    have "upage (mem t) d va \<in> upages (mem t) d (i + PGSIZE)" using that by (auto simp: upages_def)
    then have "upage (mem t) d va \<notin> pt_pages (mem t) d" using us by (auto simp: uspace_def)
    moreover have "aligned (upage (mem t) d va)" using mapped(2) [OF that] by auto
    ultimately show ?thesis using t(8) in_upage by (simp add: ubyte_def)
  qed
  have ub1: "ubyte (mem t) d va = ubyte (mem s) d va" if "PGROUNDDOWN va < i" for va
    using ub [of va] up [of va] ls [of va] that by (auto simp: ubyte_def)
  have ub2: "ubyte (mem t) d va = mem s (p + (va AND 0xFFF))" if "PGROUNDDOWN va = i" for va
    using ub [of va] up [of va] ls [of va] that by auto
  have ui: "upage (mem t) d i = p" using up ii by simp
  show thesis by (rule that [OF t(1) us t(3) ui t(4-8) t(9,10) sub sup ub1 ub2])
qed

section \<open>Growing a process\<close>

lemma kalloc_uspace:
  assumes "uspace s (p # ps) d i"
  obtains t where "kalloc s = (p, t)" and "uspace t ps d i" and "mem t = mem s" and "k_end t = k_end s"
    and "k_data t = k_data s" and "valid_page t p" and "p \<notin> set ps" and "p \<notin> all_pages (mem s) d i" and "p \<noteq> 0"
proof -
  have k: "kmem_inv s (p # ps)" using assms by (simp add: uspace_def space_def)
  obtain t where t: "kalloc s = (p, t)" "kmem_inv t ps" "mem t = mem s" "k_end t = k_end s" "k_data t = k_data s"
    using kalloc_Cons [OF k] by metis
  have "uspace t ps d i" by (rule uspace_frame(1) [OF assms t(2) _ t(4)]) (use t(3) in auto)
  moreover have "p \<notin> all_pages (mem s) d i" using assms by (auto simp: uspace_def space_def all_pages_def)
  ultimately show thesis
    using that t kp.free_pages [OF k] by (auto simp: valid_page_def)
qed

text \<open>Filling a page the caller owns leaves an address space alone.\<close>

lemma uspace_fill:
  assumes u: "uspace s ps d i" and p: "p \<notin> set ps" "p \<notin> all_pages (mem s) d i"
    and m: "\<And>x. PGROUNDDOWN x \<noteq> p \<Longrightarrow> m x = mem s x"
  shows "uspace (s\<lparr>mem := m\<rparr>) ps d i" and "all_pages m d i = all_pages (mem s) d i"
    and "pte_at m d va = pte_at (mem s) d va" and "PGROUNDDOWN va < i \<Longrightarrow> ubyte m d va = ubyte (mem s) d va"
    and "missing m d = missing (mem s) d"
proof -
  have km: "kmem_inv (s\<lparr>mem := m\<rparr>) ps"
    by (rule kmem_inv_frame) (use u p(1) m in \<open>auto simp: uspace_def space_def\<close>, metis)
  have "mem (s\<lparr>mem := m\<rparr>) x = mem s x" if "PGROUNDDOWN x \<in> all_pages (mem s) d i" for x
    using m [of x] p(2) that by (cases "PGROUNDDOWN x = p") auto
  note f = uspace_frame [OF u km subset_refl _ this]
  show "uspace (s\<lparr>mem := m\<rparr>) ps d i" "all_pages m d i = all_pages (mem s) d i" "pte_at m d va = pte_at (mem s) d va"
    "PGROUNDDOWN va < i \<Longrightarrow> ubyte m d va = ubyte (mem s) d va" "missing m d = missing (mem s) d"
    using f by simp_all
qed

definition unmapped :: "cmem \<Rightarrow> uint \<Rightarrow> uint \<Rightarrow> bool" where
  "unmapped m d i \<longleftrightarrow> (\<forall>va. i \<le> PGROUNDDOWN va \<and> PGROUNDDOWN va < KERNBASE \<longrightarrow> \<not> bit (pte_at m d va) 0)"

definition pages_to :: "uint \<Rightarrow> uint \<Rightarrow> nat" where
  "pages_to a sz = (unat sz + 4095 - unat a) div 4096"

lemma pages_to_step:
  assumes "a < sz" and "unat a + 4096 < 2 ^ 32"
  shows "pages_to a sz = Suc (pages_to (a + PGSIZE) sz)"
proof -
  have "unat (a + PGSIZE) = unat a + 4096" using assms(2) unat_add_uint [of a PGSIZE] by (simp add: PGSIZE_def)
  moreover have "unat a < unat sz" using assms(1) by (simp add: word_less_nat_alt)
  ultimately show ?thesis unfolding pages_to_def by linarith
qed

lemma unmapped_step:
  assumes "unmapped m d i" and "aligned i" and "unat i + 4096 < 2 ^ 32"
    and "\<And>vb. pte_at m' d vb = (if PGROUNDDOWN vb = i then e else pte_at m d vb)"
  shows "unmapped m' d (i + PGSIZE)"
proof -
  have "unat (i + PGSIZE) = unat i + 4096" using assms(3) unat_add_uint [of i PGSIZE] by (simp add: PGSIZE_def)
  then have "i \<le> PGROUNDDOWN va \<and> PGROUNDDOWN va \<noteq> i" if "i + PGSIZE \<le> PGROUNDDOWN va" for va
    using that by (auto simp: word_le_nat_alt)
  then show ?thesis using assms(1,4) by (auto simp: unmapped_def)
qed

lemma unmappedD: "unmapped m d i \<Longrightarrow> aligned i \<Longrightarrow> i < KERNBASE \<Longrightarrow> \<not> bit (pte_at m d i) 0"
  unfolding unmapped_def using aligned_eq [of i] by simp

lemma KERNBASE_bound: "a < KERNBASE \<Longrightarrow> unat a + 4096 < 2 ^ 32"
  by (simp add: word_less_nat_alt KERNBASE_def)

lemma allocuvm_loop_spec:
  assumes "uspace s ps d a" and "aligned a" and "unmapped (mem s) d a" and "newsz \<le> KERNBASE"
    and "card (missing (mem s) d) + pages_to a newsz \<le> length ps" and "pages_to a newsz < fuel"
  shows "\<exists>t qs b. allocuvm_loop fuel d a oldsz newsz s = Done (newsz, t) \<and> aligned b \<and> newsz \<le> b \<and> a \<le> b
    \<and> (a < newsz \<longrightarrow> unat b < unat newsz + 4096) \<and> (newsz \<le> a \<longrightarrow> b = a)
    \<and> uspace t qs d b \<and> unmapped (mem t) d b \<and> set qs \<subseteq> set ps
    \<and> card (missing (mem t) d) + length ps = card (missing (mem s) d) + pages_to a newsz + length qs
    \<and> (\<forall>va. PGROUNDDOWN va < b \<longrightarrow> ubyte (mem t) d va = (if PGROUNDDOWN va < a then ubyte (mem s) d va else 0))
    \<and> (\<forall>va. PGROUNDDOWN va < a \<longrightarrow> pte_at (mem t) d va = pte_at (mem s) d va)
    \<and> all_pages (mem t) d b \<subseteq> all_pages (mem s) d a \<union> set ps \<and> all_pages (mem s) d a \<subseteq> all_pages (mem t) d b
    \<and> (\<forall>x. PGROUNDDOWN x \<notin> all_pages (mem t) d b \<longrightarrow> mem t x = mem s x)
    \<and> k_end t = k_end s \<and> k_data t = k_data s"
  using assms
proof (induction fuel arbitrary: a s ps)
  case (Suc fuel a s ps)
  show ?case
  proof (cases "a < newsz")
    case False
    have "allocuvm_loop (Suc fuel) d a oldsz newsz s = Done (newsz, s)" using False by (simp add: allocuvm_loop.simps)
    moreover have "pages_to a newsz = 0" using False by (simp add: pages_to_def word_less_nat_alt)
    ultimately show ?thesis using False Suc.prems by (intro exI [of _ s] exI [of _ ps] exI [of _ a]) auto
  next
    case True
    then have ak: "a < KERNBASE" using Suc.prems(4) by simp
    note bd = KERNBASE_bound [OF ak]
    note st = pages_to_step [OF True bd]
    obtain p ps' where ps: "ps = p # ps'" using Suc.prems(5) st by (cases ps) auto
    obtain s1 where s1: "kalloc s = (p, s1)" "uspace s1 ps' d a" "mem s1 = mem s" "k_end s1 = k_end s"
      "k_data s1 = k_data s" "valid_page s1 p" "p \<notin> set ps'" "p \<notin> all_pages (mem s) d a" "p \<noteq> 0"
      using kalloc_uspace [OF Suc.prems(1) [unfolded ps]] by metis
    have al: "aligned p" using s1(6) by auto
    let ?m = "memset (mem s1) p 0 PGSIZE" and ?s2 = "s1\<lparr>mem := memset (mem s1) p 0 PGSIZE\<rparr>"
    have m: "?m x = (if PGROUNDDOWN x = p then 0 else mem s x)" for x using memset_page [OF al] s1(3) by simp
    have pn: "p \<notin> all_pages (mem s1) d a" using s1(3,8) by simp
    have mo: "?m x = mem s1 x" if "PGROUNDDOWN x \<noteq> p" for x using m s1(3) that by simp
    note f = uspace_fill [OF s1(2,7) pn mo]
    have pre: "\<not> bit (pte_at (mem ?s2) d a) 0" "card (missing (mem ?s2) d) \<le> length ps'" "valid_page ?s2 p"
      "p \<notin> all_pages (mem ?s2) d a" "uspace ?s2 ps' d a"
      using f unmappedD [OF Suc.prems(3,2) ak] s1 Suc.prems(5) st ps by (auto simp: valid_page_def)
    obtain s3 qs where s3: "mappages d a PGSIZE (V2P p) (PTE_W OR PTE_U) ?s2 = Done (0, s3)" "uspace s3 qs d (a + PGSIZE)"
      "\<And>vb. pte_at (mem s3) d vb = (if PGROUNDDOWN vb = a then V2P p OR (PTE_W OR PTE_U) OR PTE_P else pte_at (mem ?s2) d vb)"
      "upage (mem s3) d a = p"
      "card (missing (mem s3) d) + length ps' = card (missing (mem ?s2) d) + length qs" "length qs \<le> length ps'"
      "pt_pages (mem s3) d \<union> set qs = pt_pages (mem ?s2) d \<union> set ps'" "set qs \<subseteq> set ps'"
      "\<And>x. PGROUNDDOWN x \<notin> pt_pages (mem s3) d \<Longrightarrow> mem s3 x = mem ?s2 x"
      "k_end s3 = k_end ?s2" "k_data s3 = k_data ?s2" "all_pages (mem s3) d (a + PGSIZE) \<subseteq> insert p (all_pages (mem ?s2) d a) \<union> set ps'"
      "insert p (all_pages (mem ?s2) d a) \<subseteq> all_pages (mem s3) d (a + PGSIZE)"
      "\<And>va. PGROUNDDOWN va < a \<Longrightarrow> ubyte (mem s3) d va = ubyte (mem ?s2) d va"
      "\<And>va. PGROUNDDOWN va = a \<Longrightarrow> ubyte (mem s3) d va = mem ?s2 (p + (va AND 0xFFF))"
      by (rule add_page [OF pre(5) Suc.prems(2) bd pre(1,2,3) s1(7) pre(4) PGROUNDDOWN_PTE(2)]) (rule that)
    have un: "unmapped (mem s3) d (a + PGSIZE)"
    proof (rule unmapped_step [OF _ Suc.prems(2) bd s3(3)])
      show "unmapped (mem ?s2) d a" using Suc.prems(3) f(3) s1(3) by (simp add: unmapped_def)
    qed
    have room: "card (missing (mem s3) d) + pages_to (a + PGSIZE) newsz \<le> length qs" "pages_to (a + PGSIZE) newsz < fuel"
      using s3(5) f(5) s1(3) Suc.prems(5,6) st ps by auto
    obtain t rs b where t: "allocuvm_loop fuel d (a + PGSIZE) oldsz newsz s3 = Done (newsz, t)" "aligned b" "newsz \<le> b"
      "a + PGSIZE \<le> b" "a + PGSIZE < newsz \<longrightarrow> unat b < unat newsz + 4096" "newsz \<le> a + PGSIZE \<longrightarrow> b = a + PGSIZE"
      "uspace t rs d b" "unmapped (mem t) d b" "set rs \<subseteq> set qs"
      "card (missing (mem t) d) + length qs = card (missing (mem s3) d) + pages_to (a + PGSIZE) newsz + length rs"
      "\<And>va. PGROUNDDOWN va < b \<Longrightarrow> ubyte (mem t) d va = (if PGROUNDDOWN va < a + PGSIZE then ubyte (mem s3) d va else 0)"
      "\<And>va. PGROUNDDOWN va < a + PGSIZE \<Longrightarrow> pte_at (mem t) d va = pte_at (mem s3) d va"
      "all_pages (mem t) d b \<subseteq> all_pages (mem s3) d (a + PGSIZE) \<union> set qs" "all_pages (mem s3) d (a + PGSIZE) \<subseteq> all_pages (mem t) d b"
      "\<And>x. PGROUNDDOWN x \<notin> all_pages (mem t) d b \<Longrightarrow> mem t x = mem s3 x" "k_end t = k_end s3" "k_data t = k_data s3"
      using Suc.IH [OF s3(2) aligned_add_page [OF Suc.prems(2)] un Suc.prems(4) room] by blast
    have run: "allocuvm_loop (Suc fuel) d a oldsz newsz s = Done (newsz, t)"
      using True s1(1,9) s3(1) t(1) by (simp add: allocuvm_loop.simps(2) Let_def)
    note ls = PGROUNDDOWN_less_Suc [OF Suc.prems(2) bd]
    have ua: "unat (a + PGSIZE) = unat a + 4096" using bd unat_add_uint [of a PGSIZE] by (simp add: PGSIZE_def)
    have ub: "ubyte (mem s3) d va = (if PGROUNDDOWN va < a then ubyte (mem s) d va else 0)" if "PGROUNDDOWN va < a + PGSIZE" for va
      using that ls [of va] s3(14) [of va] s3(15) [of va] f(4) [of va] s1(3) m in_upage [OF al] by auto
    have ubt: "ubyte (mem t) d va = (if PGROUNDDOWN va < a then ubyte (mem s) d va else 0)" if "PGROUNDDOWN va < b" for va
      using t(11) [OF that] ub [of va] ls [of va] by auto
    have pt: "pte_at (mem t) d va = pte_at (mem s) d va" if "PGROUNDDOWN va < a" for va
      using that t(12) [of va] ls [of va] s3(3) [of va] f(3) s1(3) by auto
    have frm: "mem t x = mem s x" if "PGROUNDDOWN x \<notin> all_pages (mem t) d b" for x
    proof -
      have "PGROUNDDOWN x \<notin> all_pages (mem s3) d (a + PGSIZE)" using that t(14) by auto
      then have "PGROUNDDOWN x \<noteq> p" "PGROUNDDOWN x \<notin> pt_pages (mem s3) d" using s3(13) by (auto simp: all_pages_def)
      then show ?thesis using t(15) [OF that] s3(9) [of x] m by simp
    qed
    have ap: "all_pages (mem t) d b \<subseteq> all_pages (mem s) d a \<union> set ps" "all_pages (mem s) d a \<subseteq> all_pages (mem t) d b"
      using t(13,14) s3(8,12,13) f(2) s1(3) ps by auto
    have ab: "a \<le> b" "unat b < unat newsz + 4096"
      using t(4-6) ua True by (auto simp: word_le_nat_alt word_less_nat_alt not_less)
    have "set rs \<subseteq> set ps" using t(9) s3(8) ps by auto
    moreover have "card (missing (mem t) d) + length ps = card (missing (mem s) d) + pages_to a newsz + length rs"
      using t(10) s3(5) f(5) s1(3) st ps by simp
    ultimately show ?thesis
      using run t(2,3,7,8,16,17) ab ubt pt frm ap s3(10,11) s1(4,5) True
      by (intro exI [of _ t] exI [of _ rs] exI [of _ b]) auto
  qed
qed simp

section \<open>Copying a process\<close>

lemma valid_page_bound: "valid_page s p \<Longrightarrow> unat p + 4096 < 2 ^ 32"
proof -
  assume "valid_page s p"
  then have "unat (V2P p) < unat PHYSTOP" by (simp add: valid_page_def word_less_nat_alt)
  moreover have "p = P2V (V2P p)" by simp
  then have "p = V2P p + KERNBASE" by (simp only: P2V_def)
  moreover have "unat PHYSTOP = 0xE000000" "unat KERNBASE = 0x80000000" by (simp_all add: PHYSTOP_def KERNBASE_def)
  ultimately show ?thesis using unat_add_uint [of "V2P p" KERNBASE] by auto
qed

lemma memmove_page:
  assumes "valid_page s p" and "valid_page s q"
  shows "memmove m p q PGSIZE x = (if PGROUNDDOWN x = p then m (q + (x - p)) else m x)"
proof -
  have "aligned p" using assms(1) by (simp add: valid_page_def)
  then show ?thesis
    using memmove_spec [of q PGSIZE p m] valid_page_bound [OF assms(1)] valid_page_bound [OF assms(2)] in_page [of p x]
    by (simp add: PGSIZE_def)
qed

lemma PTE_FLAGS_entry:
  assumes "aligned p"
  shows "PTE_FLAGS (p OR PTE_FLAGS f) = PTE_FLAGS f"
proof -
  have "PTE_FLAGS p = 0" using assms by (simp add: aligned_def PTE_FLAGS_def)
  moreover have "PTE_FLAGS (x OR y) = PTE_FLAGS x OR PTE_FLAGS y" for x y
    by (rule bit_eqI) (auto simp: PTE_FLAGS_def bit_simps)
  moreover have "PTE_FLAGS (PTE_FLAGS f) = PTE_FLAGS f" by (simp add: PTE_FLAGS_def and.assoc)
  ultimately show ?thesis by simp
qed

lemma present_flags: "bit f 0 \<Longrightarrow> PTE_FLAGS f OR PTE_P = PTE_FLAGS f"
  by (rule bit_eqI) (auto simp: PTE_FLAGS_def mask12_uint bit_simps bit_PTE)

lemma below_round:
  assumes "aligned b" and "unat b < unat sz + 4096" and "PGROUNDDOWN va < b"
  shows "PGROUNDDOWN va < sz"
proof -
  have "unat b mod 4096 = 0" "unat (PGROUNDDOWN va) mod 4096 = 0"
    using assms(1) aligned_PGROUNDDOWN [of va] by (simp_all only: aligned_unat)
  moreover have "unat (PGROUNDDOWN va) < unat b" using assms(3) by (simp add: word_less_nat_alt)
  ultimately have "unat (PGROUNDDOWN va) + 4096 \<le> unat b" by (intro page_multiples)
  then show ?thesis using assms(2) by (simp add: word_less_nat_alt)
qed

lemma pte_at_page: "PGROUNDDOWN va = PGROUNDDOWN vb \<Longrightarrow> pte_at m d va = pte_at m d vb"
  using same_page [of va vb] by (simp add: pte_at_def)

text \<open>
  The loop of \<^verbatim>\<open>copyuvm\<close>, with \<open>i\<close> bytes of the child already there: the parent, of size \<open>S\<close>, keeps its memory, and
  the child gets pages of its own with the parent's bytes and flags.
\<close>

lemma copyuvm_loop_spec:
  assumes "uspace s ps pg S" and "uspace s ps d i" and "all_pages (mem s) pg S \<inter> all_pages (mem s) d i = {}"
    and "aligned i" and "unmapped (mem s) d i" and "sz \<le> S" and "sz \<le> KERNBASE"
    and "card (missing (mem s) d) + pages_to i sz \<le> length ps" and "pages_to i sz < fuel"
  shows "\<exists>t qs b. copyuvm_loop fuel pg d i sz s = Done (d, t) \<and> aligned b \<and> sz \<le> b \<and> i \<le> b
    \<and> (i < sz \<longrightarrow> unat b < unat sz + 4096) \<and> (sz \<le> i \<longrightarrow> b = i)
    \<and> uspace t qs pg S \<and> uspace t qs d b \<and> unmapped (mem t) d b \<and> all_pages (mem t) pg S \<inter> all_pages (mem t) d b = {}
    \<and> (\<forall>va. PGROUNDDOWN va < S \<longrightarrow> ubyte (mem t) pg va = ubyte (mem s) pg va)
    \<and> (\<forall>va. PGROUNDDOWN va < b \<longrightarrow> ubyte (mem t) d va = (if PGROUNDDOWN va < i then ubyte (mem s) d va else ubyte (mem s) pg va))
    \<and> (\<forall>va. PGROUNDDOWN va < b \<longrightarrow> PTE_FLAGS (pte_at (mem t) d va)
         = PTE_FLAGS (if PGROUNDDOWN va < i then pte_at (mem s) d va else pte_at (mem s) pg va))
    \<and> set qs \<subseteq> set ps \<and> k_end t = k_end s \<and> k_data t = k_data s"
  using assms
proof (induction fuel arbitrary: i s ps)
  case (Suc fuel i s ps)
  show ?case
  proof (cases "i < sz")
    case False
    have "copyuvm_loop (Suc fuel) pg d i sz s = Done (d, s)" using False by (simp add: copyuvm_loop.simps)
    then show ?thesis using False Suc.prems by (intro exI [of _ s] exI [of _ ps] exI [of _ i]) auto
  next
    case True
    then have ik: "i < KERNBASE" using Suc.prems(7) by simp
    note bd = KERNBASE_bound [OF ik] and ii = aligned_eq [OF Suc.prems(4)]
    note st = pages_to_step [OF True bd]
    have iS: "i < S" using True Suc.prems(6) by simp
    obtain p ps' where ps: "ps = p # ps'" using Suc.prems(8) st by (cases ps) auto
    obtain s1 where s1: "kalloc s = (p, s1)" "uspace s1 ps' d i" "mem s1 = mem s" "k_end s1 = k_end s"
      "k_data s1 = k_data s" "valid_page s1 p" "p \<notin> set ps'" "p \<notin> all_pages (mem s) d i" "p \<noteq> 0"
      using kalloc_uspace [OF Suc.prems(2) [unfolded ps]] by metis
    have pp: "p \<notin> all_pages (mem s) pg S" using Suc.prems(1) ps by (auto simp: uspace_def space_def all_pages_def)
    have al: "aligned p" using s1(6) by auto
    let ?e = "pte_at (mem s) pg i" and ?q = "upage (mem s) pg i"
    have e: "bit ?e 0" "valid_page s ?q" using Suc.prems(1) iS ii by (auto simp: uspace_def)
    have ht: "has_table (mem s) pg (PDX i)" using e(1) by (auto simp: pte_at_def split: if_splits)
    let ?pte = "table (mem s) pg (PDX i) + 4 * PTX i"
    have pte: "walkpgdir pg i False s = (?pte, s)" "?pte \<noteq> 0" "load32 (mem s) ?pte = ?e"
      using ht walk_False [of pg i s] entry_nonnull [OF _ ht] Suc.prems(1) by (auto simp: uspace_def pte_at_def)
    let ?m = "memmove (mem s1) p ?q PGSIZE" and ?s2 = "s1\<lparr>mem := memmove (mem s1) p ?q PGSIZE\<rparr>"
    have vq: "valid_page s1 ?q" using e(2) s1(4) by (simp add: valid_page_def)
    have m: "?m x = (if PGROUNDDOWN x = p then mem s (?q + (x - p)) else mem s x)" for x
      using memmove_page [OF s1(6) vq] s1(3) by simp
    have pn: "p \<notin> all_pages (mem s1) d i" using s1(3,8) by simp
    have mo: "?m x = mem s1 x" if "PGROUNDDOWN x \<noteq> p" for x using m s1(3) that by simp
    note f = uspace_fill [OF s1(2,7) pn mo]
    have u1: "uspace s1 ps' pg S"
      by (rule uspace_frame(1) [OF Suc.prems(1) _ _ s1(4)]) (use s1(2,3) ps in \<open>auto simp: uspace_def space_def\<close>)
    have pn': "p \<notin> all_pages (mem s1) pg S" using s1(3) pp by simp
    note g = uspace_fill [OF u1 s1(7) pn' mo]
    have pre: "\<not> bit (pte_at (mem ?s2) d i) 0" "card (missing (mem ?s2) d) \<le> length ps'" "valid_page ?s2 p"
      "p \<notin> all_pages (mem ?s2) d i" "uspace ?s2 ps' d i"
      using f unmappedD [OF Suc.prems(5,4) ik] s1 Suc.prems(8) st ps by (auto simp: valid_page_def)
    obtain s3 qs where s3: "mappages d i PGSIZE (V2P p) (PTE_FLAGS ?e) ?s2 = Done (0, s3)" "uspace s3 qs d (i + PGSIZE)"
      "\<And>vb. pte_at (mem s3) d vb = (if PGROUNDDOWN vb = i then V2P p OR PTE_FLAGS ?e OR PTE_P else pte_at (mem ?s2) d vb)"
      "upage (mem s3) d i = p"
      "card (missing (mem s3) d) + length ps' = card (missing (mem ?s2) d) + length qs" "length qs \<le> length ps'"
      "pt_pages (mem s3) d \<union> set qs = pt_pages (mem ?s2) d \<union> set ps'" "set qs \<subseteq> set ps'"
      "\<And>x. PGROUNDDOWN x \<notin> pt_pages (mem s3) d \<Longrightarrow> mem s3 x = mem ?s2 x"
      "k_end s3 = k_end ?s2" "k_data s3 = k_data ?s2" "all_pages (mem s3) d (i + PGSIZE) \<subseteq> insert p (all_pages (mem ?s2) d i) \<union> set ps'"
      "insert p (all_pages (mem ?s2) d i) \<subseteq> all_pages (mem s3) d (i + PGSIZE)"
      "\<And>va. PGROUNDDOWN va < i \<Longrightarrow> ubyte (mem s3) d va = ubyte (mem ?s2) d va"
      "\<And>va. PGROUNDDOWN va = i \<Longrightarrow> ubyte (mem s3) d va = mem ?s2 (p + (va AND 0xFFF))"
      by (rule add_page [OF pre(5) Suc.prems(4) bd pre(1,2,3) s1(7) pre(4) PGROUNDDOWN_PTE_FLAGS]) (rule that)
    have un: "unmapped (mem s3) d (i + PGSIZE)"
    proof (rule unmapped_step [OF _ Suc.prems(4) bd s3(3)])
      show "unmapped (mem ?s2) d i" using Suc.prems(5) f(3) s1(3) by (simp add: unmapped_def)
    qed
    have room: "card (missing (mem s3) d) + pages_to (i + PGSIZE) sz \<le> length qs" "pages_to (i + PGSIZE) sz < fuel"
      using s3(5) f(5) s1(3) Suc.prems(8,9) st ps by auto
    have dis: "all_pages (mem ?s2) pg S \<inter> all_pages (mem s3) d (i + PGSIZE) = {}"
      using s3(12) g(2) f(2) Suc.prems(3) s1(3) pp u1 by (auto simp: uspace_def space_def all_pages_def)
    have km: "kmem_inv s3 qs" using s3(2) by (simp add: uspace_def space_def)
    have keep: "mem s3 x = mem ?s2 x" if "PGROUNDDOWN x \<in> all_pages (mem ?s2) pg S" for x
      using s3(9) [of x] that dis by (auto simp: all_pages_def)
    note h = uspace_frame [OF g(1) km s3(8,10) keep]
    have dis': "all_pages (mem s3) pg S \<inter> all_pages (mem s3) d (i + PGSIZE) = {}" using h(2) dis by simp
    obtain t rs b where t: "copyuvm_loop fuel pg d (i + PGSIZE) sz s3 = Done (d, t)" "aligned b" "sz \<le> b"
      "i + PGSIZE \<le> b" "i + PGSIZE < sz \<longrightarrow> unat b < unat sz + 4096" "sz \<le> i + PGSIZE \<longrightarrow> b = i + PGSIZE"
      "uspace t rs pg S" "uspace t rs d b" "unmapped (mem t) d b" "all_pages (mem t) pg S \<inter> all_pages (mem t) d b = {}"
      "\<And>va. PGROUNDDOWN va < S \<Longrightarrow> ubyte (mem t) pg va = ubyte (mem s3) pg va"
      "\<And>va. PGROUNDDOWN va < b \<Longrightarrow> ubyte (mem t) d va = (if PGROUNDDOWN va < i + PGSIZE then ubyte (mem s3) d va else ubyte (mem s3) pg va)"
      "\<And>va. PGROUNDDOWN va < b \<Longrightarrow> PTE_FLAGS (pte_at (mem t) d va)
         = PTE_FLAGS (if PGROUNDDOWN va < i + PGSIZE then pte_at (mem s3) d va else pte_at (mem s3) pg va)"
      "set rs \<subseteq> set qs" "k_end t = k_end s3" "k_data t = k_data s3"
      using Suc.IH [OF h(1) s3(2) dis' aligned_add_page [OF Suc.prems(4)] un Suc.prems(6,7) room] by blast
    have run: "copyuvm_loop (Suc fuel) pg d i sz s = Done (d, t)"
      using True s1(1,9) s3(1) t(1) pte e(1) by (simp add: copyuvm_loop.simps(2) Let_def present_iff flip: upage_def)
    note ls = PGROUNDDOWN_less_Suc [OF Suc.prems(4) bd]
    have ua: "unat (i + PGSIZE) = unat i + 4096" using bd unat_add_uint [of i PGSIZE] by (simp add: PGSIZE_def)
    have ab: "i \<le> b" "unat b < unat sz + 4096"
      using t(4-6) ua True by (auto simp: word_le_nat_alt word_less_nat_alt not_less)
    have bS: "PGROUNDDOWN va < S" if "PGROUNDDOWN va < b" for va
      using below_round [OF t(2) ab(2) that] Suc.prems(6) by simp
    have pgb: "ubyte (mem s3) pg va = ubyte (mem s) pg va" "pte_at (mem s3) pg va = pte_at (mem s) pg va"
      if "PGROUNDDOWN va < S" for va using h(3,4) g(3,4) that s1(3) by auto
    have new: "ubyte (mem s3) d va = ubyte (mem s) pg va" "pte_at (mem s) pg va = ?e" if "PGROUNDDOWN va = i" for va
    proof -
      show eq: "pte_at (mem s) pg va = ?e" using that ii by (intro pte_at_page) simp
      then show "ubyte (mem s3) d va = ubyte (mem s) pg va"
        using s3(15) [OF that] m [of "p + (va AND 0xFFF)"] in_upage [OF al] by (simp add: ubyte_def upage_def)
    qed
    have fl: "PTE_FLAGS (pte_at (mem s3) d va) = PTE_FLAGS ?e" if "PGROUNDDOWN va = i" for va
      by (subst s3(3)) (simp only: that if_True refl PTE_FLAGS_entry [OF aligned_V2P [OF al]] present_flags [OF e(1)])
    have "ubyte (mem t) d va = (if PGROUNDDOWN va < i then ubyte (mem s) d va else ubyte (mem s) pg va)"
      if "PGROUNDDOWN va < b" for va
      using t(12) [OF that] ls [of va] s3(14) [of va] f(4) [of va] s1(3) new(1) [of va] pgb(1) [OF bS [OF that]] by auto
    moreover have "PTE_FLAGS (pte_at (mem t) d va) = PTE_FLAGS (if PGROUNDDOWN va < i then pte_at (mem s) d va else pte_at (mem s) pg va)"
      if "PGROUNDDOWN va < b" for va
      using t(13) [OF that] ls [of va] s3(3) [of va] f(3) [of va] s1(3) new(2) [of va] fl [of va] pgb(2) [OF bS [OF that]] by auto
    moreover have "ubyte (mem t) pg va = ubyte (mem s) pg va" if "PGROUNDDOWN va < S" for va
      using t(11) [OF that] pgb(1) [OF that] by simp
    moreover have "set rs \<subseteq> set ps" using t(14) s3(8) ps by auto
    ultimately show ?thesis
      using run t(2,3,7-10,15,16) ab s3(10,11) s1(4,5) True
      by (intro exI [of _ t] exI [of _ rs] exI [of _ b]) auto
  qed
qed simp

section \<open>The kernel mappings\<close>

definition kpages :: "kmap \<Rightarrow> nat" where
  "kpages k = unat (phys_end k - phys_start k) div 4096 - 1"

definition in_kmap :: "kmap \<Rightarrow> uint \<Rightarrow> bool" where
  "in_kmap k vb \<longleftrightarrow> in_range (virt k) (kpages k) vb"

definition kmap_ok :: "kmap \<Rightarrow> bool" where
  "kmap_ok k \<longleftrightarrow> aligned (virt k) \<and> aligned (phys_end k - phys_start k) \<and> phys_end k \<noteq> phys_start k
     \<and> kpages k < 2 ^ 20 - 1"

primrec kmaps_ok :: "kmap list \<Rightarrow> bool" where
  "kmaps_ok [] \<longleftrightarrow> True"
| "kmaps_ok (k # ks) \<longleftrightarrow> kmap_ok k \<and> (\<forall>vb. in_kmap k vb \<longrightarrow> (\<forall>k'\<in>set ks. \<not> in_kmap k' vb)) \<and> kmaps_ok ks"

lemma unat_pages: "(n :: nat) \<noteq> 0 \<Longrightarrow> n mod 4096 = 0 \<Longrightarrow> n = Suc (n div 4096 - 1) * 4096"
proof -
  assume n: "n \<noteq> 0" "n mod 4096 = 0"
  then have e: "n = n div 4096 * 4096" by (metis add.right_neutral div_mult_mod_eq)
  then have "n div 4096 \<noteq> 0" using n(1) by auto
  then show ?thesis using e by simp
qed

lemma unat_numeral_4095: "unat (4095 :: uint) < 4096"
  by simp

lemma mappages_kmap:
  assumes "kmap_ok k"
  shows "mappages pgdir (virt k) (phys_end k - phys_start k) pa pm s
    = mappages_loop (Suc (kpages k)) pgdir (virt k) (virt k + of_nat (kpages k) * PGSIZE) pa pm s"
proof -
  let ?sz = "phys_end k - phys_start k" and ?n = "kpages k"
  have a: "aligned (virt k)" and z: "unat ?sz mod 4096 = 0" and n: "?n < 2 ^ 20 - 1"
    using assms by (auto simp: kmap_ok_def aligned_unat)
  have "unat ?sz \<noteq> 0" using assms by (simp add: kmap_ok_def unat_eq_zero)
  then have "unat ?sz = Suc ?n * 4096" using z unfolding kpages_def by (elim unat_pages)
  moreover have "?sz = of_nat (unat ?sz)" by simp
  ultimately have "?sz = of_nat (Suc ?n * 4096)" by (simp only:)
  then have sz: "?sz = of_nat (Suc ?n) * PGSIZE" by (simp only: PGSIZE_def of_nat_mult of_nat_numeral)
  let ?l = "virt k + of_nat ?n * PGSIZE"
  have l: "aligned ?l" by (rule aligned_add_pages [OF a])
  have "virt k + ?sz - 1 - ?l = 4095" by (simp add: sz PGSIZE_def algebra_simps)
  then have "unat (virt k + ?sz - 1 - ?l) < 4096" by (simp only: unat_numeral_4095)
  then have e: "PGROUNDDOWN (virt k + ?sz - 1) = ?l" using in_page [OF l] by blast
  have "unat (of_nat ?n * PGSIZE) = ?n * 4096"
    using n by (simp add: PGSIZE_def unat_word_ariths(2) unat_of_nat_uint)
  moreover have "?l - virt k = of_nat ?n * PGSIZE" by simp
  ultimately have "unat (?l - virt k) = ?n * 4096" by (simp only:)
  then have "unat ((?l - virt k) div PGSIZE) = ?n" by (simp only: unat_div PGSIZE_def) simp
  then show ?thesis unfolding mappages_def Let_def e aligned_eq [OF a] by simp
qed

lemma setupkvm_loop_spec:
  assumes "space s ps pgdir" and "kmaps_ok ks" and "\<forall>k\<in>set ks. \<forall>vb. in_kmap k vb \<longrightarrow> \<not> bit (pte_at (mem s) pgdir vb) 0"
    and "card (missing (mem s) pgdir) \<le> length ps"
  shows "\<exists>t qs. setupkvm_loop pgdir ks s = Done (pgdir, t) \<and> space t qs pgdir
    \<and> (\<forall>vb. pte_at (mem t) pgdir vb = (case find (\<lambda>k. in_kmap k vb) ks of
              Some k \<Rightarrow> (phys_start k + (PGROUNDDOWN vb - virt k)) OR perm k OR PTE_P
            | None \<Rightarrow> pte_at (mem s) pgdir vb))
    \<and> card (missing (mem t) pgdir) + length ps = card (missing (mem s) pgdir) + length qs \<and> length qs \<le> length ps
    \<and> pt_pages (mem t) pgdir \<union> set qs = pt_pages (mem s) pgdir \<union> set ps \<and> set qs \<subseteq> set ps
    \<and> (\<forall>x. PGROUNDDOWN x \<notin> pt_pages (mem t) pgdir \<longrightarrow> mem t x = mem s x) \<and> k_end t = k_end s \<and> k_data t = k_data s"
  using assms
proof (induction ks arbitrary: s ps)
  case Nil
  then show ?case by (intro exI [of _ s] exI [of _ ps]) simp
next
  case (Cons k ks)
  have k: "kmap_ok k" and ks: "kmaps_ok ks" and disj: "\<And>vb k'. in_kmap k vb \<Longrightarrow> k' \<in> set ks \<Longrightarrow> \<not> in_kmap k' vb"
    using Cons.prems(2) by auto
  have al: "aligned (virt k)" and n: "kpages k < 2 ^ 20 - 1" using k by (auto simp: kmap_ok_def)
  have f: "\<not> bit (pte_at (mem s) pgdir vb) 0" if "in_range (virt k) (kpages k) vb" for vb
    using Cons.prems(3) that by (simp add: in_kmap_def)
  from mappages_loop_spec [where pa = "phys_start k" and pm = "perm k", OF Cons.prems(1) al n f Cons.prems(4)]
  obtain u qs where u: "mappages pgdir (virt k) (phys_end k - phys_start k) (phys_start k) (perm k) s = Done (0, u)" "space u qs pgdir"
    "\<And>vb. pte_at (mem u) pgdir vb = (if in_kmap k vb then (phys_start k + (PGROUNDDOWN vb - virt k)) OR perm k OR PTE_P
              else pte_at (mem s) pgdir vb)"
    "card (missing (mem u) pgdir) + length ps = card (missing (mem s) pgdir) + length qs" "length qs \<le> length ps"
    "pt_pages (mem u) pgdir \<union> set qs = pt_pages (mem s) pgdir \<union> set ps" "set qs \<subseteq> set ps"
    "\<And>x. PGROUNDDOWN x \<notin> pt_pages (mem u) pgdir \<Longrightarrow> mem u x = mem s x" "k_end u = k_end s" "k_data u = k_data s"
    unfolding mappages_kmap [OF k] in_kmap_def by blast
  have f': "\<forall>k\<in>set ks. \<forall>vb. in_kmap k vb \<longrightarrow> \<not> bit (pte_at (mem u) pgdir vb) 0"
    using Cons.prems(3) u(3) disj by auto
  have "card (missing (mem u) pgdir) \<le> length qs" using u(4) Cons.prems(4) by simp
  from Cons.IH [OF u(2) ks f' this]
  obtain t rs where t: "setupkvm_loop pgdir ks u = Done (pgdir, t)" "space t rs pgdir"
    "\<And>vb. pte_at (mem t) pgdir vb = (case find (\<lambda>k. in_kmap k vb) ks of
              Some k \<Rightarrow> (phys_start k + (PGROUNDDOWN vb - virt k)) OR perm k OR PTE_P
            | None \<Rightarrow> pte_at (mem u) pgdir vb)"
    "card (missing (mem t) pgdir) + length qs = card (missing (mem u) pgdir) + length rs" "length rs \<le> length qs"
    "pt_pages (mem t) pgdir \<union> set rs = pt_pages (mem u) pgdir \<union> set qs" "set rs \<subseteq> set qs"
    "\<And>x. PGROUNDDOWN x \<notin> pt_pages (mem t) pgdir \<Longrightarrow> mem t x = mem u x" "k_end t = k_end u" "k_data t = k_data u"
    by blast
  have "find (\<lambda>k. in_kmap k vb) ks = None" if "in_kmap k vb" for vb
    using disj [OF that] by (auto simp: find_None_iff)
  then have pte: "pte_at (mem t) pgdir vb = (case find (\<lambda>k. in_kmap k vb) (k # ks) of
              Some k \<Rightarrow> (phys_start k + (PGROUNDDOWN vb - virt k)) OR perm k OR PTE_P
            | None \<Rightarrow> pte_at (mem s) pgdir vb)" for vb
    using t(3) [of vb] u(3) [of vb] by (auto split: option.split)
  have sub: "pt_pages (mem u) pgdir \<subseteq> pt_pages (mem t) pgdir"
    using t(6,7) u(2) by (auto simp: space_def)
  have mm: "mem t x = mem s x" if "PGROUNDDOWN x \<notin> pt_pages (mem t) pgdir" for x
    using t(8) [OF that] u(8) [of x] that sub by auto
  have run: "setupkvm_loop pgdir (k # ks) s = Done (pgdir, t)" using u(1) t(1) by simp
  show ?case
    using run t(2,4-7,9,10) u(4-7,9,10) pte mm by (intro exI [of _ t] exI [of _ rs]) auto
qed

lemma in_kmap_iff:
  assumes k: "kmap_ok k" and b: "unat (virt k) + unat (phys_end k - phys_start k) \<le> 2 ^ 32"
  shows "in_kmap k vb \<longleftrightarrow> unat (virt k) \<le> unat (PGROUNDDOWN vb)
    \<and> unat (PGROUNDDOWN vb) < unat (virt k) + unat (phys_end k - phys_start k)"
proof -
  let ?sz = "unat (phys_end k - phys_start k)" and ?p = "PGROUNDDOWN vb"
  have "?sz \<noteq> 0" "?sz mod 4096 = 0" using k by (auto simp: kmap_ok_def unat_eq_zero aligned_unat)
  then have sz: "?sz = Suc (kpages k) * 4096" unfolding kpages_def by (rule unat_pages)
  have m: "unat (?p - virt k) mod 4096 = 0"
    using k aligned_diff [OF aligned_PGROUNDDOWN] by (auto simp: kmap_ok_def aligned_unat)
  then have r: "in_kmap k vb \<longleftrightarrow> unat (?p - virt k) < ?sz"
    unfolding in_kmap_def in_range_def sz using page_multiples [OF m, of "Suc (kpages k) * 4096"] by fastforce
  show ?thesis
  proof (cases "virt k \<le> ?p")
    case True
    then show ?thesis using r unat_sub_uint [OF True] by (auto simp: word_le_nat_alt)
  next
    case False
    then have "unat (?p - virt k) = unat ?p + 4294967296 - unat (virt k)" by (simp add: unat_sub_if' word_le_nat_alt)
    moreover have "\<not> unat (virt k) \<le> unat ?p" using False by (simp add: word_le_nat_alt)
    ultimately show ?thesis using r b by simp
  qed
qed

text \<open>The linker places the kernel's data on a page boundary above its text (\<^verbatim>\<open>kernel.ld\<close>) and below the end of memory.\<close>

definition kernel_layout :: "'a kmem_scheme \<Rightarrow> bool" where
  "kernel_layout s \<longleftrightarrow> aligned (k_data s) \<and> KERNLINK < k_data s \<and> k_data s < P2V PHYSTOP"

lemma kernel_layoutD:
  assumes "kernel_layout s"
  shows "unat (V2P (k_data s)) = unat (k_data s) - 0x80000000" and "0x80100000 < unat (k_data s)" and "unat (k_data s) < 0x8E000000"
proof -
  show g: "0x80100000 < unat (k_data s)" "unat (k_data s) < 0x8E000000"
    using assms by (simp_all add: kernel_layout_def KERNLINK_def P2V_def KERNBASE_def EXTMEM_def PHYSTOP_def word_less_nat_alt)
  then have "KERNBASE \<le> k_data s" by (simp add: KERNBASE_def word_le_nat_alt)
  then show "unat (V2P (k_data s)) = unat (k_data s) - 0x80000000"
    unfolding V2P_def by (subst unat_sub_uint) (simp_all add: KERNBASE_def)
qed

text \<open>The four entries, with the addresses they cover.\<close>

lemma kmap_entry:
  assumes "aligned v" and "unat (e - p) = n * 4096" and "0 < n" and "unat v + n * 4096 \<le> 2 ^ 32" and "n < 2 ^ 20"
  shows "kmap_ok \<lparr>virt = v, phys_start = p, phys_end = e, perm = f\<rparr>"
    and "in_kmap \<lparr>virt = v, phys_start = p, phys_end = e, perm = f\<rparr> vb \<longleftrightarrow>
      unat v \<le> unat (PGROUNDDOWN vb) \<and> unat (PGROUNDDOWN vb) < unat v + n * 4096"
proof -
  let ?k = "\<lparr>virt = v, phys_start = p, phys_end = e, perm = f\<rparr>"
  have "e \<noteq> p" using assms(2,3) by auto
  moreover have "aligned (e - p)" using assms(2) by (simp add: aligned_unat)
  ultimately show ok: "kmap_ok ?k" using assms by (simp add: kmap_ok_def kpages_def)
  show "in_kmap ?k vb \<longleftrightarrow> unat v \<le> unat (PGROUNDDOWN vb) \<and> unat (PGROUNDDOWN vb) < unat v + n * 4096"
    using in_kmap_iff [OF ok, of vb] assms(2,4) by simp
qed

lemma kmap_table_ok:
  assumes "kernel_layout s"
  shows "kmaps_ok (kmap_table s)"
    and "find (\<lambda>k. in_kmap k vb) (kmap_table s) =
      (let p = PGROUNDDOWN vb; ks = kmap_table s
       in if p < KERNBASE then None else if p < KERNLINK then Some (ks ! 0) else if p < k_data s then Some (ks ! 1)
          else if p < P2V PHYSTOP then Some (ks ! 2) else if p < DEVSPACE then None else Some (ks ! 3))"
proof -
  note g = kernel_layoutD [OF assms]
  have "unat (k_data s) mod 4096 = 0" using assms by (simp add: kernel_layout_def aligned_unat)
  then obtain n where n: "unat (k_data s) = n * 4096" by (metis add.right_neutral div_mult_mod_eq)
  have nn: "0x80100 < n" "n < 0x8E000" using g(2,3) n by auto
  have vd: "unat (V2P (k_data s)) = (n - 0x80000) * 4096" using g(1) n by simp
  have le: "V2P KERNLINK \<le> V2P (k_data s)" "V2P (k_data s) \<le> PHYSTOP"
    using vd nn by (simp_all add: word_le_nat_alt V2P_def KERNLINK_def KERNBASE_def EXTMEM_def PHYSTOP_def)
  have sz: "unat (V2P (k_data s) - V2P KERNLINK) = (n - 0x80100) * 4096" "unat (PHYSTOP - V2P (k_data s)) = (0x8E000 - n) * 4096"
    using unat_sub_uint [OF le(1)] unat_sub_uint [OF le(2)] vd nn
    by (simp_all add: V2P_def KERNLINK_def KERNBASE_def EXTMEM_def PHYSTOP_def)
  have e0: "aligned KERNBASE" "unat (EXTMEM - 0) = 0x100 * 4096" "unat KERNBASE + 0x100 * 4096 \<le> 2 ^ 32"
    by (simp_all add: KERNBASE_def EXTMEM_def aligned_def)
  have e1: "aligned KERNLINK" "unat KERNLINK + (n - 0x80100) * 4096 \<le> 2 ^ 32"
    using nn by (simp_all add: KERNBASE_def EXTMEM_def aligned_def KERNLINK_def)
  have e2: "aligned (k_data s)" "unat (k_data s) + (0x8E000 - n) * 4096 \<le> 2 ^ 32" using assms n nn by (simp_all add: kernel_layout_def)
  have e3: "aligned DEVSPACE" "unat (0 - DEVSPACE) = 0x2000 * 4096" "unat DEVSPACE + 0x2000 * 4096 \<le> 2 ^ 32"
    by (simp_all add: DEVSPACE_def aligned_def)
  note k0 = kmap_entry [OF e0(1,2) _ e0(3), where f = PTE_W]
    and k1 = kmap_entry [OF e1(1) sz(1) _ e1(2), where f = 0]
    and k2 = kmap_entry [OF e2(1) sz(2) _ e2(2), where f = PTE_W]
    and k3 = kmap_entry [OF e3(1,2) _ e3(3), where f = PTE_W]
  have c: "unat KERNBASE = 0x80000000" "unat KERNLINK = 0x80100000" "unat (P2V PHYSTOP) = 0x8E000000" "unat DEVSPACE = 0xFE000000"
    by (simp_all add: KERNBASE_def EXTMEM_def KERNLINK_def P2V_def PHYSTOP_def DEVSPACE_def)
  have top: "n * 4096 + (0x8E000 - n) * 4096 = 0x8E000000" "0x80100000 + (n - 0x80100) * 4096 = n * 4096" using nn by auto
  show "kmaps_ok (kmap_table s)"
    unfolding kmap_table_def using nn n c by (auto simp: k0 k1 k2 k3)
  show "find (\<lambda>k. in_kmap k vb) (kmap_table s) =
      (let p = PGROUNDDOWN vb; ks = kmap_table s
       in if p < KERNBASE then None else if p < KERNLINK then Some (ks ! 0) else if p < k_data s then Some (ks ! 1)
          else if p < P2V PHYSTOP then Some (ks ! 2) else if p < DEVSPACE then None else Some (ks ! 3))"
    unfolding kmap_table_def Let_def using nn n c unat_uint_less [of "PGROUNDDOWN vb"] top
    by (simp add: k0 k1 k2 k3 word_less_nat_alt)
qed

lemma pte_at_zero: "(\<And>x. PGROUNDDOWN x = d \<Longrightarrow> m x = 0) \<Longrightarrow> aligned d \<Longrightarrow> i < 1024 \<Longrightarrow> \<not> has_table m d i"
  using pde_at_cong [of d i m "\<lambda>_. 0"] by (simp add: has_table_def pde_at_def load32_def)

lemma card_uints: "card {..< 1024 :: uint} = 1024"
proof -
  have "n \<in> unat ` {..< 1024 :: uint}" if "n < 1024" for n :: nat
    using that by (intro image_eqI [of _ _ "of_nat n"]) (simp_all add: unat_of_nat_uint word_less_nat_alt)
  then have "unat ` {..< 1024 :: uint} = {..< 1024}" by (auto simp: word_less_nat_alt)
  moreover have "inj_on unat {..< 1024 :: uint}" by (simp add: inj_on_def word_unat_eq_iff)
  ultimately show ?thesis by (metis card_image card_lessThan)
qed

lemma setupkvm_spec:
  assumes k: "kmem_inv s ps" and l: "kernel_layout s" and room: "1025 \<le> length ps"
  obtains d t qs where "setupkvm s = Done (d, t)" and "d \<noteq> 0" and "space t qs d"
    and "\<And>vb. pte_at (mem t) d vb = (case find (\<lambda>k. in_kmap k vb) (kmap_table s) of
              Some k \<Rightarrow> (phys_start k + (PGROUNDDOWN vb - virt k)) OR perm k OR PTE_P | None \<Rightarrow> 0)"
    and "card (missing (mem t) d) + length ps = 1025 + length qs" and "set qs \<subseteq> set ps" and "pt_pages (mem t) d \<subseteq> set ps"
    and "\<And>x. PGROUNDDOWN x \<notin> set ps \<Longrightarrow> mem t x = mem s x" and "k_end t = k_end s" and "k_data t = k_data s"
proof -
  obtain d qs where ps: "ps = d # qs" using room by (cases ps) auto
  obtain u where u: "kalloc s = (d, u)" "kmem_inv u qs" "mem u = mem s" "k_end u = k_end s" "k_data u = k_data s"
    using kalloc_Cons [OF k [unfolded ps]] by metis
  have d: "valid_page s d" "d \<noteq> 0" "d \<notin> set qs" using kp.free_pages [OF k] ps k by (auto simp: kmem_inv_def)
  let ?v = "u\<lparr>mem := memset (mem u) d 0 PGSIZE\<rparr>"
  have al: "aligned d" using d(1) by auto
  have m: "mem ?v x = (if PGROUNDDOWN x = d then 0 else mem s x)" for x using memset_page [OF al] u(3) by simp
  have nt: "\<not> has_table (mem ?v) d i" if "i < 1024" for i by (rule pte_at_zero) (use m al that in auto)
  have kv: "kmem_inv ?v qs"
    by (rule kmem_inv_frame [OF u(2)]) (use m u(3) d(3) in \<open>auto split: if_splits\<close>)
  have pp: "pt_pages (mem ?v) d = {d}" "tables (mem ?v) d = {}" using nt by (auto simp: pt_pages_def tables_def)
  have sp: "space ?v qs d"
    using kv pp d u(4) nt by (auto simp: space_def pgdir_ok_def valid_page_def inj_on_def)
  have p0: "pte_at (mem ?v) d vb = 0" for vb using nt [OF PDX_less] by (simp add: pte_at_def)
  have ms: "missing (mem ?v) d = {..< 1024}" using nt by (auto simp: missing_def)
  note card = card_uints
  have c: "card (missing (mem ?v) d) \<le> length qs" using room ps card ms by simp
  have kt: "kmap_table ?v = kmap_table s" using u(5) by (simp add: kmap_table_def)
  have free: "\<forall>k\<in>set (kmap_table s). \<forall>vb. in_kmap k vb \<longrightarrow> \<not> bit (pte_at (mem ?v) d vb) 0" using p0 by simp
  from setupkvm_loop_spec [OF sp kmap_table_ok(1) [OF l] free c]
  obtain t rs where t: "setupkvm_loop d (kmap_table s) ?v = Done (d, t)" "space t rs d"
    "\<And>vb. pte_at (mem t) d vb = (case find (\<lambda>k. in_kmap k vb) (kmap_table s) of
              Some k \<Rightarrow> (phys_start k + (PGROUNDDOWN vb - virt k)) OR perm k OR PTE_P
            | None \<Rightarrow> pte_at (mem ?v) d vb)"
    "card (missing (mem t) d) + length qs = card (missing (mem ?v) d) + length rs"
    "pt_pages (mem t) d \<union> set rs = pt_pages (mem ?v) d \<union> set qs" "set rs \<subseteq> set qs"
    "\<And>x. PGROUNDDOWN x \<notin> pt_pages (mem t) d \<Longrightarrow> mem t x = mem ?v x" "k_end t = k_end ?v" "k_data t = k_data ?v"
    by blast
  have run: "setupkvm s = Done (d, t)"
    using u(1) d(2) t(1) kt by (simp add: setupkvm_def Let_def P2V_def PHYSTOP_def DEVSPACE_def KERNBASE_def)
  have sub: "pt_pages (mem t) d \<subseteq> set ps" using t(5) pp ps by auto
  have mm: "mem t x = mem s x" if "PGROUNDDOWN x \<notin> set ps" for x
    using that t(7) [of x] sub m [of x] ps by auto
  show thesis
    by (rule that [OF run d(2) t(2) t(3) [unfolded p0] _ _ sub mm]) (use t(4,6,8,9) ms card ps u(4,5) in auto)
qed

section \<open>Properties\<close>

lemma PGROUNDUP_unique:
  assumes "aligned b" and "sz \<le> b" and "unat b < unat sz + 4096" and "sz \<le> KERNBASE"
  shows "b = PGROUNDUP sz"
proof -
  have "unat sz + 4095 < 2 ^ 32" using assms(4) by (simp add: word_le_nat_alt KERNBASE_def)
  note r = PGROUNDUP_unat [OF this]
  have "unat b mod 4096 = 0" "unat (PGROUNDUP sz) mod 4096 = 0" using assms(1) aligned_PGROUNDUP by (simp_all only: aligned_unat)
  then obtain m n where "unat b = m * 4096" "unat (PGROUNDUP sz) = n * 4096" by (metis add.right_neutral div_mult_mod_eq)
  moreover have "unat sz \<le> unat b" using assms(2) by (simp add: word_le_nat_alt)
  ultimately have "unat b = unat (PGROUNDUP sz)" using r assms(3) by auto
  then show ?thesis by (simp add: word_unat_eq_iff)
qed

lemma pages_to_fuel: "pages_to a sz < unat sz div 4096 + 2"
  unfolding pages_to_def by (rule le_less_trans [OF div_le_mono [of _ "unat sz + 4095"]]) simp_all

lemma setupkvm_uspace:
  assumes k: "kmem_inv s ps" and l: "kernel_layout s" and room: "1025 \<le> length ps"
  obtains d t qs where "setupkvm s = Done (d, t)" and "d \<noteq> 0" and "uspace t qs d 0" and "unmapped (mem t) d 0"
    and "card (missing (mem t) d) + length ps = 1025 + length qs" and "set qs \<subseteq> set ps" and "pt_pages (mem t) d \<subseteq> set ps"
    and "\<And>x. PGROUNDDOWN x \<notin> set ps \<Longrightarrow> mem t x = mem s x" and "k_end t = k_end s" and "k_data t = k_data s"
proof -
  obtain d t qs where t: "setupkvm s = Done (d, t)" "d \<noteq> 0" "space t qs d"
    "\<And>vb. pte_at (mem t) d vb = (case find (\<lambda>k. in_kmap k vb) (kmap_table s) of
              Some k \<Rightarrow> (phys_start k + (PGROUNDDOWN vb - virt k)) OR perm k OR PTE_P | None \<Rightarrow> 0)"
    "card (missing (mem t) d) + length ps = 1025 + length qs" "set qs \<subseteq> set ps" "pt_pages (mem t) d \<subseteq> set ps"
    "\<And>x. PGROUNDDOWN x \<notin> set ps \<Longrightarrow> mem t x = mem s x" "k_end t = k_end s" "k_data t = k_data s"
    by (rule setupkvm_spec [OF assms]) (rule that)
  have "uspace t qs d 0" using t(3) by (simp add: uspace_def upages_def)
  moreover have "unmapped (mem t) d 0"
    using t(4) kmap_table_ok(2) [OF l] by (simp add: unmapped_def Let_def)
  ultimately show thesis by (rule that [OF t(1,2) _ _ t(5-10)])
qed

lemma kernel_layout_cong: "k_data t = k_data s \<Longrightarrow> kernel_layout t = kernel_layout s"
  by (simp add: kernel_layout_def)

text \<open>The memory of a machine after \<^verbatim>\<open>kinit2\<close>, and a process of two pages in it.\<close>

lemma sample_machine: "\<exists>s ps. kmem_inv (s :: kmem) ps \<and> kernel_layout s \<and> 3000 \<le> length ps"
proof -
  have c: "aligned (P2V 0x400000)" "V2P (P2V 0x400000) \<le> PHYSTOP" "KERNBASE \<le> P2V PHYSTOP" "V2P (P2V PHYSTOP) \<le> PHYSTOP"
    "k_end sample_kmem \<le> P2V 0x400000" "KERNBASE < k_end sample_kmem"
    by (simp_all add: aligned_def P2V_def V2P_def KERNBASE_def PHYSTOP_def sample_kmem_def)
  have "kmem_inv sample_kmem []" using c(6) by (simp add: kmem_inv_def sample_kmem_def)
  from freerange_loop_spec [OF this c(1,5,2,3,4)]
  obtain t :: kmem and qs where t: "kmem_inv t (qs @ [])" "set qs = pages_between (P2V 0x400000) (P2V PHYSTOP)" "k_data t = k_data sample_kmem"
    by auto
  have k: "kernel_layout t"
    using t(3) by (simp add: kernel_layout_def sample_kmem_def KERNLINK_def KERNBASE_def EXTMEM_def aligned_def P2V_def PHYSTOP_def)
  let ?f = "\<lambda>n. P2V 0x400000 + of_nat n * PGSIZE"
  have u: "unat (?f n) = 0x80400000 + n * 4096" if "n < 3000" for n
  proof -
    have "unat (of_nat n * PGSIZE) = n * 4096"
      using that by (simp add: PGSIZE_def unat_word_ariths(2) unat_of_nat_uint)
    then show ?thesis using that unat_add_uint [of "P2V 0x400000" "of_nat n * PGSIZE"] by (simp add: P2V_def KERNBASE_def)
  qed
  have "?f ` {..< 3000} \<subseteq> set qs"
    unfolding t(2) using u aligned_add_pages [OF c(1)]
    by (auto simp: pages_between_def word_le_nat_alt P2V_def KERNBASE_def PHYSTOP_def)
  then have "card (?f ` {..< 3000}) \<le> card (set qs)" by (intro card_mono) auto
  moreover have "inj_on ?f {..< 3000}"
  proof (rule inj_onI)
    fix m n assume "m \<in> {..< 3000 :: nat}" "n \<in> {..< 3000}" "?f m = ?f n"
    then have "0x80400000 + m * 4096 = 0x80400000 + n * (4096 :: nat)" using u by (metis lessThan_iff)
    then show "m = n" by simp
  qed
  ultimately have "3000 \<le> length qs" using card_length [of qs] by (simp add: card_image)
  then show ?thesis using t(1) k by auto
qed

lemma sample_process:
  "\<exists>s ps d. uspace (s :: kmem) ps d 0x2000 \<and> unmapped (mem s) d 0x2000 \<and> kernel_layout s
     \<and> card (missing (mem s) d) + 1200 \<le> length ps \<and> (\<forall>va. PGROUNDDOWN va < 0x2000 \<longrightarrow> ubyte (mem s) d va = 0)"
proof -
  obtain s :: kmem and ps where s: "kmem_inv s ps" "kernel_layout s" "3000 \<le> length ps" using sample_machine by blast
  have "1025 \<le> length ps" using s(3) by simp
  then obtain d qs and t :: kmem where t: "uspace t qs d 0" "unmapped (mem t) d 0" "card (missing (mem t) d) + length ps = 1025 + length qs"
    "k_data t = k_data s"
    by (rule setupkvm_uspace [OF s(1,2)]) (rule that)
  have p: "pages_to 0 0x2000 = 2" "aligned 0" "(0x2000 :: uint) \<le> KERNBASE" "pages_to 0 0x2000 < 10"
    by (simp_all add: pages_to_def aligned_def KERNBASE_def)
  have room: "card (missing (mem t) d) + pages_to 0 0x2000 \<le> length qs" using t(3) s(3) p(1) by simp
  from allocuvm_loop_spec [OF t(1) p(2) t(2) p(3) room p(4), where oldsz = 0]
  obtain rs b and u :: kmem where u: "aligned b" "0x2000 \<le> b" "unat b < unat (0x2000 :: uint) + 4096" "uspace u rs d b" "unmapped (mem u) d b"
    "card (missing (mem u) d) + length qs = card (missing (mem t) d) + pages_to 0 0x2000 + length rs" "k_data u = k_data t"
    "\<forall>va. PGROUNDDOWN va < b \<longrightarrow> ubyte (mem u) d va = (if PGROUNDDOWN va < 0 then ubyte (mem t) d va else 0)"
    by (elim exE conjE) (rule that, assumption+, simp, assumption+)
  have "PGROUNDUP 0x2000 = 0x2000" by (simp add: PGROUNDUP_def PGSIZE_def)
  then have "b = 0x2000" using PGROUNDUP_unique [OF u(1,2,3) p(3)] by simp
  then show ?thesis
    using u(4-8) t(3,4) s(2,3) p(1) kernel_layout_cong [of u s] by (intro exI [of _ u] exI [of _ rs] exI [of _ d]) auto
qed

text \<open>
  C30.  Growing a process succeeds when there are enough free pages, keeps every byte the process had, gives it zeroed
  pages of its own for the rest, and leaves everything above unmapped.
\<close>

theorem allocuvm_grows:
  assumes "uspace s ps d (PGROUNDUP oldsz)" and "unmapped (mem s) d (PGROUNDUP oldsz)"
    and "oldsz \<le> newsz" and "newsz < KERNBASE"
    and "card (missing (mem s) d) + pages_to (PGROUNDUP oldsz) newsz \<le> length ps"
  shows "\<exists>t qs. allocuvm d oldsz newsz s = Done (newsz, t) \<and> uspace t qs d (PGROUNDUP newsz) \<and> unmapped (mem t) d (PGROUNDUP newsz)
    \<and> (\<forall>va. PGROUNDDOWN va < PGROUNDUP newsz \<longrightarrow>
         ubyte (mem t) d va = (if PGROUNDDOWN va < PGROUNDUP oldsz then ubyte (mem s) d va else 0))"
proof -
  have le: "newsz \<le> KERNBASE" using assms(4) by simp
  from allocuvm_loop_spec [OF assms(1) aligned_PGROUNDUP assms(2) le assms(5) pages_to_fuel]
  obtain t qs b where t: "allocuvm_loop (unat newsz div 4096 + 2) d (PGROUNDUP oldsz) oldsz newsz s = Done (newsz, t)"
    "aligned b" "newsz \<le> b" "PGROUNDUP oldsz < newsz \<longrightarrow> unat b < unat newsz + 4096"
    "newsz \<le> PGROUNDUP oldsz \<longrightarrow> b = PGROUNDUP oldsz" "uspace t qs d b" "unmapped (mem t) d b"
    "\<forall>va. PGROUNDDOWN va < b \<longrightarrow> ubyte (mem t) d va = (if PGROUNDDOWN va < PGROUNDUP oldsz then ubyte (mem s) d va else 0)"
    by blast
  have "unat oldsz + 4095 < 2 ^ 32" using assms(3,4) by (simp add: word_le_nat_alt word_less_nat_alt KERNBASE_def)
  note r = PGROUNDUP_unat [OF this]
  have "unat b < unat newsz + 4096"
    using t(4,5) r(2) assms(3) by (cases "PGROUNDUP oldsz < newsz") (auto simp: word_le_nat_alt not_less)
  then have b: "b = PGROUNDUP newsz" by (rule PGROUNDUP_unique [OF t(2,3) _ le])
  have "allocuvm d oldsz newsz s = Done (newsz, t)" using t(1) leD [OF assms(3)] assms(4) [THEN less_le_not_le [THEN iffD1], THEN conjunct2] by (simp add: allocuvm_def)
  then show ?thesis using t(6,7,8) [unfolded b] by blast
qed

theorem allocuvm_grows_witness:
  "\<exists>(s :: kmem) d t qs va. allocuvm d 0x2000 0x5000 s = Done (0x5000, t) \<and> uspace t qs d 0x5000
     \<and> ubyte (mem t) d 0x1FFF = ubyte (mem s) d 0x1FFF \<and> ubyte (mem t) d 0x4000 = 0"
proof -
  obtain s :: kmem and ps d where s: "uspace s ps d 0x2000" "unmapped (mem s) d 0x2000" "card (missing (mem s) d) + 1200 \<le> length ps"
    using sample_process by blast
  have r: "PGROUNDUP 0x2000 = 0x2000" "PGROUNDUP 0x5000 = 0x5000" "(0x5000 :: uint) < KERNBASE" "pages_to 0x2000 0x5000 = 3"
    "PGROUNDDOWN 0x1FFF = 0x1000" "PGROUNDDOWN 0x4000 = 0x4000"
    by (simp_all add: PGROUNDUP_def PGROUNDDOWN_def PGSIZE_def KERNBASE_def pages_to_def)
  have "card (missing (mem s) d) + pages_to 0x2000 0x5000 \<le> length ps" using s(3) r(4) by simp
  from allocuvm_grows [where oldsz = "0x2000" and newsz = "0x5000", unfolded r(1,2), OF s(1,2) _ r(3) this]
  obtain t :: kmem and qs where "allocuvm d 0x2000 0x5000 s = Done (0x5000, t)" "uspace t qs d 0x5000"
    "\<forall>va. PGROUNDDOWN va < 0x5000 \<longrightarrow> ubyte (mem t) d va = (if PGROUNDDOWN va < 0x2000 then ubyte (mem s) d va else 0)"
    by auto
  then show ?thesis using r(5,6) by (intro exI [of _ s] exI [of _ d] exI [of _ t] exI [of _ qs]) simp
qed



text \<open>
  C6.  \<^verbatim>\<open>copyuvm\<close>, the memory half of \<^verbatim>\<open>fork\<close>: with enough free pages the child gets an address space of the same size with the same
  bytes and the same page permissions, on pages of its own; the parent keeps its address space and its bytes.
\<close>

theorem copyuvm_copies:
  assumes "uspace s ps pgdir (PGROUNDUP sz)" and "kernel_layout s" and "sz \<le> KERNBASE" and "1025 + pages_to 0 sz \<le> length ps"
  shows "\<exists>d t qs. copyuvm pgdir sz s = Done (d, t) \<and> d \<noteq> 0
    \<and> uspace t qs pgdir (PGROUNDUP sz) \<and> uspace t qs d (PGROUNDUP sz)
    \<and> all_pages (mem t) pgdir (PGROUNDUP sz) \<inter> all_pages (mem t) d (PGROUNDUP sz) = {}
    \<and> (\<forall>va. PGROUNDDOWN va < PGROUNDUP sz \<longrightarrow> ubyte (mem t) pgdir va = ubyte (mem s) pgdir va
         \<and> ubyte (mem t) d va = ubyte (mem s) pgdir va \<and> PTE_FLAGS (pte_at (mem t) d va) = PTE_FLAGS (pte_at (mem s) pgdir va))"
proof -
  have k: "kmem_inv s ps" using assms(1) by (simp add: uspace_def space_def)
  have r: "1025 \<le> length ps" using assms(4) by simp
  obtain d u qs where u: "setupkvm s = Done (d, u)" "d \<noteq> 0" "uspace u qs d 0" "unmapped (mem u) d 0"
    "card (missing (mem u) d) + length ps = 1025 + length qs" "set qs \<subseteq> set ps" "pt_pages (mem u) d \<subseteq> set ps"
    "\<And>x. PGROUNDDOWN x \<notin> set ps \<Longrightarrow> mem u x = mem s x" "k_end u = k_end s" "k_data u = k_data s"
    by (rule setupkvm_uspace [OF k assms(2) r]) (rule that)
  have dis: "all_pages (mem s) pgdir (PGROUNDUP sz) \<inter> set ps = {}"
    using assms(1) by (auto simp: uspace_def space_def all_pages_def)
  then have keep: "mem u x = mem s x" if "PGROUNDDOWN x \<in> all_pages (mem s) pgdir (PGROUNDUP sz)" for x
    using u(8) [of x] that by blast
  have ku: "kmem_inv u qs" using u(3) by (simp add: uspace_def space_def)
  note f = uspace_frame [OF assms(1) ku u(6,9) keep]
  have "all_pages (mem u) pgdir (PGROUNDUP sz) \<inter> all_pages (mem u) d 0 = {}"
    using f(2) dis u(7) by (auto simp: all_pages_def upages_def)
  moreover have al: "aligned 0" by (simp add: aligned_def)
  moreover have le: "sz \<le> PGROUNDUP sz"
    using PGROUNDUP_unat(1) [of sz] assms(3) by (simp add: word_le_nat_alt KERNBASE_def)
  moreover have "card (missing (mem u) d) + pages_to 0 sz \<le> length qs" using u(5) assms(4) by simp
  ultimately obtain t rs b where t: "copyuvm_loop (unat sz div 4096 + 2) pgdir d 0 sz u = Done (d, t)" "aligned b" "sz \<le> b"
    "0 < sz \<longrightarrow> unat b < unat sz + 4096" "sz \<le> 0 \<longrightarrow> b = 0"
    "uspace t rs pgdir (PGROUNDUP sz)" "uspace t rs d b" "all_pages (mem t) pgdir (PGROUNDUP sz) \<inter> all_pages (mem t) d b = {}"
    "\<forall>va. PGROUNDDOWN va < PGROUNDUP sz \<longrightarrow> ubyte (mem t) pgdir va = ubyte (mem u) pgdir va"
    "\<forall>va. PGROUNDDOWN va < b \<longrightarrow> ubyte (mem t) d va = (if PGROUNDDOWN va < 0 then ubyte (mem u) d va else ubyte (mem u) pgdir va)"
    "\<forall>va. PGROUNDDOWN va < b \<longrightarrow> PTE_FLAGS (pte_at (mem t) d va)
         = PTE_FLAGS (if PGROUNDDOWN va < 0 then pte_at (mem u) d va else pte_at (mem u) pgdir va)"
    using copyuvm_loop_spec [OF f(1) u(3) _ al u(4) le assms(3) _ pages_to_fuel] by blast
  have "unat b < unat sz + 4096" using t(4,5) by (cases "sz = 0") (auto simp: word_gt_0)
  then have b: "b = PGROUNDUP sz" by (rule PGROUNDUP_unique [OF t(2,3) _ assms(3)])
  have "copyuvm pgdir sz s = Done (d, t)" using u(1,2) t(1) by (simp add: copyuvm_def)
  moreover have "ubyte (mem t) pgdir va = ubyte (mem s) pgdir va \<and> ubyte (mem t) d va = ubyte (mem s) pgdir va
    \<and> PTE_FLAGS (pte_at (mem t) d va) = PTE_FLAGS (pte_at (mem s) pgdir va)" if "PGROUNDDOWN va < PGROUNDUP sz" for va
    using that t(9-11) f(3,4) b by auto
  ultimately show ?thesis using u(2) t(6-8) b by blast
qed

theorem copyuvm_copies_witness:
  "\<exists>(s :: kmem) pgdir d t qs. copyuvm pgdir 0x1800 s = Done (d, t) \<and> uspace t qs d 0x2000
     \<and> ubyte (mem t) d 0x17FF = ubyte (mem s) pgdir 0x17FF"
proof -
  obtain s :: kmem and ps pg where s: "uspace s ps pg 0x2000" "kernel_layout s" "card (missing (mem s) pg) + 1200 \<le> length ps"
    using sample_process by blast
  have r: "PGROUNDUP 0x1800 = 0x2000" "(0x1800 :: uint) \<le> KERNBASE" "pages_to 0 0x1800 = 2" "PGROUNDDOWN 0x17FF = 0x1000"
    by (simp_all add: PGROUNDUP_def PGROUNDDOWN_def PGSIZE_def KERNBASE_def pages_to_def)
  have "1025 + pages_to 0 0x1800 \<le> length ps" using s(3) r(3) by simp
  from copyuvm_copies [where sz = "0x1800", unfolded r(1), OF s(1,2) r(2) this]
  obtain d qs and t :: kmem where "copyuvm pg 0x1800 s = Done (d, t)" "uspace t qs d 0x2000"
    "\<forall>va. PGROUNDDOWN va < 0x2000 \<longrightarrow> ubyte (mem t) d va = ubyte (mem s) pg va"
    by blast
  then show ?thesis using r(4) by (intro exI [of _ s] exI [of _ pg] exI [of _ d] exI [of _ t] exI [of _ qs]) simp
qed

end
