(* ===== verification/Ring.thy ===== *)
theory Ring
  imports Prelude
begin

text \<open>
  Circular byte buffers indexed by free-running 32-bit counters, the technique that
  \<^verbatim>\<open>src/xv6/pipe.c\<close> and \<^verbatim>\<open>src/xv6/console.c\<close> share: the counters only grow (and wrap), an
  element lives at its counter modulo the size of the array.  The locale states what the size
  must satisfy for this to be sound, the two clients interpret it at their sizes.
\<close>

text \<open>The elements between a read counter \<open>r\<close> and a write counter \<open>w\<close>, oldest first.\<close>

definition ring_contents :: "nat \<Rightarrow> 'a list \<Rightarrow> uint \<Rightarrow> uint \<Rightarrow> 'a list" where
  "ring_contents N buf r w = map (\<lambda>i. buf ! (unat (r + of_nat i) mod N)) [0..<unat (w - r)]"

lemma length_ring_contents [simp]: "length (ring_contents N buf r w) = unat (w - r)"
  by (simp add: ring_contents_def)

lemma ring_contents_self [simp]: "ring_contents N buf r r = []"
  by (simp add: ring_contents_def)

lemma ring_contents_eq_Nil [simp]: "ring_contents N buf r w = [] \<longleftrightarrow> r = w"
proof -
  have "ring_contents N buf r w = [] \<longleftrightarrow> unat (w - r) = 0"
    by (metis length_0_conv length_ring_contents)
  then show ?thesis by (auto simp: unat_eq_zero)
qed

lemma unat_Suc_diff:
  fixes w r :: uint
  assumes "unat (w - r) < 2 ^ 32 - 1"
  shows "unat (w + 1 - r) = Suc (unat (w - r))"
proof -
  have "unat ((w - r) + 1) = Suc (unat (w - r))" using assms by (simp add: unat_word_ariths)
  moreover have "w + 1 - r = (w - r) + 1" by (simp add: algebra_simps)
  ultimately show ?thesis by metis
qed

locale ring =
  fixes N :: nat
  assumes N_pos: "0 < N"
    and N_less: "N < 2 ^ 32"
    and N_dvd: "N dvd 2 ^ 32"
begin

lemma index: "unat (r + of_nat i :: uint) mod N = (unat r + i) mod N"
proof -
  have "unat (r + of_nat i :: uint) = (unat r + i) mod 2 ^ 32"
    by (simp add: unat_word_ariths unat_of_nat take_bit_eq_mod mod_simps)
  then show ?thesis using N_dvd by (simp add: mod_mod_cancel)
qed

lemma index_offset:
  fixes w r :: uint
  shows "unat w mod N = (unat r + unat (w - r)) mod N"
  using index [of r "unat (w - r)"] by simp

lemma index_distinct:
  assumes "i < k" and "k < N"
  shows "(unat r + i) mod N \<noteq> (unat r + k) mod N"
proof
  assume "(unat r + i) mod N = (unat r + k) mod N"
  then have "N dvd (unat r + k) - (unat r + i)" using assms(1) by (intro mod_eq_dvd_iff_nat [THEN iffD1]) simp_all
  then have "N dvd k - i" by simp
  then have "N \<le> k - i" using assms(1) by (intro dvd_imp_le) simp_all
  then show False using assms by simp
qed

lemma push:
  assumes "length buf = N" and "unat (w - r) < N"
  shows "ring_contents N (buf[unat w mod N := c]) r (w + 1) = ring_contents N buf r w @ [c]"
proof -
  let ?k = "unat (w - r)"
  have k: "unat (w + 1 - r) = Suc ?k" using assms(2) N_less by (intro unat_Suc_diff) simp
  have old: "buf[unat w mod N := c] ! (unat (r + of_nat i) mod N) = buf ! (unat (r + of_nat i) mod N)"
    if "i < ?k" for i
    using index_distinct [OF that assms(2), of r] index [of r i] index_offset [of w r] by simp
  have new: "buf[unat w mod N := c] ! (unat (r + of_nat ?k) mod N) = c" using assms(1) N_pos by simp
  show ?thesis using k old new by (simp add: ring_contents_def)
qed

lemma pop:
  assumes "r \<noteq> w"
  shows "ring_contents N buf r w = buf ! (unat r mod N) # ring_contents N buf (r + 1) w"
proof -
  have "0 < unat (w - r)" using assms by (simp add: unat_gt_0)
  moreover have "unat (w - (r + 1)) = unat (w - r) - 1"
    using assms unat_minus_one [of "w - r"] by (simp add: algebra_simps)
  ultimately have len: "unat (w - r) = Suc (unat (w - (r + 1)))" by simp
  have "[0..<unat (w - r)] = 0 # map Suc [0..<unat (w - (r + 1))]"
    unfolding len by (simp add: map_Suc_upt upt_conv_Cons del: upt_Suc)
  then show ?thesis by (simp add: ring_contents_def algebra_simps)
qed

lemma unpush:
  assumes "r \<noteq> w"
  shows "ring_contents N buf r (w - 1) = butlast (ring_contents N buf r w)"
proof -
  have len: "unat (w - 1 - r) = unat (w - r) - 1"
    using assms unat_minus_one [of "w - r"] by (simp add: algebra_simps)
  have "butlast [0..<n] = [0..<n - 1]" for n by (cases n) simp_all
  then show ?thesis by (simp only: ring_contents_def len map_butlast [symmetric])
qed

lemma append:
  assumes "unat (w - r) \<le> unat (e - r)"
  shows "ring_contents N buf r e = ring_contents N buf r w @ ring_contents N buf w e"
proof -
  have "e - w = (e - r) - (w - r)" by simp
  moreover have "unat ((e - r) - (w - r)) = unat (e - r) - unat (w - r)"
    using assms by (intro unat_sub) (simp add: word_le_nat_alt)
  ultimately have le: "unat (w - r) + unat (e - w) = unat (e - r)" using assms by simp
  have upt: "[0..<unat (e - r)] = [0..<unat (w - r)] @ map (\<lambda>i. unat (w - r) + i) [0..<unat (e - w)]"
    using upt_add_eq_append [of 0 "unat (w - r)" "unat (e - w)"] le by (simp add: map_add_upt add.commute)
  have "r + of_nat (unat (w - r) + i) = w + of_nat i" for i by simp
  then show ?thesis by (simp add: ring_contents_def upt)
qed

end

end
