(* ===== verification/Console.thy ===== *)
theory Console
  imports Ring
begin

text \<open>
  The console (\<^verbatim>\<open>src/xv6/console.c\<close>) and the serial port it copies its output to (\<^verbatim>\<open>uart.c\<close>).  The state is the screen memory with
  the cursor register, the bytes sent on the serial port
  and the input ring with its three indices.  Interrupt handlers and reads hold
  \<^verbatim>\<open>cons.lock\<close> except while a read sleeps, so a read is a sequence of atomic runs, each ending in a return or in a sleep.
  The characters that the interrupt handler fetches are an argument of it.
\<close>

section \<open>State and output\<close>

definition BACKSPACE :: int where
  "BACKSPACE = 0x100"

definition INPUT_BUF :: nat where
  "INPUT_BUF = 128"

record cons =
  crt :: "ushort list"
  crt_pos :: nat
  uart :: bool
  uart_out :: "uchar list"
  panicked :: bool
  in_buf :: "uchar list"
  in_r :: uint
  in_w :: uint
  in_e :: uint

definition uartputc :: "int \<Rightarrow> cons \<Rightarrow> cons" where
  "uartputc c s = (if uart s then s\<lparr>uart_out := uart_out s @ [word_of_int c]\<rparr> else s)"

definition cgaputc :: "int \<Rightarrow> cons \<Rightarrow> cons outcome" where
  "cgaputc c s =
     (let pos = crt_pos s;
          (pos, m) =
            (if c = 10 then (pos + (80 - pos mod 80), crt s)
             else if c = BACKSPACE then (pos - 1, crt s)
             else (pos + 1, (crt s)[pos := (word_of_int c AND 0xFF) OR 0x0700]))
      in if 25 * 80 < pos then Panic ''pos under/overflow''
         else let (pos, m) =
                    (if 24 \<le> pos div 80
                     then let m = take (23 * 80) (drop 80 m) @ drop (23 * 80) m;
                              pos = pos - 80
                          in (pos, take pos m @ replicate (24 * 80 - pos) 0 @ drop (24 * 80) m)
                     else (pos, m))
              in Done (s\<lparr>crt := m[pos := 0x0720], crt_pos := pos\<rparr>))"

definition consputc :: "int \<Rightarrow> cons \<Rightarrow> cons outcome" where
  "consputc c s =
     (if panicked s then Block
      else let s = (if c = BACKSPACE then uartputc 8 (uartputc 32 (uartputc 8 s)) else uartputc c s)
           in cgaputc c s)"

fun consputs :: "uchar list \<Rightarrow> cons \<Rightarrow> cons outcome" where
  "consputs [] s = Done s"
| "consputs (c # cs) s = obind (consputc (uint c) s) (consputs cs)"

section \<open>Formatted output\<close>

definition digits :: "uchar list" where
  "digits = bytes ''0123456789abcdef''"

text \<open>The \<^verbatim>\<open>do\<close>/\<^verbatim>\<open>while\<close> loop: least significant digit first.\<close>

function print_digits :: "uchar list \<Rightarrow> nat \<Rightarrow> nat \<Rightarrow> uchar list" where
  "print_digits ds base x =
     ds ! (x mod base) # (if base < 2 \<or> x div base = 0 then [] else print_digits ds base (x div base))"
  by pat_completeness auto
termination by (relation "measure (\<lambda>(ds, base, x). x)") (auto simp: not_less div_greater_zero_iff)

declare print_digits.simps [simp del]

definition printint :: "uint \<Rightarrow> nat \<Rightarrow> bool \<Rightarrow> cons \<Rightarrow> cons outcome" where
  "printint xx base sign s =
     (let neg = (sign \<and> sint xx < 0);
          x = (if neg then - xx else xx);
          buf = print_digits digits base (unat x)
      in consputs (rev (if neg then buf @ [byte (CHR ''-'')] else buf)) s)"

text \<open>
  \<^verbatim>\<open>cprintf\<close>; the arguments are the words on the stack, and \<open>str_at\<close> gives the string an address points to.
\<close>

fun cprintf :: "(uint \<Rightarrow> uchar list) \<Rightarrow> uchar list \<Rightarrow> uint list \<Rightarrow> cons \<Rightarrow> cons outcome" where
  "cprintf str_at [] args s = Done s"
| "cprintf str_at (c # fmt) args s =
     (if c \<noteq> byte (CHR ''%'') then obind (consputc (uint c) s) (cprintf str_at fmt args)
      else case fmt of
             [] \<Rightarrow> Done s
           | c # fmt \<Rightarrow>
               if c = byte (CHR ''d'') then obind (printint (hd args) 10 True s) (cprintf str_at fmt (tl args))
               else if c = byte (CHR ''x'') \<or> c = byte (CHR ''p'')
                    then obind (printint (hd args) 16 False s) (cprintf str_at fmt (tl args))
               else if c = byte (CHR ''s'')
                    then obind (consputs (if hd args = 0 then bytes ''(null)'' else str_at (hd args)) s) (cprintf str_at fmt (tl args))
               else if c = byte (CHR ''%'') then obind (consputc (uint c) s) (cprintf str_at fmt args)
               else obind (consputc (uint (byte (CHR ''%''))) s) (\<lambda>s. obind (consputc (uint c) s) (cprintf str_at fmt args)))"

section \<open>Input\<close>

definition Ctl :: "char \<Rightarrow> int" where
  "Ctl x = of_char x - of_char (CHR ''@'')"

definition in_at :: "cons \<Rightarrow> uint \<Rightarrow> uchar" where
  "in_at s i = in_buf s ! unat (i mod of_nat INPUT_BUF)"

fun kill_line :: "nat \<Rightarrow> cons \<Rightarrow> cons outcome" where
  "kill_line 0 s = (if in_e s \<noteq> in_w s \<and> in_at s (in_e s - 1) \<noteq> 10 then Block else Done s)"
| "kill_line (Suc k) s =
     (if in_e s \<noteq> in_w s \<and> in_at s (in_e s - 1) \<noteq> 10
      then obind (consputc BACKSPACE (s\<lparr>in_e := in_e s - 1\<rparr>)) (kill_line k)
      else Done s)"

text \<open>One character: the new state, whether \<^verbatim>\<open>procdump\<close> was asked for, and whether readers are woken.\<close>

definition consoleintr_char :: "int \<Rightarrow> cons \<Rightarrow> (bool \<times> bool \<times> cons) outcome" where
  "consoleintr_char c s =
     (if c = Ctl (CHR ''P'') then Done (True, False, s)
      else if c = Ctl (CHR ''U'') then obind (kill_line (unat (in_e s - in_w s)) s) (\<lambda>s. Done (False, False, s))
      else if c = Ctl (CHR ''H'') \<or> c = 0x7F
      then if in_e s \<noteq> in_w s
           then obind (consputc BACKSPACE (s\<lparr>in_e := in_e s - 1\<rparr>)) (\<lambda>s. Done (False, False, s))
           else Done (False, False, s)
      else if c \<noteq> 0 \<and> in_e s - in_r s < of_nat INPUT_BUF
      then let c = (if c = 13 then 10 else c);
               s = s\<lparr>in_buf := (in_buf s)[unat (in_e s mod of_nat INPUT_BUF) := word_of_int c], in_e := in_e s + 1\<rparr>
           in obind (consputc c s) (\<lambda>s.
                if c = 10 \<or> c = Ctl (CHR ''D'') \<or> in_e s = in_r s + of_nat INPUT_BUF
                then Done (False, True, s\<lparr>in_w := in_e s\<rparr>)
                else Done (False, False, s))
      else Done (False, False, s))"

fun consoleintr :: "int list \<Rightarrow> bool \<Rightarrow> bool \<Rightarrow> cons \<Rightarrow> (bool \<times> bool \<times> cons) outcome" where
  "consoleintr [] dump wake s = Done (dump, wake, s)"
| "consoleintr (c # cs) dump wake s =
     (if c < 0 then Done (dump, wake, s)
      else obind (consoleintr_char c s) (\<lambda>(d, w, s). consoleintr cs (dump \<or> d) (wake \<or> w) s))"

datatype con_end = Con_sleep | Con_return int

text \<open>
  One run of \<^verbatim>\<open>consoleread\<close>: from the start of the call, or from a wakeup with \<open>n\<close> bytes still to go and \<open>dst\<close> already
  delivered, up to a return or the next sleep.
\<close>

function consoleread_run :: "bool \<Rightarrow> int \<Rightarrow> int \<Rightarrow> uchar list \<Rightarrow> cons \<Rightarrow> cons \<times> int \<times> uchar list \<times> con_end" where
  "consoleread_run killed n target dst s =
     (if 0 < n
      then if in_r s = in_w s
           then if killed then (s, n, dst, Con_return (- 1)) else (s, n, dst, Con_sleep)
           else let c = in_at s (in_r s);
                    s = s\<lparr>in_r := in_r s + 1\<rparr>
                in if uint c = Ctl (CHR ''D'')
                   then (if n < target then s\<lparr>in_r := in_r s - 1\<rparr> else s, n, dst, Con_return (target - n))
                   else if c = 10 then (s, n - 1, dst @ [c], Con_return (target - (n - 1)))
                   else consoleread_run killed (n - 1) target (dst @ [c]) s
      else (s, n, dst, Con_return (target - n)))"
  by pat_completeness auto
termination by (relation "measure (\<lambda>(killed, n, target, dst, s). nat n)") auto

declare consoleread_run.simps [simp del]

definition consolewrite_out :: "uchar list \<Rightarrow> int \<Rightarrow> cons \<Rightarrow> cons outcome" where
  "consolewrite_out buf n s = consputs (take (nat n) buf) s"

section \<open>The screen\<close>

definition cga_ok :: "cons \<Rightarrow> bool" where
  "cga_ok s \<longleftrightarrow> length (crt s) = 25 * 80 \<and> crt_pos s < 24 * 80"

lemma cgaputc_ok:
  assumes "cga_ok s"
  shows "\<exists>m p. cgaputc c s = Done (s\<lparr>crt := m, crt_pos := p\<rparr>) \<and> length m = 25 * 80 \<and> p < 24 * 80"
proof -
  have s: "length (crt s) = 2000" "crt_pos s < 1920" using assms by (simp_all add: cga_ok_def)
  define pm where "pm = (if c = 10 then (crt_pos s + (80 - crt_pos s mod 80), crt s)
             else if c = BACKSPACE then (crt_pos s - 1, crt s)
             else (crt_pos s + 1, (crt s)[crt_pos s := (word_of_int c AND 0xFF) OR 0x0700]))"
  have "crt_pos s + (80 - crt_pos s mod 80) \<le> 1920"
  proof -
    have "crt_pos s = 80 * (crt_pos s div 80) + crt_pos s mod 80" "crt_pos s div 80 < 24" using s(2) by simp_all
    then show ?thesis by linarith
  qed
  then have p: "fst pm \<le> 1920" "length (snd pm) = 2000" using s by (auto simp: pm_def)
  have "cgaputc c s = (if 25 * 80 < fst pm then Panic ''pos under/overflow''
         else let (pos, m) =
                    (if 24 \<le> fst pm div 80
                     then let m = take (23 * 80) (drop 80 (snd pm)) @ drop (23 * 80) (snd pm);
                              pos = fst pm - 80
                          in (pos, take pos m @ replicate (24 * 80 - pos) 0 @ drop (24 * 80) m)
                     else pm)
              in Done (s\<lparr>crt := m[pos := 0x0720], crt_pos := pos\<rparr>))"
    by (simp only: cgaputc_def Let_def flip: pm_def) (simp add: case_prod_beta)
  moreover have "fst pm = 1920" if "24 \<le> fst pm div 80" using that p(1) by simp
  moreover have "fst pm < 1920" if "\<not> 24 \<le> fst pm div 80" using that by simp
  ultimately show ?thesis
    using p by (cases pm) (auto simp: Let_def, (rule exI, rule exI, rule conjI [OF refl], simp)+)
qed

lemma consputc_ok:
  assumes "cga_ok s" and "\<not> panicked s"
  obtains t where "consputc c s = Done t" and "cga_ok t" and "\<not> panicked t" and "in_buf t = in_buf s"
    and "in_r t = in_r s" and "in_w t = in_w s" and "in_e t = in_e s"
proof -
  let ?s = "if c = BACKSPACE then uartputc 8 (uartputc 32 (uartputc 8 s)) else uartputc c s"
  have "cga_ok ?s" using assms(1) by (simp add: uartputc_def cga_ok_def)
  from cgaputc_ok [OF this, of c] obtain m p where "cgaputc c ?s = Done (?s\<lparr>crt := m, crt_pos := p\<rparr>)" "length m = 25 * 80" "p < 24 * 80"
    by blast
  then show thesis
    using assms(2) by (intro that [of "?s\<lparr>crt := m, crt_pos := p\<rparr>"]) (simp_all add: consputc_def cga_ok_def uartputc_def)
qed

section \<open>The line discipline\<close>

interpretation input_ring: ring INPUT_BUF
  by unfold_locales (simp_all add: INPUT_BUF_def)

text \<open>What readers may take, and the line that is still being edited.\<close>

definition committed :: "cons \<Rightarrow> uchar list" where
  "committed s = ring_contents INPUT_BUF (in_buf s) (in_r s) (in_w s)"

definition editing :: "cons \<Rightarrow> uchar list" where
  "editing s = ring_contents INPUT_BUF (in_buf s) (in_w s) (in_e s)"

definition con_inv :: "cons \<Rightarrow> bool" where
  "con_inv s \<longleftrightarrow> cga_ok s \<and> \<not> panicked s \<and> length (in_buf s) = INPUT_BUF
     \<and> unat (in_w s - in_r s) \<le> unat (in_e s - in_r s) \<and> unat (in_e s - in_r s) \<le> INPUT_BUF
     \<and> 10 \<notin> set (editing s)"

lemma in_index: "unat (i mod of_nat INPUT_BUF :: uint) = unat i mod INPUT_BUF"
  by (simp add: INPUT_BUF_def unat_mod)

lemma input_all:
  "con_inv s \<Longrightarrow> ring_contents INPUT_BUF (in_buf s) (in_r s) (in_e s) = committed s @ editing s"
  unfolding committed_def editing_def con_inv_def by (intro input_ring.append) simp

lemma input_length: "con_inv s \<Longrightarrow> unat (in_e s - in_r s) = length (committed s) + length (editing s)"
  using arg_cong [OF input_all, of s length] by simp

lemma length_editing: "length (editing s) = unat (in_e s - in_w s)"
  by (simp add: editing_def)

lemma editing_empty_iff: "editing s = [] \<longleftrightarrow> in_e s = in_w s"
  by (auto simp: editing_def)

text \<open>Erasing the last character of the line.\<close>

lemma erase:
  assumes "con_inv s" and "in_e s \<noteq> in_w s"
  shows "con_inv (s\<lparr>in_e := in_e s - 1\<rparr>)" and "editing (s\<lparr>in_e := in_e s - 1\<rparr>) = butlast (editing s)"
    and "committed (s\<lparr>in_e := in_e s - 1\<rparr>) = committed s"
proof -
  show e: "editing (s\<lparr>in_e := in_e s - 1\<rparr>) = butlast (editing s)"
    using input_ring.unpush [of "in_w s" "in_e s" "in_buf s"] assms(2) by (simp add: editing_def)
  show "committed (s\<lparr>in_e := in_e s - 1\<rparr>) = committed s" by (simp add: committed_def)
  have "editing s \<noteq> []" using assms(2) by (simp add: editing_empty_iff)
  then have lt: "unat (in_w s - in_r s) < unat (in_e s - in_r s)"
    using input_length [OF assms(1)] by (simp add: committed_def)
  then have "in_e s - in_r s \<noteq> 0" by auto
  then have "unat (in_e s - 1 - in_r s) = unat (in_e s - in_r s) - 1"
    using unat_minus_one [of "in_e s - in_r s"] by (simp add: algebra_simps)
  then show "con_inv (s\<lparr>in_e := in_e s - 1\<rparr>)"
    using assms(1) lt e by (auto simp: con_inv_def cga_ok_def dest: in_set_butlastD)
qed

lemma con_inv_cong:
  assumes "con_inv s" and "cga_ok t" and "\<not> panicked t" and "in_buf t = in_buf s"
    and "in_r t = in_r s" and "in_w t = in_w s" and "in_e t = in_e s"
  shows "con_inv t" and "editing t = editing s" and "committed t = committed s"
  using assms by (simp_all add: con_inv_def editing_def committed_def)

lemma erase_char:
  assumes "con_inv s" and "in_e s \<noteq> in_w s"
  obtains t where "consputc BACKSPACE (s\<lparr>in_e := in_e s - 1\<rparr>) = Done t" and "con_inv t"
    and "editing t = butlast (editing s)" and "committed t = committed s"
proof -
  let ?s = "s\<lparr>in_e := in_e s - 1\<rparr>"
  note e = erase [OF assms]
  have "cga_ok ?s" "\<not> panicked ?s" using e(1) by (simp_all add: con_inv_def)
  then obtain t where "consputc BACKSPACE ?s = Done t" "cga_ok t" "\<not> panicked t" "in_buf t = in_buf ?s"
    "in_r t = in_r ?s" "in_w t = in_w ?s" "in_e t = in_e ?s"
    by (rule consputc_ok)
  then show thesis using that con_inv_cong [OF e(1)] e(2,3) by simp
qed

lemma kill_line_spec:
  assumes "con_inv s" and "length (editing s) = k"
  shows "\<exists>t. kill_line k s = Done t \<and> con_inv t \<and> editing t = [] \<and> committed t = committed s"
  using assms
proof (induction k arbitrary: s)
  case 0
  then show ?case by (auto simp: editing_empty_iff)
next
  case (Suc k)
  have ne: "in_e s \<noteq> in_w s" using Suc.prems(2) by (auto simp flip: editing_empty_iff)
  have "last (editing s) = in_at s (in_e s - 1)"
  proof -
    have "editing s ! (unat (in_e s - in_w s) - 1) = in_buf s ! (unat (in_w s + of_nat (unat (in_e s - in_w s) - 1)) mod INPUT_BUF)"
      using ne by (simp add: editing_def ring_contents_def unat_gt_0)
    moreover have "in_w s + of_nat (unat (in_e s - in_w s) - 1) = in_e s - 1"
    proof -
      have "unat (in_e s - in_w s) - 1 = unat (in_e s - in_w s - 1)" using ne by (simp add: unat_minus_one)
      then show ?thesis by simp
    qed
    ultimately show ?thesis using Suc.prems(2) length_editing [of s]
      by (simp add: last_conv_nth in_at_def in_index length_greater_0_conv [symmetric] del: length_greater_0_conv)
  qed
  moreover have "last (editing s) \<in> set (editing s)" using Suc.prems(2) by (intro last_in_set) auto
  ultimately have nl: "in_at s (in_e s - 1) \<noteq> 10" using Suc.prems(1) by (auto simp: con_inv_def)
  obtain t where t: "consputc BACKSPACE (s\<lparr>in_e := in_e s - 1\<rparr>) = Done t" "con_inv t"
    "editing t = butlast (editing s)" "committed t = committed s"
    by (rule erase_char [OF Suc.prems(1) ne])
  have "length (editing t) = k" using t(3) Suc.prems(2) by simp
  from Suc.IH [OF t(2) this] show ?case using t ne nl by auto
qed

text \<open>
  The line discipline without its ring: typed characters collect in a line, a newline, an end-of-file mark or a full buffer commit it,
  and editing reaches back to the last commit only.
\<close>

definition line_char :: "int \<Rightarrow> uchar list \<times> uchar list \<Rightarrow> uchar list \<times> uchar list" where
  "line_char c st =
     (let (com, ed) = st
      in if c = Ctl (CHR ''P'') then (com, ed)
         else if c = Ctl (CHR ''U'') then (com, [])
         else if c = Ctl (CHR ''H'') \<or> c = 0x7F then (com, butlast ed)
         else if c \<noteq> 0 \<and> length com + length ed < INPUT_BUF
         then let c = (if c = 13 then 10 else c); ed = ed @ [word_of_int c]
              in if c = 10 \<or> c = Ctl (CHR ''D'') \<or> length com + length ed = INPUT_BUF then (com @ ed, []) else (com, ed)
         else (com, ed))"

lemma type_char:
  assumes s: "con_inv s" and room: "in_e s - in_r s < of_nat INPUT_BUF"
    and t: "t = s\<lparr>in_buf := (in_buf s)[unat (in_e s mod of_nat INPUT_BUF) := c], in_e := in_e s + 1\<rparr>"
  shows "editing t = editing s @ [c]" and "committed t = committed s" and "c \<noteq> 10 \<Longrightarrow> con_inv t"
    and "in_e t = in_r t + of_nat INPUT_BUF \<longleftrightarrow> length (committed s) + length (editing s @ [c]) = INPUT_BUF"
    and "cga_ok t" and "\<not> panicked t" and "con_inv (t\<lparr>in_w := in_e t\<rparr>)"
    and "committed (t\<lparr>in_w := in_e t\<rparr>) = committed s @ editing s @ [c]"
proof -
  let ?b = "(in_buf s)[unat (in_e s mod of_nat INPUT_BUF) := c]"
  have lt: "unat (in_e s - in_r s) < INPUT_BUF" using room by (simp add: word_less_nat_alt INPUT_BUF_def)
  have len: "length (in_buf s) = INPUT_BUF" using s by (simp add: con_inv_def)
  have all: "ring_contents INPUT_BUF ?b (in_r s) (in_e s + 1) = (committed s @ editing s) @ [c]"
    using input_ring.push [OF len lt, of c] input_all [OF s] by (simp add: in_index)
  have e1: "unat (in_e s + 1 - in_r s) = Suc (unat (in_e s - in_r s))"
    using lt by (intro unat_Suc_diff) (simp add: INPUT_BUF_def)
  have le: "unat (in_w s - in_r s) \<le> unat (in_e s + 1 - in_r s)" using s e1 by (simp add: con_inv_def)
  have "ring_contents INPUT_BUF ?b (in_r s) (in_w s) @ ring_contents INPUT_BUF ?b (in_w s) (in_e s + 1) = committed s @ editing s @ [c]"
    using input_ring.append [OF le, of ?b] all by simp
  moreover have "length (ring_contents INPUT_BUF ?b (in_r s) (in_w s)) = length (committed s)" by (simp add: committed_def)
  ultimately have "ring_contents INPUT_BUF ?b (in_r s) (in_w s) = committed s \<and> ring_contents INPUT_BUF ?b (in_w s) (in_e s + 1) = editing s @ [c]"
    by (simp add: append_eq_append_conv)
  then show ed: "editing t = editing s @ [c]" and com: "committed t = committed s"
    using t by (simp_all add: editing_def committed_def)
  have len1: "Suc (unat (in_e s - in_r s)) = length (committed s) + length (editing s @ [c])" using input_length [OF s] by simp
  have eq: "x = y + of_nat INPUT_BUF \<longleftrightarrow> unat (x - y) = INPUT_BUF" for x y :: uint
  proof -
    have "x = y + of_nat INPUT_BUF \<longleftrightarrow> x - y = of_nat INPUT_BUF" by (simp add: algebra_simps)
    then show ?thesis by (simp add: INPUT_BUF_def word_unat_eq_iff)
  qed
  show "in_e t = in_r t + of_nat INPUT_BUF \<longleftrightarrow> length (committed s) + length (editing s @ [c]) = INPUT_BUF"
    using t e1 len1 eq by simp
  show ok: "cga_ok t" "\<not> panicked t" using s t by (simp_all add: con_inv_def cga_ok_def)
  show "con_inv t" if "c \<noteq> 10"
    using s t e1 lt le ed that ok by (auto simp: con_inv_def)
  show "committed (t\<lparr>in_w := in_e t\<rparr>) = committed s @ editing s @ [c]" using all t by (simp add: committed_def)
  show "con_inv (t\<lparr>in_w := in_e t\<rparr>)"
    using s t e1 lt ok by (simp add: con_inv_def editing_def cga_ok_def)
qed

lemma consoleintr_char_spec:
  assumes s: "con_inv s" and c: "0 \<le> c" "c < 256"
  shows "\<exists>d w t. consoleintr_char c s = Done (d, w, t) \<and> con_inv t
    \<and> (committed t, editing t) = line_char c (committed s, editing s) \<and> w = (committed t \<noteq> committed s)"
proof -
  have room: "in_e s - in_r s < of_nat INPUT_BUF \<longleftrightarrow> length (committed s) + length (editing s) < INPUT_BUF"
    using input_length [OF s] by (simp add: word_less_nat_alt INPUT_BUF_def)
  consider "c = Ctl (CHR ''P'')" | "c = Ctl (CHR ''U'')" | "c = Ctl (CHR ''H'') \<or> c = 0x7F"
    | "c \<notin> {Ctl (CHR ''P''), Ctl (CHR ''U''), Ctl (CHR ''H''), 0x7F}" by blast
  then show ?thesis
  proof cases
    case 1
    then show ?thesis using s by (auto simp: consoleintr_char_def line_char_def)
  next
    case 2
    obtain t where "kill_line (unat (in_e s - in_w s)) s = Done t" "con_inv t" "editing t = []" "committed t = committed s"
      using kill_line_spec [OF s length_editing] by blast
    then show ?thesis using 2 by (auto simp: consoleintr_char_def line_char_def Ctl_def)
  next
    case 3
    then have n: "c \<noteq> Ctl (CHR ''P'')" "c \<noteq> Ctl (CHR ''U'')" by (auto simp: Ctl_def)
    show ?thesis
    proof (cases "in_e s = in_w s")
      case True
      then have "editing s = []" by (simp add: editing_empty_iff)
      then show ?thesis using 3 n True s by (auto simp: consoleintr_char_def line_char_def)
    next
      case False
      obtain t where "consputc BACKSPACE (s\<lparr>in_e := in_e s - 1\<rparr>) = Done t" "con_inv t"
        "editing t = butlast (editing s)" "committed t = committed s"
        by (rule erase_char [OF s False])
      then show ?thesis using 3 n False by (auto simp: consoleintr_char_def line_char_def)
    qed
  next
    case 4
    show ?thesis
    proof (cases "c \<noteq> 0 \<and> in_e s - in_r s < of_nat INPUT_BUF")
      case False
      then show ?thesis using 4 s room by (auto simp: consoleintr_char_def line_char_def)
    next
      case True
      define c' where "c' = (if c = 13 then 10 else c)"
      let ?t = "s\<lparr>in_buf := (in_buf s)[unat (in_e s mod of_nat INPUT_BUF) := word_of_int c'], in_e := in_e s + 1\<rparr>"
      have rm: "in_e s - in_r s < of_nat INPUT_BUF" using True by simp
      note t = type_char [OF s rm refl, of "word_of_int c'"]
      obtain u where u: "consputc c' ?t = Done u" "cga_ok u" "\<not> panicked u" "in_buf u = in_buf ?t"
        "in_r u = in_r ?t" "in_w u = in_w ?t" "in_e u = in_e ?t"
        by (rule consputc_ok [OF t(5,6)])
      have run: "consoleintr_char c s = (if c' = 10 \<or> c' = Ctl (CHR ''D'') \<or> in_e u = in_r u + of_nat INPUT_BUF
                then Done (False, True, u\<lparr>in_w := in_e u\<rparr>) else Done (False, False, u))"
        using 4 True u(1) by (simp add: consoleintr_char_def c'_def Let_def)
      have line: "line_char c (committed s, editing s) =
        (if c' = 10 \<or> c' = Ctl (CHR ''D'') \<or> in_e u = in_r u + of_nat INPUT_BUF
         then (committed s @ editing s @ [word_of_int c'], []) else (committed s, editing s @ [word_of_int c']))"
        using 4 True room t(4) u(5,7) by (auto simp: line_char_def c'_def Let_def)
      have commit: "con_inv (u\<lparr>in_w := in_e u\<rparr>)" "committed (u\<lparr>in_w := in_e u\<rparr>) = committed s @ editing s @ [word_of_int c']"
        "editing (u\<lparr>in_w := in_e u\<rparr>) = []"
        using t(7,8) u by (simp_all add: con_inv_def committed_def editing_def cga_ok_def)
      have keep: "con_inv u" "committed u = committed s" "editing u = editing s @ [word_of_int c']" if "c' \<noteq> 10"
      proof -
        have "0 \<le> c'" "c' < 256" using c by (simp_all add: c'_def)
        then have "uint (word_of_int c' :: uchar) = c'" by (simp add: uint_word_of_int_eq take_bit_int_eq_self)
        then have "(word_of_int c' :: uchar) \<noteq> 10" using that by auto
        then show "con_inv u" "committed u = committed s" "editing u = editing s @ [word_of_int c']"
          using con_inv_cong [OF t(3) u(2-7)] t(1,2) by auto
      qed
      show ?thesis using run line commit keep by auto
    qed
  qed
qed

lemma consoleintr_spec:
  assumes "con_inv s" and "\<forall>c\<in>set cs. 0 \<le> c \<and> c < 256"
  shows "\<exists>d w t. consoleintr cs dump wake s = Done (d, w, t) \<and> con_inv t
    \<and> (committed t, editing t) = fold line_char cs (committed s, editing s)"
  using assms
proof (induction cs arbitrary: s dump wake)
  case (Cons c cs)
  obtain d w t where t: "consoleintr_char c s = Done (d, w, t)" "con_inv t" "(committed t, editing t) = line_char c (committed s, editing s)"
    using consoleintr_char_spec [OF Cons.prems(1), of c] Cons.prems(2) by auto
  have "\<forall>c\<in>set cs. 0 \<le> c \<and> c < 256" using Cons.prems(2) by simp
  from Cons.IH [OF t(2) this, of "dump \<or> d" "wake \<or> w"] show ?case using t(1,3) Cons.prems(2) by auto
qed simp

section \<open>Reading\<close>

lemma take_input:
  assumes "con_inv s" and "in_r s \<noteq> in_w s" and "t = s\<lparr>in_r := in_r s + 1\<rparr>"
  shows "committed s = in_at s (in_r s) # committed t" and "con_inv t" and "editing t = editing s"
proof -
  show c: "committed s = in_at s (in_r s) # committed t"
    using input_ring.pop [OF assms(2)] assms(3) by (simp add: committed_def in_at_def in_index)
  show e: "editing t = editing s" using assms(3) by (simp add: editing_def)
  have d: "unat (x - (in_r s + 1)) = unat (x - in_r s) - 1" if "x \<noteq> in_r s" for x
    using that unat_minus_one [of "x - in_r s"] by (simp add: algebra_simps)
  have "committed s \<noteq> []" using c by simp
  then have "0 < unat (in_e s - in_r s)" using input_length [OF assms(1)] by simp
  then have "in_e s \<noteq> in_r s" by auto
  then show "con_inv t"
    using assms d [of "in_w s"] d [of "in_e s"] e by (auto simp: con_inv_def cga_ok_def)
qed

lemma consoleread_run_line:
  assumes "con_inv s" and "committed s = l @ 10 # rest" and "10 \<notin> set l" and "4 \<notin> set l" and "int (length l) < n"
  shows "\<exists>t. consoleread_run killed n target dst s = (t, n - int (length l) - 1, dst @ l @ [10], Con_return (target - (n - int (length l) - 1)))
    \<and> con_inv t \<and> committed t = rest \<and> editing t = editing s"
  using assms
proof (induction l arbitrary: n dst s)
  case Nil
  have ne: "in_r s \<noteq> in_w s" using Nil.prems(2) by (auto simp: committed_def)
  note t = take_input [OF Nil.prems(1) ne refl]
  have "in_at s (in_r s) = 10" "committed (s\<lparr>in_r := in_r s + 1\<rparr>) = rest" using t(1) Nil.prems(2) by simp_all
  then show ?case using ne t(2,3) Nil.prems(5) by (simp add: consoleread_run.simps [of _ n] Ctl_def)
next
  case (Cons c l)
  have ne: "in_r s \<noteq> in_w s" using Cons.prems(2) by (auto simp: committed_def)
  note t = take_input [OF Cons.prems(1) ne refl]
  have c: "in_at s (in_r s) = c" and r: "committed (s\<lparr>in_r := in_r s + 1\<rparr>) = l @ 10 # rest" using t(1) Cons.prems(2) by simp_all
  have "c \<noteq> 4" "c \<noteq> 10" using Cons.prems(3,4) by auto
  moreover have "uint c \<noteq> 4" using \<open>c \<noteq> 4\<close> by (auto simp: word_uint_eq_iff)
  ultimately have st: "consoleread_run killed n target dst s = consoleread_run killed (n - 1) target (dst @ [c]) (s\<lparr>in_r := in_r s + 1\<rparr>)"
    using ne c Cons.prems(5) by (subst consoleread_run.simps) (simp add: Ctl_def Let_def)
  have pr: "10 \<notin> set l" "4 \<notin> set l" "int (length l) < n - 1" using Cons.prems(3-5) by auto
  have len: "n - 1 - int (length l) - 1 = n - int (length (c # l)) - 1" by simp
  show ?case using Cons.IH [OF t(2) r pr, of "dst @ [c]"] t(3) unfolding st len by auto
qed

section \<open>Printing numbers\<close>

text \<open>Reading a numeral back, most significant digit first, as \<^verbatim>\<open>atoi\<close> of \<^verbatim>\<open>ulib.c\<close> does for base ten.\<close>

definition digit_value :: "uchar list \<Rightarrow> uchar \<Rightarrow> nat" where
  "digit_value ds c = length (takeWhile (\<lambda>d. d \<noteq> c) ds)"

definition numeral_value :: "uchar list \<Rightarrow> nat \<Rightarrow> uchar list \<Rightarrow> nat" where
  "numeral_value ds base cs = foldl (\<lambda>n c. n * base + digit_value ds c) 0 cs"

lemma digit_value_nth:
  assumes "distinct ds" and "i < length ds"
  shows "digit_value ds (ds ! i) = i"
proof -
  have "takeWhile (\<lambda>d. d \<noteq> ds ! i) ds = take i ds"
    using assms by (intro takeWhile_eq_take_P_nth) (auto simp: nth_eq_iff_index_eq)
  then show ?thesis using assms(2) by (simp add: digit_value_def)
qed

lemma print_digits_value:
  assumes "distinct ds" and "2 \<le> base" and "base \<le> length ds"
  shows "numeral_value ds base (rev (print_digits ds base x)) = x"
proof (induction x rule: less_induct)
  case (less x)
  have d: "digit_value ds (ds ! (x mod base)) = x mod base"
    using assms by (intro digit_value_nth) (auto intro: less_le_trans [OF mod_less_divisor])
  show ?case
  proof (cases "x div base = 0")
    case True
    then show ?thesis using d assms(2) by (simp add: print_digits.simps [of ds base x] numeral_value_def div_eq_0_iff)
  next
    case False
    then have "x div base < x" using assms(2) by (intro div_less_dividend) (auto intro: Nat.gr0I)
    from less.IH [OF this] show ?thesis
      using d False assms(2) by (simp add: print_digits.simps [of ds base x] numeral_value_def mult.commute)
  qed
qed

lemma distinct_digits: "distinct digits" "length digits = 16"
  by (simp_all add: digits_def)

lemma consputc_out:
  assumes "cga_ok s" and "\<not> panicked s" and "uart s"
  obtains t where "consputc (uint (c :: uchar)) s = Done t" and "cga_ok t" and "\<not> panicked t" and "uart t"
    and "uart_out t = uart_out s @ [c]"
proof -
  have "uint c < 256" using uint_bounded [of c] by simp
  then have nb: "uint c \<noteq> BACKSPACE" by (simp add: BACKSPACE_def)
  have "cga_ok (uartputc (uint c) s)" using assms(1) by (simp add: uartputc_def cga_ok_def)
  from cgaputc_ok [OF this, of "uint c"] obtain m p where
    "cgaputc (uint c) (uartputc (uint c) s) = Done ((uartputc (uint c) s)\<lparr>crt := m, crt_pos := p\<rparr>)" "length m = 25 * 80" "p < 24 * 80"
    by blast
  then show thesis
    using assms nb by (intro that [of "(uartputc (uint c) s)\<lparr>crt := m, crt_pos := p\<rparr>"]) (simp_all add: consputc_def cga_ok_def uartputc_def)
qed

lemma consputs_out:
  assumes "cga_ok s" and "\<not> panicked s" and "uart s"
  shows "\<exists>t. consputs cs s = Done t \<and> cga_ok t \<and> \<not> panicked t \<and> uart t \<and> uart_out t = uart_out s @ cs"
  using assms
proof (induction cs arbitrary: s)
  case (Cons c cs)
  obtain u where u: "consputc (uint c) s = Done u" "cga_ok u" "\<not> panicked u" "uart u" "uart_out u = uart_out s @ [c]"
    by (rule consputc_out [OF Cons.prems])
  from Cons.IH [OF u(2-4)] show ?case using u(1,5) by auto
qed simp

section \<open>Properties\<close>

definition cons0 :: cons where
  "cons0 = \<lparr>crt = replicate 2000 0, crt_pos = 0, uart = True, uart_out = [], panicked = False,
     in_buf = replicate INPUT_BUF 0, in_r = 0, in_w = 0, in_e = 0\<rparr>"

lemma con_inv_cons0: "con_inv cons0" "committed cons0 = []" "editing cons0 = []"
  by (simp_all add: cons0_def con_inv_def cga_ok_def editing_def committed_def)

text \<open>
  C18.  The interrupt handler implements the line discipline: whatever is typed, it never panics, keeps the ring within its 128 bytes,
  and the bytes that readers may take and the line being edited are those of the specification, in which backspace and kill
  never reach a committed line.
\<close>

theorem console_refines_line_discipline:
  assumes "con_inv s" and "\<forall>c\<in>set cs. 0 \<le> c \<and> c < 256"
  shows "\<exists>d w t. consoleintr cs False False s = Done (d, w, t) \<and> con_inv t
    \<and> (committed t, editing t) = fold line_char cs (committed s, editing s)"
  by (rule consoleintr_spec [OF assms])

theorem console_refines_line_discipline_witness:
  "\<exists>d w t. consoleintr [97, 98, 8, 99, 13, 100] False False cons0 = Done (d, w, t) \<and> con_inv t
     \<and> committed t = [97, 99, 10] \<and> editing t = [100]"
proof -
  have "fold line_char [97, 98, 8, 99, 13, 100] ([], []) = ([97, 99, 10], [100])"
    by (simp add: line_char_def Ctl_def INPUT_BUF_def)
  then show ?thesis
    using console_refines_line_discipline [OF con_inv_cons0(1), of "[97, 98, 8, 99, 13, 100]"] con_inv_cons0(2,3) by auto
qed

text \<open>
  C35.  A read of the console returns exactly one committed line with its newline when it fits, whatever was typed after it stays for
  the next read, and the line being edited is untouched.
\<close>

theorem consoleread_returns_line:
  assumes "con_inv s" and "committed s = l @ 10 # rest" and "10 \<notin> set l" and "4 \<notin> set l" and "int (length l) < n"
  shows "\<exists>t. consoleread_run killed n n [] s = (t, n - int (length l) - 1, l @ [10], Con_return (int (length l) + 1))
    \<and> con_inv t \<and> committed t = rest \<and> editing t = editing s"
  using consoleread_run_line [OF assms, of killed n "[]"] by simp

theorem consoleread_returns_line_witness:
  "\<exists>s t. con_inv s \<and> consoleread_run False 10 10 [] s = (t, 7, [97, 99, 10], Con_return 3) \<and> committed t = [98, 10]"
proof -
  have "fold line_char [97, 99, 13, 98, 13] ([], []) = ([97, 99, 10, 98, 10], [])"
    by (simp add: line_char_def Ctl_def INPUT_BUF_def)
  then obtain s where s: "con_inv s" "committed s = [97, 99, 10, 98, 10]"
    using consoleintr_spec [OF con_inv_cons0(1), of "[97, 99, 13, 98, 13]" False False] con_inv_cons0(2,3) by auto
  then show ?thesis using consoleread_returns_line [of s "[97, 99]" "[98, 10]" 10 False] by auto
qed

text \<open>
  C36.  What \<^verbatim>\<open>cprintf\<close> prints for a number reads back as that number, for every 32-bit value: in decimal with a minus sign for the
  negative ones, the smallest included, and in hexadecimal as an unsigned number.
\<close>

theorem printint_roundtrip:
  assumes "cga_ok s" and "\<not> panicked s" and "uart s"
  shows "(\<exists>t ds. printint xx 10 True s = Done t
      \<and> uart_out t = uart_out s @ (if sint xx < 0 then [45] else []) @ ds \<and> int (numeral_value digits 10 ds) = abs (sint xx))
    \<and> (\<exists>t ds. printint xx 16 False s = Done t \<and> uart_out t = uart_out s @ ds \<and> numeral_value digits 16 ds = unat xx)"
proof
  define x where "x = (if sint xx < 0 then - xx else xx)"
  have v: "int (unat x) = abs (sint xx)"
  proof (cases "sint xx < 0")
    case True
    then show ?thesis using uint_minus32 [OF True] by (simp add: x_def)
  next
    case False
    then have "sint xx = uint xx" using sint_uint32 [of xx] uint_bounded [of xx] by (simp split: if_splits)
    then show ?thesis using False by (simp add: x_def)
  qed
  let ?ds = "rev (print_digits digits 10 (unat x))"
  have n: "numeral_value digits 10 ?ds = unat x" by (intro print_digits_value) (simp_all add: distinct_digits)
  obtain t where t: "consputs ((if sint xx < 0 then [45] else []) @ ?ds) s = Done t"
    "uart_out t = uart_out s @ (if sint xx < 0 then [45] else []) @ ?ds"
    using consputs_out [OF assms] by blast
  have "printint xx 10 True s = Done t" using t(1) by (simp add: printint_def Let_def x_def split: if_splits)
  then show "\<exists>t ds. printint xx 10 True s = Done t
      \<and> uart_out t = uart_out s @ (if sint xx < 0 then [45] else []) @ ds \<and> int (numeral_value digits 10 ds) = abs (sint xx)"
    using t(2) n v by metis
next
  let ?ds = "rev (print_digits digits 16 (unat xx))"
  have n: "numeral_value digits 16 ?ds = unat xx" by (intro print_digits_value) (simp_all add: distinct_digits)
  obtain t where t: "consputs ?ds s = Done t" "uart_out t = uart_out s @ ?ds"
    using consputs_out [OF assms] by blast
  then show "\<exists>t ds. printint xx 16 False s = Done t \<and> uart_out t = uart_out s @ ds \<and> numeral_value digits 16 ds = unat xx"
    using n by (auto simp: printint_def)
qed

theorem printint_roundtrip_witness:
  "\<exists>t ds. printint 0x80000000 10 True cons0 = Done t \<and> uart_out t = 45 # ds \<and> numeral_value digits 10 ds = 2147483648"
proof -
  have c: "cga_ok cons0" "\<not> panicked cons0" "uart cons0" by (simp_all add: cga_ok_def cons0_def)
  have "sint (0x80000000 :: uint) = - 2147483648" by (simp add: sint_uint32)
  then show ?thesis
    using printint_roundtrip [OF c, THEN conjunct1, of "0x80000000"] by (auto simp: cons0_def)
qed

end
