(* ===== verification/Pipe.thy ===== *)
theory Pipe
  imports Ring
begin

text \<open>
  Pipes (\<^verbatim>\<open>src/xv6/pipe.c\<close>).  Reads and writes hold \<^verbatim>\<open>p->lock\<close> except while they sleep, so a
  call is a sequence of atomic runs: \<open>pipewrite_run\<close> and \<open>piperead_run\<close> execute one run, from the
  start of the call or from a wakeup, up to the next \<^verbatim>\<open>sleep\<close> or to the return.  The value of
  \<^verbatim>\<open>myproc()->killed\<close> that a run reads is an argument of it; the wakeups a run issues are part
  of its result.
\<close>

definition PIPESIZE :: nat where
  "PIPESIZE = 512"

record pipe =
  pipe_data :: "uchar list"
  nread :: uint
  nwrite :: uint
  readopen :: bool
  writeopen :: bool

datatype pipe_chan = Chan_nread | Chan_nwrite

datatype run_end = Sleep pipe_chan | Return int

text \<open>The state \<^verbatim>\<open>pipealloc\<close> gives a new pipe; the data page is whatever \<^verbatim>\<open>kalloc\<close> returned.\<close>

definition pipe_init :: "uchar list \<Rightarrow> pipe" where
  "pipe_init page = \<lparr>pipe_data = page, nread = 0, nwrite = 0, readopen = True, writeopen = True\<rparr>"

text \<open>
  \<^verbatim>\<open>pipeclose\<close>: the result says whether both ends are closed now and the page is freed, and
  which channel is woken.
\<close>

definition pipeclose :: "pipe \<Rightarrow> bool \<Rightarrow> pipe \<times> bool \<times> pipe_chan" where
  "pipeclose p writable =
     (let (p, ch) = (if writable then (p\<lparr>writeopen := False\<rparr>, Chan_nread)
                     else (p\<lparr>readopen := False\<rparr>, Chan_nwrite))
      in (p, \<not> readopen p \<and> \<not> writeopen p, ch))"

text \<open>\<^verbatim>\<open>p->data[p->nwrite++ % PIPESIZE] = c\<close>.\<close>

definition pipe_put :: "pipe \<Rightarrow> uchar \<Rightarrow> pipe" where
  "pipe_put p c =
     p\<lparr>pipe_data := (pipe_data p)[unat (nwrite p mod of_nat PIPESIZE) := c], nwrite := nwrite p + 1\<rparr>"

text \<open>
  One run of \<^verbatim>\<open>pipewrite(p, addr, n)\<close> from loop index \<open>i\<close>: the new pipe, the index reached,
  how the run ends, and the channels woken.
\<close>

function pipewrite_run ::
  "bool \<Rightarrow> pipe \<Rightarrow> (nat \<Rightarrow> uchar) \<Rightarrow> int \<Rightarrow> nat \<Rightarrow> pipe \<times> nat \<times> run_end \<times> pipe_chan list" where
  "pipewrite_run killed p addr n i =
     (if int i < n then
        if nwrite p = nread p + of_nat PIPESIZE then
          if \<not> readopen p \<or> killed then (p, i, Return (- 1), [])
          else (p, i, Sleep Chan_nwrite, [Chan_nread])
        else pipewrite_run killed (pipe_put p (addr i)) addr n (Suc i)
      else (p, i, Return n, [Chan_nread]))"
  by pat_completeness auto
termination
  by (relation "measure (\<lambda>(_, _, _, n, i). nat n - i)") auto

declare pipewrite_run.simps [simp del]

text \<open>The copy loop of \<^verbatim>\<open>piperead\<close>, and one run of the whole call.\<close>

function piperead_copy :: "pipe \<Rightarrow> int \<Rightarrow> uchar list \<Rightarrow> pipe \<times> uchar list" where
  "piperead_copy p n dst =
     (if int (length dst) < n then
        if nread p = nwrite p then (p, dst)
        else piperead_copy (p\<lparr>nread := nread p + 1\<rparr>) n
               (dst @ [pipe_data p ! unat (nread p mod of_nat PIPESIZE)])
      else (p, dst))"
  by pat_completeness auto
termination
  by (relation "measure (\<lambda>(_, n, dst). nat n - length dst)") auto

declare piperead_copy.simps [simp del]

definition piperead_run :: "bool \<Rightarrow> pipe \<Rightarrow> int \<Rightarrow> pipe \<times> uchar list \<times> run_end \<times> pipe_chan list" where
  "piperead_run killed p n =
     (if nread p = nwrite p \<and> writeopen p then
        if killed then (p, [], Return (- 1), []) else (p, [], Sleep Chan_nread, [])
      else let (p', dst) = piperead_copy p n []
           in (p', dst, Return (int (length dst)), [Chan_nwrite]))"

section \<open>The ring buffer of a pipe\<close>

interpretation pipe_ring: ring PIPESIZE
  by unfold_locales (simp_all add: PIPESIZE_def)

definition pipe_contents :: "pipe \<Rightarrow> uchar list" where
  "pipe_contents p = ring_contents PIPESIZE (pipe_data p) (nread p) (nwrite p)"

definition pipe_inv :: "pipe \<Rightarrow> bool" where
  "pipe_inv p \<longleftrightarrow> length (pipe_data p) = PIPESIZE \<and> unat (nwrite p - nread p) \<le> PIPESIZE"

lemma pipe_index: "unat (x mod of_nat PIPESIZE :: uint) = unat x mod PIPESIZE"
  by (simp add: PIPESIZE_def unat_mod)

lemma pipe_full_iff: "nwrite p = nread p + of_nat PIPESIZE \<longleftrightarrow> length (pipe_contents p) = PIPESIZE"
proof -
  have "nwrite p = nread p + of_nat PIPESIZE \<longleftrightarrow> nwrite p - nread p = of_nat PIPESIZE"
    by (simp add: algebra_simps)
  also have "\<dots> \<longleftrightarrow> unat (nwrite p - nread p) = PIPESIZE"
    by (simp add: PIPESIZE_def word_unat_eq_iff)
  finally show ?thesis by (simp add: pipe_contents_def)
qed

lemma pipe_inv_alt: "pipe_inv p \<longleftrightarrow> length (pipe_data p) = PIPESIZE \<and> length (pipe_contents p) \<le> PIPESIZE"
  by (simp add: pipe_inv_def pipe_contents_def)

lemma pipe_put:
  assumes "pipe_inv p" and "nwrite p \<noteq> nread p + of_nat PIPESIZE"
  shows "pipe_contents (pipe_put p c) = pipe_contents p @ [c]" and "pipe_inv (pipe_put p c)"
proof -
  have lt: "unat (nwrite p - nread p) < PIPESIZE"
    using assms(1,2) by (simp add: pipe_full_iff pipe_inv_def pipe_contents_def)
  show c: "pipe_contents (pipe_put p c) = pipe_contents p @ [c]"
    using pipe_ring.push [OF _ lt, of "pipe_data p" c] assms(1)
    by (simp add: pipe_put_def pipe_contents_def pipe_index pipe_inv_def)
  have "length (pipe_contents p) < PIPESIZE" using lt by (simp add: pipe_contents_def)
  moreover have "length (pipe_data (pipe_put p c)) = PIPESIZE"
    using assms(1) by (simp add: pipe_put_def pipe_inv_def)
  ultimately show "pipe_inv (pipe_put p c)" using c by (simp add: pipe_inv_alt)
qed

lemma pipe_get:
  assumes "pipe_inv p" and "nread p \<noteq> nwrite p"
  shows "pipe_contents p = pipe_data p ! unat (nread p mod of_nat PIPESIZE) # pipe_contents (p\<lparr>nread := nread p + 1\<rparr>)"
    and "pipe_inv (p\<lparr>nread := nread p + 1\<rparr>)"
proof -
  show c: "pipe_contents p = pipe_data p ! unat (nread p mod of_nat PIPESIZE) # pipe_contents (p\<lparr>nread := nread p + 1\<rparr>)"
    using pipe_ring.pop [OF assms(2), of "pipe_data p"] by (simp add: pipe_contents_def pipe_index)
  show "pipe_inv (p\<lparr>nread := nread p + 1\<rparr>)"
    using assms(1) c by (simp add: pipe_inv_alt)
qed

section \<open>What a run does\<close>

definition pipe_ends :: "pipe \<Rightarrow> bool \<times> bool" where
  "pipe_ends p = (readopen p, writeopen p)"

lemma pipe_ends_upd [simp]:
  "pipe_ends (pipe_put p c) = pipe_ends p" "pipe_ends (p\<lparr>nread := r\<rparr>) = pipe_ends p"
  by (simp_all add: pipe_ends_def pipe_put_def)

lemma pipewrite_run_spec:
  assumes "pipe_inv p" and "pipewrite_run killed p addr n i = (p', j, e, wk)"
  shows "pipe_inv p' \<and> pipe_contents p' = pipe_contents p @ map addr [i..<j] \<and> i \<le> j
    \<and> pipe_ends p' = pipe_ends p
    \<and> (e = Return n \<and> n \<le> int j \<and> wk = [Chan_nread]
       \<or> int j < n \<and> length (pipe_contents p') = PIPESIZE \<and>
         (if \<not> readopen p \<or> killed then e = Return (- 1) \<and> wk = []
          else e = Sleep Chan_nwrite \<and> wk = [Chan_nread]))"
  using assms
proof (induction killed p addr n i rule: pipewrite_run.induct)
  case (1 killed p addr n i)
  show ?case
  proof (cases "int i < n \<and> nwrite p \<noteq> nread p + of_nat PIPESIZE")
    case True
    note put = pipe_put [OF "1.prems"(1) conjunct2 [OF True], of "addr i"]
    have "pipewrite_run killed (pipe_put p (addr i)) addr n (Suc i) = (p', j, e, wk)"
      using "1.prems"(2) True by (simp add: pipewrite_run.simps [of killed p])
    note IH = "1.IH" [OF conjunct1 [OF True] conjunct2 [OF True] put(2) this]
    then have "[i..<j] = i # [Suc i..<j]" by (simp add: upt_conv_Cons)
    moreover have "readopen (pipe_put p (addr i)) = readopen p" by (simp add: pipe_put_def)
    ultimately show ?thesis using IH put(1) by auto
  next
    case False
    then show ?thesis using "1.prems"
      by (auto simp: pipewrite_run.simps [of killed p] pipe_full_iff split: if_splits)
  qed
qed

lemma piperead_copy_spec:
  assumes "pipe_inv p" and "piperead_copy p n dst = (p', dst')"
  shows "\<exists>k. k = min (nat n - length dst) (length (pipe_contents p))
    \<and> dst' = dst @ take k (pipe_contents p) \<and> pipe_contents p' = drop k (pipe_contents p)
    \<and> pipe_inv p' \<and> pipe_ends p' = pipe_ends p"
  using assms
proof (induction p n dst rule: piperead_copy.induct)
  case (1 p n dst)
  show ?case
  proof (cases "int (length dst) < n \<and> nread p \<noteq> nwrite p")
    case True
    note get = pipe_get [OF "1.prems"(1) conjunct2 [OF True]]
    have "piperead_copy (p\<lparr>nread := nread p + 1\<rparr>) n
        (dst @ [pipe_data p ! unat (nread p mod of_nat PIPESIZE)]) = (p', dst')"
      using "1.prems"(2) True by (simp add: piperead_copy.simps [of p])
    note IH = "1.IH" [OF conjunct1 [OF True] conjunct2 [OF True] get(2) this]
    have "nat n - length dst = Suc (nat n - Suc (length dst))" using True by linarith
    then show ?thesis using IH get(1) by auto
  next
    case False
    then show ?thesis using "1.prems"
      by (auto simp: piperead_copy.simps [of p] pipe_contents_def split: if_splits)
  qed
qed

lemma piperead_run_spec:
  assumes "pipe_inv p" and "piperead_run killed p n = (p', dst, e, wk)"
  shows "dst = take (nat n) (pipe_contents p) \<and> pipe_contents p' = drop (nat n) (pipe_contents p)
      \<and> pipe_inv p' \<and> pipe_ends p' = pipe_ends p
      \<and> (if pipe_contents p = [] \<and> writeopen p
         then e = (if killed then Return (- 1) else Sleep Chan_nread) \<and> wk = []
         else e = Return (int (length dst)) \<and> wk = [Chan_nwrite])"
proof (cases "nread p = nwrite p \<and> writeopen p")
  case True
  then show ?thesis using assms by (auto simp: piperead_run_def pipe_contents_def split: if_splits)
next
  case False
  obtain q d where q: "piperead_copy p n [] = (q, d)" by fastforce
  with assms(2) False have eq: "p' = q" "dst = d" "e = Return (int (length d))" "wk = [Chan_nwrite]"
    by (auto simp: piperead_run_def)
  have "pipe_contents p \<noteq> [] \<or> \<not> writeopen p" using False by (auto simp: pipe_contents_def)
  then show ?thesis using piperead_copy_spec [OF assms(1) q] eq by (auto simp: min_def)
qed

section \<open>All interleavings of readers, writers and closes\<close>

text \<open>
  \<open>pipe_reach p sent recvd\<close>: some interleaving of runs leaves the pipe in state \<open>p\<close>, \<open>sent\<close> lists
  the bytes that writers have stored so far and \<open>recvd\<close> the bytes that readers have taken, both
  in the order in which that happened.
\<close>

inductive pipe_reach :: "pipe \<Rightarrow> uchar list \<Rightarrow> uchar list \<Rightarrow> bool" where
  new_pipe: "length page = PIPESIZE \<Longrightarrow> pipe_reach (pipe_init page) [] []"
| writer_run: "pipe_reach p sent recvd \<Longrightarrow> pipewrite_run killed p addr n i = (p', j, e, wk) \<Longrightarrow>
    pipe_reach p' (sent @ map addr [i..<j]) recvd"
| reader_run: "pipe_reach p sent recvd \<Longrightarrow> piperead_run killed p n = (p', dst, e, wk) \<Longrightarrow>
    pipe_reach p' sent (recvd @ dst)"
| end_close: "pipe_reach p sent recvd \<Longrightarrow> pipeclose p writable = (p', freed, ch) \<Longrightarrow>
    pipe_reach p' sent recvd"

lemma pipeclose_frame:
  "pipeclose p w = (p', freed, ch) \<Longrightarrow> pipe_contents p' = pipe_contents p \<and> pipe_inv p' = pipe_inv p"
  by (auto simp: pipeclose_def pipe_contents_def pipe_inv_def split: if_splits)

lemma pipe_reach_inv:
  "pipe_reach p sent recvd \<Longrightarrow> pipe_inv p \<and> sent = recvd @ pipe_contents p"
proof (induction rule: pipe_reach.induct)
  case (new_pipe page)
  then show ?case by (simp add: pipe_init_def pipe_inv_def pipe_contents_def)
next
  case (writer_run p sent recvd killed addr n i p' j e wk)
  then show ?case using pipewrite_run_spec [of p killed addr n i p' j e wk] by simp
next
  case (reader_run p sent recvd killed n p' dst e wk)
  then show ?case using piperead_run_spec [of p killed n p' dst e wk]
    by (metis append.assoc append_take_drop_id)
next
  case (end_close p sent recvd writable p' freed ch)
  then show ?case using pipeclose_frame by fastforce
qed

section \<open>Properties of pipes\<close>

text \<open>
  C8.  A pipe is a bounded FIFO channel under every interleaving of readers, writers and closes,
  also when the 32-bit counters wrap: the bytes received are exactly the first bytes sent, in
  order, the rest is still in the pipe, and at most \<open>PIPESIZE\<close> bytes are ever buffered.
\<close>

theorem pipe_fifo:
  assumes "pipe_reach p sent recvd"
  shows "sent = recvd @ pipe_contents p \<and> length (pipe_contents p) \<le> PIPESIZE"
  using pipe_reach_inv [OF assms] by (simp add: pipe_inv_alt)

theorem pipe_fifo_witness:
  "\<exists>p. pipe_reach p [7, 8] [7] \<and> [7, 8] = [7] @ pipe_contents p \<and> length (pipe_contents p) \<le> PIPESIZE"
proof -
  let ?p0 = "pipe_init (replicate PIPESIZE 0)"
  let ?a = "\<lambda>i. if i = 0 then 7 else 8 :: uchar"
  let ?p1 = "pipe_put (pipe_put ?p0 7) 8"
  have w: "pipewrite_run False ?p0 ?a 2 0 = (?p1, Suc (Suc 0), Return 2, [Chan_nread])"
    by (simp add: pipewrite_run.simps pipe_put_def pipe_init_def PIPESIZE_def)
  have "pipe_reach ?p1 ([] @ map ?a [0..<Suc (Suc 0)]) []"
    by (rule pipe_reach.writer_run [OF pipe_reach.new_pipe w]) simp
  then have r1: "pipe_reach ?p1 [7, 8] []" by simp
  have r: "piperead_run False ?p1 1 = (?p1\<lparr>nread := 1\<rparr>, [7], Return 1, [Chan_nwrite])"
    by (simp add: piperead_run_def piperead_copy.simps pipe_put_def pipe_init_def PIPESIZE_def)
  have "pipe_reach (?p1\<lparr>nread := 1\<rparr>) [7, 8] ([] @ [7])"
    by (rule pipe_reach.reader_run [OF r1 r])
  then have "pipe_reach (?p1\<lparr>nread := 1\<rparr>) [7, 8] [7]" by simp
  then show ?thesis using pipe_fifo by blast
qed

text \<open>
  C39.  When a read of a positive number of bytes returns 0 (end of file), the write end is closed
  and every byte ever sent has been received; a read that delivers bytes delivers them from the
  front of the pipe and wakes the writers.
\<close>

theorem piperead_end_of_file:
  assumes "pipe_reach p sent recvd" and "piperead_run killed p n = (p', dst, Return r, wk)" and "0 < n"
  shows "(r = 0 \<longrightarrow> \<not> writeopen p \<and> sent = recvd) \<and>
    (0 < r \<longrightarrow> r = int (length dst) \<and> dst = take (nat n) (pipe_contents p) \<and> wk = [Chan_nwrite])"
proof -
  have inv: "pipe_inv p" "sent = recvd @ pipe_contents p" using pipe_reach_inv [OF assms(1)] by auto
  have "nat n \<noteq> 0" using assms(3) by simp
  then show ?thesis using piperead_run_spec [OF inv(1) assms(2)] inv(2) by (auto simp: min_def split: if_splits)
qed

theorem piperead_end_of_file_witness:
  "piperead_run False ((pipe_init (replicate PIPESIZE 0))\<lparr>writeopen := False\<rparr>) 4 =
     ((pipe_init (replicate PIPESIZE 0))\<lparr>writeopen := False\<rparr>, [], Return 0, [Chan_nwrite])
   \<and> \<not> writeopen ((pipe_init (replicate PIPESIZE 0))\<lparr>writeopen := False\<rparr>)"
proof -
  let ?p0 = "pipe_init (replicate PIPESIZE 0)"
  let ?p1 = "?p0\<lparr>writeopen := False\<rparr>"
  have "pipeclose ?p0 True = (?p1, False, Chan_nread)" by (simp add: pipeclose_def pipe_init_def)
  from pipe_reach.end_close [OF pipe_reach.new_pipe this] have "pipe_reach ?p1 [] []" by simp
  moreover have r: "piperead_run False ?p1 4 = (?p1, [], Return 0, [Chan_nwrite])"
    by (simp add: piperead_run_def piperead_copy.simps pipe_init_def)
  ultimately show ?thesis using piperead_end_of_file [of ?p1 "[]" "[]" False 4 ?p1 "[]" 0 "[Chan_nwrite]"] by simp
qed

text \<open>
  A write of \<open>n\<close> bytes that returns \<open>n\<close> has stored all of them; it gives up with \<open>-1\<close> only when
  the pipe is full and its reader is gone or the process killed, and it sleeps only on a full pipe
  and after waking the readers, so no wakeup is missed.
\<close>

theorem pipewrite_outcome:
  assumes "pipe_inv p" and "pipewrite_run killed p addr n i = (p', j, e, wk)" and "0 \<le> n" and "i \<le> nat n"
  shows "pipe_contents p' = pipe_contents p @ map addr [i..<j] \<and>
    (e = Return n \<longrightarrow> j = nat n) \<and>
    (e = Return (- 1) \<longrightarrow> length (pipe_contents p') = PIPESIZE \<and> (\<not> readopen p \<or> killed)) \<and>
    (\<forall>c. e = Sleep c \<longrightarrow> c = Chan_nwrite \<and> length (pipe_contents p') = PIPESIZE \<and> wk = [Chan_nread])"
proof -
  have "j \<le> nat n" using assms(4,2)
  proof (induction killed p addr n i rule: pipewrite_run.induct)
    case (1 killed p addr n i)
    then show ?case by (auto simp: pipewrite_run.simps [of killed p] split: if_splits)
  qed
  then show ?thesis using pipewrite_run_spec [OF assms(1,2)] assms(3) by (auto split: if_splits)
qed

theorem pipewrite_outcome_witness:
  "pipe_contents (pipe_put (pipe_init (replicate PIPESIZE 0)) 5) = [5]"
proof -
  let ?p0 = "pipe_init (replicate PIPESIZE 0)"
  have "pipe_inv ?p0" "pipe_contents ?p0 = []" by (simp_all add: pipe_inv_def pipe_init_def pipe_contents_def)
  moreover have "pipewrite_run False ?p0 (\<lambda>_. 5) 1 0 = (pipe_put ?p0 5, 1, Return 1, [Chan_nread])"
    by (simp add: pipewrite_run.simps pipe_put_def pipe_init_def PIPESIZE_def)
  ultimately show ?thesis
    using pipewrite_outcome [of ?p0 False "\<lambda>_. 5" 1 0 "pipe_put ?p0 5" 1 "Return 1" "[Chan_nread]"] by simp
qed

end
