(* ===== verification/Kernel.thy ===== *)
theory Kernel
  imports FS VM Console Pipe
begin

text \<open>
  The state of the whole kernel: the file system and its caches (\<^verbatim>\<open>FS\<close>), memory (\<^verbatim>\<open>VM\<close>), pipes, the console, the file table
  (\<^verbatim>\<open>src/xv6/file.h\<close>) and the process table (\<^verbatim>\<open>src/xv6/proc.h\<close>).  A pointer to a table entry is its index.  Pipes live in
  pages from \<^verbatim>\<open>kalloc\<close>; they are kept by the address of the page.  One CPU runs: \<open>cur\<close> is \<^verbatim>\<open>myproc()\<close>.
\<close>

section \<open>Trap frames and contexts\<close>

record trapframe =
  tf_edi :: uint
  tf_esi :: uint
  tf_ebp :: uint
  tf_oesp :: uint
  tf_ebx :: uint
  tf_edx :: uint
  tf_ecx :: uint
  tf_eax :: uint
  tf_gs :: ushort
  tf_fs :: ushort
  tf_es :: ushort
  tf_ds :: ushort
  tf_trapno :: uint
  tf_err :: uint
  tf_eip :: uint
  tf_cs :: ushort
  tf_eflags :: uint
  tf_esp :: uint
  tf_ss :: ushort

definition trapframe0 :: trapframe where
  "trapframe0 = \<lparr>tf_edi = 0, tf_esi = 0, tf_ebp = 0, tf_oesp = 0, tf_ebx = 0, tf_edx = 0, tf_ecx = 0, tf_eax = 0,
     tf_gs = 0, tf_fs = 0, tf_es = 0, tf_ds = 0, tf_trapno = 0, tf_err = 0, tf_eip = 0, tf_cs = 0, tf_eflags = 0,
     tf_esp = 0, tf_ss = 0\<rparr>"

text \<open>Where a kernel context resumes: at the start of \<^verbatim>\<open>forkret\<close>, or inside \<^verbatim>\<open>sched\<close>.\<close>

datatype kcode = Forkret | In_sched

record kcontext =
  c_edi :: uint
  c_esi :: uint
  c_ebx :: uint
  c_ebp :: uint
  c_eip :: kcode

section \<open>Processes\<close>

datatype procstate = UNUSED | EMBRYO | SLEEPING | RUNNABLE | RUNNING | ZOMBIE

text \<open>What processes sleep on: \<^verbatim>\<open>chan\<close> is the address of one of these.\<close>

datatype chan = Ch_pipe_nread uint | Ch_pipe_nwrite uint | Ch_proc nat | Ch_ticks | Ch_input | Ch_log | Ch_buf nat | Ch_inode nat

record proc =
  p_sz :: uint
  p_pgdir :: uint
  p_kstack :: uint
  p_state :: procstate
  p_pid :: int
  p_parent :: "nat option"
  p_tf :: trapframe
  p_context :: kcontext
  p_chan :: "chan option"
  p_killed :: bool
  p_ofile :: "nat option list"
  p_cwd :: "nat option"
  p_name :: "uchar list"

definition NPROC :: nat where
  "NPROC = 64"

definition NOFILE :: nat where
  "NOFILE = 16"

definition NFILE :: nat where
  "NFILE = 100"

definition KSTACKSIZE :: uint where
  "KSTACKSIZE = 4096"

section \<open>Open files\<close>

datatype filetype = FD_NONE | FD_PIPE | FD_INODE

record file_s =
  f_type :: filetype
  f_ref :: nat
  f_readable :: bool
  f_writable :: bool
  f_pipe :: uint
  f_ip :: nat
  f_off :: uint

section \<open>The kernel\<close>

record kstate = fstate +
  vm :: kmem
  pipes :: "uint \<Rightarrow> pipe"
  ftable :: "file_s list"
  ptable :: "proc list"
  nextpid :: int
  initproc :: nat
  cur :: nat
  ticks :: uint
  console :: cons

abbreviation proc_at :: "kstate \<Rightarrow> nat \<Rightarrow> proc" where
  "proc_at s p \<equiv> ptable s ! p"

abbreviation myproc :: "kstate \<Rightarrow> proc" where
  "myproc s \<equiv> ptable s ! cur s"

abbreviation file_at :: "kstate \<Rightarrow> nat \<Rightarrow> file_s" where
  "file_at s f \<equiv> ftable s ! f"

definition upd_proc :: "nat \<Rightarrow> (proc \<Rightarrow> proc) \<Rightarrow> kstate \<Rightarrow> kstate" where
  "upd_proc p f s = s\<lparr>ptable := (ptable s)[p := f (ptable s ! p)]\<rparr>"

definition upd_file :: "nat \<Rightarrow> (file_s \<Rightarrow> file_s) \<Rightarrow> kstate \<Rightarrow> kstate" where
  "upd_file i f s = s\<lparr>ftable := (ftable s)[i := f (ftable s ! i)]\<rparr>"

text \<open>A memory operation of \<^verbatim>\<open>VM\<close> or \<^verbatim>\<open>Kalloc\<close>, run on the memory of the kernel.\<close>

definition on_vm :: "(kmem \<Rightarrow> ('a \<times> kmem) outcome) \<Rightarrow> kstate \<Rightarrow> ('a \<times> kstate) outcome" where
  "on_vm f s = obind (f (vm s)) (\<lambda>(x, m). Done (x, s\<lparr>vm := m\<rparr>))"

definition on_vm0 :: "(kmem \<Rightarrow> kmem outcome) \<Rightarrow> kstate \<Rightarrow> kstate outcome" where
  "on_vm0 f s = obind (f (vm s)) (\<lambda>m. Done (s\<lparr>vm := m\<rparr>))"

section \<open>User memory\<close>

text \<open>
  While a process runs, its page table translates the addresses the kernel uses.  An access to a page that is not present, or a
  write to one that is not writable, is a page fault in the kernel, on which \<^verbatim>\<open>trap\<close> panics.
\<close>

definition uread :: "uint \<Rightarrow> kstate \<Rightarrow> uchar outcome" where
  "uread va s =
     (if bit (pte_at (mem (vm s)) (p_pgdir (myproc s)) va) 0
      then Done (ubyte (mem (vm s)) (p_pgdir (myproc s)) va) else Panic ''trap'')"

fun uread_bytes :: "uint \<Rightarrow> nat \<Rightarrow> kstate \<Rightarrow> uchar list outcome" where
  "uread_bytes va 0 s = Done []"
| "uread_bytes va (Suc n) s = obind (uread va s) (\<lambda>c. obind (uread_bytes (va + 1) n s) (\<lambda>cs. Done (c # cs)))"

definition uwrite :: "uint \<Rightarrow> uchar \<Rightarrow> kstate \<Rightarrow> kstate outcome" where
  "uwrite va c s =
     (let m = mem (vm s); d = p_pgdir (myproc s)
      in if bit (pte_at m d va) 0 \<and> bit (pte_at m d va) 1
         then Done (s\<lparr>vm := (vm s)\<lparr>mem := m(upage m d va + (va AND 0xFFF) := c)\<rparr>\<rparr>) else Panic ''trap'')"

fun uwrite_bytes :: "uint \<Rightarrow> uchar list \<Rightarrow> kstate \<Rightarrow> kstate outcome" where
  "uwrite_bytes va [] s = Done s"
| "uwrite_bytes va (c # cs) s = obind (uwrite va c s) (uwrite_bytes (va + 1) cs)"

end
