(* ===== verification/Sched.thy ===== *)
theory Sched
  imports Kernel Locks
begin

text \<open>
  Scheduling, sleep and wakeup (\<^verbatim>\<open>src/xv6/proc.c\<close>).  Each operation holds \<^verbatim>\<open>ptable.lock\<close> from start to end, or up to the
  context switch in \<^verbatim>\<open>sched\<close>, and is one step of the process table.
\<close>

section \<open>The process table\<close>

definition wakeup1_tab :: "chan \<Rightarrow> proc list \<Rightarrow> proc list" where
  "wakeup1_tab ch ps =
     map (\<lambda>p. if p_state p = SLEEPING \<and> p_chan p = Some ch then p\<lparr>p_state := RUNNABLE\<rparr> else p) ps"

definition wakeup1 :: "chan \<Rightarrow> kstate \<Rightarrow> kstate" where
  "wakeup1 ch s = s\<lparr>ptable := wakeup1_tab ch (ptable s)\<rparr>"

definition wakeup :: "chan \<Rightarrow> kstate \<Rightarrow> kstate" where
  "wakeup ch s = wakeup1 ch s"

definition kill :: "int \<Rightarrow> kstate \<Rightarrow> int \<times> kstate" where
  "kill pid s =
     (case find (\<lambda>p. p_pid (proc_at s p) = pid) [0..<NPROC] of
        Some p \<Rightarrow>
          (0, upd_proc p (\<lambda>q. let q = q\<lparr>p_killed := True\<rparr>
                              in if p_state q = SLEEPING then q\<lparr>p_state := RUNNABLE\<rparr> else q) s)
      | None \<Rightarrow> (- 1, s))"

text \<open>
  The checks \<^verbatim>\<open>sched\<close> makes before it switches to the scheduler, on CPU \<open>me\<close> in state \<open>c\<close> with the process table's lock \<open>lk\<close>; the switch
  saves and restores \<^verbatim>\<open>intena\<close>.
\<close>

definition sched :: "nat \<Rightarrow> spinlock \<Rightarrow> cpu \<Rightarrow> proc \<Rightarrow> cpu outcome" where
  "sched me lk c p =
     obind (holding me lk c) (\<lambda>(r, c).
       if \<not> r then Panic ''sched ptable.lock''
       else if ncli c \<noteq> 1 then Panic ''sched locks''
       else if p_state p = RUNNING then Panic ''sched running''
       else if fl_if c then Panic ''sched interruptible''
       else Done c)"

text \<open>The state in which \<^verbatim>\<open>sleep\<close> and \<^verbatim>\<open>yield\<close> enter \<^verbatim>\<open>sched\<close>, and what \<^verbatim>\<open>sleep\<close> does when it comes back.\<close>

definition sleep_enter :: "chan \<Rightarrow> kstate \<Rightarrow> kstate" where
  "sleep_enter ch s = upd_proc (cur s) (\<lambda>p. p\<lparr>p_chan := Some ch, p_state := SLEEPING, p_context := (p_context p)\<lparr>c_eip := In_sched\<rparr>\<rparr>) s"

definition sleep_resume :: "kstate \<Rightarrow> kstate" where
  "sleep_resume s = upd_proc (cur s) (\<lambda>p. p\<lparr>p_chan := None\<rparr>) s"

definition yield :: "kstate \<Rightarrow> kstate" where
  "yield s = upd_proc (cur s) (\<lambda>p. p\<lparr>p_state := RUNNABLE, p_context := (p_context p)\<lparr>c_eip := In_sched\<rparr>\<rparr>) s"

text \<open>The scheduler's loop from slot \<open>i\<close> on: the next runnable process of this pass, and switching to it.\<close>

definition scheduler_next :: "nat \<Rightarrow> kstate \<Rightarrow> nat option" where
  "scheduler_next i s = find (\<lambda>p. p_state (proc_at s p) = RUNNABLE) [i..<NPROC]"

definition scheduler_switch :: "nat \<Rightarrow> kstate \<Rightarrow> kstate" where
  "scheduler_switch p s = (upd_proc p (\<lambda>q. q\<lparr>p_state := RUNNING\<rparr>) s)\<lparr>cur := p, curpid := p_pid (proc_at s p)\<rparr>"

end
