(* ===== verification/File.thy ===== *)
theory File
  imports Sched
begin

text \<open>
  Open files (\<^verbatim>\<open>src/xv6/file.c\<close>), the allocation and closing of pipes (\<^verbatim>\<open>src/xv6/pipe.c\<close>) and the console as a device
  (\<^verbatim>\<open>consoleread\<close> and \<^verbatim>\<open>consolewrite\<close> of \<^verbatim>\<open>src/xv6/console.c\<close>).  A call that has to sleep is \<open>Block\<close>; the theories of pipes and
  of the console describe what it did before.  \<open>addr\<close> is an address in the memory of the calling process.
\<close>

section \<open>The console device\<close>

definition consoleread :: "nat \<Rightarrow> uint \<Rightarrow> kstate \<Rightarrow> (int \<times> uchar list \<times> kstate) outcome" where
  "consoleread ip n s =
     obind (iunlock ip s) (\<lambda>s.
       case consoleread_run (p_killed (myproc s)) (sint n) (sint n) [] (console s) of
         (c, _, dst, Con_return r) \<Rightarrow> obind (ilock ip (s\<lparr>console := c\<rparr>)) (\<lambda>s. Done (r, dst, s))
       | (c, _, dst, Con_sleep) \<Rightarrow> Block)"

definition consolewrite :: "nat \<Rightarrow> uchar list \<Rightarrow> uint \<Rightarrow> kstate \<Rightarrow> (int \<times> kstate) outcome" where
  "consolewrite ip buf n s =
     obind (iunlock ip s) (\<lambda>s.
       obind (consolewrite_out buf (sint n) (console s)) (\<lambda>c.
         obind (ilock ip (s\<lparr>console := c\<rparr>)) (\<lambda>s. Done (sint n, s))))"

definition CONSOLE :: nat where
  "CONSOLE = 1"

text \<open>\<^verbatim>\<open>devsw\<close> as \<^verbatim>\<open>consoleinit\<close> leaves it.\<close>

definition devsw :: "kstate devsw" where
  "devsw major = (if major = CONSOLE then (Some consoleread, Some consolewrite) else (None, None))"

section \<open>The file table\<close>

definition filealloc :: "kstate \<Rightarrow> nat option \<times> kstate" where
  "filealloc s =
     (case find (\<lambda>f. f_ref (file_at s f) = 0) [0..<NFILE] of
        Some f \<Rightarrow> (Some f, upd_file f (\<lambda>x. x\<lparr>f_ref := 1\<rparr>) s)
      | None \<Rightarrow> (None, s))"

definition filedup :: "nat \<Rightarrow> kstate \<Rightarrow> (nat \<times> kstate) outcome" where
  "filedup f s =
     (if f_ref (file_at s f) < 1 then Panic ''filedup''
      else Done (f, upd_file f (\<lambda>x. x\<lparr>f_ref := f_ref x + 1\<rparr>) s))"

definition wake_pipe :: "uint \<Rightarrow> pipe_chan list \<Rightarrow> kstate \<Rightarrow> kstate" where
  "wake_pipe p chs s =
     fold (\<lambda>ch. wakeup (case ch of Chan_nread \<Rightarrow> Ch_pipe_nread p | Chan_nwrite \<Rightarrow> Ch_pipe_nwrite p)) chs s"

definition pipe_close :: "uint \<Rightarrow> bool \<Rightarrow> kstate \<Rightarrow> kstate outcome" where
  "pipe_close p writable s =
     (let (q, both, ch) = pipeclose (pipes s p) writable;
          s = wake_pipe p [ch] (s\<lparr>pipes := (pipes s)(p := q)\<rparr>)
      in if both then on_vm0 (kfree p) s else Done s)"

definition fileclose :: "nat \<Rightarrow> kstate \<Rightarrow> kstate outcome" where
  "fileclose f s =
     (if f_ref (file_at s f) < 1 then Panic ''fileclose''
      else let s = upd_file f (\<lambda>x. x\<lparr>f_ref := f_ref x - 1\<rparr>) s
           in if 0 < f_ref (file_at s f) then Done s
              else let ff = file_at s f;
                       s = upd_file f (\<lambda>x. x\<lparr>f_ref := 0, f_type := FD_NONE\<rparr>) s
                   in case f_type ff of
                        FD_PIPE \<Rightarrow> pipe_close (f_pipe ff) (f_writable ff) s
                      | FD_INODE \<Rightarrow> obind (begin_op s) (\<lambda>s. obind (iput (f_ip ff) s) end_op)
                      | FD_NONE \<Rightarrow> Done s)"

definition filestat :: "nat \<Rightarrow> kstate \<Rightarrow> (int \<times> stat option \<times> kstate) outcome" where
  "filestat f s =
     (if f_type (file_at s f) = FD_INODE
      then obind (ilock (f_ip (file_at s f)) s) (\<lambda>s.
             let st = stati (f_ip (file_at s f)) s
             in obind (iunlock (f_ip (file_at s f)) s) (\<lambda>s. Done (0, Some st, s)))
      else Done (- 1, None, s))"

section \<open>Reading and writing\<close>

definition piperead :: "uint \<Rightarrow> uint \<Rightarrow> int \<Rightarrow> kstate \<Rightarrow> (int \<times> kstate) outcome" where
  "piperead p addr n s =
     (case piperead_run (p_killed (myproc s)) (pipes s p) n of
        (q, dst, Return r, chs) \<Rightarrow>
          obind (uwrite_bytes addr dst (s\<lparr>pipes := (pipes s)(p := q)\<rparr>)) (\<lambda>s. Done (r, wake_pipe p chs s))
      | (q, dst, Sleep _, chs) \<Rightarrow> Block)"

definition pipewrite :: "uint \<Rightarrow> uint \<Rightarrow> int \<Rightarrow> kstate \<Rightarrow> (int \<times> kstate) outcome" where
  "pipewrite p addr n s =
     obind (uread_bytes addr (nat n) s) (\<lambda>src.
       case pipewrite_run (p_killed (myproc s)) (pipes s p) (\<lambda>i. src ! i) n 0 of
         (q, i, Return r, chs) \<Rightarrow> Done (r, wake_pipe p chs (s\<lparr>pipes := (pipes s)(p := q)\<rparr>))
       | (q, i, Sleep _, chs) \<Rightarrow> Block)"

definition fileread :: "nat \<Rightarrow> uint \<Rightarrow> int \<Rightarrow> kstate \<Rightarrow> (int \<times> kstate) outcome" where
  "fileread f addr n s =
     (let ff = file_at s f
      in if \<not> f_readable ff then Done (- 1, s)
         else case f_type ff of
                FD_PIPE \<Rightarrow> piperead (f_pipe ff) addr n s
              | FD_INODE \<Rightarrow>
                  obind (ilock (f_ip ff) s) (\<lambda>s.
                    obind (readi devsw (f_ip ff) (f_off (file_at s f)) (word_of_int n) s) (\<lambda>(r, dst, s).
                      obind (uwrite_bytes addr dst s) (\<lambda>s.
                        let s = (if 0 < r then upd_file f (\<lambda>x. x\<lparr>f_off := f_off x + word_of_int r\<rparr>) s else s)
                        in obind (iunlock (f_ip ff) s) (\<lambda>s. Done (r, s)))))
              | FD_NONE \<Rightarrow> Panic ''fileread'')"

definition filewrite_max :: int where
  "filewrite_max = (int MAXOPBLOCKS - 1 - 1 - 2) div 2 * 512"

text \<open>One turn of the loop of \<^verbatim>\<open>filewrite\<close>: a transaction that writes \<open>n1\<close> bytes.\<close>

definition filewrite_chunk :: "nat \<Rightarrow> uint \<Rightarrow> int \<Rightarrow> kstate \<Rightarrow> (int \<times> kstate) outcome" where
  "filewrite_chunk f addr n1 s =
     obind (begin_op s) (\<lambda>s.
       obind (ilock (f_ip (file_at s f)) s) (\<lambda>s.
         obind (uread_bytes addr (nat n1) s) (\<lambda>src.
           obind (writei devsw (f_ip (file_at s f)) src (f_off (file_at s f)) (word_of_int n1) s) (\<lambda>(r, s).
             let s = (if 0 < r then upd_file f (\<lambda>x. x\<lparr>f_off := f_off x + word_of_int r\<rparr>) s else s)
             in obind (iunlock (f_ip (file_at s f)) s) (\<lambda>s.
                  obind (end_op s) (\<lambda>s. Done (r, s)))))))"

function filewrite_loop :: "nat \<Rightarrow> uint \<Rightarrow> int \<Rightarrow> int \<Rightarrow> kstate \<Rightarrow> (int \<times> kstate) outcome" where
  "filewrite_loop f addr i n s =
     (if i < n
      then obind (filewrite_chunk f (addr + word_of_int i) (min (n - i) filewrite_max) s) (\<lambda>(r, s).
             if r < 0 then Done (i, s)
             else if r \<noteq> min (n - i) filewrite_max then Panic ''short filewrite''
             else filewrite_loop f addr (i + min (n - i) filewrite_max) n s)
      else Done (i, s))"
  by pat_completeness auto
termination by (relation "measure (\<lambda>(f, addr, i, n, s). nat (n - i))") (auto simp: filewrite_max_def MAXOPBLOCKS_def)

declare filewrite_loop.simps [simp del]

definition filewrite :: "nat \<Rightarrow> uint \<Rightarrow> int \<Rightarrow> kstate \<Rightarrow> (int \<times> kstate) outcome" where
  "filewrite f addr n s =
     (let ff = file_at s f
      in if \<not> f_writable ff then Done (- 1, s)
         else case f_type ff of
                FD_PIPE \<Rightarrow> pipewrite (f_pipe ff) addr n s
              | FD_INODE \<Rightarrow> obind (filewrite_loop f addr 0 n s) (\<lambda>(i, s). Done (if i = n then n else - 1, s))
              | FD_NONE \<Rightarrow> Panic ''filewrite'')"

section \<open>Creating a pipe\<close>

text \<open>The page's old contents are the initial contents of \<^verbatim>\<open>p->data\<close>, which follows the 52-byte lock.\<close>

definition pipealloc_init :: "uint \<Rightarrow> nat \<Rightarrow> nat \<Rightarrow> kstate \<Rightarrow> kstate" where
  "pipealloc_init p f0 f1 s =
     (let page = map (\<lambda>i. mem (vm s) (p + 52 + of_nat i)) [0..<PIPESIZE];
          s = s\<lparr>pipes := (pipes s)(p := pipe_init page)\<rparr>;
          s = upd_file f0 (\<lambda>x. x\<lparr>f_type := FD_PIPE, f_readable := True, f_writable := False, f_pipe := p\<rparr>) s
      in upd_file f1 (\<lambda>x. x\<lparr>f_type := FD_PIPE, f_readable := False, f_writable := True, f_pipe := p\<rparr>) s)"

definition pipealloc_bad :: "nat option \<Rightarrow> nat option \<Rightarrow> kstate \<Rightarrow> kstate outcome" where
  "pipealloc_bad f0 f1 s =
     obind (case f0 of Some f \<Rightarrow> fileclose f s | None \<Rightarrow> Done s) (\<lambda>s.
       case f1 of Some f \<Rightarrow> fileclose f s | None \<Rightarrow> Done s)"

definition pipealloc :: "kstate \<Rightarrow> ((nat \<times> nat) option \<times> kstate) outcome" where
  "pipealloc s =
     (let (f0, s) = filealloc s
      in case f0 of
           None \<Rightarrow> obind (pipealloc_bad None None s) (\<lambda>s. Done (None, s))
         | Some a \<Rightarrow>
             let (f1, s) = filealloc s
             in case f1 of
                  None \<Rightarrow> obind (pipealloc_bad f0 None s) (\<lambda>s. Done (None, s))
                | Some b \<Rightarrow>
                    let (p, m) = kalloc (vm s);
                        s = s\<lparr>vm := m\<rparr>
                    in if p = 0 then obind (pipealloc_bad f0 f1 s) (\<lambda>s. Done (None, s))
                       else Done (Some (a, b), pipealloc_init p a b s))"

end
