(* ===== verification/Proc.thy ===== *)
theory Proc
  imports File
begin

text \<open>
  The life of a process (\<^verbatim>\<open>src/xv6/proc.c\<close>): allocation, the first process, growing, \<^verbatim>\<open>fork\<close>, \<^verbatim>\<open>exit\<close> and \<^verbatim>\<open>wait\<close>.  The trap frame and the saved
  context, which the code keeps at the top of the kernel stack page, are fields of the process.
\<close>

section \<open>Names\<close>

text \<open>\<^verbatim>\<open>safestrcpy(dst, src, 16)\<close> on the 16-byte name of a process.\<close>

definition name_safestrcpy :: "uchar list \<Rightarrow> uchar list \<Rightarrow> uchar list" where
  "name_safestrcpy dst src =
     (let p = take 15 (takeWhile (\<lambda>c. c \<noteq> 0) src) in p @ 0 # drop (length p + 1) dst)"

section \<open>Allocation\<close>

definition allocproc :: "kstate \<Rightarrow> nat option \<times> kstate" where
  "allocproc s =
     (case find (\<lambda>p. p_state (proc_at s p) = UNUSED) [0..<NPROC] of
        None \<Rightarrow> (None, s)
      | Some p \<Rightarrow>
          let s = upd_proc p (\<lambda>q. q\<lparr>p_state := EMBRYO, p_pid := nextpid s\<rparr>) s;
              s = s\<lparr>nextpid := nextpid s + 1\<rparr>;
              (k, m) = kalloc (vm s);
              s = upd_proc p (\<lambda>q. q\<lparr>p_kstack := k\<rparr>) (s\<lparr>vm := m\<rparr>)
          in if k = 0 then (None, upd_proc p (\<lambda>q. q\<lparr>p_state := UNUSED\<rparr>) s)
             else (Some p, upd_proc p (\<lambda>q. q\<lparr>p_context := \<lparr>c_edi = 0, c_esi = 0, c_ebx = 0, c_ebp = 0, c_eip = Forkret\<rparr>\<rparr>) s))"

text \<open>\<^verbatim>\<open>switchuvm\<close> of \<^verbatim>\<open>vm.c\<close>: its checks; loading the task state and CR3 makes the process's page table current.\<close>

definition switchuvm :: "nat \<Rightarrow> kstate \<Rightarrow> kstate outcome" where
  "switchuvm p s =
     (if p_kstack (proc_at s p) = 0 then Panic ''switchuvm: no kstack''
      else if p_pgdir (proc_at s p) = 0 then Panic ''switchuvm: no pgdir''
      else Done s)"

definition SEG_UCODE :: ushort where
  "SEG_UCODE = 3"

definition SEG_UDATA :: ushort where
  "SEG_UDATA = 4"

definition DPL_USER :: ushort where
  "DPL_USER = 3"

definition FL_IF :: uint where
  "FL_IF = 0x200"

definition user_frame :: trapframe where
  "user_frame =
     (let d = push_bit 3 SEG_UDATA OR DPL_USER
      in trapframe0\<lparr>tf_cs := push_bit 3 SEG_UCODE OR DPL_USER, tf_ds := d, tf_es := d, tf_ss := d,
           tf_eflags := FL_IF, tf_esp := PGSIZE, tf_eip := 0\<rparr>)"

text \<open>\<open>init\<close> and \<open>isz\<close> are the linker symbols for the initial program.  The root directory is the first path looked up.\<close>

definition userinit :: "uint \<Rightarrow> uint \<Rightarrow> kstate \<Rightarrow> kstate outcome" where
  "userinit init isz s =
     (let (np, s) = allocproc s
      in case np of
           None \<Rightarrow> Panic ''undefined: null proc''
         | Some p \<Rightarrow>
             obind (on_vm setupkvm (s\<lparr>initproc := p\<rparr>)) (\<lambda>(d, s).
               if d = 0 then Panic ''userinit: out of memory?''
               else obind (on_vm0 (inituvm d init isz) s) (\<lambda>s.
                 let s = upd_proc p (\<lambda>q. q\<lparr>p_pgdir := d, p_sz := PGSIZE, p_tf := user_frame,
                           p_name := name_safestrcpy (p_name q) (bytes ''initcode'')\<rparr>) s
                 in obind (namei devsw 0 [slash] s) (\<lambda>(ip, s).
                      Done (upd_proc p (\<lambda>q. q\<lparr>p_cwd := ip, p_state := RUNNABLE\<rparr>) s)))))"

section \<open>Growing\<close>

definition growproc :: "int \<Rightarrow> kstate \<Rightarrow> (int \<times> kstate) outcome" where
  "growproc n s =
     (let sz = p_sz (myproc s); d = p_pgdir (myproc s)
      in obind (if 0 < n then on_vm (allocuvm d sz (sz + word_of_int n)) s
                else if n < 0 then on_vm (deallocuvm d sz (sz + word_of_int n)) s
                else Done (sz, s)) (\<lambda>(sz, s).
           if n \<noteq> 0 \<and> sz = 0 then Done (- 1, s)
           else obind (switchuvm (cur s) (upd_proc (cur s) (\<lambda>q. q\<lparr>p_sz := sz\<rparr>) s)) (\<lambda>s. Done (0, s))))"

section \<open>Fork\<close>

fun fork_files :: "nat \<Rightarrow> nat \<Rightarrow> nat \<Rightarrow> kstate \<Rightarrow> kstate outcome" where
  "fork_files np i 0 s = Done s"
| "fork_files np i (Suc k) s =
     (case p_ofile (myproc s) ! i of
        Some f \<Rightarrow> obind (filedup f s) (\<lambda>(f, s). fork_files np (Suc i) k (upd_proc np (\<lambda>q. q\<lparr>p_ofile := (p_ofile q)[i := Some f]\<rparr>) s))
      | None \<Rightarrow> fork_files np (Suc i) k s)"

definition fork_cwd :: "nat \<Rightarrow> kstate \<Rightarrow> kstate outcome" where
  "fork_cwd np s =
     (case p_cwd (myproc s) of
        Some ip \<Rightarrow> (let (ip, s) = idup ip s in Done (upd_proc np (\<lambda>q. q\<lparr>p_cwd := Some ip\<rparr>) s))
      | None \<Rightarrow> Panic ''undefined: null inode'')"

definition fork :: "kstate \<Rightarrow> (int \<times> kstate) outcome" where
  "fork s =
     (let (np, s) = allocproc s
      in case np of
           None \<Rightarrow> Done (- 1, s)
         | Some np \<Rightarrow>
             obind (on_vm (copyuvm (p_pgdir (myproc s)) (p_sz (myproc s))) s) (\<lambda>(d, s).
               if d = 0
               then obind (on_vm0 (kfree (p_kstack (proc_at s np))) s) (\<lambda>s.
                      Done (- 1, upd_proc np (\<lambda>q. q\<lparr>p_pgdir := 0, p_kstack := 0, p_state := UNUSED\<rparr>) s))
               else let c = myproc s;
                        s = upd_proc np (\<lambda>q. q\<lparr>p_pgdir := d, p_sz := p_sz c, p_parent := Some (cur s), p_tf := (p_tf c)\<lparr>tf_eax := 0\<rparr>\<rparr>) s
                    in obind (fork_files np 0 NOFILE s) (\<lambda>s.
                         obind (fork_cwd np s) (\<lambda>s.
                           let s = upd_proc np (\<lambda>q. q\<lparr>p_name := name_safestrcpy (p_name q) (p_name (myproc s))\<rparr>) s;
                               pid = p_pid (proc_at s np)
                           in Done (pid, upd_proc np (\<lambda>q. q\<lparr>p_state := RUNNABLE\<rparr>) s)))))"

section \<open>Exit\<close>

fun exit_files :: "nat \<Rightarrow> nat \<Rightarrow> kstate \<Rightarrow> kstate outcome" where
  "exit_files fd 0 s = Done s"
| "exit_files fd (Suc k) s =
     (case p_ofile (myproc s) ! fd of
        Some f \<Rightarrow> obind (fileclose f s) (\<lambda>s. exit_files (Suc fd) k (upd_proc (cur s) (\<lambda>q. q\<lparr>p_ofile := (p_ofile q)[fd := None]\<rparr>) s))
      | None \<Rightarrow> exit_files (Suc fd) k s)"

definition exit_cwd :: "kstate \<Rightarrow> kstate outcome" where
  "exit_cwd s =
     obind (begin_op s) (\<lambda>s.
       obind (case p_cwd (myproc s) of Some ip \<Rightarrow> iput ip s | None \<Rightarrow> Panic ''undefined: null inode'') (\<lambda>s.
         obind (end_op s) (\<lambda>s. Done (upd_proc (cur s) (\<lambda>q. q\<lparr>p_cwd := None\<rparr>) s))))"

text \<open>The part under \<^verbatim>\<open>ptable.lock\<close>: wake the parent, hand the children to \<^verbatim>\<open>init\<close>, become a zombie.\<close>

fun exit_reparent :: "nat \<Rightarrow> nat \<Rightarrow> nat \<Rightarrow> nat \<Rightarrow> proc list \<Rightarrow> proc list" where
  "exit_reparent me init p 0 ps = ps"
| "exit_reparent me init p (Suc k) ps =
     (if p_parent (ps ! p) = Some me
      then let ps = ps[p := (ps ! p)\<lparr>p_parent := Some init\<rparr>];
               ps = (if p_state (ps ! p) = ZOMBIE then wakeup1_tab (Ch_proc init) ps else ps)
           in exit_reparent me init (Suc p) k ps
      else exit_reparent me init (Suc p) k ps)"

definition exit_tab :: "nat \<Rightarrow> nat \<Rightarrow> proc list \<Rightarrow> proc list" where
  "exit_tab me init ps =
     (let ps = (case p_parent (ps ! me) of Some q \<Rightarrow> wakeup1_tab (Ch_proc q) ps | None \<Rightarrow> ps);
          ps = exit_reparent me init 0 NPROC ps
      in ps[me := (ps ! me)\<lparr>p_state := ZOMBIE\<rparr>])"

definition exit :: "kstate \<Rightarrow> kstate outcome" where
  "exit s =
     (if cur s = initproc s then Panic ''init exiting''
      else obind (exit_files 0 NOFILE s) (\<lambda>s.
        obind (exit_cwd s) (\<lambda>s.
          Done (s\<lparr>ptable := exit_tab (cur s) (initproc s) (ptable s)\<rparr>))))"

section \<open>Wait\<close>

text \<open>The scan of \<^verbatim>\<open>wait\<close>: whether there are children, and the first one that is a zombie.\<close>

definition wait_scan :: "nat \<Rightarrow> proc list \<Rightarrow> bool \<times> nat option" where
  "wait_scan me ps =
     (\<exists>p\<in>set ps. p_parent p = Some me,
      find (\<lambda>p. p_parent (ps ! p) = Some me \<and> p_state (ps ! p) = ZOMBIE) [0..<length ps])"

definition wait_reap :: "nat \<Rightarrow> kstate \<Rightarrow> (int \<times> kstate) outcome" where
  "wait_reap p s =
     (let pid = p_pid (proc_at s p)
      in obind (on_vm0 (kfree (p_kstack (proc_at s p))) s) (\<lambda>s.
           obind (on_vm0 (freevm (p_pgdir (proc_at s p))) s) (\<lambda>s.
             Done (pid, upd_proc p (\<lambda>q. q\<lparr>p_kstack := 0, p_pid := 0, p_parent := None, p_name := (p_name q)[0 := 0],
                                   p_killed := False, p_state := UNUSED\<rparr>) s))))"

definition wait :: "kstate \<Rightarrow> (int \<times> kstate) outcome" where
  "wait s =
     (case wait_scan (cur s) (ptable s) of
        (_, Some p) \<Rightarrow> wait_reap p s
      | (havekids, None) \<Rightarrow> if \<not> havekids \<or> p_killed (myproc s) then Done (- 1, s) else Block)"

section \<open>The first scheduling of a process\<close>

definition forkret :: "bool \<Rightarrow> kstate \<Rightarrow> (bool \<times> kstate) outcome" where
  "forkret first s =
     (if first then obind (iinit ROOTDEV s) (\<lambda>s. obind (initlog ROOTDEV s) (\<lambda>s. Done (False, s))) else Done (first, s))"

end
