(* ===== verification/Syscall.thy ===== *)
theory Syscall
  imports Proc
begin

text \<open>
  Fetching the arguments of a system call from the memory of the calling process (\<^verbatim>\<open>src/xv6/syscall.c\<close>), and the system calls
  about processes (\<^verbatim>\<open>src/xv6/sysproc.c\<close>).  A fetch that fails is \<open>None\<close>.  A string argument is delivered as its bytes.
\<close>

section \<open>Arguments\<close>

definition fetchint :: "uint \<Rightarrow> kstate \<Rightarrow> uint option outcome" where
  "fetchint addr s =
     (if p_sz (myproc s) \<le> addr \<or> p_sz (myproc s) < addr + 4 then Done None
      else obind (uread_bytes addr 4 s) (\<lambda>bs. Done (Some (get32 0 bs))))"

fun fetchstr_loop :: "nat \<Rightarrow> uint \<Rightarrow> uchar list \<Rightarrow> kstate \<Rightarrow> uchar list option outcome" where
  "fetchstr_loop 0 va acc s = Done None"
| "fetchstr_loop (Suc k) va acc s =
     obind (uread va s) (\<lambda>c. if c = 0 then Done (Some acc) else fetchstr_loop k (va + 1) (acc @ [c]) s)"

text \<open>The loop from \<^verbatim>\<open>addr\<close> to \<^verbatim>\<open>ep\<close> runs at most \<^verbatim>\<open>ep - addr\<close> times.\<close>

definition fetchstr :: "uint \<Rightarrow> kstate \<Rightarrow> uchar list option outcome" where
  "fetchstr addr s =
     (if p_sz (myproc s) \<le> addr then Done None
      else fetchstr_loop (unat (p_sz (myproc s) - addr)) addr [] s)"

definition argint :: "uint \<Rightarrow> kstate \<Rightarrow> uint option outcome" where
  "argint n s = fetchint (tf_esp (p_tf (myproc s)) + 4 + 4 * n) s"

definition argptr :: "uint \<Rightarrow> int \<Rightarrow> kstate \<Rightarrow> uint option outcome" where
  "argptr n sz s =
     obind (argint n s) (\<lambda>r.
       case r of
         None \<Rightarrow> Done None
       | Some i \<Rightarrow> if sz < 0 \<or> p_sz (myproc s) \<le> i \<or> p_sz (myproc s) < i + word_of_int sz then Done None else Done (Some i))"

definition argstr :: "uint \<Rightarrow> kstate \<Rightarrow> uchar list option outcome" where
  "argstr n s =
     obind (argint n s) (\<lambda>r. case r of None \<Rightarrow> Done None | Some addr \<Rightarrow> fetchstr addr s)"

text \<open>The common shape of a handler: \<^verbatim>\<open>if(arg... < 0) return -1;\<close>.\<close>

definition with_arg :: "'b option outcome \<Rightarrow> kstate \<Rightarrow> ('b \<Rightarrow> (int \<times> kstate) outcome) \<Rightarrow> (int \<times> kstate) outcome" where
  "with_arg r s f = obind r (\<lambda>x. case x of None \<Rightarrow> Done (- 1, s) | Some v \<Rightarrow> f v)"

section \<open>Process system calls\<close>

type_synonym sys = "kstate \<Rightarrow> (int \<times> kstate) outcome"

definition sys_fork :: sys where
  "sys_fork s = fork s"

definition sys_exit :: sys where
  "sys_exit s = obind (exit s) (\<lambda>s. Done (0, s))"

definition sys_wait :: sys where
  "sys_wait s = wait s"

definition sys_kill :: sys where
  "sys_kill s = with_arg (argint 0 s) s (\<lambda>pid. Done (kill (sint pid) s))"

definition sys_getpid :: sys where
  "sys_getpid s = Done (p_pid (myproc s), s)"

definition sys_sbrk :: sys where
  "sys_sbrk s =
     with_arg (argint 0 s) s (\<lambda>n.
       let addr = sint (p_sz (myproc s))
       in obind (growproc (sint n) s) (\<lambda>(r, s). if r < 0 then Done (- 1, s) else Done (addr, s)))"

text \<open>
  \<^verbatim>\<open>sys_sleep\<close> from its start or from a wakeup: \<^verbatim>\<open>ticks - ticks0 < n\<close> compares as unsigned.  Having to sleep on is \<open>Block\<close>.
\<close>

definition sleep_check :: "uint \<Rightarrow> uint \<Rightarrow> kstate \<Rightarrow> (int \<times> kstate) outcome" where
  "sleep_check ticks0 n s =
     (if ticks s - ticks0 < n then if p_killed (myproc s) then Done (- 1, s) else Block else Done (0, s))"

definition sys_sleep :: sys where
  "sys_sleep s = with_arg (argint 0 s) s (\<lambda>n. sleep_check (ticks s) n s)"

definition sys_uptime :: sys where
  "sys_uptime s = Done (sint (ticks s), s)"

definition sys_getpidplusone :: sys where
  "sys_getpidplusone s = Done (p_pid (myproc s) + 1, s)"

section \<open>Checked arguments cannot fault the kernel\<close>

text \<open>The memory of the calling process is as \<^verbatim>\<open>allocuvm\<close> and \<^verbatim>\<open>copyuvm\<close> leave it.\<close>

definition proc_mem_ok :: "kstate \<Rightarrow> bool" where
  "proc_mem_ok s \<longleftrightarrow> p_sz (myproc s) \<le> KERNBASE
     \<and> (\<exists>ps. uspace (vm s) ps (p_pgdir (myproc s)) (PGROUNDUP (p_sz (myproc s))))"

abbreviation ubyte_of :: "kstate \<Rightarrow> uint \<Rightarrow> uchar" where
  "ubyte_of s va \<equiv> ubyte (mem (vm s)) (p_pgdir (myproc s)) va"

lemma uread_ok:
  assumes "proc_mem_ok s" and "va < p_sz (myproc s)"
  shows "uread va s = Done (ubyte_of s va)"
proof -
  let ?sz = "p_sz (myproc s)"
  have k: "?sz \<le> KERNBASE" using assms(1) by (simp add: proc_mem_ok_def)
  then have "unat ?sz + 4095 < 2 ^ 32" by (simp add: word_le_nat_alt KERNBASE_def)
  then have "?sz \<le> PGROUNDUP ?sz" using PGROUNDUP_unat(1) by (simp add: word_le_nat_alt)
  moreover have "PGROUNDDOWN va \<le> va" unfolding PGROUNDDOWN_mask by (rule word_and_le2)
  ultimately have "PGROUNDDOWN va < PGROUNDUP ?sz" using assms(2) by simp
  then have "bit (pte_at (mem (vm s)) (p_pgdir (myproc s)) va) 0" using assms(1) by (auto simp: proc_mem_ok_def uspace_def)
  then show ?thesis by (simp add: uread_def)
qed

lemma uread_bytes_ok:
  assumes "proc_mem_ok s" and "unat va + n \<le> unat (p_sz (myproc s))"
  shows "uread_bytes va n s = Done (map (\<lambda>i. ubyte_of s (va + of_nat i)) [0..<n])"
  using assms(2)
proof (induction n arbitrary: va)
  case (Suc n)
  have lt: "va < p_sz (myproc s)" using Suc.prems by (simp add: word_less_nat_alt)
  have "unat va + 1 < 2 ^ 32" using Suc.prems unat_uint_less [of "p_sz (myproc s)"] lt by (simp add: word_less_nat_alt)
  then have u: "unat (va + 1) = unat va + 1" using unat_add_uint [of va 1] by simp
  have "[0..<Suc n] = 0 # map Suc [0..<n]" by (simp add: map_Suc_upt upt_conv_Cons del: upt_Suc)
  then show ?case using uread_ok [OF assms(1) lt] Suc.IH [of "va + 1"] Suc.prems u by (simp add: comp_def algebra_simps)
qed simp

lemma fetchint_ok:
  assumes "proc_mem_ok s"
  shows "\<exists>r. fetchint addr s = Done r"
proof (cases "p_sz (myproc s) \<le> addr \<or> p_sz (myproc s) < addr + 4")
  case False
  then have a: "unat addr < unat (p_sz (myproc s))" "unat (addr + 4) \<le> unat (p_sz (myproc s))"
    by (auto simp: word_le_nat_alt word_less_nat_alt not_le not_less)
  moreover have "unat (p_sz (myproc s)) \<le> 0x80000000" using assms by (simp add: proc_mem_ok_def KERNBASE_def word_le_nat_alt)
  ultimately have "unat (addr + 4) = unat addr + 4" using unat_add_uint [of addr 4] by simp
  then have "unat addr + 4 \<le> unat (p_sz (myproc s))" using a by simp
  from uread_bytes_ok [OF assms this] show ?thesis using False by (simp add: fetchint_def)
qed (simp add: fetchint_def)

lemma fetchstr_loop_ok:
  assumes "proc_mem_ok s" and "unat va + k = unat (p_sz (myproc s))"
  shows "\<exists>r. fetchstr_loop k va acc s = Done r \<and>
    (\<forall>str. r = Some str \<longrightarrow> (\<exists>n < k. str = acc @ map (\<lambda>i. ubyte_of s (va + of_nat i)) [0..<n]
       \<and> ubyte_of s (va + of_nat n) = 0 \<and> (\<forall>i<n. ubyte_of s (va + of_nat i) \<noteq> 0)))"
  using assms(2)
proof (induction k arbitrary: va acc)
  case (Suc k)
  have lt: "va < p_sz (myproc s)" using Suc.prems by (simp add: word_less_nat_alt)
  note rd = uread_ok [OF assms(1) lt]
  show ?case
  proof (cases "ubyte_of s va = 0")
    case True
    then show ?thesis using rd by auto
  next
    case False
    have "unat va + 1 < 2 ^ 32"
      using lt assms(1) by (simp add: proc_mem_ok_def KERNBASE_def word_le_nat_alt word_less_nat_alt)
    then have "unat (va + 1) + k = unat (p_sz (myproc s))" using unat_add_uint [of va 1] Suc.prems by simp
    from Suc.IH [OF this, of "acc @ [ubyte_of s va]"] obtain r where
      r: "fetchstr_loop k (va + 1) (acc @ [ubyte_of s va]) s = Done r"
      "\<And>str. r = Some str \<Longrightarrow> \<exists>n < k. str = (acc @ [ubyte_of s va]) @ map (\<lambda>i. ubyte_of s (va + 1 + of_nat i)) [0..<n]
         \<and> ubyte_of s (va + 1 + of_nat n) = 0 \<and> (\<forall>i<n. ubyte_of s (va + 1 + of_nat i) \<noteq> 0)"
      by blast
    have "\<exists>n < Suc k. str = acc @ map (\<lambda>i. ubyte_of s (va + of_nat i)) [0..<n]
       \<and> ubyte_of s (va + of_nat n) = 0 \<and> (\<forall>i<n. ubyte_of s (va + of_nat i) \<noteq> 0)" if eq: "r = Some str" for str
    proof -
      obtain n where n: "n < k" "str = (acc @ [ubyte_of s va]) @ map (\<lambda>i. ubyte_of s (va + 1 + of_nat i)) [0..<n]"
        "ubyte_of s (va + 1 + of_nat n) = 0" "\<forall>i<n. ubyte_of s (va + 1 + of_nat i) \<noteq> 0"
        using r(2) [OF eq] by blast
      have "[0..<Suc n] = 0 # map Suc [0..<n]" by (simp add: map_Suc_upt upt_conv_Cons del: upt_Suc)
      then have "str = acc @ map (\<lambda>i. ubyte_of s (va + of_nat i)) [0..<Suc n]" using n(2) by (simp add: comp_def algebra_simps)
      moreover have "ubyte_of s (va + of_nat i) \<noteq> 0" if "i < Suc n" for i
        using that False n(4) by (cases i) (auto simp: algebra_simps)
      ultimately show ?thesis using n(1,3) by (intro exI [of _ "Suc n"]) (auto simp: algebra_simps)
    qed
    then show ?thesis using r(1) rd False by auto
  qed
qed simp

lemma argptr_range:
  assumes "proc_mem_ok s" and "sz < 2 ^ 31" and "\<not> (sz < 0 \<or> p_sz (myproc s) \<le> i \<or> p_sz (myproc s) < i + word_of_int sz)"
  shows "0 \<le> sz" and "unat i + nat sz \<le> unat (p_sz (myproc s))"
proof -
  show z: "0 \<le> sz" using assms(3) by simp
  have "unat (p_sz (myproc s)) \<le> 0x80000000" using assms(1) by (simp add: proc_mem_ok_def KERNBASE_def word_le_nat_alt)
  moreover have "unat i < unat (p_sz (myproc s))" using assms(3) by (simp add: word_less_nat_alt not_le)
  moreover have w: "unat (word_of_int sz :: uint) = nat sz"
  proof -
    have "uint (word_of_int sz :: uint) = sz" using z assms(2) by (simp add: uint_word_of_int_eq take_bit_int_eq_self)
    then show ?thesis by (metis nat_uint_eq)
  qed
  ultimately have "unat (i + word_of_int sz) = unat i + nat sz" using unat_add_uint [of i "word_of_int sz"] assms(2) by simp
  then show "unat i + nat sz \<le> unat (p_sz (myproc s))" using assms(3) by (simp add: word_le_nat_alt not_less)
qed

text \<open>
  C26.  A pointer argument that passes \<^verbatim>\<open>argptr\<close> denotes a block that lies within the memory of the process, with no wrap-around, every byte of which the
  kernel can read; fetching it never faults, whatever the process passed.
\<close>

theorem argptr_safe:
  assumes "proc_mem_ok s" and "sz < 2 ^ 31"
  shows "\<exists>r. argptr n sz s = Done r \<and> (\<forall>p. r = Some p \<longrightarrow> 0 \<le> sz \<and> unat p + nat sz \<le> unat (p_sz (myproc s))
    \<and> uread_bytes p (nat sz) s = Done (map (\<lambda>i. ubyte_of s (p + of_nat i)) [0..<nat sz]))"
proof -
  obtain r where r: "argint n s = Done r" using fetchint_ok [OF assms(1)] by (auto simp: argint_def)
  show ?thesis
  proof (cases "\<exists>i. r = Some i \<and> \<not> (sz < 0 \<or> p_sz (myproc s) \<le> i \<or> p_sz (myproc s) < i + word_of_int sz)")
    case True
    then obtain i where i: "r = Some i" "\<not> (sz < 0 \<or> p_sz (myproc s) \<le> i \<or> p_sz (myproc s) < i + word_of_int sz)" by blast
    note a = argptr_range [OF assms i(2)]
    show ?thesis using r i uread_bytes_ok [OF assms(1) a(2)] a by (intro exI [of _ "Some i"]) (simp add: argptr_def)
  next
    case False
    then have "argptr n sz s = Done None" using r by (auto simp: argptr_def split: option.split)
    then show ?thesis by simp
  qed
qed

text \<open>A process of two zeroed pages, its stack pointer in the second one, in an otherwise arbitrary kernel.\<close>

lemma sample_kstate:
  "\<exists>s :: kstate. proc_mem_ok s \<and> p_sz (myproc s) = 0x2000 \<and> tf_esp (p_tf (myproc s)) = 0x1000
     \<and> (\<forall>va. PGROUNDDOWN va < 0x2000 \<longrightarrow> ubyte_of s va = 0)"
proof -
  obtain m :: kmem and ps d where m: "uspace m ps d 0x2000" "\<forall>va. PGROUNDDOWN va < 0x2000 \<longrightarrow> ubyte (mem m) d va = 0"
    using sample_process by blast
  let ?p = "(undefined :: proc)\<lparr>p_sz := 0x2000, p_pgdir := d, p_tf := trapframe0\<lparr>tf_esp := 0x1000\<rparr>\<rparr>"
  let ?s = "(undefined :: kstate)\<lparr>vm := m, ptable := [?p], cur := 0\<rparr>"
  have "PGROUNDUP 0x2000 = 0x2000" by (simp add: PGROUNDUP_def PGSIZE_def)
  then have "proc_mem_ok ?s" using m(1) by (auto simp: proc_mem_ok_def KERNBASE_def)
  then show ?thesis using m(2) by (intro exI [of _ ?s]) simp
qed

lemma sample_argint:
  assumes "proc_mem_ok s" and "p_sz (myproc s) = 0x2000" and "tf_esp (p_tf (myproc s)) = 0x1000"
    and "\<forall>va. PGROUNDDOWN va < 0x2000 \<longrightarrow> ubyte_of s va = 0"
  shows "argint 0 s = Done (Some 0)"
proof -
  have "ubyte_of s (0x1004 + of_nat i) = 0" if "i < 4" for i
  proof -
    have "i = 0 \<or> i = 1 \<or> i = 2 \<or> i = 3" using that by auto
    then show ?thesis using assms(4) by (auto simp: PGROUNDDOWN_def PGSIZE_def)
  qed
  then have "map (\<lambda>i. ubyte_of s (0x1004 + of_nat i)) [0..<4] = map (\<lambda>i. 0) [0..<4]" by (intro map_cong) auto
  moreover have "map (\<lambda>i. 0 :: uchar) [0..<4] = [0, 0, 0, 0]" by (simp add: upt_rec)
  ultimately have "uread_bytes 0x1004 4 s = Done [0, 0, 0, 0]"
    using uread_bytes_ok [OF assms(1), of "0x1004" 4] assms(2) by simp
  then show ?thesis using assms(2,3) by (simp add: argint_def fetchint_def get32_def)
qed

theorem argptr_safe_witness:
  "\<exists>s. argptr 0 4 s = Done (Some 0) \<and> uread_bytes 0 4 s = Done (map (\<lambda>i. ubyte_of s (0 + of_nat i)) [0..<4])"
proof -
  obtain s where s: "proc_mem_ok s" "p_sz (myproc s) = 0x2000" "tf_esp (p_tf (myproc s)) = 0x1000"
    "\<forall>va. PGROUNDDOWN va < 0x2000 \<longrightarrow> ubyte_of s va = 0" using sample_kstate by blast
  have a: "argptr 0 4 s = Done (Some 0)" using sample_argint [OF s] s(2) by (simp add: argptr_def)
  then show ?thesis using argptr_safe [OF s(1), of 4 0] by auto
qed

text \<open>
  C27.  Fetching a string argument never faults, and a string that is accepted is terminated within the memory of the process and is
  what is stored there.
\<close>

theorem argstr_safe:
  assumes "proc_mem_ok s"
  shows "\<exists>r. argstr n s = Done r \<and> (\<forall>str. r = Some str \<longrightarrow> 0 \<notin> set str
    \<and> (\<exists>addr. argint n s = Done (Some addr) \<and> unat addr + length str < unat (p_sz (myproc s))
         \<and> uread_bytes addr (length str + 1) s = Done (str @ [0])))"
proof -
  obtain a where a: "argint n s = Done a" using fetchint_ok [OF assms] by (auto simp: argint_def)
  show ?thesis
  proof (cases "\<exists>addr. a = Some addr \<and> addr < p_sz (myproc s)")
    case True
    then obtain addr where ad: "a = Some addr" "addr < p_sz (myproc s)" by blast
    let ?k = "unat (p_sz (myproc s) - addr)"
    have k: "unat addr + ?k = unat (p_sz (myproc s))"
      using unat_sub_uint [of addr "p_sz (myproc s)"] ad(2) by (simp add: word_less_nat_alt word_le_nat_alt)
    obtain r where r: "fetchstr_loop ?k addr [] s = Done r"
      "\<And>str. r = Some str \<Longrightarrow> \<exists>n < ?k. str = [] @ map (\<lambda>i. ubyte_of s (addr + of_nat i)) [0..<n]
       \<and> ubyte_of s (addr + of_nat n) = 0 \<and> (\<forall>i<n. ubyte_of s (addr + of_nat i) \<noteq> 0)"
      using fetchstr_loop_ok [OF assms k, of "[]"] by blast
    have run: "argstr n s = Done r" using a ad(1) not_le [THEN iffD2, OF ad(2)] r(1) by (simp add: argstr_def fetchstr_def)
    have "0 \<notin> set str \<and> unat addr + length str < unat (p_sz (myproc s)) \<and> uread_bytes addr (length str + 1) s = Done (str @ [0])"
      if eq: "r = Some str" for str
    proof -
      obtain m where m: "m < ?k" "str = map (\<lambda>i. ubyte_of s (addr + of_nat i)) [0..<m]" "ubyte_of s (addr + of_nat m) = 0"
        "\<forall>i<m. ubyte_of s (addr + of_nat i) \<noteq> 0"
        using r(2) [OF eq] by auto
      have "unat addr + (m + 1) \<le> unat (p_sz (myproc s))" using m(1) k by simp
      from uread_bytes_ok [OF assms this] show ?thesis using m k by auto
    qed
    then show ?thesis using run a ad(1) by blast
  next
    case False
    then have "argstr n s = Done None" using a by (auto simp: argstr_def fetchstr_def not_less split: option.split)
    then show ?thesis by simp
  qed
qed

theorem argstr_safe_witness:
  "\<exists>s. argstr 0 s = Done (Some []) \<and> uread_bytes 0 1 s = Done [0]"
proof -
  obtain s where s: "proc_mem_ok s" "p_sz (myproc s) = 0x2000" "tf_esp (p_tf (myproc s)) = 0x1000"
    "\<forall>va. PGROUNDDOWN va < 0x2000 \<longrightarrow> ubyte_of s va = 0" using sample_kstate by blast
  have a: "argint 0 s = Done (Some 0)" by (rule sample_argint [OF s])
  have u: "unat (0x2000 :: uint) = Suc 0x1FFF" by simp
  have "uread 0 s = Done 0" using uread_ok [OF s(1), of 0] s(2,4) by (simp add: PGROUNDDOWN_def)
  then have e: "argstr 0 s = Done (Some [])"
    using a s(2) by (simp only: argstr_def fetchstr_def obind_simps option.case u diff_zero fetchstr_loop.simps) simp
  then show ?thesis using argstr_safe [OF s(1), of 0] a by auto
qed

end
