(* ===== verification/SysFile.thy ===== *)
theory SysFile
  imports Syscall
begin

text \<open>
  The file system calls (\<^verbatim>\<open>src/xv6/sysfile.c\<close>), except \<^verbatim>\<open>exec\<close>.
\<close>

section \<open>Descriptors\<close>

definition argfd :: "uint \<Rightarrow> kstate \<Rightarrow> (nat \<times> nat) option outcome" where
  "argfd n s =
     obind (argint n s) (\<lambda>r.
       case r of
         None \<Rightarrow> Done None
       | Some w \<Rightarrow>
           let fd = sint w
           in if fd < 0 \<or> int NOFILE \<le> fd then Done None
              else case p_ofile (myproc s) ! nat fd of None \<Rightarrow> Done None | Some f \<Rightarrow> Done (Some (nat fd, f)))"

definition fdalloc :: "nat \<Rightarrow> kstate \<Rightarrow> int \<times> kstate" where
  "fdalloc f s =
     (case find (\<lambda>fd. p_ofile (myproc s) ! fd = None) [0..<NOFILE] of
        Some fd \<Rightarrow> (int fd, upd_proc (cur s) (\<lambda>q. q\<lparr>p_ofile := (p_ofile q)[fd := Some f]\<rparr>) s)
      | None \<Rightarrow> (- 1, s))"

definition sys_dup :: sys where
  "sys_dup s =
     with_arg (argfd 0 s) s (\<lambda>(_, f).
       let (fd, s) = fdalloc f s
       in if fd < 0 then Done (- 1, s) else obind (filedup f s) (\<lambda>(_, s). Done (fd, s)))"

definition sys_read :: sys where
  "sys_read s =
     with_arg (argfd 0 s) s (\<lambda>(_, f).
       with_arg (argint 2 s) s (\<lambda>n.
         with_arg (argptr 1 (sint n) s) s (\<lambda>p. fileread f p (sint n) s)))"

definition sys_write :: sys where
  "sys_write s =
     with_arg (argfd 0 s) s (\<lambda>(_, f).
       with_arg (argint 2 s) s (\<lambda>n.
         with_arg (argptr 1 (sint n) s) s (\<lambda>p. filewrite f p (sint n) s)))"

definition sys_close :: sys where
  "sys_close s =
     with_arg (argfd 0 s) s (\<lambda>(fd, f).
       let s = upd_proc (cur s) (\<lambda>q. q\<lparr>p_ofile := (p_ofile q)[fd := None]\<rparr>) s
       in obind (fileclose f s) (\<lambda>s. Done (0, s)))"

text \<open>\<^verbatim>\<open>struct stat\<close> in memory: \<^verbatim>\<open>type\<close> at 0, \<^verbatim>\<open>dev\<close> at 4, \<^verbatim>\<open>ino\<close> at 8, \<^verbatim>\<open>nlink\<close> at 12, \<^verbatim>\<open>size\<close> at 16; the padding keeps its bytes.\<close>

definition stat_fields :: "stat \<Rightarrow> (nat \<times> uchar list) list" where
  "stat_fields st =
     [(0, put16 0 (st_type st) (replicate 2 0)), (4, put32 0 (st_dev st) (replicate 4 0)), (8, put32 0 (st_ino st) (replicate 4 0)),
      (12, put16 0 (st_nlink st) (replicate 2 0)), (16, put32 0 (st_size st) (replicate 4 0))]"

fun uwrite_fields :: "uint \<Rightarrow> (nat \<times> uchar list) list \<Rightarrow> kstate \<Rightarrow> kstate outcome" where
  "uwrite_fields p [] s = Done s"
| "uwrite_fields p ((i, bs) # fs) s = obind (uwrite_bytes (p + of_nat i) bs s) (uwrite_fields p fs)"

definition sys_fstat :: sys where
  "sys_fstat s =
     with_arg (argfd 0 s) s (\<lambda>(_, f).
       with_arg (argptr 1 20 s) s (\<lambda>p.
         obind (filestat f s) (\<lambda>(r, st, s).
           case st of None \<Rightarrow> Done (r, s) | Some st \<Rightarrow> obind (uwrite_fields p (stat_fields st) s) (\<lambda>s. Done (r, s)))))"

section \<open>Links\<close>

definition my_cwd :: "kstate \<Rightarrow> nat" where
  "my_cwd s = the (p_cwd (myproc s))"

definition fail_op :: sys where
  "fail_op s = obind (end_op s) (\<lambda>s. Done (- 1, s))"

definition link_bad :: "nat \<Rightarrow> sys" where
  "link_bad ip s =
     obind (ilock ip s) (\<lambda>s.
       obind (iupdate ip (upd_inode ip (\<lambda>i. i\<lparr>i_nlink := i_nlink i - 1\<rparr>) s)) (\<lambda>s.
         obind (iunlockput ip s) fail_op))"

definition link_new :: "nat \<Rightarrow> uchar list \<Rightarrow> sys" where
  "link_new ip new_path s =
     obind (nameiparent devsw (my_cwd s) new_path (replicate DIRSIZ 0) s) (\<lambda>(r, name, s).
       case r of
         None \<Rightarrow> link_bad ip s
       | Some dp \<Rightarrow>
           obind (ilock dp s) (\<lambda>s.
             obind (if i_dev (inode_at s dp) \<noteq> i_dev (inode_at s ip) then Done (- 1, s)
                    else dirlink devsw dp name (i_inum (inode_at s ip)) s) (\<lambda>(r, s).
               if r < 0 then obind (iunlockput dp s) (link_bad ip)
               else obind (iunlockput dp s) (\<lambda>s.
                      obind (iput ip s) (\<lambda>s.
                        obind (end_op s) (\<lambda>s. Done (0, s)))))))"

definition sys_link :: sys where
  "sys_link s =
     with_arg (argstr 0 s) s (\<lambda>old_path.
       with_arg (argstr 1 s) s (\<lambda>new_path.
         obind (begin_op s) (\<lambda>s.
           obind (namei devsw (my_cwd s) old_path s) (\<lambda>(r, s).
             case r of
               None \<Rightarrow> fail_op s
             | Some ip \<Rightarrow>
                 obind (ilock ip s) (\<lambda>s.
                   if i_type (inode_at s ip) = T_DIR then obind (iunlockput ip s) fail_op
                   else obind (iupdate ip (upd_inode ip (\<lambda>i. i\<lparr>i_nlink := i_nlink i + 1\<rparr>) s)) (\<lambda>s.
                     obind (iunlock ip s) (link_new ip new_path)))))))"

fun isdirempty_loop :: "nat \<Rightarrow> nat \<Rightarrow> uint \<Rightarrow> kstate \<Rightarrow> (bool \<times> kstate) outcome" where
  "isdirempty_loop 0 dp off s = Block"
| "isdirempty_loop (Suc fuel) dp off s =
     (if off < i_size (inode_at s dp)
      then obind (readi devsw dp off (of_nat dirent_size) s) (\<lambda>(r, bs, s).
             if r \<noteq> int dirent_size then Panic ''isdirempty: readi''
             else if de_inum (get_dirent bs) \<noteq> 0 then Done (False, s)
             else isdirempty_loop fuel dp (off + of_nat dirent_size) s)
      else Done (True, s))"

definition isdirempty :: "nat \<Rightarrow> kstate \<Rightarrow> (bool \<times> kstate) outcome" where
  "isdirempty dp s =
     isdirempty_loop (unat (i_size (inode_at s dp)) div dirent_size + 2) dp (of_nat (2 * dirent_size)) s"

text \<open>The part of \<^verbatim>\<open>sys_unlink\<close> after both inodes are locked.\<close>

definition unlink_entry :: "nat \<Rightarrow> nat \<Rightarrow> uint \<Rightarrow> sys" where
  "unlink_entry dp ip off s =
     obind (writei devsw dp (replicate dirent_size 0) off (of_nat dirent_size) s) (\<lambda>(r, s).
       if r \<noteq> int dirent_size then Panic ''unlink: writei''
       else obind (if i_type (inode_at s ip) = T_DIR
                   then iupdate dp (upd_inode dp (\<lambda>i. i\<lparr>i_nlink := i_nlink i - 1\<rparr>) s) else Done s) (\<lambda>s.
              obind (iunlockput dp s) (\<lambda>s.
                obind (iupdate ip (upd_inode ip (\<lambda>i. i\<lparr>i_nlink := i_nlink i - 1\<rparr>) s)) (\<lambda>s.
                  obind (iunlockput ip s) (\<lambda>s.
                    obind (end_op s) (\<lambda>s. Done (0, s)))))))"

definition unlink_bad :: "nat \<Rightarrow> sys" where
  "unlink_bad dp s = obind (iunlockput dp s) fail_op"

definition sys_unlink :: sys where
  "sys_unlink s =
     with_arg (argstr 0 s) s (\<lambda>path.
       obind (begin_op s) (\<lambda>s.
         obind (nameiparent devsw (my_cwd s) path (replicate DIRSIZ 0) s) (\<lambda>(r, name, s).
           case r of
             None \<Rightarrow> fail_op s
           | Some dp \<Rightarrow>
               obind (ilock dp s) (\<lambda>s.
                 if namecmp name (bytes ''.'') = 0 \<or> namecmp name (bytes ''..'') = 0 then unlink_bad dp s
                 else obind (dirlookup devsw dp name s) (\<lambda>(r, s).
                   case r of
                     None \<Rightarrow> unlink_bad dp s
                   | Some (ip, off) \<Rightarrow>
                       obind (ilock ip s) (\<lambda>s.
                         if sint (i_nlink (inode_at s ip)) < 1 then Panic ''unlink: nlink < 1''
                         else obind (if i_type (inode_at s ip) = T_DIR then isdirempty ip s else Done (True, s)) (\<lambda>(empty, s).
                           if i_type (inode_at s ip) = T_DIR \<and> \<not> empty
                           then obind (iunlockput ip s) (unlink_bad dp)
                           else unlink_entry dp ip off s)))))))"

section \<open>Creating and opening\<close>

definition create_new :: "nat \<Rightarrow> uchar list \<Rightarrow> ushort \<Rightarrow> ushort \<Rightarrow> ushort \<Rightarrow> kstate \<Rightarrow> (nat option \<times> kstate) outcome" where
  "create_new dp name ty major minor s =
     obind (ialloc (i_dev (inode_at s dp)) ty s) (\<lambda>(ip, s).
       obind (ilock ip s) (\<lambda>s.
         obind (iupdate ip (upd_inode ip (\<lambda>i. i\<lparr>i_major := major, i_minor := minor, i_nlink := 1\<rparr>) s)) (\<lambda>s.
           obind (if ty = T_DIR
                  then obind (iupdate dp (upd_inode dp (\<lambda>i. i\<lparr>i_nlink := i_nlink i + 1\<rparr>) s)) (\<lambda>s.
                         obind (dirlink devsw ip (bytes ''.'') (i_inum (inode_at s ip)) s) (\<lambda>(r, s).
                           if r < 0 then Panic ''create dots''
                           else obind (dirlink devsw ip (bytes ''..'') (i_inum (inode_at s dp)) s) (\<lambda>(r, s).
                             if r < 0 then Panic ''create dots'' else Done s)))
                  else Done s) (\<lambda>s.
             obind (dirlink devsw dp name (i_inum (inode_at s ip)) s) (\<lambda>(r, s).
               if r < 0 then Panic ''create: dirlink''
               else obind (iunlockput dp s) (\<lambda>s. Done (Some ip, s)))))))"

definition create :: "uchar list \<Rightarrow> ushort \<Rightarrow> ushort \<Rightarrow> ushort \<Rightarrow> kstate \<Rightarrow> (nat option \<times> kstate) outcome" where
  "create path ty major minor s =
     obind (nameiparent devsw (my_cwd s) path (replicate DIRSIZ 0) s) (\<lambda>(r, name, s).
       case r of
         None \<Rightarrow> Done (None, s)
       | Some dp \<Rightarrow>
           obind (ilock dp s) (\<lambda>s.
             obind (dirlookup devsw dp name s) (\<lambda>(r, s).
               case r of
                 Some (ip, _) \<Rightarrow>
                   obind (iunlockput dp s) (\<lambda>s.
                     obind (ilock ip s) (\<lambda>s.
                       if ty = T_FILE \<and> i_type (inode_at s ip) = T_FILE then Done (Some ip, s)
                       else obind (iunlockput ip s) (\<lambda>s. Done (None, s))))
               | None \<Rightarrow> create_new dp name ty major minor s)))"

definition O_RDONLY :: uint where
  "O_RDONLY = 0"

definition O_WRONLY :: uint where
  "O_WRONLY = 1"

definition O_RDWR :: uint where
  "O_RDWR = 2"

definition O_CREATE :: uint where
  "O_CREATE = 0x200"

text \<open>The end of \<^verbatim>\<open>sys_open\<close>: a file and a descriptor for the locked inode \<open>ip\<close>.\<close>

definition open_file :: "nat \<Rightarrow> uint \<Rightarrow> sys" where
  "open_file ip omode s =
     (let (f, s) = filealloc s
      in case f of
           None \<Rightarrow> obind (iunlockput ip s) fail_op
         | Some f \<Rightarrow>
             let (fd, s) = fdalloc f s
             in if fd < 0 then obind (fileclose f s) (\<lambda>s. obind (iunlockput ip s) fail_op)
                else obind (iunlock ip s) (\<lambda>s.
                  obind (end_op s) (\<lambda>s.
                    Done (fd, upd_file f (\<lambda>x. x\<lparr>f_type := FD_INODE, f_ip := ip, f_off := 0, f_readable := (omode AND O_WRONLY = 0),
                                f_writable := (omode AND O_WRONLY \<noteq> 0 \<or> omode AND O_RDWR \<noteq> 0)\<rparr>) s))))"

definition sys_open :: sys where
  "sys_open s =
     with_arg (argstr 0 s) s (\<lambda>path.
       with_arg (argint 1 s) s (\<lambda>omode.
         obind (begin_op s) (\<lambda>s.
           if omode AND O_CREATE \<noteq> 0
           then obind (create path T_FILE 0 0 s) (\<lambda>(r, s).
                  case r of None \<Rightarrow> fail_op s | Some ip \<Rightarrow> open_file ip omode s)
           else obind (namei devsw (my_cwd s) path s) (\<lambda>(r, s).
                  case r of
                    None \<Rightarrow> fail_op s
                  | Some ip \<Rightarrow>
                      obind (ilock ip s) (\<lambda>s.
                        if i_type (inode_at s ip) = T_DIR \<and> omode \<noteq> O_RDONLY then obind (iunlockput ip s) fail_op
                        else open_file ip omode s)))))"

definition finish_create :: "(nat option \<times> kstate) outcome \<Rightarrow> (int \<times> kstate) outcome" where
  "finish_create r =
     obind r (\<lambda>(r, s).
       case r of
         None \<Rightarrow> fail_op s
       | Some ip \<Rightarrow> obind (iunlockput ip s) (\<lambda>s. obind (end_op s) (\<lambda>s. Done (0, s))))"

definition sys_mkdir :: sys where
  "sys_mkdir s =
     obind (begin_op s) (\<lambda>s.
       obind (argstr 0 s) (\<lambda>a.
         case a of None \<Rightarrow> fail_op s | Some path \<Rightarrow> finish_create (create path T_DIR 0 0 s)))"

definition sys_mknod :: sys where
  "sys_mknod s =
     obind (begin_op s) (\<lambda>s.
       obind (argstr 0 s) (\<lambda>a.
         case a of
           None \<Rightarrow> fail_op s
         | Some path \<Rightarrow>
             obind (argint 1 s) (\<lambda>a.
               case a of
                 None \<Rightarrow> fail_op s
               | Some major \<Rightarrow>
                   obind (argint 2 s) (\<lambda>a.
                     case a of
                       None \<Rightarrow> fail_op s
                     | Some minor \<Rightarrow> finish_create (create path T_DEV (ucast major) (ucast minor) s)))))"

definition sys_chdir :: sys where
  "sys_chdir s =
     obind (begin_op s) (\<lambda>s.
       obind (argstr 0 s) (\<lambda>a.
         case a of
           None \<Rightarrow> fail_op s
         | Some path \<Rightarrow>
             obind (namei devsw (my_cwd s) path s) (\<lambda>(r, s).
               case r of
                 None \<Rightarrow> fail_op s
               | Some ip \<Rightarrow>
                   obind (ilock ip s) (\<lambda>s.
                     if i_type (inode_at s ip) \<noteq> T_DIR then obind (iunlockput ip s) fail_op
                     else obind (iunlock ip s) (\<lambda>s.
                       obind (iput (my_cwd s) s) (\<lambda>s.
                         obind (end_op s) (\<lambda>s. Done (0, upd_proc (cur s) (\<lambda>q. q\<lparr>p_cwd := Some ip\<rparr>) s))))))))"

section \<open>Pipes\<close>

definition sys_pipe :: sys where
  "sys_pipe s =
     with_arg (argptr 0 8 s) s (\<lambda>fd.
       obind (pipealloc s) (\<lambda>(r, s).
         case r of
           None \<Rightarrow> Done (- 1, s)
         | Some (rf, w_f) \<Rightarrow>
             let (fd0, s) = fdalloc rf s;
                 (fd1, s) = (if fd0 < 0 then (- 1, s) else fdalloc w_f s)
             in if fd0 < 0 \<or> fd1 < 0
                then let s = (if 0 \<le> fd0 then upd_proc (cur s) (\<lambda>q. q\<lparr>p_ofile := (p_ofile q)[nat fd0 := None]\<rparr>) s else s)
                     in obind (fileclose rf s) (\<lambda>s. obind (fileclose w_f s) (\<lambda>s. Done (- 1, s)))
                else obind (uwrite_bytes fd (put32 0 (word_of_int fd0) (replicate 4 0)) s) (\<lambda>s.
                       obind (uwrite_bytes (fd + 4) (put32 0 (word_of_int fd1) (replicate 4 0)) s) (\<lambda>s. Done (0, s)))))"

end
