(* ===== verification/Exec.thy ===== *)
theory Exec
  imports SysFile
begin

text \<open>
  Loading a program (\<^verbatim>\<open>src/xv6/exec.c\<close>, \<^verbatim>\<open>elf.h\<close>, \<^verbatim>\<open>loaduvm\<close> of \<^verbatim>\<open>vm.c\<close>, \<^verbatim>\<open>sys_exec\<close> of \<^verbatim>\<open>sysfile.c\<close>).
\<close>

section \<open>ELF headers\<close>

definition ELF_MAGIC :: uint where
  "ELF_MAGIC = 0x464C457F"

definition ELF_PROG_LOAD :: uint where
  "ELF_PROG_LOAD = 1"

definition MAXARG :: nat where
  "MAXARG = 32"

record elfhdr =
  e_magic :: uint
  e_elf :: "uchar list"
  e_type :: ushort
  e_machine :: ushort
  e_version :: uint
  e_entry :: uint
  e_phoff :: uint
  e_shoff :: uint
  e_flags :: uint
  e_ehsize :: ushort
  e_phentsize :: ushort
  e_phnum :: ushort
  e_shentsize :: ushort
  e_shnum :: ushort
  e_shstrndx :: ushort

definition get_elfhdr :: "uchar list \<Rightarrow> elfhdr" where
  "get_elfhdr d =
     \<lparr>e_magic = get32 0 d, e_elf = take 12 (drop 4 d), e_type = get16 16 d, e_machine = get16 18 d, e_version = get32 20 d,
      e_entry = get32 24 d, e_phoff = get32 28 d, e_shoff = get32 32 d, e_flags = get32 36 d, e_ehsize = get16 40 d,
      e_phentsize = get16 42 d, e_phnum = get16 44 d, e_shentsize = get16 46 d, e_shnum = get16 48 d, e_shstrndx = get16 50 d\<rparr>"

record proghdr =
  ph_type :: uint
  ph_off :: uint
  ph_vaddr :: uint
  ph_paddr :: uint
  ph_filesz :: uint
  ph_memsz :: uint
  ph_flags :: uint
  ph_align :: uint

definition get_proghdr :: "uchar list \<Rightarrow> proghdr" where
  "get_proghdr d =
     \<lparr>ph_type = get32 0 d, ph_off = get32 4 d, ph_vaddr = get32 8 d, ph_paddr = get32 12 d,
      ph_filesz = get32 16 d, ph_memsz = get32 20 d, ph_flags = get32 24 d, ph_align = get32 28 d\<rparr>"

section \<open>Loading a segment\<close>

fun loaduvm_loop :: "nat \<Rightarrow> uint \<Rightarrow> uint \<Rightarrow> nat \<Rightarrow> uint \<Rightarrow> uint \<Rightarrow> uint \<Rightarrow> kstate \<Rightarrow> (int \<times> kstate) outcome" where
  "loaduvm_loop 0 pgdir addr ip offset i sz s = Block"
| "loaduvm_loop (Suc fuel) pgdir addr ip offset i sz s =
     (if i < sz
      then let pte = fst (walkpgdir pgdir (addr + i) False (vm s))
           in if pte = 0 then Panic ''loaduvm: address should exist''
              else let pa = PTE_ADDR (load32 (mem (vm s)) pte);
                       n = (if sz - i < PGSIZE then sz - i else PGSIZE)
                   in obind (readi devsw ip (offset + i) n s) (\<lambda>(r, bs, s).
                        let s = s\<lparr>vm := (vm s)\<lparr>mem := put_bytes (mem (vm s)) (P2V pa) bs\<rparr>\<rparr>
                        in if r \<noteq> sint n then Done (- 1, s)
                           else loaduvm_loop fuel pgdir addr ip offset (i + PGSIZE) sz s)
      else Done (0, s))"

definition loaduvm :: "uint \<Rightarrow> uint \<Rightarrow> nat \<Rightarrow> uint \<Rightarrow> uint \<Rightarrow> kstate \<Rightarrow> (int \<times> kstate) outcome" where
  "loaduvm pgdir addr ip offset sz s =
     (if addr mod PGSIZE \<noteq> 0 then Panic ''loaduvm: addr must be page aligned''
      else loaduvm_loop (unat sz div 4096 + 2) pgdir addr ip offset 0 sz s)"

text \<open>One program header: \<open>None\<close> is \<^verbatim>\<open>goto bad\<close>.\<close>

definition exec_segment :: "uint \<Rightarrow> nat \<Rightarrow> uint \<Rightarrow> uint \<Rightarrow> kstate \<Rightarrow> (uint option \<times> kstate) outcome" where
  "exec_segment pgdir ip off sz s =
     obind (readi devsw ip off 32 s) (\<lambda>(r, bs, s).
       let ph = get_proghdr bs
       in if r \<noteq> 32 then Done (None, s)
          else if ph_type ph \<noteq> ELF_PROG_LOAD then Done (Some sz, s)
          else if ph_memsz ph < ph_filesz ph then Done (None, s)
          else if ph_vaddr ph + ph_memsz ph < ph_vaddr ph then Done (None, s)
          else obind (on_vm (allocuvm pgdir sz (ph_vaddr ph + ph_memsz ph)) s) (\<lambda>(sz, s).
                 if sz = 0 then Done (None, s)
                 else if ph_vaddr ph mod PGSIZE \<noteq> 0 then Done (None, s)
                 else obind (loaduvm pgdir (ph_vaddr ph) ip (ph_off ph) (ph_filesz ph) s) (\<lambda>(r, s).
                        if r < 0 then Done (None, s) else Done (Some sz, s))))"

fun exec_load :: "nat \<Rightarrow> uint \<Rightarrow> nat \<Rightarrow> uint \<Rightarrow> uint \<Rightarrow> kstate \<Rightarrow> (uint option \<times> kstate) outcome" where
  "exec_load 0 pgdir ip off sz s = Done (Some sz, s)"
| "exec_load (Suc n) pgdir ip off sz s =
     obind (exec_segment pgdir ip off sz s) (\<lambda>(r, s).
       case r of None \<Rightarrow> Done (None, s) | Some sz \<Rightarrow> exec_load n pgdir ip (off + 32) sz s)"

section \<open>The stack\<close>

fun exec_push :: "uint \<Rightarrow> nat \<Rightarrow> uchar list list \<Rightarrow> uint \<Rightarrow> uint list \<Rightarrow> kstate \<Rightarrow> ((uint \<times> uint list) option \<times> kstate) outcome" where
  "exec_push pgdir argc [] sp ustack s = Done (Some (sp, ustack), s)"
| "exec_push pgdir argc (a # argv) sp ustack s =
     (if MAXARG \<le> argc then Done (None, s)
      else let sp = (sp - (of_nat (length a) + 1)) AND NOT 3
           in obind (on_vm (copyout pgdir sp (a @ [0])) s) (\<lambda>(r, s).
                if r < 0 then Done (None, s) else exec_push pgdir (Suc argc) argv sp (ustack @ [sp]) s))"

definition words_bytes :: "uint list \<Rightarrow> uchar list" where
  "words_bytes ws = concat (map (\<lambda>w. put32 0 w (replicate 4 0)) ws)"

text \<open>The new stack from the top \<open>sz\<close> down: the strings, then the return address, \<^verbatim>\<open>argc\<close>, \<^verbatim>\<open>argv\<close> and its elements.\<close>

definition exec_stack :: "uint \<Rightarrow> uint \<Rightarrow> uchar list list \<Rightarrow> kstate \<Rightarrow> (uint option \<times> kstate) outcome" where
  "exec_stack pgdir sz argv s =
     obind (exec_push pgdir 0 argv sz [] s) (\<lambda>(r, s).
       case r of
         None \<Rightarrow> Done (None, s)
       | Some (sp, us) \<Rightarrow>
           let argc = of_nat (length us);
               ustack = [0xffffffff, argc, sp - (argc + 1) * 4] @ us @ [0];
               sp = sp - (3 + argc + 1) * 4
           in obind (on_vm (copyout pgdir sp (words_bytes ustack)) s) (\<lambda>(r, s).
                if r < 0 then Done (None, s) else Done (Some sp, s)))"

section \<open>The call\<close>

definition exec_bad :: "uint \<Rightarrow> nat option \<Rightarrow> sys" where
  "exec_bad pgdir ip s =
     obind (if pgdir \<noteq> 0 then on_vm0 (freevm pgdir) s else Done s) (\<lambda>s.
       case ip of
         Some ip \<Rightarrow> obind (iunlockput ip s) fail_op
       | None \<Rightarrow> Done (- 1, s))"

definition last_elem :: "uchar list \<Rightarrow> uchar list" where
  "last_elem path = rev (takeWhile (\<lambda>c. c \<noteq> slash) (rev path))"

definition exec_commit :: "uint \<Rightarrow> uint \<Rightarrow> uint \<Rightarrow> uint \<Rightarrow> uchar list \<Rightarrow> sys" where
  "exec_commit pgdir sz entry sp path s =
     (let oldpgdir = p_pgdir (myproc s);
          s = upd_proc (cur s) (\<lambda>q. q\<lparr>p_name := name_safestrcpy (p_name q) (last_elem path), p_pgdir := pgdir, p_sz := sz,
                p_tf := (p_tf q)\<lparr>tf_eip := entry, tf_esp := sp\<rparr>\<rparr>) s
      in obind (switchuvm (cur s) s) (\<lambda>s.
           obind (on_vm0 (freevm oldpgdir) s) (\<lambda>s. Done (0, s))))"

text \<open>After the segments are loaded: two more pages, the lower one inaccessible, and the stack.\<close>

definition exec_finish :: "uint \<Rightarrow> uint \<Rightarrow> uint \<Rightarrow> uchar list \<Rightarrow> uchar list list \<Rightarrow> sys" where
  "exec_finish pgdir sz entry path argv s =
     (let sz = PGROUNDUP sz
      in obind (on_vm (allocuvm pgdir sz (sz + 2 * PGSIZE)) s) (\<lambda>(sz, s).
           if sz = 0 then exec_bad pgdir None s
           else obind (on_vm0 (clearpteu pgdir (sz - 2 * PGSIZE)) s) (\<lambda>s.
             obind (exec_stack pgdir sz argv s) (\<lambda>(r, s).
               case r of
                 None \<Rightarrow> exec_bad pgdir None s
               | Some sp \<Rightarrow> exec_commit pgdir sz entry sp path s))))"

definition exec :: "uchar list \<Rightarrow> uchar list list \<Rightarrow> sys" where
  "exec path argv s =
     obind (begin_op s) (\<lambda>s.
       obind (namei devsw (my_cwd s) path s) (\<lambda>(r, s).
         case r of
           None \<Rightarrow> fail_op s
         | Some ip \<Rightarrow>
             obind (ilock ip s) (\<lambda>s.
               obind (readi devsw ip 0 52 s) (\<lambda>(r, bs, s).
                 let elf = get_elfhdr bs
                 in if r \<noteq> 52 \<or> e_magic elf \<noteq> ELF_MAGIC then exec_bad 0 (Some ip) s
                    else obind (on_vm setupkvm s) (\<lambda>(pgdir, s).
                      if pgdir = 0 then exec_bad 0 (Some ip) s
                      else obind (exec_load (unat (e_phnum elf)) pgdir ip (e_phoff elf) 0 s) (\<lambda>(r, s).
                        case r of
                          None \<Rightarrow> exec_bad pgdir (Some ip) s
                        | Some sz \<Rightarrow>
                            obind (iunlockput ip s) (\<lambda>s.
                              obind (end_op s) (exec_finish pgdir sz (e_entry elf) path argv))))))))"

section \<open>The system call\<close>

fun fetch_argv :: "nat \<Rightarrow> uint \<Rightarrow> uchar list list \<Rightarrow> kstate \<Rightarrow> uchar list list option outcome" where
  "fetch_argv 0 a acc s = Done None"
| "fetch_argv (Suc k) a acc s =
     obind (fetchint a s) (\<lambda>r.
       case r of
         None \<Rightarrow> Done None
       | Some uarg \<Rightarrow>
           if uarg = 0 then Done (Some acc)
           else obind (fetchstr uarg s) (\<lambda>r.
                  case r of None \<Rightarrow> Done None | Some str \<Rightarrow> fetch_argv k (a + 4) (acc @ [str]) s))"

definition sys_exec :: sys where
  "sys_exec s =
     with_arg (argstr 0 s) s (\<lambda>path.
       with_arg (argint 1 s) s (\<lambda>uargv.
         with_arg (fetch_argv MAXARG uargv [] s) s (\<lambda>argv. exec path argv s)))"

end
