(* ===== verification/Kbd.thy ===== *)
theory Kbd
  imports Prelude
begin

text \<open>
  The keyboard driver (\<^verbatim>\<open>src/xv6/kbd.c\<close>, \<^verbatim>\<open>kbd.h\<close>): the scan code tables and \<^verbatim>\<open>kbdgetc\<close>.  The status and the data that the
  two ports deliver are arguments; the static variable \<^verbatim>\<open>shift\<close> is threaded through.
\<close>

section \<open>Tables\<close>

definition SHIFT :: uint where
  "SHIFT = 1"

definition CTL :: uint where
  "CTL = 2"

definition ALT :: uint where
  "ALT = 4"

definition CAPSLOCK :: uint where
  "CAPSLOCK = 8"

definition NUMLOCK :: uint where
  "NUMLOCK = 16"

definition SCROLLLOCK :: uint where
  "SCROLLLOCK = 32"

definition E0ESC :: uint where
  "E0ESC = 64"

definition KEY_HOME :: uchar where
  "KEY_HOME = 0xE0"

definition KEY_END :: uchar where
  "KEY_END = 0xE1"

definition KEY_UP :: uchar where
  "KEY_UP = 0xE2"

definition KEY_DN :: uchar where
  "KEY_DN = 0xE3"

definition KEY_LF :: uchar where
  "KEY_LF = 0xE4"

definition KEY_RT :: uchar where
  "KEY_RT = 0xE5"

definition KEY_PGUP :: uchar where
  "KEY_PGUP = 0xE6"

definition KEY_PGDN :: uchar where
  "KEY_PGDN = 0xE7"

definition KEY_INS :: uchar where
  "KEY_INS = 0xE8"

definition KEY_DEL :: uchar where
  "KEY_DEL = 0xE9"

text \<open>An array with a list of initial elements and designated ones; the others are zero.\<close>

definition key_table :: "uchar list \<Rightarrow> (uint \<times> uchar) list \<Rightarrow> uint \<Rightarrow> uchar" where
  "key_table xs des i =
     (case map_of des i of Some v \<Rightarrow> v | None \<Rightarrow> if unat i < length xs then xs ! unat i else 0)"

definition shiftcode :: "uint \<Rightarrow> uint" where
  "shiftcode i =
     (if i = 0x1D then CTL else if i = 0x2A then SHIFT else if i = 0x36 then SHIFT
      else if i = 0x38 then ALT else if i = 0x9D then CTL else if i = 0xB8 then ALT else 0)"

definition togglecode :: "uint \<Rightarrow> uint" where
  "togglecode i = (if i = 0x3A then CAPSLOCK else if i = 0x45 then NUMLOCK else if i = 0x46 then SCROLLLOCK else 0)"

definition normalmap :: "uint \<Rightarrow> uchar" where
  "normalmap i = key_table
     [0, 0x1B, 49, 50, 51, 52, 53, 54, 55, 56, 57, 48, 45, 61, 8, 9,
      113, 119, 101, 114, 116, 121, 117, 105, 111, 112, 91, 93, 10, 0, 97, 115,
      100, 102, 103, 104, 106, 107, 108, 59, 39, 96, 0, 92, 122, 120, 99, 118,
      98, 110, 109, 44, 46, 47, 0, 42, 0, 32, 0, 0, 0, 0, 0, 0,
      0, 0, 0, 0, 0, 0, 0, 55, 56, 57, 45, 52, 53, 54, 43, 49,
      50, 51, 48, 46, 0, 0, 0, 0]
     [(0x9C, 10), (0xB5, 47), (0xC8, KEY_UP), (0xD0, KEY_DN), (0xC9, KEY_PGUP), (0xD1, KEY_PGDN), (0xCB, KEY_LF), (0xCD, KEY_RT), (0x97, KEY_HOME), (0xCF, KEY_END), (0xD2, KEY_INS), (0xD3, KEY_DEL)] i"

definition shiftmap :: "uint \<Rightarrow> uchar" where
  "shiftmap i = key_table
     [0, 0x1B, 33, 64, 35, 36, 37, 94, 38, 42, 40, 41, 95, 43, 8, 9,
      81, 87, 69, 82, 84, 89, 85, 73, 79, 80, 123, 125, 10, 0, 65, 83,
      68, 70, 71, 72, 74, 75, 76, 58, 34, 126, 0, 124, 90, 88, 67, 86,
      66, 78, 77, 60, 62, 63, 0, 42, 0, 32, 0, 0, 0, 0, 0, 0,
      0, 0, 0, 0, 0, 0, 0, 55, 56, 57, 45, 52, 53, 54, 43, 49,
      50, 51, 48, 46, 0, 0, 0, 0]
     [(0x9C, 10), (0xB5, 47), (0xC8, KEY_UP), (0xD0, KEY_DN), (0xC9, KEY_PGUP), (0xD1, KEY_PGDN), (0xCB, KEY_LF), (0xCD, KEY_RT), (0x97, KEY_HOME), (0xCF, KEY_END), (0xD2, KEY_INS), (0xD3, KEY_DEL)] i"

definition ctlmap :: "uint \<Rightarrow> uchar" where
  "ctlmap i = key_table
     [0, 0, 0, 0, 0, 0, 0, 0, 0, 0, 0, 0, 0, 0, 0, 0,
      17, 23, 5, 18, 20, 25, 21, 9, 15, 16, 0, 0, 13, 0, 1, 19,
      4, 6, 7, 8, 10, 11, 12, 0, 0, 0, 0, 28, 26, 24, 3, 22,
      2, 14, 13, 0, 0, 239, 0, 0]
     [(0x9C, 13), (0xB5, 239), (0xC8, KEY_UP), (0xD0, KEY_DN), (0xC9, KEY_PGUP), (0xD1, KEY_PGDN), (0xCB, KEY_LF), (0xCD, KEY_RT), (0x97, KEY_HOME), (0xCF, KEY_END), (0xD2, KEY_INS), (0xD3, KEY_DEL)] i"

section \<open>The driver\<close>

definition charcode :: "uint \<Rightarrow> uint \<Rightarrow> uchar" where
  "charcode t = (if t = 0 then normalmap else if t = 1 then shiftmap else ctlmap)"

definition kbd_char :: "uint \<Rightarrow> uint \<Rightarrow> uint" where
  "kbd_char shift data =
     (let c = ucast (charcode (shift AND (CTL OR SHIFT)) data)
      in if shift AND CAPSLOCK \<noteq> 0
         then if 97 \<le> c \<and> c \<le> 122 then c - 32 else if 65 \<le> c \<and> c \<le> 90 then c + 32 else c
         else c)"

definition kbdgetc :: "uchar \<Rightarrow> uchar \<Rightarrow> uint \<Rightarrow> int \<times> uint" where
  "kbdgetc st port shift =
     (if st AND 1 = 0 then (- 1, shift)
      else let data = (ucast port :: uint)
           in if data = 0xE0 then (0, shift OR E0ESC)
              else if data AND 0x80 \<noteq> 0
              then let data = (if shift AND E0ESC \<noteq> 0 then data else data AND 0x7F)
                   in (0, shift AND NOT (shiftcode data OR E0ESC))
              else let (data, shift) = (if shift AND E0ESC \<noteq> 0 then (data OR 0x80, shift AND NOT E0ESC) else (data, shift));
                       shift = shift OR shiftcode data;
                       shift = shift XOR togglecode data
                   in (sint (kbd_char shift data), shift))"

text \<open>The modifier state after a sequence of scan codes.\<close>

definition kbd_scan :: "uchar \<Rightarrow> uint \<Rightarrow> uint" where
  "kbd_scan d shift = snd (kbdgetc 1 d shift)"

section \<open>Pressing and releasing a key\<close>

lemma scan_E0: "kbd_scan 0xE0 shift = shift OR E0ESC"
  by (simp add: kbd_scan_def kbdgetc_def)

lemma ucast_low:
  assumes "(d :: uchar) < 0x80"
  shows "(ucast d :: uint) AND 0x80 = 0" and "(ucast d :: uint) \<noteq> 0xE0"
    and "(ucast (d OR 0x80) :: uint) AND 0x80 \<noteq> 0" and "(ucast (d OR 0x80) :: uint) AND 0x7F = ucast d"
    and "(ucast (d OR 0x80) :: uint) = ucast d OR 0x80"
proof -
  have e: "(0x80 :: uint) = 2 ^ 7" "(0x80 :: uchar) = 2 ^ 7" "(0x80 :: int) = 2 ^ 7" by simp_all
  have b: "bit (0x80 :: uint) n \<longleftrightarrow> n = 7" "bit (0x80 :: uchar) n \<longleftrightarrow> n = 7" "bit (0x80 :: int) n \<longleftrightarrow> n = 7" for n
    unfolding e bit_exp_iff by auto
  have c: "(0x7F :: uint) = mask 7" by (simp add: mask_eq_exp_minus_1)
  have "unat d < 128" using assms by (simp add: word_less_nat_alt)
  then have "d div 128 = 0" by (simp add: word_unat_eq_iff unat_div)
  then have b7: "\<not> bit d 7" by (simp add: bit_iff_odd)
  have n7: "bit d n \<Longrightarrow> n < 7" for n
  proof -
    assume "bit d n"
    then have "n < 8" "n \<noteq> 7" using bit_imp_le_length [of d n] b7 by auto
    then show ?thesis by simp
  qed
  show "(ucast d :: uint) AND 0x80 = 0" by (rule bit_eqI) (auto simp: bit_simps b dest: n7)
  then show "(ucast d :: uint) \<noteq> 0xE0" by auto
  have "bit ((ucast (d OR 0x80) :: uint) AND 0x80) 7" by (simp add: bit_simps b)
  then show "(ucast (d OR 0x80) :: uint) AND 0x80 \<noteq> 0" by auto
  show "(ucast (d OR 0x80) :: uint) AND 0x7F = ucast d" unfolding c by (rule bit_eqI) (auto simp: bit_simps b dest: n7)
  show "(ucast (d OR 0x80) :: uint) = ucast d OR 0x80" by (rule bit_eqI) (auto simp: bit_simps b)
qed

lemma bit_E0ESC: "bit E0ESC n \<longleftrightarrow> n = 6" and AND_E0ESC: "shift AND E0ESC \<noteq> 0 \<longleftrightarrow> bit shift 6"
proof -
  have e: "E0ESC = 2 ^ 6" by (simp add: E0ESC_def)
  show b: "bit E0ESC n \<longleftrightarrow> n = 6" for n unfolding e bit_exp_iff by auto
  show "shift AND E0ESC \<noteq> 0 \<longleftrightarrow> bit shift 6"
  proof
    assume "bit shift 6"
    then have "bit (shift AND E0ESC) 6" by (simp add: bit_and_iff b)
    then show "shift AND E0ESC \<noteq> 0" by auto
  next
    show "shift AND E0ESC \<noteq> 0 \<Longrightarrow> bit shift 6"
      by (rule ccontr) (auto simp: bit_and_iff b intro!: bit_eqI)
  qed
qed

lemma codes_cases: "shiftcode d \<in> {0, SHIFT, CTL, ALT}" "togglecode d \<in> {0, CAPSLOCK, NUMLOCK, SCROLLLOCK}"
  unfolding shiftcode_def togglecode_def by (simp_all only: insert_iff split: if_split) simp_all

lemma codes_not_E0: "\<not> bit (shiftcode d) 6" "\<not> bit (togglecode d) 6"
proof -
  have "\<not> bit x 6" if "x \<in> {0, SHIFT, CTL, ALT, CAPSLOCK, NUMLOCK, SCROLLLOCK}" for x
    using that by (auto simp: CTL_def SHIFT_def ALT_def CAPSLOCK_def NUMLOCK_def SCROLLLOCK_def)
  then show "\<not> bit (shiftcode d) 6" "\<not> bit (togglecode d) 6" using codes_cases [of d] by auto
qed

lemma codes_disjoint: "shiftcode d = 0 \<or> togglecode d = 0"
proof (cases "togglecode d = 0")
  case False
  then have "d \<in> {0x3A, 0x45, 0x46}" by (auto simp: togglecode_def split: if_splits)
  then show ?thesis by (auto simp: shiftcode_def)
qed simp

lemma kbd_press:
  assumes "d < 0x80" and "\<not> bit shift 6"
  shows "kbd_scan d shift = (shift OR shiftcode (ucast d)) XOR togglecode (ucast d)"
  using assms ucast_low(1,2) [OF assms(1)] AND_E0ESC [of shift] by (simp add: kbd_scan_def kbdgetc_def Let_def)

lemma kbd_release:
  assumes "d < 0x80" and "\<not> bit shift 6" and "d \<noteq> 0x60"
  shows "kbd_scan (d OR 0x80) shift = shift AND NOT (shiftcode (ucast d))"
proof -
  have "(ucast (d OR 0x80) :: uint) \<noteq> 0xE0"
  proof
    assume "(ucast (d OR 0x80) :: uint) = 0xE0"
    then have "(0xE0 :: uint) AND 0x7F = ucast d" using ucast_low(4) [OF assms(1)] by simp
    then have "(ucast d :: uint) = 0x60" by simp
    then have "unat (ucast d :: uint) = 0x60" by simp
    then have "unat d = 0x60" using assms(1) by (simp add: unsigned_ucast_eq take_bit_nat_eq_self word_less_nat_alt)
    then show False using assms(3) by (simp add: word_unat_eq_iff)
  qed
  moreover have "shift AND NOT (shiftcode (ucast d) OR E0ESC) = shift AND NOT (shiftcode (ucast d))"
    by (rule bit_eqI) (use assms(2) in \<open>auto simp: bit_simps bit_E0ESC\<close>)
  ultimately show ?thesis
    using assms ucast_low(3,4) [OF assms(1)] AND_E0ESC [of shift] by (simp add: kbd_scan_def kbdgetc_def Let_def)
qed

text \<open>
  C40.  Pressing and releasing a key, from any modifier state, flips the lock the key toggles, clears the modifiers it sets and
  changes nothing else.  The one exception is the key code 0x60, whose release code is the escape prefix.
\<close>

theorem kbd_press_release:
  assumes "d < 0x80" and "d \<noteq> 0x60" and "\<not> bit shift 6"
  shows "kbd_scan (d OR 0x80) (kbd_scan d shift) = (shift AND NOT (shiftcode (ucast d))) XOR togglecode (ucast d)"
proof -
  have "\<not> bit (kbd_scan d shift) 6"
    using assms codes_not_E0 by (simp add: kbd_press bit_simps)
  then have "kbd_scan (d OR 0x80) (kbd_scan d shift)
      = ((shift OR shiftcode (ucast d)) XOR togglecode (ucast d)) AND NOT (shiftcode (ucast d))"
    using assms by (simp add: kbd_release kbd_press)
  moreover have "\<dots> = (shift AND NOT (shiftcode (ucast d))) XOR togglecode (ucast d)"
    using codes_disjoint [of "ucast d"] by (auto intro!: bit_eqI simp: bit_simps)
  ultimately show ?thesis by simp
qed

theorem kbd_press_release_witness:
  "kbd_scan (0x2A OR 0x80) (kbd_scan 0x2A CAPSLOCK) = CAPSLOCK \<and> kbd_scan (0x3A OR 0x80) (kbd_scan 0x3A 0) = CAPSLOCK"
proof
  have c: "\<not> bit CAPSLOCK 6" "(0x2A :: uchar) < 0x80" "(0x3A :: uchar) < 0x80" by (simp_all add: CAPSLOCK_def)
  have t: "shiftcode 0x2A = 1" "togglecode 0x2A = 0" "shiftcode 0x3A = 0" "togglecode 0x3A = CAPSLOCK"
    by (simp_all add: shiftcode_def togglecode_def SHIFT_def)
  have u: "(ucast (0x2A :: uchar) :: uint) = 0x2A" "(ucast (0x3A :: uchar) :: uint) = 0x3A" by simp_all
  show "kbd_scan (0x2A OR 0x80) (kbd_scan 0x2A CAPSLOCK) = CAPSLOCK"
    using kbd_press_release [OF c(2) _ c(1), unfolded u t] by (simp add: CAPSLOCK_def)
  show "kbd_scan (0x3A OR 0x80) (kbd_scan 0x3A 0) = CAPSLOCK"
    using kbd_press_release [OF c(3), of 0, unfolded u t] by simp
qed

end
