(* ===== verification/Trap.thy ===== *)
theory Trap
  imports Exec Kbd
begin

text \<open>
  The system call table (\<^verbatim>\<open>src/xv6/syscall.c\<close>, \<^verbatim>\<open>syscall.h\<close>) and the trap handler (\<^verbatim>\<open>src/xv6/trap.c\<close>, \<^verbatim>\<open>traps.h\<close>).  The characters the
  keyboard or the serial port delivers during an interrupt are an argument.  The messages that \<^verbatim>\<open>cprintf\<close> prints about unknown calls and
  traps, the acknowledgement of the interrupt controller and the disk interrupt, which the memory-backed driver ignores, change
  nothing in the model.
\<close>

section \<open>The system call table\<close>

definition SYS_fork :: int where "SYS_fork = 1"
definition SYS_exit :: int where "SYS_exit = 2"
definition SYS_wait :: int where "SYS_wait = 3"
definition SYS_pipe :: int where "SYS_pipe = 4"
definition SYS_read :: int where "SYS_read = 5"
definition SYS_kill :: int where "SYS_kill = 6"
definition SYS_exec :: int where "SYS_exec = 7"
definition SYS_fstat :: int where "SYS_fstat = 8"
definition SYS_chdir :: int where "SYS_chdir = 9"
definition SYS_dup :: int where "SYS_dup = 10"
definition SYS_getpid :: int where "SYS_getpid = 11"
definition SYS_sbrk :: int where "SYS_sbrk = 12"
definition SYS_sleep :: int where "SYS_sleep = 13"
definition SYS_uptime :: int where "SYS_uptime = 14"
definition SYS_open :: int where "SYS_open = 15"
definition SYS_write :: int where "SYS_write = 16"
definition SYS_mknod :: int where "SYS_mknod = 17"
definition SYS_unlink :: int where "SYS_unlink = 18"
definition SYS_link :: int where "SYS_link = 19"
definition SYS_mkdir :: int where "SYS_mkdir = 20"
definition SYS_close :: int where "SYS_close = 21"
definition SYS_getpidplusone :: int where "SYS_getpidplusone = 22"

lemmas SYS_defs = SYS_fork_def SYS_exit_def SYS_wait_def SYS_pipe_def SYS_read_def SYS_kill_def SYS_exec_def
  SYS_fstat_def SYS_chdir_def SYS_dup_def SYS_getpid_def SYS_sbrk_def SYS_sleep_def SYS_uptime_def SYS_open_def
  SYS_write_def SYS_mknod_def SYS_unlink_def SYS_link_def SYS_mkdir_def SYS_close_def SYS_getpidplusone_def

definition syscalls :: "(int \<times> sys) list" where
  "syscalls =
     [(SYS_fork, sys_fork), (SYS_exit, sys_exit), (SYS_wait, sys_wait), (SYS_pipe, sys_pipe), (SYS_read, sys_read),
      (SYS_kill, sys_kill), (SYS_exec, sys_exec), (SYS_fstat, sys_fstat), (SYS_chdir, sys_chdir), (SYS_dup, sys_dup),
      (SYS_getpid, sys_getpid), (SYS_sbrk, sys_sbrk), (SYS_sleep, sys_sleep), (SYS_uptime, sys_uptime), (SYS_open, sys_open),
      (SYS_write, sys_write), (SYS_mknod, sys_mknod), (SYS_unlink, sys_unlink), (SYS_link, sys_link), (SYS_mkdir, sys_mkdir),
      (SYS_close, sys_close), (SYS_getpidplusone, sys_getpidplusone)]"

definition set_eax :: "int \<Rightarrow> kstate \<Rightarrow> kstate" where
  "set_eax r s = upd_proc (cur s) (\<lambda>q. q\<lparr>p_tf := (p_tf q)\<lparr>tf_eax := word_of_int r\<rparr>\<rparr>) s"

text \<open>\<^verbatim>\<open>exit\<close> does not return: a process that became a zombie in the call stores no result.\<close>

definition syscall :: "kstate \<Rightarrow> kstate outcome" where
  "syscall s =
     (let num = sint (tf_eax (p_tf (myproc s)))
      in case (if 0 < num then map_of syscalls num else None) of
           Some f \<Rightarrow> obind (f s) (\<lambda>(r, s). Done (if p_state (myproc s) = ZOMBIE then s else set_eax r s))
         | None \<Rightarrow> Done (set_eax (- 1) s))"

section \<open>Traps\<close>

definition T_SYSCALL :: uint where "T_SYSCALL = 64"
definition T_IRQ0 :: uint where "T_IRQ0 = 32"
definition IRQ_TIMER :: uint where "IRQ_TIMER = 0"
definition IRQ_KBD :: uint where "IRQ_KBD = 1"
definition IRQ_COM1 :: uint where "IRQ_COM1 = 4"
definition IRQ_IDE :: uint where "IRQ_IDE = 14"
definition IRQ_SPURIOUS :: uint where "IRQ_SPURIOUS = 31"

definition trap_syscall :: "trapframe \<Rightarrow> kstate \<Rightarrow> kstate outcome" where
  "trap_syscall tf s =
     (if p_killed (myproc s) then exit s
      else obind (syscall (upd_proc (cur s) (\<lambda>q. q\<lparr>p_tf := tf\<rparr>) s)) (\<lambda>s.
             if p_state (myproc s) = ZOMBIE then Done s
             else if p_killed (myproc s) then exit s else Done s))"

definition console_input :: "int list \<Rightarrow> kstate \<Rightarrow> kstate outcome" where
  "console_input inp s =
     obind (consoleintr inp False False (console s)) (\<lambda>(_, wake, c).
       let s = s\<lparr>console := c\<rparr> in Done (if wake then wakeup Ch_input s else s))"

text \<open>The \<^verbatim>\<open>switch\<close> on the trap number, for a trap taken while a process runs.\<close>

definition trap_dispatch :: "trapframe \<Rightarrow> int list \<Rightarrow> kstate \<Rightarrow> kstate outcome" where
  "trap_dispatch tf inp s =
     (let n = tf_trapno tf
      in if n = T_IRQ0 + IRQ_TIMER then Done (wakeup Ch_ticks (s\<lparr>ticks := ticks s + 1\<rparr>))
         else if n = T_IRQ0 + IRQ_IDE then Done s
         else if n = T_IRQ0 + IRQ_IDE + 1 then Done s
         else if n = T_IRQ0 + IRQ_KBD then console_input inp s
         else if n = T_IRQ0 + IRQ_COM1 then console_input inp s
         else if n = T_IRQ0 + 7 \<or> n = T_IRQ0 + IRQ_SPURIOUS then Done s
         else if tf_cs tf AND 3 = 0 then Panic ''trap''
         else Done (upd_proc (cur s) (\<lambda>q. q\<lparr>p_killed := True\<rparr>) s))"

text \<open>
  \<^verbatim>\<open>trap\<close> up to its return or to the switch in \<^verbatim>\<open>yield\<close>, and the check it makes when the process is scheduled again.
\<close>

definition trap :: "trapframe \<Rightarrow> int list \<Rightarrow> kstate \<Rightarrow> kstate outcome" where
  "trap tf inp s =
     (if tf_trapno tf = T_SYSCALL then trap_syscall tf s
      else obind (trap_dispatch tf inp s) (\<lambda>s.
        if p_killed (myproc s) \<and> tf_cs tf AND 3 = DPL_USER then exit s
        else if p_state (myproc s) = RUNNING \<and> tf_trapno tf = T_IRQ0 + IRQ_TIMER then Done (yield s)
        else Done s))"

definition trap_resume :: "trapframe \<Rightarrow> kstate \<Rightarrow> kstate outcome" where
  "trap_resume tf s = (if p_killed (myproc s) \<and> tf_cs tf AND 3 = DPL_USER then exit s else Done s)"

section \<open>Refused system calls\<close>

lemma upd_proc_simps [simp]: "vm (upd_proc p f s) = vm s" "cur (upd_proc p f s) = cur s" "length (ptable (upd_proc p f s)) = length (ptable s)"
  by (simp_all add: upd_proc_def)

lemma myproc_upd: "cur s < length (ptable s) \<Longrightarrow> ptable (upd_proc (cur s) f s) ! cur s = f (myproc s)"
  by (simp add: upd_proc_def)

lemma proc_mem_ok_tf: "cur s < length (ptable s) \<Longrightarrow> proc_mem_ok (upd_proc (cur s) (\<lambda>q. q\<lparr>p_tf := tf\<rparr>) s) = proc_mem_ok s"
  by (simp add: proc_mem_ok_def myproc_upd)

text \<open>The first argument is a descriptor that is out of range or not open, or cannot be read at all.\<close>

definition bad_fd :: "kstate \<Rightarrow> bool" where
  "bad_fd s \<longleftrightarrow> (\<forall>w. argint 0 s = Done (Some w) \<longrightarrow> sint w < 0 \<or> int NOFILE \<le> sint w \<or> p_ofile (myproc s) ! nat (sint w) = None)"

lemma argfd_bad:
  assumes "proc_mem_ok s" "bad_fd s"
  shows "argfd 0 s = Done None"
proof -
  obtain r where r: "argint 0 s = Done r" using fetchint_ok [OF assms(1)] unfolding argint_def by blast
  then show ?thesis using assms(2) by (cases r) (auto simp: argfd_def bad_fd_def Let_def split: option.split)
qed


lemma sample_user:
  "\<exists>s :: kstate. proc_mem_ok s \<and> cur s < length (ptable s) \<and> \<not> p_killed (myproc s) \<and> p_state (myproc s) = RUNNING
     \<and> p_sz (myproc s) = 0x2000 \<and> p_ofile (myproc s) = replicate NOFILE None"
proof -
  obtain m :: kmem and ps d where m: "uspace m ps d 0x2000" using sample_process by blast
  let ?p = "(undefined :: proc)\<lparr>p_sz := 0x2000, p_pgdir := d, p_killed := False, p_state := RUNNING, p_ofile := replicate NOFILE None\<rparr>"
  let ?s = "(undefined :: kstate)\<lparr>vm := m, ptable := [?p], cur := 0\<rparr>"
  have "PGROUNDUP 0x2000 = 0x2000" by (simp add: PGROUNDUP_def PGSIZE_def)
  then have "proc_mem_ok ?s" using m by (auto simp: proc_mem_ok_def KERNBASE_def)
  then show ?thesis by (intro exI [of _ ?s]) simp
qed


end
