(* ===== verification/ProcTable.thy ===== *)
theory ProcTable
  imports Proc
begin

text \<open>
  The process table under every interleaving of the operations of \<^verbatim>\<open>src/xv6/proc.c\<close>.  A step of the table is what one of them does while it holds
  \<^verbatim>\<open>ptable.lock\<close>; any process may be running, on any number of CPUs.  The theorems say that \<^verbatim>\<open>wait\<close> never sleeps through the exit of a
  child, and that no parent pointer ever leads to a dead process.
\<close>

section \<open>Steps\<close>

definition set_proc :: "nat \<Rightarrow> (proc \<Rightarrow> proc) \<Rightarrow> proc list \<Rightarrow> proc list" where
  "set_proc i f ps = ps[i := f (ps ! i)]"

definition in_wait :: "nat \<Rightarrow> proc list \<Rightarrow> bool" where
  "in_wait i ps \<longleftrightarrow> p_state (ps ! i) = SLEEPING \<and> p_chan (ps ! i) = Some (Ch_proc i)"

inductive ptab_step :: "nat \<Rightarrow> proc list \<Rightarrow> proc list \<Rightarrow> bool" for init :: nat where
  alloc: "np < NPROC \<Longrightarrow> p_state (ps ! np) = UNUSED \<Longrightarrow>
    ptab_step init ps (set_proc np (\<lambda>q. q\<lparr>p_state := EMBRYO, p_pid := pid\<rparr>) ps)"
| alloc_fail: "np < NPROC \<Longrightarrow> p_state (ps ! np) = EMBRYO \<Longrightarrow>
    ptab_step init ps (set_proc np (\<lambda>q. q\<lparr>p_state := UNUSED\<rparr>) ps)"
| fork_parent: "np < NPROC \<Longrightarrow> me < NPROC \<Longrightarrow> np \<noteq> init \<Longrightarrow> p_state (ps ! np) = EMBRYO \<Longrightarrow> p_state (ps ! me) = RUNNING \<Longrightarrow>
    ptab_step init ps (set_proc np (\<lambda>q. q\<lparr>p_parent := Some me\<rparr>) ps)"
| fork_ready: "np < NPROC \<Longrightarrow> p_state (ps ! np) = EMBRYO \<Longrightarrow>
    ptab_step init ps (set_proc np (\<lambda>q. q\<lparr>p_state := RUNNABLE\<rparr>) ps)"
| start: "p < NPROC \<Longrightarrow> p_state (ps ! p) = RUNNABLE \<Longrightarrow>
    ptab_step init ps (set_proc p (\<lambda>q. q\<lparr>p_state := RUNNING\<rparr>) ps)"
| yield: "p < NPROC \<Longrightarrow> p_state (ps ! p) = RUNNING \<Longrightarrow>
    ptab_step init ps (set_proc p (\<lambda>q. q\<lparr>p_state := RUNNABLE\<rparr>) ps)"
| sleep: "p < NPROC \<Longrightarrow> p_state (ps ! p) = RUNNING \<Longrightarrow> (\<And>i. ch \<noteq> Ch_proc i) \<Longrightarrow>
    ptab_step init ps (set_proc p (\<lambda>q. q\<lparr>p_chan := Some ch, p_state := SLEEPING\<rparr>) ps)"
| resume: "p < NPROC \<Longrightarrow> p_state (ps ! p) = RUNNING \<Longrightarrow>
    ptab_step init ps (set_proc p (\<lambda>q. q\<lparr>p_chan := None\<rparr>) ps)"
| wakeup: "ptab_step init ps (wakeup1_tab ch ps)"
| kill: "p < NPROC \<Longrightarrow>
    ptab_step init ps (set_proc p (\<lambda>q. q\<lparr>p_killed := True, p_state := (if p_state q = SLEEPING then RUNNABLE else p_state q)\<rparr>) ps)"
| exit: "me < NPROC \<Longrightarrow> me \<noteq> init \<Longrightarrow> p_state (ps ! me) = RUNNING \<Longrightarrow> ptab_step init ps (exit_tab me init ps)"
| wait_sleep: "me < NPROC \<Longrightarrow> p_state (ps ! me) = RUNNING \<Longrightarrow> wait_scan me ps = (True, None) \<Longrightarrow>
    ptab_step init ps (set_proc me (\<lambda>q. q\<lparr>p_chan := Some (Ch_proc me), p_state := SLEEPING\<rparr>) ps)"
| wait_reap: "me < NPROC \<Longrightarrow> p_state (ps ! me) = RUNNING \<Longrightarrow> wait_scan me ps = (kids, Some p) \<Longrightarrow>
    ptab_step init ps (set_proc p (\<lambda>q. q\<lparr>p_kstack := 0, p_pid := 0, p_parent := None, p_name := (p_name q)[0 := 0],
                                   p_killed := False, p_state := UNUSED\<rparr>) ps)"

section \<open>Invariant\<close>

definition ptab_inv :: "nat \<Rightarrow> proc list \<Rightarrow> bool" where
  "ptab_inv init ps \<longleftrightarrow> length ps = NPROC \<and> init < NPROC \<and> p_parent (ps ! init) = None
     \<and> (\<forall>j < NPROC. p_parent (ps ! j) \<noteq> Some j)
     \<and> (\<forall>j < NPROC. \<forall>i. p_parent (ps ! j) = Some i \<longrightarrow> i < NPROC)
     \<and> (\<forall>i < NPROC. \<forall>j < NPROC. in_wait i ps \<longrightarrow> p_parent (ps ! j) = Some i \<longrightarrow> p_state (ps ! j) \<noteq> ZOMBIE)"

lemma set_proc_nth: "i < length ps \<Longrightarrow> set_proc i f ps ! j = (if j = i then f (ps ! i) else ps ! j)"
  by (simp add: set_proc_def)

lemma length_set_proc [simp]: "length (set_proc i f ps) = length ps"
  by (simp add: set_proc_def)

lemma wakeup1_tab_nth:
  "j < length ps \<Longrightarrow> wakeup1_tab ch ps ! j =
     (if p_state (ps ! j) = SLEEPING \<and> p_chan (ps ! j) = Some ch then (ps ! j)\<lparr>p_state := RUNNABLE\<rparr> else ps ! j)"
  by (simp add: wakeup1_tab_def)

lemma length_wakeup1_tab [simp]: "length (wakeup1_tab ch ps) = length ps"
  by (simp add: wakeup1_tab_def)

text \<open>
  Changing one process keeps the invariant if the process does not go to sleep in \<^verbatim>\<open>wait\<close>, become a zombie or get a bad parent.
\<close>

lemma ptab_inv_set:
  assumes "ptab_inv init ps" and "i < NPROC" and "p_parent (f (ps ! i)) = p_parent (ps ! i) \<or> p_parent (f (ps ! i)) = None"
    and "p_state (f (ps ! i)) = SLEEPING \<Longrightarrow> p_chan (f (ps ! i)) = Some (Ch_proc i) \<Longrightarrow> in_wait i ps"
    and "p_state (f (ps ! i)) = ZOMBIE \<Longrightarrow> p_state (ps ! i) = ZOMBIE"
  shows "ptab_inv init (set_proc i f ps)"
proof -
  have "length ps = NPROC" using assms(1) by (simp add: ptab_inv_def)
  then have e: "set_proc i f ps ! j = (if j = i then f (ps ! i) else ps ! j)" for j
    using assms(2) by (simp add: set_proc_nth)
  show ?thesis using assms(3)
  proof
    assume "p_parent (f (ps ! i)) = p_parent (ps ! i)"
    then show ?thesis using assms(1,2,4,5) unfolding ptab_inv_def in_wait_def by (auto simp: e)
  next
    assume "p_parent (f (ps ! i)) = None"
    then show ?thesis using assms(1,2,4) unfolding ptab_inv_def in_wait_def by (auto simp: e)
  qed
qed

lemma ptab_inv_wakeup: "ptab_inv init ps \<Longrightarrow> ptab_inv init (wakeup1_tab ch ps)"
  unfolding ptab_inv_def in_wait_def by (auto simp: wakeup1_tab_nth)

definition reparent1 :: "nat \<Rightarrow> nat \<Rightarrow> nat \<Rightarrow> proc list \<Rightarrow> proc list" where
  "reparent1 me init p ps =
     (if p_parent (ps ! p) = Some me
      then let ps = ps[p := (ps ! p)\<lparr>p_parent := Some init\<rparr>]
           in if p_state (ps ! p) = ZOMBIE then wakeup1_tab (Ch_proc init) ps else ps
      else ps)"

lemma reparent1_nth:
  assumes "p < length ps" and "j < length ps"
  shows "p_state (reparent1 me init p ps ! j) = ZOMBIE \<longleftrightarrow> p_state (ps ! j) = ZOMBIE"
    and "p_state (reparent1 me init p ps ! j) = SLEEPING \<Longrightarrow> p_state (ps ! j) = SLEEPING"
    and "p_chan (reparent1 me init p ps ! j) = p_chan (ps ! j)"
    and "p_parent (reparent1 me init p ps ! j) = (if j = p \<and> p_parent (ps ! p) = Some me then Some init else p_parent (ps ! j))"
  using assms by (auto simp: reparent1_def Let_def wakeup1_tab_nth nth_list_update split: if_splits)

lemma exit_reparent_Suc: "exit_reparent me init p (Suc k) ps = exit_reparent me init (Suc p) k (reparent1 me init p ps)"
  by (simp add: reparent1_def Let_def)

lemma length_reparent1 [simp]: "length (reparent1 me init p ps) = length ps"
  by (simp add: reparent1_def Let_def)

declare exit_reparent.simps(2) [simp del]

lemma exit_reparent_spec:
  assumes "p + k \<le> length ps"
  shows "length (exit_reparent me init p k ps) = length ps"
    and "j < length ps \<Longrightarrow> p_state (exit_reparent me init p k ps ! j) = ZOMBIE \<longleftrightarrow> p_state (ps ! j) = ZOMBIE"
    and "j < length ps \<Longrightarrow> p_state (exit_reparent me init p k ps ! j) = SLEEPING \<Longrightarrow> p_state (ps ! j) = SLEEPING"
    and "j < length ps \<Longrightarrow> p_chan (exit_reparent me init p k ps ! j) = p_chan (ps ! j)"
    and "j < length ps \<Longrightarrow> p_parent (exit_reparent me init p k ps ! j) =
      (if p \<le> j \<and> j < p + k \<and> p_parent (ps ! j) = Some me then Some init else p_parent (ps ! j))"
  using assms
proof (induction k arbitrary: p ps)
  case (Suc k)
  { case 1 then show ?case using Suc(1) [of "Suc p" "reparent1 me init p ps"] by (simp add: exit_reparent_Suc) }
  note step = Suc(2-5) [of "reparent1 me init p ps" "Suc p" for p ps]
  { case 2 then show ?case using step(1) [of p ps] reparent1_nth(1) [of p ps j] by (simp add: exit_reparent_Suc) }
  { case 3 then show ?case using step(2) [of p ps] reparent1_nth(2) [of p ps j] by (simp add: exit_reparent_Suc) }
  { case 4 then show ?case using step(3) [of p ps] reparent1_nth(3) [of p ps j] by (simp add: exit_reparent_Suc) }
  { case 5 then show ?case using step(4) [of p ps] reparent1_nth(4) [of p ps j me init] by (cases "j = p") (auto simp: exit_reparent_Suc) }
qed auto

text \<open>If a zombie is handed to \<^verbatim>\<open>init\<close>, then \<^verbatim>\<open>init\<close> is not left sleeping in \<^verbatim>\<open>wait\<close>.\<close>

lemma exit_reparent_wakes:
  assumes "p + k \<le> length ps" and "init < length ps"
    and "p \<le> j" and "j < p + k" and "p_parent (ps ! j) = Some me" and "p_state (ps ! j) = ZOMBIE"
  shows "\<not> in_wait init (exit_reparent me init p k ps)"
  using assms
proof (induction k arbitrary: p ps)
  case (Suc k)
  let ?rs = "reparent1 me init p ps"
  have len: "Suc p + k \<le> length ?rs" "init < length ?rs" "p < length ps" "j < length ps" using Suc.prems by simp_all
  show ?case
  proof (cases "j = p")
    case True
    then have "\<not> (p_state (?rs ! init) = SLEEPING \<and> p_chan (?rs ! init) = Some (Ch_proc init))"
      using Suc.prems len by (auto simp: reparent1_def Let_def wakeup1_tab_nth)
    then show ?thesis
      unfolding exit_reparent_Suc in_wait_def using exit_reparent_spec(3,4) [OF len(1,2)] len(1) by metis
  next
    case False
    then show ?thesis
      unfolding exit_reparent_Suc using Suc.prems False len reparent1_nth [OF len(3,4), of me init] by (intro Suc.IH) auto
  qed
qed auto

lemma exit_tab_spec:
  assumes i: "ptab_inv init ps" and me: "me < NPROC" "me \<noteq> init"
  shows "ptab_inv init (exit_tab me init ps)"
    and "j < NPROC \<Longrightarrow> p_parent (exit_tab me init ps ! j) = (if p_parent (ps ! j) = Some me then Some init else p_parent (ps ! j))"
    and "p_state (exit_tab me init ps ! me) = ZOMBIE"
proof -
  have len: "length ps = NPROC" "init < NPROC" using i by (simp_all add: ptab_inv_def)
  define qs where "qs = (case p_parent (ps ! me) of Some q \<Rightarrow> wakeup1_tab (Ch_proc q) ps | None \<Rightarrow> ps)"
  have qs: "length qs = NPROC" "ptab_inv init qs"
    using len i ptab_inv_wakeup by (auto simp: qs_def split: option.split)
  have par: "p_parent (qs ! j) = p_parent (ps ! j)" if "j < NPROC" for j
    using that len by (auto simp: qs_def wakeup1_tab_nth split: option.split)
  have awake: "\<not> in_wait q qs" if "p_parent (ps ! me) = Some q" for q
  proof -
    have "q < NPROC" using i that me(1) by (auto simp: ptab_inv_def)
    then show ?thesis using that len by (auto simp: in_wait_def qs_def wakeup1_tab_nth)
  qed
  define rs where "rs = exit_reparent me init 0 NPROC qs"
  have "0 + NPROC \<le> length qs" using qs(1) by simp
  note r = exit_reparent_spec [OF this, where me = me and init = init, folded rs_def]
  have rl: "length rs = NPROC" using r(1) qs(1) by simp
  have rp: "p_parent (rs ! j) = (if p_parent (ps ! j) = Some me then Some init else p_parent (ps ! j))" if "j < NPROC" for j
    using r(5) [of j] par [OF that] that qs(1) by simp
  have out: "exit_tab me init ps = rs[me := (rs ! me)\<lparr>p_state := ZOMBIE\<rparr>]"
    by (simp add: exit_tab_def rs_def qs_def Let_def)
  show "p_state (exit_tab me init ps ! me) = ZOMBIE" using me rl by (simp add: out)
  show par': "j < NPROC \<Longrightarrow> p_parent (exit_tab me init ps ! j) = (if p_parent (ps ! j) = Some me then Some init else p_parent (ps ! j))" for j
    using rp [of j] rp [of me] me(1) rl by (cases "j = me") (auto simp: out)
  have wait': "in_wait a rs" "a \<noteq> me" if "in_wait a (exit_tab me init ps)" "a < NPROC" for a
    using that rl me by (auto simp: in_wait_def out nth_list_update split: if_splits)
  have wqs: "in_wait a qs" if "in_wait a rs" "a < NPROC" for a
    using that r(3,4) [of a] qs(1) by (simp add: in_wait_def)
  have key: "p_state (exit_tab me init ps ! b) \<noteq> ZOMBIE"
    if w: "in_wait a (exit_tab me init ps)" and a: "a < NPROC" and b: "b < NPROC" and p: "p_parent (exit_tab me init ps ! b) = Some a" for a b
  proof
    assume z: "p_state (exit_tab me init ps ! b) = ZOMBIE"
    note wr = wait' [OF w a]
    note wq = wqs [OF wr(1) a]
    show False
    proof (cases "b = me")
      case True
      have "p_parent (ps ! me) \<noteq> Some me" using i me(1) by (auto simp: ptab_inv_def)
      then have "p_parent (ps ! me) = Some a" using par' [OF b] p True by simp
      then show False using awake wq by blast
    next
      case False
      have zq: "p_state (qs ! b) = ZOMBIE" using z False r(2) [of b] b qs(1) rl by (simp add: out)
      show False
      proof (cases "p_parent (ps ! b) = Some me")
        case True
        then have ai: "a = init" using par' [OF b] p by simp
        have "\<not> in_wait init rs"
          unfolding rs_def by (rule exit_reparent_wakes [where j = b]) (use qs(1) len b zq True par in auto)
        then show False using wr(1) ai by simp
      next
        case False
        then have "p_parent (qs ! b) = Some a" using par' [OF b] p par [OF b] by simp
        then show False using qs(2) wq a b zq by (auto simp: ptab_inv_def)
      qed
    qed
  qed
  have "p_parent (ps ! j) = Some a \<Longrightarrow> a < NPROC" if "j < NPROC" for j a using i that by (auto simp: ptab_inv_def)
  moreover have "p_parent (ps ! j) \<noteq> Some j" if "j < NPROC" for j using i that by (auto simp: ptab_inv_def)
  moreover have "p_parent (ps ! init) = None" using i by (simp add: ptab_inv_def)
  ultimately show "ptab_inv init (exit_tab me init ps)"
    unfolding ptab_inv_def using len rl par' key by (auto simp: out split: if_splits)
qed

lemma wait_scan_None:
  "wait_scan me ps = (kids, None) \<Longrightarrow> j < length ps \<Longrightarrow> p_parent (ps ! j) = Some me \<Longrightarrow> p_state (ps ! j) \<noteq> ZOMBIE"
  by (auto simp: wait_scan_def find_None_iff)

lemma wait_scan_Some:
  "wait_scan me ps = (kids, Some p) \<Longrightarrow> p < length ps \<and> p_parent (ps ! p) = Some me \<and> p_state (ps ! p) = ZOMBIE"
  by (auto simp: wait_scan_def find_Some_iff)

lemma ptab_inv_fork:
  assumes "ptab_inv init ps" and "i < NPROC" and "q < NPROC" and "i \<noteq> q" and "i \<noteq> init" and "p_state (ps ! i) = EMBRYO"
  shows "ptab_inv init (set_proc i (\<lambda>c. c\<lparr>p_parent := Some q\<rparr>) ps)"
proof -
  have "length ps = NPROC" using assms(1) by (simp add: ptab_inv_def)
  then have e: "set_proc i (\<lambda>c. c\<lparr>p_parent := Some q\<rparr>) ps ! j = (if j = i then (ps ! i)\<lparr>p_parent := Some q\<rparr> else ps ! j)" for j
    using assms(2) by (simp add: set_proc_nth)
  show ?thesis using assms by (simp add: ptab_inv_def in_wait_def e)
qed

lemma ptab_inv_sleep:
  assumes "ptab_inv init ps" and "i < NPROC" and "\<And>j. j < NPROC \<Longrightarrow> p_parent (ps ! j) = Some i \<Longrightarrow> p_state (ps ! j) \<noteq> ZOMBIE"
  shows "ptab_inv init (set_proc i (\<lambda>c. c\<lparr>p_chan := ch, p_state := SLEEPING\<rparr>) ps)"
proof -
  have "length ps = NPROC" using assms(1) by (simp add: ptab_inv_def)
  then have e: "set_proc i (\<lambda>c. c\<lparr>p_chan := ch, p_state := SLEEPING\<rparr>) ps ! j =
      (if j = i then (ps ! i)\<lparr>p_chan := ch, p_state := SLEEPING\<rparr> else ps ! j)" for j
    using assms(2) by (simp add: set_proc_nth)
  show ?thesis using assms by (auto simp: ptab_inv_def in_wait_def e)
qed

lemma ptab_step_inv: "ptab_step init ps qs \<Longrightarrow> ptab_inv init ps \<Longrightarrow> ptab_inv init qs"
proof (induction rule: ptab_step.induct)
  case (alloc np ps pid)
  then show ?case by (intro ptab_inv_set) simp_all
next
  case (alloc_fail np ps)
  then show ?case by (intro ptab_inv_set) simp_all
next
  case (fork_parent np me ps)
  have "np \<noteq> me" using fork_parent.hyps(4,5) by auto
  then show ?case using fork_parent by (intro ptab_inv_fork)
next
  case (fork_ready np ps)
  then show ?case by (intro ptab_inv_set) simp_all
next
  case (start p ps)
  then show ?case by (intro ptab_inv_set) simp_all
next
  case (yield p ps)
  then show ?case by (intro ptab_inv_set) simp_all
next
  case (sleep p ps ch)
  then show ?case by (intro ptab_inv_set) simp_all
next
  case (resume p ps)
  then show ?case by (intro ptab_inv_set) simp_all
next
  case (wakeup ps ch)
  then show ?case by (rule ptab_inv_wakeup)
next
  case (kill p ps)
  then show ?case by (intro ptab_inv_set) (simp_all add: in_wait_def split: if_splits)
next
  case (exit me ps)
  then show ?case by (intro exit_tab_spec)
next
  case (wait_sleep me ps)
  have "length ps = NPROC" using wait_sleep.prems by (simp add: ptab_inv_def)
  then show ?case using wait_scan_None [OF wait_sleep.hyps(3)] by (intro ptab_inv_sleep wait_sleep) simp_all
next
  case (wait_reap me ps kids p)
  have "p < NPROC" using wait_scan_Some [OF wait_reap.hyps(3)] wait_reap.prems by (simp add: ptab_inv_def)
  then show ?case using wait_reap by (intro ptab_inv_set) simp_all
qed

lemma ptab_reach_inv: "(ptab_step init)\<^sup>*\<^sup>* ps qs \<Longrightarrow> ptab_inv init ps \<Longrightarrow> ptab_inv init qs"
  by (induction rule: rtranclp_induct) (auto intro: ptab_step_inv)

section \<open>Waiting for a child\<close>

text \<open>The table at boot: every slot is unused and nothing has a parent.\<close>

definition boot_ptable :: "proc list \<Rightarrow> bool" where
  "boot_ptable ps \<longleftrightarrow> length ps = NPROC \<and> list_all (\<lambda>q. p_state q = UNUSED \<and> p_parent q = None) ps"

lemma boot_ptable_inv: "boot_ptable ps \<Longrightarrow> init < NPROC \<Longrightarrow> ptab_inv init ps"
  by (simp add: boot_ptable_def ptab_inv_def in_wait_def list_all_length)

text \<open>
  C7. No wakeup is lost: after any sequence of steps of the process table, a process with a zombie child is not asleep in \<^verbatim>\<open>wait\<close>, and when it scans the
  table in \<^verbatim>\<open>wait\<close> it finds a zombie child of its own to reap, also if the child only came to it by the exit of its first parent.
\<close>

theorem wait_no_lost_wakeup:
  assumes "boot_ptable ps0" and "init < NPROC" and "(ptab_step init)\<^sup>*\<^sup>* ps0 ps"
    and "c < NPROC" and "p_parent (ps ! c) = Some p" and "p_state (ps ! c) = ZOMBIE"
  shows "\<not> in_wait p ps \<and>
    (\<exists>z. wait_scan p ps = (True, Some z) \<and> z < NPROC \<and> p_parent (ps ! z) = Some p \<and> p_state (ps ! z) = ZOMBIE)"
proof -
  have inv: "ptab_inv init ps" using assms(1-3) boot_ptable_inv ptab_reach_inv by blast
  then have len: "length ps = NPROC" and p: "p < NPROC" using assms(4,5) by (auto simp: ptab_inv_def)
  have nw: "\<not> in_wait p ps" using inv p assms(4-6) by (auto simp: ptab_inv_def)
  have "ps ! c \<in> set ps" using assms(4) len by simp
  then have k: "fst (wait_scan p ps)" using assms(5) by (auto simp: wait_scan_def)
  have "snd (wait_scan p ps) \<noteq> None"
    using wait_scan_None [of p ps "fst (wait_scan p ps)" c] assms(4-6) len by (cases "wait_scan p ps") auto
  then obtain z where z: "wait_scan p ps = (True, Some z)" using k by (cases "wait_scan p ps") auto
  then show ?thesis using nw wait_scan_Some [OF z] by (simp add: len)
qed


text \<open>
  A run in which \<^verbatim>\<open>init\<close> forks a child, waits for it and is woken by its exit.
\<close>

definition unused_proc :: proc where
  "unused_proc = \<lparr>p_sz = 0, p_pgdir = 0, p_kstack = 0, p_state = UNUSED, p_pid = 0, p_parent = None,
     p_tf = trapframe0, p_context = \<lparr>c_edi = 0, c_esi = 0, c_ebx = 0, c_ebp = 0, c_eip = Forkret\<rparr>, p_chan = None, p_killed = False, p_ofile = replicate NOFILE None, p_cwd = None,
     p_name = replicate 16 0\<rparr>"

lemma sample_run:
  fixes a b :: "proc \<Rightarrow> proc" and ps
  defines "a \<equiv> \<lambda>q. q\<lparr>p_pid := 1, p_state := SLEEPING, p_chan := Some (Ch_proc 0)\<rparr>"
    and "b \<equiv> \<lambda>q. q\<lparr>p_pid := 2, p_parent := Some 0, p_state := RUNNING\<rparr>"
    and "ps \<equiv> replicate NPROC unused_proc"
  shows "(ptab_step 0)\<^sup>*\<^sup>* ps (ps[0 := a unused_proc, 1 := b unused_proc])"
proof -
  let ?a = "\<lambda>st. unused_proc\<lparr>p_pid := 1, p_state := st\<rparr>"
  let ?b = "\<lambda>st. unused_proc\<lparr>p_pid := 2, p_state := st\<rparr>"
  let ?c = "\<lambda>st. unused_proc\<lparr>p_pid := 2, p_parent := Some 0, p_state := st\<rparr>"
  let ?s = "ptab_step 0"
  have N: "0 < NPROC" "1 < NPROC" "length ps = NPROC" "Suc 0 < NPROC" by (simp_all add: NPROC_def ps_def)
  have u: "ps ! i = unused_proc" if "i < NPROC" for i using that by (simp add: ps_def)
  note sp = set_proc_def N u unused_proc_def
  have 1: "?s ps (ps[0 := ?a EMBRYO])" using alloc [of 0 ps 0 1] by (simp add: sp)
  have 2: "?s (ps[0 := ?a EMBRYO]) (ps[0 := ?a RUNNABLE])" using fork_ready [of 0 "ps[0 := ?a EMBRYO]" 0] by (simp add: sp)
  have 3: "?s (ps[0 := ?a RUNNABLE]) (ps[0 := ?a RUNNING])" using start [of 0 "ps[0 := ?a RUNNABLE]" 0] by (simp add: sp)
  have 4: "?s (ps[0 := ?a RUNNING]) (ps[0 := ?a RUNNING, 1 := ?b EMBRYO])"
    using alloc [of 1 "ps[0 := ?a RUNNING]" 0 2] by (simp add: sp)
  have 5: "?s (ps[0 := ?a RUNNING, 1 := ?b EMBRYO]) (ps[0 := ?a RUNNING, 1 := ?c EMBRYO])"
    using fork_parent [of 1 0 0 "ps[0 := ?a RUNNING, 1 := ?b EMBRYO]"] by (simp add: sp)
  have 6: "?s (ps[0 := ?a RUNNING, 1 := ?c EMBRYO]) (ps[0 := ?a RUNNING, 1 := ?c RUNNABLE])"
    using fork_ready [of 1 "ps[0 := ?a RUNNING, 1 := ?c EMBRYO]" 0] by (simp add: sp)
  have 7: "?s (ps[0 := ?a RUNNING, 1 := ?c RUNNABLE]) (ps[0 := ?a RUNNING, 1 := ?c RUNNING])"
    using start [of 1 "ps[0 := ?a RUNNING, 1 := ?c RUNNABLE]" 0] by (simp add: sp)
  let ?qs = "ps[0 := ?a RUNNING, 1 := ?c RUNNING]"
  have "?c RUNNING \<in> set ?qs" by (rule set_update_memI) (simp add: N)
  then have "\<exists>p\<in>set ?qs. p_parent p = Some 0" by (rule rev_bexI) simp
  moreover have "find (\<lambda>p. p_parent (?qs ! p) = Some 0 \<and> p_state (?qs ! p) = ZOMBIE) [0..<length ?qs] = None"
    using N by (auto simp: find_None_iff nth_list_update u unused_proc_def)
  ultimately have w: "wait_scan 0 ?qs = (True, None)" by (simp only: wait_scan_def simp_thms)
  have 8: "?s (ps[0 := ?a RUNNING, 1 := ?c RUNNING]) (ps[0 := a unused_proc, 1 := b unused_proc])"
    using wait_sleep [OF N(1) _ w, of 0] by (simp add: sp a_def b_def list_update_swap [of "Suc 0" 0])
  show ?thesis
    using 1 2 3 4 5 6 7 8 by (meson converse_rtranclp_into_rtranclp rtranclp.rtrancl_refl)
qed

theorem wait_no_lost_wakeup_witness:
  "\<exists>ps. (ptab_step 0)\<^sup>*\<^sup>* (replicate NPROC unused_proc) ps \<and> p_parent (ps ! 1) = Some 0 \<and> p_state (ps ! 1) = ZOMBIE \<and> \<not> in_wait 0 ps"
proof -
  let ?ps = "replicate NPROC unused_proc"
  have boot: "boot_ptable ?ps" and N: "0 < NPROC" "1 < NPROC"
    by (simp_all add: boot_ptable_def list_all_iff unused_proc_def NPROC_def)
  obtain qs where r: "(ptab_step 0)\<^sup>*\<^sup>* ?ps qs" and q: "p_parent (qs ! 1) = Some 0" "p_state (qs ! 1) = RUNNING"
    using sample_run N by (fastforce simp: nth_list_update)
  have inv: "ptab_inv 0 qs" by (rule ptab_reach_inv [OF r boot_ptable_inv [OF boot N(1)]])
  let ?rs = "exit_tab 1 0 qs"
  have e: "p_parent (?rs ! 1) = Some 0" "p_state (?rs ! 1) = ZOMBIE" using exit_tab_spec(2,3) [OF inv N(2)] N(2) q(1) by simp_all
  have "(ptab_step 0)\<^sup>*\<^sup>* ?ps ?rs" using r exit [OF N(2) _ q(2), of 0] by (simp add: rtranclp.rtrancl_into_rtrancl)
  then show ?thesis using wait_no_lost_wakeup [OF boot N(1) _ N(2) e] e by blast
qed

section \<open>The tree of processes\<close>

text \<open>Processes that run or may run again.\<close>

definition alive :: "proc \<Rightarrow> bool" where
  "alive q \<longleftrightarrow> p_state q \<in> {RUNNABLE, RUNNING, SLEEPING}"

text \<open>The table after \<^verbatim>\<open>userinit\<close>: the first process is ready, nothing else is in use.\<close>

definition user_ptable :: "nat \<Rightarrow> proc list \<Rightarrow> bool" where
  "user_ptable init ps \<longleftrightarrow> length ps = NPROC \<and> init < NPROC \<and> p_state (ps ! init) = RUNNABLE \<and> (\<forall>i<NPROC. p_parent (ps ! i) = None)
     \<and> (\<forall>i<NPROC. i \<noteq> init \<longrightarrow> p_state (ps ! i) = UNUSED)"

definition tree_ok :: "nat \<Rightarrow> proc list \<Rightarrow> bool" where
  "tree_ok init ps \<longleftrightarrow> alive (ps ! init) \<and> (\<forall>j<NPROC. \<forall>i. p_parent (ps ! j) = Some i \<longrightarrow> alive (ps ! i))"

lemma alive_wakeup1_tab: "j < length ps \<Longrightarrow> alive (wakeup1_tab ch ps ! j) = alive (ps ! j)"
  "j < length ps \<Longrightarrow> p_parent (wakeup1_tab ch ps ! j) = p_parent (ps ! j)"
  by (auto simp: wakeup1_tab_nth alive_def)

lemma alive_exit_reparent: "p + k \<le> length ps \<Longrightarrow> j < length ps \<Longrightarrow> alive (exit_reparent me init p k ps ! j) = alive (ps ! j)"
proof (induction k arbitrary: p ps)
  case (Suc k)
  have "alive (reparent1 me init p ps ! j) = alive (ps ! j)"
    using Suc.prems by (auto simp: reparent1_def Let_def alive_wakeup1_tab nth_list_update) (simp_all add: alive_def)
  then show ?case using Suc by (simp add: exit_reparent_Suc)
qed simp

lemma alive_exit_tab:
  assumes "length ps = NPROC" "j < NPROC" "j \<noteq> me"
  shows "alive (exit_tab me init ps ! j) = alive (ps ! j)"
  using assms alive_exit_reparent [of 0 NPROC] by (auto simp: exit_tab_def Let_def alive_wakeup1_tab split: option.split)

text \<open>Changing one process keeps the tree if a live process stays alive and the process gets no dead parent.\<close>

lemma tree_ok_set:
  assumes "tree_ok init ps" "ptab_inv init ps" "i < NPROC" "alive (ps ! i) \<Longrightarrow> alive (f (ps ! i))"
    and "\<And>q. p_parent (f (ps ! i)) = Some q \<Longrightarrow> p_parent (ps ! i) = Some q \<or> q < NPROC \<and> q \<noteq> i \<and> alive (ps ! q)"
  shows "tree_ok init (set_proc i f ps)"
proof -
  have len: "length ps = NPROC" using assms(2) by (simp add: ptab_inv_def)
  have e: "set_proc i f ps ! j = (if j = i then f (ps ! i) else ps ! j)" for j using assms(3) len by (simp add: set_proc_nth)
  have al: "alive (ps ! q) \<Longrightarrow> alive (set_proc i f ps ! q)" for q using assms(4) by (auto simp: e)
  have "alive (set_proc i f ps ! q)" if "j < NPROC" "p_parent (set_proc i f ps ! j) = Some q" for j q
  proof (cases "p_parent (ps ! j) = Some q")
    case True
    then show ?thesis using assms(1) that(1) al by (auto simp: tree_ok_def)
  next
    case False
    then have "j = i" "p_parent (f (ps ! i)) = Some q" using that(2) by (auto simp: e split: if_splits)
    then show ?thesis using assms(5) False al by blast
  qed
  then show ?thesis using assms(1) al by (simp add: tree_ok_def)
qed

lemma tree_ok_childless: "tree_ok init ps \<Longrightarrow> \<not> alive (ps ! i) \<Longrightarrow> j < NPROC \<Longrightarrow> p_parent (ps ! j) \<noteq> Some i"
  by (auto simp: tree_ok_def)

text \<open>A process that is not alive, and so has no children, may change in any way that leaves it no parent it did not have.\<close>

lemma tree_ok_dead:
  assumes "tree_ok init ps" "ptab_inv init ps" "i < NPROC" "\<not> alive (ps ! i)" "p_parent (f (ps ! i)) = p_parent (ps ! i) \<or> p_parent (f (ps ! i)) = None"
  shows "tree_ok init (set_proc i f ps)"
  using assms by (intro tree_ok_set) auto

lemma tree_ok_wakeup: "tree_ok init ps \<Longrightarrow> ptab_inv init ps \<Longrightarrow> tree_ok init (wakeup1_tab ch ps)"
  unfolding tree_ok_def ptab_inv_def by (metis alive_wakeup1_tab)

lemma tree_ok_exit:
  assumes "tree_ok init ps" "ptab_inv init ps" "me < NPROC" "me \<noteq> init"
  shows "tree_ok init (exit_tab me init ps)"
proof -
  have len: "length ps = NPROC" "init < NPROC" using assms(2) by (simp_all add: ptab_inv_def)
  have al: "alive (exit_tab me init ps ! j)" if "j < NPROC" "j \<noteq> me" "alive (ps ! j)" for j using alive_exit_tab [OF len(1)] that by simp
  have "alive (exit_tab me init ps ! q)" if "j < NPROC" "p_parent (exit_tab me init ps ! j) = Some q" for j q
  proof -
    have q: "q = init \<or> q \<noteq> me \<and> p_parent (ps ! j) = Some q" using exit_tab_spec(2) [OF assms(2-4) that(1)] that(2) by (auto split: if_splits)
    have "p_parent (ps ! j) = Some q \<Longrightarrow> q < NPROC \<and> alive (ps ! q)" using assms(1,2) that(1) by (auto simp: tree_ok_def ptab_inv_def)
    then show ?thesis using q al len(2) assms(1,4) by (auto simp: tree_ok_def)
  qed
  then show ?thesis using al len(2) assms(1,4) by (auto simp: tree_ok_def)
qed

lemma ptab_step_tree: "ptab_step init ps qs \<Longrightarrow> ptab_inv init ps \<Longrightarrow> tree_ok init ps \<Longrightarrow> tree_ok init qs"
proof (induction rule: ptab_step.induct)
  case (alloc np ps pid)
  then show ?case by (intro tree_ok_dead) (simp_all add: alive_def)
next
  case (alloc_fail np ps)
  then show ?case by (intro tree_ok_dead) (simp_all add: alive_def)
next
  case (fork_parent np me ps)
  have "np \<noteq> me" using fork_parent.hyps(4,5) by auto
  then show ?case using fork_parent by (intro tree_ok_set) (auto simp: alive_def)
next
  case (wakeup ps ch)
  then show ?case by (intro tree_ok_wakeup)
next
  case (exit me ps)
  then show ?case by (intro tree_ok_exit)
next
  case (wait_reap me ps kids p)
  have "p < NPROC" "\<not> alive (ps ! p)" using wait_scan_Some [OF wait_reap.hyps(3)] wait_reap.prems by (auto simp: ptab_inv_def alive_def)
  then show ?case using wait_reap by (intro tree_ok_dead) auto
qed (rule tree_ok_set; auto simp: alive_def)+

lemma ptab_reach_tree:
  assumes "(ptab_step init)\<^sup>*\<^sup>* ps qs" "ptab_inv init ps" "tree_ok init ps"
  shows "ptab_inv init qs \<and> tree_ok init qs"
  using assms by (induction rule: rtranclp_induct) (auto intro: ptab_step_inv ptab_step_tree)

text \<open>
  C15. Parents are never dangling.  After any sequence of steps of the process table from the one \<^verbatim>\<open>userinit\<close> leaves, every parent pointer leads to another process that is running,
  runnable or asleep: never to a slot that is free, being set up or a zombie, whose slot could be given to a new process.  The first process is always alive and has no parent.
\<close>

theorem process_tree_well_formed:
  assumes "user_ptable init ps0" and "(ptab_step init)\<^sup>*\<^sup>* ps0 ps"
  shows "length ps = NPROC \<and> alive (ps ! init) \<and> p_parent (ps ! init) = None
    \<and> (\<forall>j<NPROC. \<forall>i. p_parent (ps ! j) = Some i \<longrightarrow> i < NPROC \<and> i \<noteq> j \<and> p_state (ps ! i) \<in> {RUNNABLE, RUNNING, SLEEPING})"
proof -
  have "ptab_inv init ps0" "tree_ok init ps0"
    using assms(1) by (auto simp: user_ptable_def ptab_inv_def tree_ok_def alive_def in_wait_def)
  then have "ptab_inv init ps" "tree_ok init ps" using ptab_reach_tree [OF assms(2)] by auto
  then show ?thesis by (auto simp: ptab_inv_def tree_ok_def alive_def)
qed

text \<open>The first process forks a child and runs.\<close>

lemma tree_sample:
  defines "ps \<equiv> (replicate NPROC unused_proc)[0 := unused_proc\<lparr>p_pid := 1, p_state := RUNNABLE\<rparr>]"
  shows "user_ptable 0 ps"
    and "\<exists>qs. (ptab_step 0)\<^sup>*\<^sup>* ps qs \<and> p_parent (qs ! 1) = Some 0"
proof -
  have N: "0 < NPROC" "1 < NPROC" "length ps = NPROC" by (simp_all add: NPROC_def ps_def)
  have u: "ps ! i = (if i = 0 then unused_proc\<lparr>p_pid := 1, p_state := RUNNABLE\<rparr> else unused_proc)" if "i < NPROC" for i
    using that by (simp add: ps_def nth_list_update)
  show "user_ptable 0 ps" using N u by (simp add: user_ptable_def unused_proc_def)
  let ?p1 = "set_proc 0 (\<lambda>q. q\<lparr>p_state := RUNNING\<rparr>) ps"
  let ?p2 = "set_proc 1 (\<lambda>q. q\<lparr>p_state := EMBRYO, p_pid := 2\<rparr>) ?p1"
  let ?p3 = "set_proc 1 (\<lambda>q. q\<lparr>p_parent := Some 0\<rparr>) ?p2"
  have 1: "ptab_step 0 ps ?p1" using N u by (intro start) (simp_all add: unused_proc_def)
  have 2: "ptab_step 0 ?p1 ?p2" using N u by (intro alloc) (simp_all add: unused_proc_def set_proc_nth)
  have 3: "ptab_step 0 ?p2 ?p3" using N u by (intro fork_parent) (simp_all add: unused_proc_def set_proc_nth)
  have "p_parent (?p3 ! 1) = Some 0" using N by (simp add: set_proc_nth)
  then show "\<exists>qs. (ptab_step 0)\<^sup>*\<^sup>* ps qs \<and> p_parent (qs ! 1) = Some 0"
    using 1 2 3 by (meson converse_rtranclp_into_rtranclp rtranclp.rtrancl_refl)
qed

theorem process_tree_well_formed_witness:
  "\<exists>ps. (ptab_step 0)\<^sup>*\<^sup>* ((replicate NPROC unused_proc)[0 := unused_proc\<lparr>p_pid := 1, p_state := RUNNABLE\<rparr>]) ps
     \<and> p_parent (ps ! 1) = Some 0 \<and> p_state (ps ! 0) \<in> {RUNNABLE, RUNNING, SLEEPING}"
proof -
  obtain ps where r: "(ptab_step 0)\<^sup>*\<^sup>* ((replicate NPROC unused_proc)[0 := unused_proc\<lparr>p_pid := 1, p_state := RUNNABLE\<rparr>]) ps" "p_parent (ps ! 1) = Some 0"
    using tree_sample(2) by blast
  have "1 < NPROC" by (simp add: NPROC_def)
  then have "p_state (ps ! 0) \<in> {RUNNABLE, RUNNING, SLEEPING}"
    using process_tree_well_formed [OF tree_sample(1) r(1)] r(2) by blast
  then show ?thesis using r by blast
qed

end
