(* ===== verification/Shell.thy ===== *)
theory Shell
  imports SysFile
begin

text \<open>
  The command parser of the shell, \<^verbatim>\<open>src/xv6/sh.c\<close>.  The line is a buffer of bytes that holds a NUL at position \<^verbatim>\<open>es\<close>; the pointers of the
  code are positions in it, and a counted string is the pair of its two pointers.  A call of the shell's own \<^verbatim>\<open>panic\<close>, which prints its argument and exits,
  is \<open>Panic\<close>.  The recursive functions take a fuel; \<open>parsecmd_terminates\<close> shows that the fuel they are called with is always enough.
\<close>

section \<open>Commands\<close>

text \<open>
  The structs \<^verbatim>\<open>execcmd\<close> to \<^verbatim>\<open>backcmd\<close> as one datatype.  The type of the words is a parameter: for the parser a word is a pair of positions.
\<close>

datatype 'w cmd =
    EXEC "'w list"
  | REDIR "'w cmd" 'w uint int
  | PIPE "'w cmd" "'w cmd"
  | LIST "'w cmd" "'w cmd"
  | BACK "'w cmd"

type_synonym span = "nat \<times> nat"

definition MAXARGS :: nat where
  "MAXARGS = 10"

text \<open>
  \<^verbatim>\<open>parseexec\<close> keeps a pointer to the \<^verbatim>\<open>execcmd\<close> while redirections are wrapped around it, and stores the next argument through it.
\<close>

primrec add_arg :: "'w \<Rightarrow> 'w cmd \<Rightarrow> 'w cmd" where
  "add_arg w (EXEC ws) = EXEC (ws @ [w])"
| "add_arg w (REDIR c f m fd) = REDIR (add_arg w c) f m fd"
| "add_arg w (PIPE a b) = PIPE a b"
| "add_arg w (LIST a b) = LIST a b"
| "add_arg w (BACK c) = BACK c"

section \<open>Tokens\<close>

text \<open>\<^verbatim>\<open>strchr\<close> of \<^verbatim>\<open>ulib.c\<close>, on the bytes of the string before its NUL.\<close>

primrec strchr :: "uchar list \<Rightarrow> uchar \<Rightarrow> nat option" where
  "strchr [] c = None"
| "strchr (x # s) c = (if x = c then Some 0 else map_option Suc (strchr s c))"

definition whitespace :: "uchar list" where
  "whitespace = [0x20, 9, 13, 10, 11]"

definition symbols :: "uchar list" where
  "symbols = bytes ''<|>&;()''"

definition is_ws :: "uchar \<Rightarrow> bool" where
  "is_ws c \<longleftrightarrow> strchr whitespace c \<noteq> None"

definition is_word :: "uchar \<Rightarrow> bool" where
  "is_word c \<longleftrightarrow> strchr whitespace c = None \<and> strchr symbols c = None"

function skip_while :: "(uchar \<Rightarrow> bool) \<Rightarrow> uchar list \<Rightarrow> nat \<Rightarrow> nat \<Rightarrow> nat" where
  "skip_while P buf es s = (if s < es \<and> P (buf ! s) then skip_while P buf es (Suc s) else s)"
  by auto
termination by (relation "measure (\<lambda>(P, buf, es, s). es - s)") auto

declare skip_while.simps [simp del]

definition skip_ws :: "uchar list \<Rightarrow> nat \<Rightarrow> nat \<Rightarrow> nat" where
  "skip_ws = skip_while is_ws"

definition skip_word :: "uchar list \<Rightarrow> nat \<Rightarrow> nat \<Rightarrow> nat" where
  "skip_word = skip_while is_word"

text \<open>The token at a position that is not white space: what \<^verbatim>\<open>gettoken\<close> returns, and where the token ends.\<close>

definition token_at :: "uchar list \<Rightarrow> nat \<Rightarrow> nat \<Rightarrow> uchar \<times> nat" where
  "token_at buf es s =
     (let c = buf ! s
      in if c = 0 then (0, s)
         else if c \<in> {byte CHR ''|'', byte CHR ''('', byte CHR '')'', byte CHR '';'', byte CHR ''&'', byte CHR ''<''} then (c, s + 1)
         else if c = byte CHR ''>'' then
           (if buf ! (s + 1) = byte CHR ''>'' then (byte CHR ''+'', s + 2) else (c, s + 1))
         else (byte CHR ''a'', skip_word buf es s))"

text \<open>\<open>gettoken\<close> gives the token, its two ends, and the new value of \<^verbatim>\<open>*ps\<close>; \<open>peek\<close> the new value of \<^verbatim>\<open>*ps\<close> and the answer.\<close>

definition gettoken :: "uchar list \<Rightarrow> nat \<Rightarrow> nat \<Rightarrow> uchar \<times> nat \<times> nat \<times> nat" where
  "gettoken buf es ps =
     (let q = skip_ws buf es ps;
          (ret, eq) = token_at buf es q
      in (ret, q, eq, skip_ws buf es eq))"

definition peek :: "uchar list \<Rightarrow> nat \<Rightarrow> nat \<Rightarrow> uchar list \<Rightarrow> nat \<times> bool" where
  "peek buf es ps toks =
     (let s = skip_ws buf es ps
      in (s, buf ! s \<noteq> 0 \<and> strchr toks (buf ! s) \<noteq> None))"

section \<open>The parser\<close>

definition redir_of :: "uchar \<Rightarrow> 'w cmd \<Rightarrow> 'w \<Rightarrow> 'w cmd" where
  "redir_of tok cmd w =
     (if tok = byte CHR ''<'' then REDIR cmd w O_RDONLY 0
      else if tok = byte CHR ''>'' then REDIR cmd w (O_WRONLY OR O_CREATE) 1
      else if tok = byte CHR ''+'' then REDIR cmd w (O_WRONLY OR O_CREATE) 1
      else cmd)"

fun parseredirs :: "nat \<Rightarrow> uchar list \<Rightarrow> nat \<Rightarrow> span cmd \<Rightarrow> nat \<Rightarrow> (span cmd \<times> nat) outcome" where
  "parseredirs 0 buf es cmd ps = Block"
| "parseredirs (Suc n) buf es cmd ps =
     (case peek buf es ps (bytes ''<>'') of (ps, found) \<Rightarrow>
        if \<not> found then Done (cmd, ps)
        else case gettoken buf es ps of (tok, _, _, ps) \<Rightarrow>
             case gettoken buf es ps of (tok', q, eq, ps) \<Rightarrow>
               if tok' \<noteq> byte CHR ''a'' then Panic ''missing file for redirection''
               else parseredirs n buf es (redir_of tok cmd (q, eq)) ps)"

fun parse_args :: "nat \<Rightarrow> uchar list \<Rightarrow> nat \<Rightarrow> nat \<Rightarrow> span cmd \<Rightarrow> nat \<Rightarrow> (span cmd \<times> nat) outcome" where
  "parse_args 0 buf es argc ret ps = Block"
| "parse_args (Suc n) buf es argc ret ps =
     (case peek buf es ps (bytes ''|)&;'') of (ps, found) \<Rightarrow>
        if found then Done (ret, ps)
        else case gettoken buf es ps of (tok, q, eq, ps) \<Rightarrow>
          if tok = 0 then Done (ret, ps)
          else if tok \<noteq> byte CHR ''a'' then Panic ''syntax''
          else if MAXARGS \<le> Suc argc then Panic ''too many args''
          else obind (parseredirs n buf es (add_arg (q, eq) ret) ps) (\<lambda>(ret, ps).
                 parse_args n buf es (Suc argc) ret ps))"

fun parse_back :: "nat \<Rightarrow> uchar list \<Rightarrow> nat \<Rightarrow> span cmd \<Rightarrow> nat \<Rightarrow> (span cmd \<times> nat) outcome" where
  "parse_back 0 buf es cmd ps = Block"
| "parse_back (Suc n) buf es cmd ps =
     (case peek buf es ps (bytes ''&'') of (ps, found) \<Rightarrow>
        if \<not> found then Done (cmd, ps)
        else case gettoken buf es ps of (_, _, _, ps) \<Rightarrow> parse_back n buf es (BACK cmd) ps)"

text \<open>
  The four mutually recursive functions.  The body of each is a definition that takes the functions it calls as arguments.
\<close>

type_synonym parser = "uchar list \<Rightarrow> nat \<Rightarrow> nat \<Rightarrow> (span cmd \<times> nat) outcome"

definition parseline_body :: "nat \<Rightarrow> parser \<Rightarrow> parser \<Rightarrow> parser" where
  "parseline_body n pipe line buf es ps =
     obind (pipe buf es ps) (\<lambda>(cmd, ps).
       obind (parse_back n buf es cmd ps) (\<lambda>(cmd, ps).
         case peek buf es ps (bytes '';'') of (ps, found) \<Rightarrow>
           if found
           then case gettoken buf es ps of (_, _, _, ps) \<Rightarrow>
             obind (line buf es ps) (\<lambda>(right, ps). Done (LIST cmd right, ps))
           else Done (cmd, ps)))"

definition parsepipe_body :: "parser \<Rightarrow> parser \<Rightarrow> parser" where
  "parsepipe_body exec pipe buf es ps =
     obind (exec buf es ps) (\<lambda>(cmd, ps).
       case peek buf es ps (bytes ''|'') of (ps, found) \<Rightarrow>
         if found
         then case gettoken buf es ps of (_, _, _, ps) \<Rightarrow>
           obind (pipe buf es ps) (\<lambda>(right, ps). Done (PIPE cmd right, ps))
         else Done (cmd, ps))"

definition parseexec_body :: "nat \<Rightarrow> parser \<Rightarrow> parser" where
  "parseexec_body n block buf es ps =
     (case peek buf es ps (bytes ''('') of (ps, found) \<Rightarrow>
        if found then block buf es ps
        else obind (parseredirs n buf es (EXEC []) ps) (\<lambda>(ret, ps). parse_args n buf es 0 ret ps))"

definition parseblock_body :: "nat \<Rightarrow> parser \<Rightarrow> parser" where
  "parseblock_body n line buf es ps =
     (case peek buf es ps (bytes ''('') of (ps, found) \<Rightarrow>
        if \<not> found then Panic ''parseblock''
        else case gettoken buf es ps of (_, _, _, ps) \<Rightarrow>
          obind (line buf es ps) (\<lambda>(cmd, ps).
            case peek buf es ps (bytes '')'') of (ps, found) \<Rightarrow>
              if \<not> found then Panic ''syntax - missing )''
              else case gettoken buf es ps of (_, _, _, ps) \<Rightarrow> parseredirs n buf es cmd ps))"

fun parseline :: "nat \<Rightarrow> parser"
  and parsepipe :: "nat \<Rightarrow> parser"
  and parseexec :: "nat \<Rightarrow> parser"
  and parseblock :: "nat \<Rightarrow> parser" where
  "parseline 0 = (\<lambda>buf es ps. Block)"
| "parseline (Suc n) = parseline_body n (parsepipe n) (parseline n)"
| "parsepipe 0 = (\<lambda>buf es ps. Block)"
| "parsepipe (Suc n) = parsepipe_body (parseexec n) (parsepipe n)"
| "parseexec 0 = (\<lambda>buf es ps. Block)"
| "parseexec (Suc n) = parseexec_body n (parseblock n)"
| "parseblock 0 = (\<lambda>buf es ps. Block)"
| "parseblock (Suc n) = parseblock_body n (parseline n)"

text \<open>\<open>nulterminate\<close> gives the buffer with a NUL at the end of each word.\<close>

primrec nulterminate :: "span cmd \<Rightarrow> uchar list \<Rightarrow> uchar list" where
  "nulterminate (EXEC ws) buf = foldl (\<lambda>buf w. buf[snd w := 0]) buf ws"
| "nulterminate (REDIR c f m fd) buf = (nulterminate c buf)[snd f := 0]"
| "nulterminate (PIPE a b) buf = nulterminate b (nulterminate a buf)"
| "nulterminate (LIST a b) buf = nulterminate b (nulterminate a buf)"
| "nulterminate (BACK c) buf = nulterminate c buf"

text \<open>The length of the string at the start of a buffer.\<close>

definition buf_strlen :: "uchar list \<Rightarrow> nat" where
  "buf_strlen buf = length (takeWhile (\<lambda>c. c \<noteq> 0) buf)"

definition parsecmd :: "uchar list \<Rightarrow> (span cmd \<times> uchar list) outcome" where
  "parsecmd buf =
     (let es = buf_strlen buf
      in obind (parseline (4 * es + 4) buf es 0) (\<lambda>(cmd, ps).
           case peek buf es ps [] of (s, _) \<Rightarrow>
             if s \<noteq> es then Panic ''syntax'' else Done (cmd, nulterminate cmd buf)))"

section \<open>Tokens are within the line\<close>

definition line_buf :: "uchar list \<Rightarrow> nat \<Rightarrow> bool" where
  "line_buf buf es \<longleftrightarrow> es < length buf \<and> buf ! es = 0 \<and> (\<forall>i<es. buf ! i \<noteq> 0)"

lemma line_buf_strlen: "0 \<in> set buf \<Longrightarrow> line_buf buf (buf_strlen buf)"
proof -
  assume "0 \<in> set buf"
  then have l: "length (takeWhile (\<lambda>c. c \<noteq> 0) buf) < length buf" by (induction buf) auto
  then have "buf ! length (takeWhile (\<lambda>c. c \<noteq> 0) buf) = 0" using nth_length_takeWhile by blast
  moreover have "buf ! i \<noteq> 0" if "i < length (takeWhile (\<lambda>c. c \<noteq> 0) buf)" for i
    using nth_mem [OF that] takeWhile_nth [OF that] by (auto dest: set_takeWhileD)
  ultimately show ?thesis using l by (simp add: line_buf_def buf_strlen_def)
qed

lemma line_buf_unique: "line_buf buf es \<Longrightarrow> buf_strlen buf = es"
proof -
  assume a: "line_buf buf es"
  then have "takeWhile (\<lambda>c. c \<noteq> 0) buf = take es buf"
    by (intro takeWhile_eq_take_P_nth) (auto simp: line_buf_def)
  then show ?thesis using a by (simp add: buf_strlen_def line_buf_def)
qed

lemma strchr_iff: "strchr s c \<noteq> None \<longleftrightarrow> c \<in> set s"
  by (induction s) auto

lemma strchr_None: "strchr s c = None \<longleftrightarrow> c \<notin> set s"
  using strchr_iff by blast

lemma is_ws_alt: "is_ws c \<longleftrightarrow> c \<in> set whitespace"
  using strchr_iff [of whitespace c] by (simp add: is_ws_def)

lemma is_word_alt: "is_word c \<longleftrightarrow> c \<notin> set whitespace \<and> c \<notin> set symbols"
  by (simp add: is_word_def strchr_None)

lemma set_symbols:
  "set symbols = {byte CHR ''<'', byte CHR ''|'', byte CHR ''>'', byte CHR ''&'', byte CHR '';'', byte CHR ''('', byte CHR '')''}"
  by (simp add: symbols_def)

lemma skip_while_facts:
  "s \<le> es \<Longrightarrow> s \<le> skip_while P buf es s \<and> skip_while P buf es s \<le> es
     \<and> (skip_while P buf es s < es \<longrightarrow> \<not> P (buf ! skip_while P buf es s))
     \<and> (\<forall>i. s \<le> i \<and> i < skip_while P buf es s \<longrightarrow> P (buf ! i))"
proof (induction P buf es s rule: skip_while.induct)
  case (1 P buf es s)
  show ?case
  proof (cases "s < es \<and> P (buf ! s)")
    case True
    then have e: "skip_while P buf es s = skip_while P buf es (Suc s)" by (subst skip_while.simps) simp
    have IH: "Suc s \<le> skip_while P buf es (Suc s) \<and> skip_while P buf es (Suc s) \<le> es
        \<and> (skip_while P buf es (Suc s) < es \<longrightarrow> \<not> P (buf ! skip_while P buf es (Suc s)))
        \<and> (\<forall>i. Suc s \<le> i \<and> i < skip_while P buf es (Suc s) \<longrightarrow> P (buf ! i))"
      using 1(1) [OF True] True by simp
    have "P (buf ! i)" if "s \<le> i" "i < skip_while P buf es (Suc s)" for i
      using that IH True by (cases "i = s") auto
    then show ?thesis unfolding e using IH by auto
  next
    case False
    then have e: "skip_while P buf es s = s" by (subst skip_while.simps) auto
    show ?thesis unfolding e using 1(2) False by auto
  qed
qed

lemma skip_while_spec:
  assumes "s \<le> es"
  shows "s \<le> skip_while P buf es s" and "skip_while P buf es s \<le> es"
    and "skip_while P buf es s < es \<Longrightarrow> \<not> P (buf ! skip_while P buf es s)"
    and "s \<le> i \<Longrightarrow> i < skip_while P buf es s \<Longrightarrow> P (buf ! i)"
  using skip_while_facts [OF assms, of P buf] by auto

lemma skip_while_eqI:
  assumes "s \<le> t" and "t \<le> es" and "\<And>i. s \<le> i \<Longrightarrow> i < t \<Longrightarrow> P (buf ! i)" and "t < es \<Longrightarrow> \<not> P (buf ! t)"
  shows "skip_while P buf es s = t"
proof (rule linorder_cases [of "skip_while P buf es s" t])
  assume l: "skip_while P buf es s < t"
  then show ?thesis using skip_while_facts [of s es P buf] assms by force
next
  assume "t < skip_while P buf es s"
  then show ?thesis using skip_while_facts [of s es P buf] assms by force
qed

lemmas skip_ws_spec = skip_while_spec [where P = is_ws, folded skip_ws_def]
lemmas skip_word_spec = skip_while_spec [where P = is_word, folded skip_word_def]

lemma skip_ws_idem: "s \<le> es \<Longrightarrow> skip_ws buf es (skip_ws buf es s) = skip_ws buf es s"
  using skip_ws_spec [of s es, where buf = buf] unfolding skip_ws_def by (intro skip_while_eqI) auto

lemma skip_word_Suc:
  assumes "s < es" and "is_word (buf ! s)"
  shows "s < skip_word buf es s"
proof (rule ccontr)
  assume "\<not> s < skip_word buf es s"
  then have "skip_word buf es s = s" using skip_word_spec(1) [of s es buf] assms(1) by simp
  then show False using skip_word_spec(3) [of s es buf] assms by simp
qed

text \<open>A span of the line that \<^verbatim>\<open>gettoken\<close> reports as a word: it is not empty, and as long as possible.\<close>

definition span_ok :: "uchar list \<Rightarrow> nat \<Rightarrow> span \<Rightarrow> bool" where
  "span_ok buf es w \<longleftrightarrow> fst w < snd w \<and> snd w \<le> es \<and> (\<forall>i. fst w \<le> i \<and> i < snd w \<longrightarrow> is_word (buf ! i))
     \<and> (snd w < es \<longrightarrow> \<not> is_word (buf ! snd w))"

lemma token_at_spec:
  assumes "line_buf buf es" and "s \<le> es" and "s < es \<longrightarrow> \<not> is_ws (buf ! s)" and "token_at buf es s = (tok, e)"
  shows "s \<le> e \<and> e \<le> es \<and> (tok = 0 \<longleftrightarrow> s = es) \<and> (tok \<noteq> 0 \<longrightarrow> s < e) \<and> (tok = byte CHR ''a'' \<longrightarrow> span_ok buf es (s, e))"
proof (cases "buf ! s = 0")
  case True
  then have "s = es" using assms(1,2) by (auto simp: line_buf_def le_less)
  then show ?thesis using True assms(4) by (auto simp: token_at_def)
next
  case False
  then have s: "s < es" using assms(1,2) by (auto simp: line_buf_def le_less)
  show ?thesis
  proof (cases "buf ! s \<in> set symbols")
    case True
    have "buf ! es = 0" using assms(1) by (simp add: line_buf_def)
    then have "buf ! (s + 1) = byte CHR ''>'' \<Longrightarrow> s + 1 \<noteq> es" by auto
    then show ?thesis using assms(4) True False s
      by (auto simp: token_at_def set_symbols Let_def split: if_splits)
  next
    case nsym: False
    then have w: "is_word (buf ! s)" using assms(3) s by (simp add: is_word_alt is_ws_alt)
    have "(tok, e) = (byte CHR ''a'', skip_word buf es s)" using assms(4) nsym False by (auto simp: token_at_def set_symbols Let_def)
    then show ?thesis
      using skip_word_spec [OF assms(2), where buf = buf] skip_word_Suc [OF s w] s by (auto simp: span_ok_def)
  qed
qed

lemma gettoken_spec:
  assumes "line_buf buf es" and "ps \<le> es" and "gettoken buf es ps = (tok, q, e, ps')"
  shows "q = skip_ws buf es ps" and "ps \<le> q" and "q \<le> e" and "e \<le> ps'" and "ps' \<le> es" and "tok = 0 \<longleftrightarrow> q = es"
    and "tok \<noteq> 0 \<Longrightarrow> q < ps'" and "tok = byte CHR ''a'' \<Longrightarrow> span_ok buf es (q, e)"
proof -
  have t: "token_at buf es (skip_ws buf es ps) = (tok, e)" and q: "q = skip_ws buf es ps" and p: "ps' = skip_ws buf es e"
    using assms(3) by (auto simp: gettoken_def Let_def split: prod.splits)
  note a = skip_ws_spec(1-3) [OF assms(2), of buf, folded q]
  have "q < es \<longrightarrow> \<not> is_ws (buf ! q)" using a(3) by blast
  note b = token_at_spec [OF assms(1) a(2) this t [folded q]]
  then have "e \<le> es" by blast
  note c = skip_ws_spec(1,2) [OF this, of buf, folded p]
  show "q = skip_ws buf es ps" "ps \<le> q" "q \<le> e" "e \<le> ps'" "ps' \<le> es" "tok = 0 \<longleftrightarrow> q = es"
    "tok \<noteq> 0 \<Longrightarrow> q < ps'" "tok = byte CHR ''a'' \<Longrightarrow> span_ok buf es (q, e)"
    using q a b c by auto
qed

lemma peek_spec:
  assumes "line_buf buf es" and "ps \<le> es" and "peek buf es ps toks = (ps', found)"
  shows "ps' = skip_ws buf es ps" and "ps \<le> ps'" and "ps' \<le> es" and "found \<longleftrightarrow> ps' < es \<and> buf ! ps' \<in> set toks"
proof -
  have e: "ps' = skip_ws buf es ps" and f: "found \<longleftrightarrow> buf ! ps' \<noteq> 0 \<and> buf ! ps' \<in> set toks"
    using assms(3) strchr_iff by (auto simp: peek_def Let_def)
  show e': "ps' = skip_ws buf es ps" "ps \<le> ps'" "ps' \<le> es" using e skip_ws_spec(1,2) [OF assms(2), of buf] by simp_all
  have "buf ! ps' = 0 \<longleftrightarrow> ps' = es" using assms(1) e'(3) by (auto simp: line_buf_def le_less)
  then show "found \<longleftrightarrow> ps' < es \<and> buf ! ps' \<in> set toks" using f e'(3) by auto
qed

text \<open>After a successful \<^verbatim>\<open>peek\<close>, \<^verbatim>\<open>gettoken\<close> moves on.\<close>

lemma peek_gettoken:
  assumes "line_buf buf es" and "ps \<le> es" and "peek buf es ps toks = (ps', found)" and found
    and "gettoken buf es ps' = (tok, q, e, ps'')"
  shows "ps < ps''" and "ps' < ps''" and "ps'' \<le> es"
proof -
  note p = peek_spec [OF assms(1-3)]
  note g = gettoken_spec [OF assms(1) p(3) assms(5)]
  have "q = ps'" using g(1) p(1) skip_ws_idem [OF assms(2), of buf] by simp
  then show "ps' < ps''" "ps'' \<le> es" "ps < ps''" using g p assms(4) by auto
qed

section \<open>The parser terminates, and what it returns\<close>

text \<open>
  A command as the parser may build it: its words are words of the line, it has less than \<^verbatim>\<open>MAXARGS\<close> arguments, so that its \<^verbatim>\<open>argv\<close> has room for the
  final null pointer, and its redirections are those of the grammar.
\<close>

definition redir_ok :: "uint \<Rightarrow> int \<Rightarrow> bool" where
  "redir_ok mode fd \<longleftrightarrow> mode = O_RDONLY \<and> fd = 0 \<or> mode = (O_WRONLY OR O_CREATE) \<and> fd = 1"

primrec cmd_ok :: "('w \<Rightarrow> bool) \<Rightarrow> 'w cmd \<Rightarrow> bool" where
  "cmd_ok W (EXEC ws) = (length ws < MAXARGS \<and> list_all W ws)"
| "cmd_ok W (REDIR c f m fd) = (cmd_ok W c \<and> W f \<and> redir_ok m fd)"
| "cmd_ok W (PIPE a b) = (cmd_ok W a \<and> cmd_ok W b)"
| "cmd_ok W (LIST a b) = (cmd_ok W a \<and> cmd_ok W b)"
| "cmd_ok W (BACK c) = cmd_ok W c"

text \<open>The number of arguments of a command that is an \<^verbatim>\<open>execcmd\<close> inside redirections.\<close>

primrec exec_args :: "'w cmd \<Rightarrow> nat option" where
  "exec_args (EXEC ws) = Some (length ws)"
| "exec_args (REDIR c f m fd) = exec_args c"
| "exec_args (PIPE a b) = None"
| "exec_args (LIST a b) = None"
| "exec_args (BACK c) = None"

lemma add_arg_ok:
  "exec_args c = Some argc \<Longrightarrow> Suc argc < MAXARGS \<Longrightarrow> W w \<Longrightarrow> cmd_ok W c \<Longrightarrow> cmd_ok W (add_arg w c) \<and> exec_args (add_arg w c) = Some (Suc argc)"
  by (induction c) auto

lemma redir_of_ok:
  "cmd_ok W c \<Longrightarrow> W w \<Longrightarrow> cmd_ok W (redir_of tok c w) \<and> exec_args (redir_of tok c w) = exec_args c"
  by (simp add: redir_of_def redir_ok_def)

text \<open>\<open>returns lo es P r\<close>: \<open>r\<close> is no lack of fuel, and if it is a command then it satisfies \<open>P\<close> and was parsed up to a position between \<open>lo\<close> and \<open>es\<close>.\<close>

definition returns :: "nat \<Rightarrow> nat \<Rightarrow> (span cmd \<Rightarrow> bool) \<Rightarrow> (span cmd \<times> nat) outcome \<Rightarrow> bool" where
  "returns lo es P r \<longleftrightarrow> (case r of Done (c, p) \<Rightarrow> lo \<le> p \<and> p \<le> es \<and> P c | Panic _ \<Rightarrow> True | Block \<Rightarrow> False)"

lemma returns_simps [simp]:
  "returns lo es P (Done (c, p)) \<longleftrightarrow> lo \<le> p \<and> p \<le> es \<and> P c" "returns lo es P (Panic m)" "\<not> returns lo es P Block"
  by (simp_all add: returns_def)

lemma returns_obind:
  assumes "returns lo es P r" and "\<And>c p. lo \<le> p \<Longrightarrow> p \<le> es \<Longrightarrow> P c \<Longrightarrow> returns lo es Q (f (c, p))"
  shows "returns lo es Q (obind r f)"
proof (cases r)
  case (Done x)
  then show ?thesis using assms(1) assms(2) [of "snd x" "fst x"] by (cases x) simp
qed (use assms(1) in auto)

lemma returns_mono: "returns lo es P r \<Longrightarrow> lo' \<le> lo \<Longrightarrow> (\<And>c. P c \<Longrightarrow> Q c) \<Longrightarrow> returns lo' es Q r"
  by (auto simp: returns_def split: outcome.splits)

lemma parseredirs_returns:
  assumes "line_buf buf es" and "ps \<le> es" and "es - ps < n" and "cmd_ok (span_ok buf es) cmd"
  shows "returns ps es (\<lambda>c. cmd_ok (span_ok buf es) c \<and> exec_args c = exec_args cmd) (parseredirs n buf es cmd ps)"
  using assms(2-)
proof (induction n arbitrary: cmd ps)
  case (Suc n)
  obtain p f where p: "peek buf es ps (bytes ''<>'') = (p, f)" by fastforce
  obtain t q1 e1 p1 where t: "gettoken buf es p = (t, q1, e1, p1)" by (cases "gettoken buf es p") auto
  obtain u q e p2 where u: "gettoken buf es p1 = (u, q, e, p2)" by (cases "gettoken buf es p1") auto
  note k = peek_spec [OF assms(1) Suc.prems(1) p]
  show ?case
  proof (cases "f \<and> u = byte CHR ''a''")
    case True
    note g = peek_gettoken [OF assms(1) Suc.prems(1) p True [THEN conjunct1] t]
    note h = gettoken_spec [OF assms(1) g(3) u]
    have lt: "ps < p2" "p2 \<le> es" using g h by auto
    have w: "span_ok buf es (q, e)" using h(8) True by simp
    note r = redir_of_ok [OF Suc.prems(3) w, of t]
    have "returns p2 es (\<lambda>c. cmd_ok (span_ok buf es) c \<and> exec_args c = exec_args (redir_of t cmd (q, e)))
        (parseredirs n buf es (redir_of t cmd (q, e)) p2)"
      using lt Suc.prems(2) r by (intro Suc.IH) auto
    then have "returns ps es (\<lambda>c. cmd_ok (span_ok buf es) c \<and> exec_args c = exec_args cmd) (parseredirs n buf es (redir_of t cmd (q, e)) p2)"
      using lt r by (auto elim: returns_mono)
    then show ?thesis using p t u True by simp
  next
    case False
    then show ?thesis using p t u k Suc.prems(3) by auto
  qed
qed simp

lemma parse_args_returns:
  assumes "line_buf buf es" and "ps \<le> es" and "es - ps < n" and "cmd_ok (span_ok buf es) ret" and "exec_args ret = Some argc"
  shows "returns ps es (cmd_ok (span_ok buf es)) (parse_args n buf es argc ret ps)"
  using assms(2-)
proof (induction n arbitrary: argc ret ps)
  case (Suc n)
  obtain p f where p: "peek buf es ps (bytes ''|)&;'') = (p, f)" by fastforce
  note k = peek_spec [OF assms(1) Suc.prems(1) p]
  obtain t q e p1 where t: "gettoken buf es p = (t, q, e, p1)" by (cases "gettoken buf es p") auto
  note g = gettoken_spec [OF assms(1) k(3) t]
  show ?case
  proof (cases "\<not> f \<and> t = byte CHR ''a'' \<and> Suc argc < MAXARGS")
    case True
    have w: "span_ok buf es (q, e)" using g(8) True by simp
    have lt: "ps < p1" "p1 \<le> es" using g True k by auto
    note a = add_arg_ok [OF Suc.prems(4) _ w Suc.prems(3)]
    have "returns p1 es (\<lambda>c. cmd_ok (span_ok buf es) c \<and> exec_args c = exec_args (add_arg (q, e) ret))
        (parseredirs n buf es (add_arg (q, e) ret) p1)"
      using lt Suc.prems(2) a True by (intro parseredirs_returns assms(1)) auto
    then have "returns p1 es (cmd_ok (span_ok buf es))
        (obind (parseredirs n buf es (add_arg (q, e) ret) p1) (\<lambda>(ret, ps). parse_args n buf es (Suc argc) ret ps))"
    proof (rule returns_obind)
      fix c p2
      assume c: "p1 \<le> p2" "p2 \<le> es" "cmd_ok (span_ok buf es) c \<and> exec_args c = exec_args (add_arg (q, e) ret)"
      have "returns p2 es (cmd_ok (span_ok buf es)) (parse_args n buf es (Suc argc) c p2)"
        using c lt Suc.prems(2) a True by (intro Suc.IH) auto
      then show "returns p1 es (cmd_ok (span_ok buf es)) (case (c, p2) of (ret, ps) \<Rightarrow> parse_args n buf es (Suc argc) ret ps)"
        using c(1) by (auto elim: returns_mono)
    qed
    then show ?thesis using p t True lt by (auto elim: returns_mono)
  next
    case False
    then show ?thesis using p t k g Suc.prems(3) by auto
  qed
qed simp

lemma parse_back_returns:
  assumes "line_buf buf es" and "ps \<le> es" and "es - ps < n" and "cmd_ok (span_ok buf es) cmd"
  shows "returns ps es (cmd_ok (span_ok buf es)) (parse_back n buf es cmd ps)"
  using assms(2-)
proof (induction n arbitrary: cmd ps)
  case (Suc n)
  obtain p f where p: "peek buf es ps (bytes ''&'') = (p, f)" by fastforce
  note k = peek_spec [OF assms(1) Suc.prems(1) p]
  obtain t q e p1 where t: "gettoken buf es p = (t, q, e, p1)" by (cases "gettoken buf es p") auto
  show ?case
  proof (cases f)
    case True
    note g = peek_gettoken [OF assms(1) Suc.prems(1) p True t]
    have "returns p1 es (cmd_ok (span_ok buf es)) (parse_back n buf es (BACK cmd) p1)"
      using g Suc.prems by (intro Suc.IH) auto
    then show ?thesis using p t True g by (auto elim: returns_mono)
  qed (use p k Suc.prems(3) in auto)
qed simp

abbreviation parses :: "uchar list \<Rightarrow> nat \<Rightarrow> nat \<Rightarrow> (span cmd \<times> nat) outcome \<Rightarrow> bool" where
  "parses buf es lo \<equiv> returns lo es (cmd_ok (span_ok buf es))"

text \<open>What each of the bodies returns, given that the functions it calls return on what is left of the line.\<close>

lemma parseline_body_returns:
  assumes "line_buf buf es" and "ps \<le> es" and "es - ps < n" and "parses buf es ps (pipe buf es ps)"
    and "\<And>p. ps < p \<Longrightarrow> p \<le> es \<Longrightarrow> parses buf es p (line buf es p)"
  shows "parses buf es ps (parseline_body n pipe line buf es ps)"
  unfolding parseline_body_def
proof (rule returns_obind [OF assms(4)], clarify)
  fix c p1 assume p1: "ps \<le> p1" "p1 \<le> es" "cmd_ok (span_ok buf es) c"
  have "parses buf es p1 (parse_back n buf es c p1)" using p1 assms(3) by (intro parse_back_returns assms(1)) auto
  then have r: "parses buf es ps (parse_back n buf es c p1)" by (rule returns_mono) (use p1 in auto)
  show "parses buf es ps (obind (parse_back n buf es c p1) (\<lambda>(cmd, ps). case peek buf es ps (bytes '';'') of (ps, found) \<Rightarrow>
           if found then case gettoken buf es ps of (_, _, _, ps) \<Rightarrow> obind (line buf es ps) (\<lambda>(right, ps). Done (LIST cmd right, ps))
           else Done (cmd, ps)))"
  proof (rule returns_obind [OF r], clarify)
    fix d p2 assume p2: "ps \<le> p2" "p2 \<le> es" "cmd_ok (span_ok buf es) d"
    obtain p f where p: "peek buf es p2 (bytes '';'') = (p, f)" by fastforce
    obtain t q e p3 where t: "gettoken buf es p = (t, q, e, p3)" by (cases "gettoken buf es p") auto
    have "parses buf es ps (obind (line buf es p3) (\<lambda>(right, ps). Done (LIST d right, ps)))" if f
    proof (rule returns_obind)
      have lt: "p2 < p3" "p3 \<le> es" using peek_gettoken [OF assms(1) p2(2) p that t] by auto
      then have "parses buf es p3 (line buf es p3)" using p2 by (intro assms(5)) auto
      then show "parses buf es ps (line buf es p3)" by (rule returns_mono) (use lt p2 in auto)
    qed (use p2 in auto)
    then show "parses buf es ps (case peek buf es p2 (bytes '';'') of (ps, found) \<Rightarrow>
           if found then case gettoken buf es ps of (_, _, _, ps) \<Rightarrow> obind (line buf es ps) (\<lambda>(right, ps). Done (LIST d right, ps))
           else Done (d, ps))"
      using p t p2 peek_spec [OF assms(1) p2(2) p] by auto
  qed
qed

lemma parsepipe_body_returns:
  assumes "line_buf buf es" and "ps \<le> es" and "parses buf es ps (exec buf es ps)"
    and "\<And>p. ps < p \<Longrightarrow> p \<le> es \<Longrightarrow> parses buf es p (pipe buf es p)"
  shows "parses buf es ps (parsepipe_body exec pipe buf es ps)"
  unfolding parsepipe_body_def
proof (rule returns_obind [OF assms(3)], clarify)
  fix c p1 assume p1: "ps \<le> p1" "p1 \<le> es" "cmd_ok (span_ok buf es) c"
  obtain p f where p: "peek buf es p1 (bytes ''|'') = (p, f)" by fastforce
  obtain t q e p3 where t: "gettoken buf es p = (t, q, e, p3)" by (cases "gettoken buf es p") auto
  have "parses buf es ps (obind (pipe buf es p3) (\<lambda>(right, ps). Done (PIPE c right, ps)))" if f
  proof (rule returns_obind)
    have lt: "p1 < p3" "p3 \<le> es" using peek_gettoken [OF assms(1) p1(2) p that t] by auto
    then have "parses buf es p3 (pipe buf es p3)" using p1 by (intro assms(4)) auto
    then show "parses buf es ps (pipe buf es p3)" by (rule returns_mono) (use lt p1 in auto)
  qed (use p1 in auto)
  then show "parses buf es ps (case peek buf es p1 (bytes ''|'') of (ps, found) \<Rightarrow>
         if found then case gettoken buf es ps of (_, _, _, ps) \<Rightarrow> obind (pipe buf es ps) (\<lambda>(right, ps). Done (PIPE c right, ps))
         else Done (c, ps))"
    using p t p1 peek_spec [OF assms(1) p1(2) p] by auto
qed

lemma parseexec_body_returns:
  assumes "line_buf buf es" and "ps \<le> es" and "es - ps < n"
    and "\<And>p. ps \<le> p \<Longrightarrow> p < es \<Longrightarrow> buf ! p = byte CHR ''('' \<Longrightarrow> skip_ws buf es p = p \<Longrightarrow> parses buf es p (block buf es p)"
  shows "parses buf es ps (parseexec_body n block buf es ps)"
proof -
  obtain p f where p: "peek buf es ps (bytes ''('') = (p, f)" by fastforce
  note k = peek_spec [OF assms(1,2) p]
  have s: "skip_ws buf es p = p" using k(1) skip_ws_idem [OF assms(2)] by simp
  show ?thesis
  proof (cases f)
    case True
    then have "parses buf es p (block buf es p)" using k s by (intro assms(4)) auto
    then show ?thesis using p True k by (auto simp: parseexec_body_def elim: returns_mono)
  next
    case False
    have r: "returns p es (\<lambda>c. cmd_ok (span_ok buf es) c \<and> exec_args c = exec_args (EXEC [] :: span cmd)) (parseredirs n buf es (EXEC []) p)"
      using k assms(1,3) by (intro parseredirs_returns) (auto simp: MAXARGS_def)
    have "parses buf es p (obind (parseredirs n buf es (EXEC []) p) (\<lambda>(ret, ps). parse_args n buf es 0 ret ps))"
    proof (rule returns_obind [OF r], clarify)
      fix c p1 assume c: "p \<le> p1" "p1 \<le> es" "cmd_ok (span_ok buf es) c" "exec_args c = exec_args (EXEC [] :: span cmd)"
      have "parses buf es p1 (parse_args n buf es 0 c p1)" using c k assms(1,3) by (intro parse_args_returns) auto
      then show "parses buf es p (parse_args n buf es 0 c p1)" by (rule returns_mono) (use c in auto)
    qed
    then have "parses buf es ps (obind (parseredirs n buf es (EXEC []) p) (\<lambda>(ret, ps). parse_args n buf es 0 ret ps))"
      by (rule returns_mono) (use k in auto)
    then show ?thesis using p False by (simp add: parseexec_body_def)
  qed
qed

lemma parseblock_body_returns:
  assumes "line_buf buf es" and "ps < es" and "es - ps \<le> n"
    and "\<And>p. ps < p \<Longrightarrow> p \<le> es \<Longrightarrow> parses buf es p (line buf es p)"
  shows "parses buf es ps (parseblock_body n line buf es ps)"
proof -
  obtain p f where p: "peek buf es ps (bytes ''('') = (p, f)" by fastforce
  obtain t q e p1 where t: "gettoken buf es p = (t, q, e, p1)" by (cases "gettoken buf es p") auto
  have le: "ps \<le> es" using assms(2) by simp
  show ?thesis
  proof (cases f)
    case True
    note g = peek_gettoken [OF assms(1) le p True t]
    have "parses buf es p1 (obind (line buf es p1) (\<lambda>(cmd, ps). case peek buf es ps (bytes '')'') of (ps, found) \<Rightarrow>
              if \<not> found then Panic ''syntax - missing )''
              else case gettoken buf es ps of (_, _, _, ps) \<Rightarrow> parseredirs n buf es cmd ps))"
    proof (rule returns_obind [OF assms(4) [OF g(1,3)]], clarify)
      fix c p2 assume c: "p1 \<le> p2" "p2 \<le> es" "cmd_ok (span_ok buf es) c"
      obtain p3 f3 where p3: "peek buf es p2 (bytes '')'') = (p3, f3)" by fastforce
      obtain t q e p4 where t: "gettoken buf es p3 = (t, q, e, p4)" by (cases "gettoken buf es p3") auto
      have "parses buf es p1 (parseredirs n buf es c p4)" if f3
      proof -
        note h = peek_gettoken [OF assms(1) c(2) p3 that t]
        have "returns p4 es (\<lambda>d. cmd_ok (span_ok buf es) d \<and> exec_args d = exec_args c) (parseredirs n buf es c p4)"
          using h g c assms(3) by (intro parseredirs_returns assms(1)) auto
        then show ?thesis by (rule returns_mono) (use h c in auto)
      qed
      then show "parses buf es p1 (case peek buf es p2 (bytes '')'') of (ps, found) \<Rightarrow>
              if \<not> found then Panic ''syntax - missing )''
              else case gettoken buf es ps of (_, _, _, ps) \<Rightarrow> parseredirs n buf es c ps)"
        using p3 t by simp
    qed
    then show ?thesis using p t True g by (auto simp: parseblock_body_def elim: returns_mono)
  qed (use p in \<open>simp add: parseblock_body_def\<close>)
qed

lemma parser_returns:
  assumes "line_buf buf es"
  shows "ps \<le> es \<Longrightarrow> 4 * (es - ps) + 4 \<le> n \<Longrightarrow> parses buf es ps (parseline n buf es ps)"
    and "ps \<le> es \<Longrightarrow> 4 * (es - ps) + 3 \<le> n \<Longrightarrow> parses buf es ps (parsepipe n buf es ps)"
    and "ps \<le> es \<Longrightarrow> 4 * (es - ps) + 2 \<le> n \<Longrightarrow> parses buf es ps (parseexec n buf es ps)"
    and "ps < es \<Longrightarrow> 4 * (es - ps) + 1 \<le> n \<Longrightarrow> parses buf es ps (parseblock n buf es ps)"
proof (induction n arbitrary: ps)
  case (Suc n)
  { case 1
    then show ?case unfolding parseline.simps
      by (intro parseline_body_returns assms Suc.IH) auto }
  { case 2
    then show ?case unfolding parsepipe.simps
      by (intro parsepipe_body_returns assms Suc.IH) auto }
  { case 3
    then show ?case unfolding parseexec.simps
      by (intro parseexec_body_returns assms Suc.IH) auto }
  { case 4
    then show ?case unfolding parseblock.simps
      by (intro parseblock_body_returns assms Suc.IH) auto }
qed auto

text \<open>
  C19. The parser of the shell terminates on every line: its recursion never runs out of the fuel it is started with.  What it returns satisfies the
  preconditions of \<^verbatim>\<open>runcmd\<close>: every word is a non-empty, maximal run of word characters of the line, every command has less than \<^verbatim>\<open>MAXARGS\<close> arguments,
  and \<^verbatim>\<open>nulterminate\<close> does not change the size of the buffer.
\<close>

theorem parsecmd_terminates:
  assumes "0 \<in> set buf"
  shows "case parsecmd buf of
      Done (cmd, buf') \<Rightarrow> cmd_ok (span_ok buf (buf_strlen buf)) cmd \<and> length buf' = length buf
    | Panic msg \<Rightarrow> True
    | Block \<Rightarrow> False"
proof -
  let ?es = "buf_strlen buf"
  have line: "line_buf buf ?es" by (rule line_buf_strlen [OF assms])
  have len: "length (nulterminate c b) = length b" for c b
  proof (induction c arbitrary: b)
    case (EXEC ws)
    show ?case by (induction ws arbitrary: b) auto
  qed auto
  have "parses buf ?es 0 (parseline (4 * ?es + 4) buf ?es 0)" using parser_returns(1) [OF line, of 0 "4 * ?es + 4"] by simp
  then show ?thesis by (auto simp: parsecmd_def Let_def returns_def len split: outcome.splits prod.splits)
qed

theorem parsecmd_terminates_witness:
  "\<exists>cmd buf'. parsecmd (bytes ''a|b'' @ [10, 0]) = Done (cmd, buf') \<and>
     cmd_ok (span_ok (bytes ''a|b'' @ [10, 0]) 4) cmd"
proof -
  let ?b = "bytes ''a|b'' @ [10, 0]"
  have "buf_strlen ?b = 4" by (simp add: buf_strlen_def)
  moreover have "(case parsecmd ?b of Done _ \<Rightarrow> True | Panic _ \<Rightarrow> False | Block \<Rightarrow> False)" by code_simp
  ultimately show ?thesis using parsecmd_terminates [of ?b] by (auto split: outcome.splits prod.splits)
qed

end
