(* ===== verification/ShellPrint.thy ===== *)
theory ShellPrint
  imports Shell
begin

text \<open>
  The shell's parser against the grammar of its command language: every command, printed in that grammar, is parsed back to itself, and the strings that
  \<^verbatim>\<open>nulterminate\<close> leaves in the line are the words of the command.
\<close>

section \<open>Printing commands\<close>

text \<open>
  The grammar of the shell, as the text of a command: \<^verbatim>\<open>;\<close> binds weakest, then \<^verbatim>\<open>&\<close> and \<^verbatim>\<open>|\<close>, and a command of a weaker binding than its place
  asks for is put in parentheses.
\<close>

definition par :: "bool \<Rightarrow> uchar list \<Rightarrow> uchar list" where
  "par b s = (if b then byte CHR ''('' # s @ [byte CHR '')''] else s)"

definition print_words :: "uchar list list \<Rightarrow> uchar list" where
  "print_words ws = concat (map (\<lambda>w. w @ [byte CHR '' '']) ws)"

definition redir_sym :: "int \<Rightarrow> uchar" where
  "redir_sym fd = (if fd = 0 then byte CHR ''<'' else byte CHR ''>'')"

primrec print_cmd :: "uchar list cmd \<Rightarrow> nat \<Rightarrow> uchar list" where
  "print_cmd (EXEC ws) k = print_words ws"
| "print_cmd (REDIR c f m fd) k = print_cmd c 3 @ redir_sym fd # f"
| "print_cmd (PIPE a b) k = par (2 < k) (print_cmd a 3 @ byte CHR ''|'' # print_cmd b 2)"
| "print_cmd (LIST a b) k = par (0 < k) (print_cmd a 1 @ byte CHR '';'' # print_cmd b 0)"
| "print_cmd (BACK c) k = par (1 < k) (print_cmd c 1 @ [byte CHR ''&''])"

definition word_ok :: "uchar list \<Rightarrow> bool" where
  "word_ok w \<longleftrightarrow> w \<noteq> [] \<and> list_all is_word w \<and> 0 \<notin> set w"

text \<open>\<open>str\<close> is the text of a span, and \<open>cstr\<close> the C string that starts there.\<close>

definition str :: "uchar list \<Rightarrow> span \<Rightarrow> uchar list" where
  "str buf w = take (snd w - fst w) (drop (fst w) buf)"

definition cstr :: "uchar list \<Rightarrow> span \<Rightarrow> uchar list" where
  "cstr buf w = takeWhile (\<lambda>c. c \<noteq> 0) (drop (fst w) buf)"

subsection \<open>NUL-termination cuts the line into its words\<close>

primrec spans :: "'w cmd \<Rightarrow> 'w list" where
  "spans (EXEC ws) = ws"
| "spans (REDIR c f m fd) = spans c @ [f]"
| "spans (PIPE a b) = spans a @ spans b"
| "spans (LIST a b) = spans a @ spans b"
| "spans (BACK c) = spans c"

lemma nulterminate_foldl: "nulterminate c buf = foldl (\<lambda>buf w. buf[snd w := 0]) buf (spans c)"
  by (induction c arbitrary: buf) auto

lemma set_spans: "set (spans c) = set_cmd c"
  by (induction c) auto

lemma foldl_put_nth:
  "i < length buf \<Longrightarrow> foldl (\<lambda>buf w. buf[snd w := 0]) buf ws ! i = (if i \<in> snd ` set ws then 0 else buf ! i)"
  by (induction ws arbitrary: buf) (auto simp: nth_list_update)

lemma length_foldl_put [simp]: "length (foldl (\<lambda>buf w. buf[snd w := 0]) buf ws) = length buf"
  by (induction ws arbitrary: buf) auto

lemma cmd_ok_set: "cmd_ok W c \<Longrightarrow> w \<in> set_cmd c \<Longrightarrow> W w"
  by (induction c) (auto simp: list_all_iff)

lemma nulterminate_strings:
  assumes "line_buf buf es" and "cmd_ok (span_ok buf es) c" and "w \<in> set_cmd c"
  shows "cstr (nulterminate c buf) w = str buf w"
proof -
  let ?b = "nulterminate c buf"
  have w: "span_ok buf es w" by (rule cmd_ok_set [OF assms(2,3)])
  then have le: "fst w < snd w" "snd w \<le> es" "es < length buf" using assms(1) by (auto simp: span_ok_def line_buf_def)
  have len: "length ?b = length buf" by (simp add: nulterminate_foldl)
  have n: "?b ! i = (if i \<in> snd ` set_cmd c then 0 else buf ! i)" if "i < length buf" for i
    using foldl_put_nth [OF that, of "spans c"] by (simp add: nulterminate_foldl set_spans)
  have keep: "?b ! i = buf ! i \<and> buf ! i \<noteq> 0" if "fst w \<le> i" "i < snd w" for i
  proof -
    have "is_word (buf ! i)" "i < es" using w that by (auto simp: span_ok_def)
    then have "i \<notin> snd ` set_cmd c" using cmd_ok_set [OF assms(2)] by (auto simp: span_ok_def)
    then show ?thesis using n [of i] \<open>i < es\<close> le(3) assms(1) by (auto simp: line_buf_def)
  qed
  have z: "?b ! snd w = 0" using n [of "snd w"] le assms(3) by auto
  have "takeWhile (\<lambda>c. c \<noteq> 0) (drop (fst w) ?b) = take (snd w - fst w) (drop (fst w) ?b)"
    using keep z le len by (intro takeWhile_eq_take_P_nth) auto
  also have "\<dots> = take (snd w - fst w) (drop (fst w) buf)"
    using keep le len by (intro nth_equalityI) auto
  finally show ?thesis by (simp add: cstr_def str_def)
qed

section \<open>Text at a position of the line\<close>

definition text_at :: "uchar list \<Rightarrow> nat \<Rightarrow> nat \<Rightarrow> uchar list \<Rightarrow> bool" where
  "text_at buf es p s \<longleftrightarrow> p + length s \<le> es \<and> (\<forall>i<length s. buf ! (p + i) = s ! i)"

lemma text_at_Nil [simp]: "text_at buf es p [] \<longleftrightarrow> p \<le> es"
  by (simp add: text_at_def)

lemma text_at_Cons [simp]: "text_at buf es p (x # s) \<longleftrightarrow> buf ! p = x \<and> text_at buf es (Suc p) s"
  by (auto simp: text_at_def less_Suc_eq_0_disj)

lemma text_at_le: "text_at buf es p s \<Longrightarrow> p + length s \<le> es"
  by (simp add: text_at_def)

lemma text_at_append [simp]: "text_at buf es p (s @ t) \<longleftrightarrow> text_at buf es p s \<and> text_at buf es (p + length s) t"
  by (induction s arbitrary: p) (auto dest: text_at_le)

text \<open>The next character that is not white space, which is NUL at the end of the line.\<close>

definition nxt :: "uchar list \<Rightarrow> nat \<Rightarrow> nat \<Rightarrow> uchar" where
  "nxt buf es p = buf ! skip_ws buf es p"

lemma skip_ws_self: "p < es \<Longrightarrow> \<not> is_ws (buf ! p) \<Longrightarrow> skip_ws buf es p = p"
  by (simp add: skip_ws_def skip_while.simps [of is_ws buf es p])

lemma nxt_self: "p < es \<Longrightarrow> \<not> is_ws (buf ! p) \<Longrightarrow> nxt buf es p = buf ! p"
  by (simp add: nxt_def skip_ws_self)

lemma nxt_skip [simp]: "p \<le> es \<Longrightarrow> nxt buf es (skip_ws buf es p) = nxt buf es p"
  by (simp add: nxt_def skip_ws_idem)

lemma symbol_not_ws: "c \<in> set symbols \<Longrightarrow> \<not> is_ws c"
  by (auto simp: set_symbols is_ws_alt whitespace_def)

lemma word_not_ws: "is_word c \<Longrightarrow> \<not> is_ws c"
  by (simp add: is_word_alt is_ws_alt)

lemma word_not_symbol: "is_word c \<Longrightarrow> c \<notin> set symbols"
  by (simp add: is_word_alt)

lemma stop_nonword:
  assumes "p \<le> es" and "nxt buf es p \<in> insert 0 (set symbols)" and "line_buf buf es"
  shows "p < es \<Longrightarrow> \<not> is_word (buf ! p)"
proof
  assume p: "p < es" and w: "is_word (buf ! p)"
  then have "nxt buf es p = buf ! p" using word_not_ws nxt_self by blast
  then show False using assms(2,3) p word_not_symbol [OF w] by (auto simp: line_buf_def)
qed

lemma peek_eq: "peek buf es p toks = (skip_ws buf es p, nxt buf es p \<noteq> 0 \<and> nxt buf es p \<in> set toks)"
  using strchr_iff by (auto simp: peek_def nxt_def Let_def)

lemma peek_skip: "p \<le> es \<Longrightarrow> peek buf es (skip_ws buf es p) toks = peek buf es p toks"
  by (simp add: peek_eq skip_ws_idem)

lemma gettoken_skip: "p \<le> es \<Longrightarrow> gettoken buf es (skip_ws buf es p) = gettoken buf es p"
  by (simp add: gettoken_def skip_ws_idem)

lemma gettoken_symbol:
  assumes "p < es" and "buf ! p \<in> set symbols" and "buf ! p = byte CHR ''>'' \<Longrightarrow> buf ! Suc p \<noteq> byte CHR ''>''"
  shows "gettoken buf es p = (buf ! p, p, Suc p, skip_ws buf es (Suc p))"
proof -
  have "token_at buf es p = (buf ! p, Suc p)" using assms(2,3) by (auto simp: token_at_def set_symbols)
  then show ?thesis using skip_ws_self [OF assms(1) symbol_not_ws [OF assms(2)]] by (simp add: gettoken_def)
qed

lemma skip_word_at:
  assumes "text_at buf es p w" and "list_all is_word w" and "p + length w < es \<Longrightarrow> \<not> is_word (buf ! (p + length w))"
  shows "skip_word buf es p = p + length w"
  unfolding skip_word_def
proof (rule skip_while_eqI)
  fix i assume i: "p \<le> i" "i < p + length w"
  then have "buf ! i = w ! (i - p)" using assms(1) by (auto simp: text_at_def dest: spec [of _ "i - p"])
  then show "is_word (buf ! i)" using assms(2) i by (simp add: list_all_length)
qed (use assms in \<open>auto simp: text_at_def\<close>)

lemma gettoken_word:
  assumes "text_at buf es p w" and "word_ok w" and "p + length w < es \<Longrightarrow> \<not> is_word (buf ! (p + length w))"
  shows "gettoken buf es p = (byte CHR ''a'', p, p + length w, skip_ws buf es (p + length w))"
proof -
  obtain x v where w: "w = x # v" using assms(2) by (cases w) (auto simp: word_ok_def)
  have x: "buf ! p = x" "is_word x" "x \<noteq> 0" "p < es" using assms(1,2) text_at_le [OF assms(1)] by (auto simp: w word_ok_def)
  have "token_at buf es p = (byte CHR ''a'', p + length w)"
    using x word_not_symbol [OF x(2)] skip_word_at [OF assms(1) _ assms(3)] assms(2)
    by (auto simp: token_at_def set_symbols word_ok_def)
  then show ?thesis using skip_ws_self [OF x(4)] word_not_ws x by (simp add: gettoken_def)
qed

lemma str_text_at:
  assumes "text_at buf es p w" and "es < length buf"
  shows "str buf (p, p + length w) = w"
  using assms text_at_le [OF assms(1)] by (intro nth_equalityI) (auto simp: str_def text_at_def)

section \<open>Parsing what was printed\<close>

text \<open>The functions of the parser skip white space first.\<close>

lemma parseredirs_skip: "p \<le> es \<Longrightarrow> parseredirs n buf es c (skip_ws buf es p) = parseredirs n buf es c p"
  by (cases n) (simp_all add: peek_skip)

lemma parse_args_skip: "p \<le> es \<Longrightarrow> parse_args n buf es k c (skip_ws buf es p) = parse_args n buf es k c p"
  by (cases n) (simp_all add: peek_skip)

lemma parse_back_skip: "p \<le> es \<Longrightarrow> parse_back n buf es c (skip_ws buf es p) = parse_back n buf es c p"
  by (cases n) (simp_all add: peek_skip)

lemma parseexec_skip: "p \<le> es \<Longrightarrow> parseexec n buf es (skip_ws buf es p) = parseexec n buf es p"
  by (cases n) (simp_all add: parseexec_body_def peek_skip)

lemma parsepipe_skip: "p \<le> es \<Longrightarrow> parsepipe n buf es (skip_ws buf es p) = parsepipe n buf es p"
  by (cases n) (simp_all add: parsepipe_body_def parseexec_skip)

lemma parseline_skip: "p \<le> es \<Longrightarrow> parseline n buf es (skip_ws buf es p) = parseline n buf es p"
  by (cases n) (simp_all add: parseline_body_def parsepipe_skip)

text \<open>A list of redirections, and its text.\<close>

type_synonym redir = "uchar list \<times> uint \<times> int"

primrec wrap :: "'w cmd \<Rightarrow> ('w \<times> uint \<times> int) list \<Rightarrow> 'w cmd" where
  "wrap c [] = c"
| "wrap c (r # rs) = wrap (REDIR c (fst r) (fst (snd r)) (snd (snd r))) rs"

primrec print_redirs :: "redir list \<Rightarrow> uchar list" where
  "print_redirs [] = []"
| "print_redirs (r # rs) = redir_sym (snd (snd r)) # fst r @ print_redirs rs"

definition redirs_ok :: "redir list \<Rightarrow> bool" where
  "redirs_ok rs \<longleftrightarrow> list_all (\<lambda>(f, m, fd). word_ok f \<and> redir_ok m fd) rs"

lemma redir_of_sym: "redir_ok m fd \<Longrightarrow> redir_of (redir_sym fd) c w = REDIR c w m fd"
  by (auto simp: redir_ok_def redir_sym_def redir_of_def)

lemma print_redirs_head:
  "redirs_ok rs \<Longrightarrow> text_at buf es p (print_redirs rs) \<Longrightarrow> line_buf buf es \<Longrightarrow> nxt buf es (p + length (print_redirs rs)) \<in> insert 0 (set symbols)
     \<Longrightarrow> p < es \<Longrightarrow> \<not> is_word (buf ! p)"
  using stop_nonword [of p es buf] by (cases rs) (auto simp: redir_sym_def is_word_alt set_symbols)

lemma parseredirs_print:
  assumes "line_buf buf es" and "redirs_ok rs" and "text_at buf es p (print_redirs rs)"
    and "nxt buf es (p + length (print_redirs rs)) \<in> insert 0 (set symbols)"
    and "nxt buf es (p + length (print_redirs rs)) \<notin> set (bytes ''<>'')" and "es - p < n"
  shows "\<exists>c'. parseredirs n buf es c p = Done (c', skip_ws buf es (p + length (print_redirs rs)))
    \<and> map_cmd (str buf) c' = wrap (map_cmd (str buf) c) rs \<and> exec_args c' = exec_args c"
  using assms(2-)
proof (induction rs arbitrary: n c p)
  case Nil
  then show ?case by (cases n) (auto simp: peek_eq)
next
  case (Cons r rs)
  obtain f m fd where r: "r = (f, m, fd)" by (cases r)
  obtain k where n: "n = Suc k" using Cons.prems(5) by (cases n) auto
  let ?q = "Suc p" and ?e = "Suc p + length f"
  have ok: "word_ok f" "redir_ok m fd" "redirs_ok rs" using Cons.prems(1) r by (auto simp: redirs_ok_def)
  have p: "buf ! p = redir_sym fd" "text_at buf es ?q f" "text_at buf es ?e (print_redirs rs)" "p < es"
    using Cons.prems(2) text_at_le [OF Cons.prems(2)] r by auto
  have sym: "redir_sym fd \<in> set symbols" "redir_sym fd \<in> set (bytes ''<>'')" "redir_sym fd \<noteq> 0" by (auto simp: redir_sym_def set_symbols)
  obtain x v where f: "f = x # v" using ok(1) by (cases f) (auto simp: word_ok_def)
  then have "is_word (buf ! Suc p)" using p(2) ok(1) by (simp add: word_ok_def)
  then have "buf ! Suc p \<noteq> byte CHR ''>''" by (auto simp: is_word_alt set_symbols)
  then have g: "gettoken buf es p = (redir_sym fd, p, ?q, skip_ws buf es ?q)" using gettoken_symbol [of p es buf] p sym by simp
  have stop: "\<not> is_word (buf ! ?e)" if "?e < es"
    using print_redirs_head [OF ok(3) p(3) assms(1) _ that] Cons.prems(3) r by (simp add: add.assoc)
  have g2: "gettoken buf es (skip_ws buf es ?q) = (byte CHR ''a'', ?q, ?e, skip_ws buf es ?e)"
    using gettoken_word [OF p(2) ok(1) stop] gettoken_skip [of ?q es buf] p(4) by simp
  have pk: "peek buf es p (bytes ''<>'') = (p, True)"
    using p(1,4) sym skip_ws_self [of p es buf] symbol_not_ws nxt_self [of p es buf] by (auto simp: peek_eq)
  have len: "p + length (print_redirs (r # rs)) = ?e + length (print_redirs rs)" by (simp add: r)
  have "?e \<le> es" using text_at_le [OF p(2)] by simp
  then have "parseredirs n buf es c p = parseredirs k buf es (REDIR c (?q, ?e) m fd) ?e"
    using pk g g2 by (simp add: n redir_of_sym [OF ok(2)] parseredirs_skip)
  moreover have "str buf (?q, ?e) = f" using str_text_at [OF p(2)] assms(1) by (simp add: line_buf_def)
  moreover have "es - ?e < k" using Cons.prems(5) p(4) n by linarith
  ultimately show ?case
    using Cons.IH [OF ok(3) p(3) Cons.prems(3,4) [unfolded len], of k "REDIR c (?q, ?e) m fd"] by (simp only: len) (simp add: r)
qed

text \<open>What may follow a simple command with its redirections, a pipeline, and a line.\<close>

definition exec_stop :: "uchar set" where
  "exec_stop = {0, byte CHR ''|'', byte CHR '')'', byte CHR ''&'', byte CHR '';''}"

lemma exec_stopD: "c \<in> exec_stop \<Longrightarrow> c \<in> insert 0 (set symbols) \<and> c \<notin> set (bytes ''<>'')"
  by (auto simp: exec_stop_def set_symbols)

lemma nxt_0: "line_buf buf es \<Longrightarrow> p \<le> es \<Longrightarrow> nxt buf es p = 0 \<longleftrightarrow> skip_ws buf es p = es"
  using skip_ws_spec(2) [of p es buf] by (auto simp: nxt_def line_buf_def le_less)

lemma parse_args_stop:
  assumes "line_buf buf es" and "p \<le> es" and "nxt buf es p \<in> exec_stop" and "0 < n"
  shows "parse_args n buf es k c p = Done (c, skip_ws buf es p)"
proof (cases "nxt buf es p = 0")
  case True
  then have e: "skip_ws buf es p = es" using nxt_0 assms(1,2) by blast
  obtain t q f p' where g: "gettoken buf es es = (t, q, f, p')" by (cases "gettoken buf es es") auto
  have "t = 0" "p' = es" using gettoken_spec [OF assms(1) order_refl g] skip_ws_spec(2) [of es es buf] by auto
  then show ?thesis using assms(4) True e g by (cases n) (auto simp: peek_eq)
next
  case False
  then have "peek buf es p (bytes ''|)&;'') = (skip_ws buf es p, True)" using assms(3) by (auto simp: peek_eq exec_stop_def)
  then show ?thesis using assms(4) by (cases n) auto
qed

lemma print_words_Cons: "print_words (w # ws) = w @ byte CHR '' '' # print_words ws"
  by (simp add: print_words_def)

lemma print_words_Nil [simp]: "print_words [] = []"
  by (simp add: print_words_def)

lemma space_ws: "is_ws (byte CHR '' '')"
  by (simp add: is_ws_alt whitespace_def)

lemma skip_ws_space: "buf ! p = byte CHR '' '' \<Longrightarrow> p < es \<Longrightarrow> skip_ws buf es p = skip_ws buf es (Suc p)"
  using space_ws by (simp add: skip_ws_def skip_while.simps [of is_ws buf es p])

lemma parse_args_print:
  assumes "line_buf buf es" and "list_all word_ok ws" and "redirs_ok rs" and "length us + length ws < MAXARGS"
    and "text_at buf es p (print_words ws @ print_redirs rs)" and "ws = [] \<Longrightarrow> rs = []"
    and "nxt buf es (p + length (print_words ws @ print_redirs rs)) \<in> exec_stop" and "es - p < n"
  shows "\<exists>c'. parse_args n buf es (length us) (EXEC us) p = Done (c', skip_ws buf es (p + length (print_words ws @ print_redirs rs)))
    \<and> map_cmd (str buf) c' = wrap (EXEC (map (str buf) us @ ws)) rs"
  using assms(2-)
proof (induction ws arbitrary: n us p)
  case Nil
  then have "parse_args n buf es (length us) (EXEC us) p = Done (EXEC us, skip_ws buf es p)"
    by (intro parse_args_stop assms(1)) auto
  then show ?case using Nil by simp
next
  case (Cons w ws)
  obtain k where n: "n = Suc k" using Cons.prems(7) by (cases n) auto
  let ?e = "p + length w"
  let ?stop = "p + length (print_words (w # ws) @ print_redirs rs)"
  have w: "word_ok w" "list_all word_ok ws" using Cons.prems(1) by auto
  have t: "text_at buf es p w" "buf ! ?e = byte CHR '' ''" "text_at buf es (Suc ?e) (print_words ws @ print_redirs rs)" "?e < es"
    using Cons.prems(4) text_at_le [OF Cons.prems(4)] by (auto simp: print_words_Cons)
  have g: "gettoken buf es p = (byte CHR ''a'', p, ?e, skip_ws buf es ?e)"
    using t(2) space_ws word_not_ws by (intro gettoken_word [OF t(1) w(1)]) auto
  obtain x v where xv: "w = x # v" "is_word x" using w(1) by (cases w) (auto simp: word_ok_def)
  have x: "buf ! p = x" "p < es" using t(1,4) xv(1) by auto
  then have np: "skip_ws buf es p = p" "nxt buf es p = x" using skip_ws_self nxt_self word_not_ws xv(2) by auto
  have "x \<notin> set (bytes ''|)&;'')" using word_not_symbol [OF xv(2)] by (auto simp: set_symbols)
  then have pk: "peek buf es p (bytes ''|)&;'') = (p, False)" using np by (simp add: peek_eq)
  let ?c = "EXEC (us @ [(p, ?e)])"
  have sk: "skip_ws buf es ?e = skip_ws buf es (Suc ?e)" by (rule skip_ws_space [OF t(2,4)])
  have "Suc (length us) < MAXARGS" using Cons.prems(3) by simp
  then have run: "parse_args n buf es (length us) (EXEC us) p =
      obind (parseredirs k buf es ?c (Suc ?e)) (\<lambda>(ret, ps). parse_args k buf es (length (us @ [(p, ?e)])) ret ps)"
    using pk g t(4) by (simp add: n sk parseredirs_skip)
  have st: "str buf (p, ?e) = w" using str_text_at [OF t(1)] assms(1) by (simp add: line_buf_def)
  have len: "?stop = Suc ?e + length (print_words ws @ print_redirs rs)" by (simp add: print_words_Cons)
  have fuel: "es - Suc ?e < k" using Cons.prems(7) t(4) n by linarith
  show ?case
  proof (cases ws)
    case Nil
    have "\<exists>c'. parseredirs k buf es ?c (Suc ?e) = Done (c', skip_ws buf es ?stop)
        \<and> map_cmd (str buf) c' = wrap (map_cmd (str buf) ?c) rs \<and> exec_args c' = exec_args ?c"
      using parseredirs_print [OF assms(1) Cons.prems(2), of "Suc ?e" k ?c] t(3) exec_stopD [OF Cons.prems(6)] fuel len Nil by (simp add: add.assoc)
    then obtain c' where c': "parseredirs k buf es ?c (Suc ?e) = Done (c', skip_ws buf es ?stop)"
      "map_cmd (str buf) c' = wrap (map_cmd (str buf) ?c) rs" by blast
    have le: "?stop \<le> es" using text_at_le [OF Cons.prems(4)] by simp
    have "parse_args k buf es (length (us @ [(p, ?e)])) c' (skip_ws buf es ?stop) = Done (c', skip_ws buf es ?stop)"
      unfolding parse_args_skip [OF le] using fuel by (intro parse_args_stop [OF assms(1) le Cons.prems(6)]) simp
    then show ?thesis using run c' st Nil by simp
  next
    case (Cons w' ws')
    then have "is_word (buf ! Suc ?e)" "Suc ?e < es"
      using t(3) w(2) text_at_le [OF t(3)] by (auto simp: print_words_Cons word_ok_def neq_Nil_conv)
    then have "nxt buf es (Suc ?e) = buf ! Suc ?e" "buf ! Suc ?e \<notin> set (bytes ''<>'')"
      using nxt_self word_not_ws word_not_symbol by (auto simp: set_symbols)
    then have "parseredirs k buf es ?c (Suc ?e) = Done (?c, skip_ws buf es (Suc ?e))"
      using fuel by (cases k) (auto simp: peek_eq)
    moreover have "Suc ?e \<le> es" using t(4) by simp
    moreover have "\<exists>c'. parse_args k buf es (length (us @ [(p, ?e)])) ?c (Suc ?e) =
        Done (c', skip_ws buf es (Suc ?e + length (print_words ws @ print_redirs rs)))
        \<and> map_cmd (str buf) c' = wrap (EXEC (map (str buf) (us @ [(p, ?e)]) @ ws)) rs"
      using Cons.prems Cons t fuel len by (intro Cons.IH w) (auto simp: add.assoc)
    ultimately show ?thesis using run len st by (simp add: parse_args_skip add.assoc)
  qed
qed

text \<open>The four levels of the grammar: what parsing the text of a command gives, whatever the fuel, as long as there is enough.\<close>

definition exec_ok :: "uchar list \<Rightarrow> nat \<Rightarrow> uchar list cmd \<Rightarrow> bool" where
  "exec_ok buf es c \<longleftrightarrow> (\<forall>p rs n. redirs_ok rs \<longrightarrow> text_at buf es p (print_cmd c 3 @ print_redirs rs) \<longrightarrow>
     nxt buf es (p + length (print_cmd c 3 @ print_redirs rs)) \<in> exec_stop \<longrightarrow> 4 * (es - p) + 2 \<le> n \<longrightarrow>
     (\<exists>c'. parseexec n buf es p = Done (c', skip_ws buf es (p + length (print_cmd c 3 @ print_redirs rs)))
       \<and> map_cmd (str buf) c' = wrap c rs))"

definition pipe_ok :: "uchar list \<Rightarrow> nat \<Rightarrow> uchar list cmd \<Rightarrow> bool" where
  "pipe_ok buf es c \<longleftrightarrow> (\<forall>p n. text_at buf es p (print_cmd c 2) \<longrightarrow> nxt buf es (p + length (print_cmd c 2)) \<in> exec_stop - {byte CHR ''|''} \<longrightarrow>
     4 * (es - p) + 3 \<le> n \<longrightarrow>
     (\<exists>c'. parsepipe n buf es p = Done (c', skip_ws buf es (p + length (print_cmd c 2))) \<and> map_cmd (str buf) c' = c))"

definition back_ok :: "uchar list \<Rightarrow> nat \<Rightarrow> uchar list cmd \<Rightarrow> bool" where
  "back_ok buf es c \<longleftrightarrow> (\<forall>p k n. text_at buf es p (print_cmd c 1 @ replicate k (byte CHR ''&'')) \<longrightarrow>
     nxt buf es (p + length (print_cmd c 1) + k) \<in> exec_stop - {byte CHR ''|'', byte CHR ''&''} \<longrightarrow> 4 * (es - p) + 3 \<le> n \<longrightarrow>
     (\<exists>c' d q. parsepipe n buf es p = Done (d, q) \<and> parse_back n buf es d q = Done (c', skip_ws buf es (p + length (print_cmd c 1) + k))
       \<and> map_cmd (str buf) c' = (BACK ^^ k) c))"

definition line_ok :: "uchar list \<Rightarrow> nat \<Rightarrow> uchar list cmd \<Rightarrow> bool" where
  "line_ok buf es c \<longleftrightarrow> (\<forall>p n. text_at buf es p (print_cmd c 0) \<longrightarrow> nxt buf es (p + length (print_cmd c 0)) \<in> {0, byte CHR '')''} \<longrightarrow>
     4 * (es - p) + 4 \<le> n \<longrightarrow>
     (\<exists>c'. parseline n buf es p = Done (c', skip_ws buf es (p + length (print_cmd c 0))) \<and> map_cmd (str buf) c' = c))"

lemma pipe_okI:
  assumes "exec_ok buf es c" and "print_cmd c 2 = print_cmd c 3"
  shows "pipe_ok buf es c"
  unfolding pipe_ok_def assms(2)
proof (intro allI impI)
  fix p n
  let ?e = "p + length (print_cmd c 3)"
  assume a: "text_at buf es p (print_cmd c 3)" "nxt buf es ?e \<in> exec_stop - {byte CHR ''|''}" "4 * (es - p) + 3 \<le> n"
  then obtain k where n: "n = Suc k" "4 * (es - p) + 2 \<le> k" by (cases n) auto
  obtain c' where c: "parseexec k buf es p = Done (c', skip_ws buf es ?e)" "map_cmd (str buf) c' = c"
    using assms(1) [unfolded exec_ok_def, rule_format, of "[]" p k] a n text_at_le [OF a(1)] by (auto simp: redirs_ok_def)
  have "?e \<le> es" using text_at_le [OF a(1)] .
  then show "\<exists>c'. parsepipe n buf es p = Done (c', skip_ws buf es ?e) \<and> map_cmd (str buf) c' = c"
    using c a(2) by (auto simp: n parsepipe_body_def peek_skip peek_eq skip_ws_idem)
qed

lemma parse_back_print:
  "text_at buf es p (replicate k (byte CHR ''&'')) \<Longrightarrow> nxt buf es (p + k) \<noteq> byte CHR ''&'' \<Longrightarrow> es - p < n \<Longrightarrow>
     parse_back n buf es c p = Done ((BACK ^^ k) c, skip_ws buf es (p + k))"
proof (induction k arbitrary: p n c)
  case 0
  then show ?case by (cases n) (auto simp: peek_eq)
next
  case (Suc k)
  obtain m where n: "n = Suc m" using Suc.prems(3) by (cases n) auto
  have t: "buf ! p = byte CHR ''&''" "text_at buf es (Suc p) (replicate k (byte CHR ''&''))" using Suc.prems(1) by auto
  have p: "Suc p \<le> es" using text_at_le [OF Suc.prems(1)] by simp
  have "buf ! p \<in> set symbols" using t(1) by (simp add: set_symbols)
  then have "gettoken buf es p = (byte CHR ''&'', p, Suc p, skip_ws buf es (Suc p))" "skip_ws buf es p = p" "nxt buf es p = byte CHR ''&''"
    using gettoken_symbol [of p es buf] t(1) p symbol_not_ws skip_ws_self [of p es buf] nxt_self [of p es buf] by auto
  then have "parse_back n buf es c p = parse_back m buf es (BACK c) (Suc p)" by (simp add: n peek_eq parse_back_skip [OF p])
  then show ?case using Suc.IH [OF t(2), of m "BACK c"] Suc.prems(2,3) p n by (simp add: funpow_swap1)
qed

lemma back_okI:
  assumes "line_buf buf es" and "pipe_ok buf es c" and "print_cmd c 1 = print_cmd c 2"
  shows "back_ok buf es c"
  unfolding back_ok_def assms(3)
proof (intro allI impI)
  fix p k n
  let ?e = "p + length (print_cmd c 2)"
  assume a: "text_at buf es p (print_cmd c 2 @ replicate k (byte CHR ''&''))"
    "nxt buf es (?e + k) \<in> exec_stop - {byte CHR ''|'', byte CHR ''&''}" "4 * (es - p) + 3 \<le> n"
  then have t: "text_at buf es p (print_cmd c 2)" "text_at buf es ?e (replicate k (byte CHR ''&''))" by auto
  have le: "?e + k \<le> es" using text_at_le [OF t(2)] by simp
  have "nxt buf es ?e \<in> exec_stop - {byte CHR ''|''}"
  proof (cases k)
    case (Suc j)
    then have "buf ! ?e = byte CHR ''&''" "?e < es" using t(2) le by auto
    then have "nxt buf es ?e = byte CHR ''&''" using nxt_self [of ?e es buf] symbol_not_ws by (simp add: set_symbols)
    then show ?thesis by (simp add: exec_stop_def)
  qed (use a(2) in auto)
  then obtain d where d: "parsepipe n buf es p = Done (d, skip_ws buf es ?e)" "map_cmd (str buf) d = c"
    using assms(2) t(1) a(3) by (auto simp: pipe_ok_def)
  have "parse_back n buf es d (skip_ws buf es ?e) = Done ((BACK ^^ k) d, skip_ws buf es (?e + k))"
    using parse_back_print [OF t(2), of n d] a(2,3) le by (simp add: parse_back_skip)
  moreover have "map_cmd (str buf) ((BACK ^^ k) d) = (BACK ^^ k) c" using d(2) by (induction k) auto
  ultimately show "\<exists>c' d q. parsepipe n buf es p = Done (d, q) \<and> parse_back n buf es d q = Done (c', skip_ws buf es (?e + k))
       \<and> map_cmd (str buf) c' = (BACK ^^ k) c" using d(1) by blast
qed

lemma line_okI:
  assumes "back_ok buf es c" and "print_cmd c 0 = print_cmd c 1"
  shows "line_ok buf es c"
  unfolding line_ok_def assms(2)
proof (intro allI impI)
  fix p n
  let ?e = "p + length (print_cmd c 1)"
  assume a: "text_at buf es p (print_cmd c 1)" "nxt buf es ?e \<in> {0, byte CHR '')''}" "4 * (es - p) + 4 \<le> n"
  then obtain k where n: "n = Suc k" "4 * (es - p) + 3 \<le> k" by (cases n) auto
  obtain c' d q where c: "parsepipe k buf es p = Done (d, q)" "parse_back k buf es d q = Done (c', skip_ws buf es ?e)" "map_cmd (str buf) c' = c"
    using assms(1) [unfolded back_ok_def, rule_format, of p 0 k] a n text_at_le [OF a(1)] by (auto simp: exec_stop_def)
  have "?e \<le> es" using text_at_le [OF a(1)] .
  then show "\<exists>c'. parseline n buf es p = Done (c', skip_ws buf es ?e) \<and> map_cmd (str buf) c' = c"
    using c a(2) by (auto simp: n parseline_body_def peek_skip peek_eq skip_ws_idem)
qed

text \<open>A symbol in its place is found by \<^verbatim>\<open>peek\<close> and read by \<^verbatim>\<open>gettoken\<close>.\<close>

lemma symbol_at:
  assumes "buf ! p = c" and "c \<in> set symbols - {byte CHR ''>''}" and "p < es"
  shows "skip_ws buf es p = p" and "nxt buf es p = c" and "gettoken buf es p = (c, p, Suc p, skip_ws buf es (Suc p))"
proof -
  have "\<not> is_ws (buf ! p)" using assms symbol_not_ws by auto
  then show "skip_ws buf es p = p" "nxt buf es p = c" using assms(1,3) skip_ws_self nxt_self by auto
  show "gettoken buf es p = (c, p, Suc p, skip_ws buf es (Suc p))" using gettoken_symbol [of p es buf] assms by auto
qed

lemma exec_ok_EXEC:
  assumes "line_buf buf es" and "list_all word_ok ws" and "length ws < MAXARGS"
  shows "exec_ok buf es (EXEC ws)"
  unfolding exec_ok_def print_cmd.simps
proof (intro allI impI)
  fix p rs n
  let ?e = "p + length (print_words ws @ print_redirs rs)"
  assume a: "redirs_ok rs" "text_at buf es p (print_words ws @ print_redirs rs)" "nxt buf es ?e \<in> exec_stop" "4 * (es - p) + 2 \<le> n"
  then obtain k where n: "n = Suc k" "es - p < k" by (cases n) auto
  have le: "?e \<le> es" using text_at_le [OF a(2)] .
  then have pe: "p \<le> es" by simp
  show "\<exists>c'. parseexec n buf es p = Done (c', skip_ws buf es ?e) \<and> map_cmd (str buf) c' = wrap (EXEC ws) rs"
  proof (cases ws)
    case Nil
    obtain c' where c: "parseredirs k buf es (EXEC []) p = Done (c', skip_ws buf es ?e)" "map_cmd (str buf) c' = wrap (EXEC []) rs"
      using parseredirs_print [OF assms(1) a(1), of p k "EXEC []"] a(2) exec_stopD [OF a(3)] n(2) Nil by auto
    have "nxt buf es p \<noteq> byte CHR ''(''"
    proof (cases rs)
      case Nil
      then show ?thesis using a(3) \<open>ws = []\<close> by (auto simp: exec_stop_def)
    next
      case (Cons r rs')
      then have "buf ! p = redir_sym (snd (snd r))" "p < es" using a(2) text_at_le [OF a(2)] \<open>ws = []\<close> by auto
      then show ?thesis using nxt_self [of p es buf] symbol_not_ws by (auto simp: redir_sym_def set_symbols)
    qed
    then have "parseexec n buf es p = parse_args k buf es 0 c' (skip_ws buf es ?e)"
      using c(1) by (simp add: n parseexec_body_def peek_eq parseredirs_skip [OF pe])
    also have "\<dots> = Done (c', skip_ws buf es ?e)" unfolding parse_args_skip [OF le] using n(2) by (intro parse_args_stop [OF assms(1) le a(3)]) simp
    finally show ?thesis using c(2) Nil by simp
  next
    case (Cons w ws')
    obtain x v where w: "w = x # v" "is_word x" using assms(2) Cons by (cases w) (auto simp: word_ok_def)
    then have x: "buf ! p = x" "p < es" using a(2) text_at_le [OF a(2)] Cons by (auto simp: print_words_Cons)
    then have nx: "nxt buf es p = x" "skip_ws buf es p = p" using nxt_self skip_ws_self word_not_ws w(2) by auto
    have xs: "x \<notin> {byte CHR ''('', byte CHR ''<'', byte CHR ''>''}" using word_not_symbol [OF w(2)] by (auto simp: set_symbols)
    have "parseredirs k buf es (EXEC []) p = Done (EXEC [], p)" using nx xs n(2) by (cases k) (auto simp: peek_eq)
    then have "parseexec n buf es p = parse_args k buf es (length ([] :: span list)) (EXEC []) p"
      using nx xs by (simp add: n parseexec_body_def peek_eq)
    then show ?thesis using parse_args_print [OF assms(1,2) a(1), of "[]" p k] assms(3) a(2,3) n(2) Cons by simp
  qed
qed

lemma exec_ok_REDIR:
  assumes "exec_ok buf es c" and "word_ok f" and "redir_ok m fd"
  shows "exec_ok buf es (REDIR c f m fd)"
  unfolding exec_ok_def
proof (intro allI impI)
  fix p rs n
  assume a: "redirs_ok rs" "text_at buf es p (print_cmd (REDIR c f m fd) 3 @ print_redirs rs)"
    "nxt buf es (p + length (print_cmd (REDIR c f m fd) 3 @ print_redirs rs)) \<in> exec_stop" "4 * (es - p) + 2 \<le> n"
  have "redirs_ok ((f, m, fd) # rs)" using a(1) assms(2,3) by (simp add: redirs_ok_def)
  moreover have "print_cmd (REDIR c f m fd) 3 @ print_redirs rs = print_cmd c 3 @ print_redirs ((f, m, fd) # rs)" by simp
  ultimately show "\<exists>c'. parseexec n buf es p = Done (c', skip_ws buf es (p + length (print_cmd (REDIR c f m fd) 3 @ print_redirs rs)))
       \<and> map_cmd (str buf) c' = wrap (REDIR c f m fd) rs"
    using assms(1) [unfolded exec_ok_def, rule_format, of "(f, m, fd) # rs" p n] a by simp
qed

text \<open>A command in parentheses.\<close>

lemma exec_ok_par:
  assumes "line_buf buf es" and "line_ok buf es c" and "print_cmd c 3 = par True (print_cmd c 0)"
  shows "exec_ok buf es c"
  unfolding exec_ok_def assms(3)
proof (intro allI impI)
  fix p rs n
  let ?t = "par True (print_cmd c 0) @ print_redirs rs"
  assume a: "redirs_ok rs" "text_at buf es p ?t" "nxt buf es (p + length ?t) \<in> exec_stop" "4 * (es - p) + 2 \<le> n"
  let ?q = "Suc p" and ?e = "Suc p + length (print_cmd c 0)"
  have t: "buf ! p = byte CHR ''(''" "text_at buf es ?q (print_cmd c 0)" "buf ! ?e = byte CHR '')''" "text_at buf es (Suc ?e) (print_redirs rs)"
    using a(2) by (auto simp: par_def)
  have le: "p < es" "?e < es" "Suc ?e \<le> es" "?q \<le> es" using text_at_le [OF a(2)] by (auto simp: par_def)
  obtain m where n: "n = Suc (Suc m)" "4 * (es - ?q) + 4 \<le> m" using a(4) le(1) by (cases n; cases "n - 1") auto
  note l = symbol_at [OF t(1) _ le(1)] symbol_at [OF t(3) _ le(2)]
  have l: "skip_ws buf es p = p" "nxt buf es p = byte CHR ''(''" "gettoken buf es p = (byte CHR ''('', p, ?q, skip_ws buf es ?q)"
    "skip_ws buf es ?e = ?e" "nxt buf es ?e = byte CHR '')''" "gettoken buf es ?e = (byte CHR '')'', ?e, Suc ?e, skip_ws buf es (Suc ?e))"
    using l by (auto simp: set_symbols)
  obtain d where d: "parseline m buf es ?q = Done (d, ?e)" "map_cmd (str buf) d = c"
    using assms(2) [unfolded line_ok_def, rule_format, OF t(2) _ n(2)] l(4,5) by auto
  have len: "p + length ?t = Suc ?e + length (print_redirs rs)" by (simp add: par_def)
  have fuel: "es - Suc ?e < m" using n(2) by linarith
  obtain c' where c: "parseredirs m buf es d (Suc ?e) = Done (c', skip_ws buf es (p + length ?t))" "map_cmd (str buf) c' = wrap c rs"
    using parseredirs_print [OF assms(1) a(1) t(4), of m d] exec_stopD [OF a(3)] fuel d(2) unfolding len by auto
  have "parseexec n buf es p = parseredirs m buf es d (Suc ?e)"
    using l d(1) le(3,4) by (simp add: n parseexec_body_def parseblock_body_def peek_eq parseline_skip parseredirs_skip)
  then show "\<exists>c'. parseexec n buf es p = Done (c', skip_ws buf es (p + length ?t)) \<and> map_cmd (str buf) c' = wrap c rs" using c by simp
qed

lemma pipe_ok_PIPE:
  assumes "line_buf buf es" and "exec_ok buf es a" and "pipe_ok buf es b"
  shows "pipe_ok buf es (PIPE a b)"
  unfolding pipe_ok_def
proof (intro allI impI)
  fix p n
  let ?t = "print_cmd (PIPE a b) 2"
  assume t: "text_at buf es p ?t" "nxt buf es (p + length ?t) \<in> exec_stop - {byte CHR ''|''}" "4 * (es - p) + 3 \<le> n"
  let ?e = "p + length (print_cmd a 3)"
  have e: "?t = print_cmd a 3 @ byte CHR ''|'' # print_cmd b 2" by (simp add: par_def)
  have u: "text_at buf es p (print_cmd a 3)" "buf ! ?e = byte CHR ''|''" "text_at buf es (Suc ?e) (print_cmd b 2)"
    using t(1) unfolding e by auto
  have le: "?e < es" "Suc ?e \<le> es" "?e \<le> es" using text_at_le [OF t(1)] unfolding e by auto
  obtain m where n: "n = Suc m" "4 * (es - p) + 2 \<le> m" using t(3) by (cases n) auto
  have s: "skip_ws buf es ?e = ?e" "nxt buf es ?e = byte CHR ''|''" "gettoken buf es ?e = (byte CHR ''|'', ?e, Suc ?e, skip_ws buf es (Suc ?e))"
    using symbol_at [OF u(2) _ le(1)] by (auto simp: set_symbols)
  obtain a' where a': "parseexec m buf es p = Done (a', ?e)" "map_cmd (str buf) a' = a"
    using assms(2) [unfolded exec_ok_def, rule_format, of "[]" p m] u(1) n(2) s by (auto simp: redirs_ok_def exec_stop_def)
  have len: "p + length ?t = Suc ?e + length (print_cmd b 2)" unfolding e by simp
  have "4 * (es - Suc ?e) + 3 \<le> m" using n(2) le(1) by linarith
  then obtain b' where b': "parsepipe m buf es (Suc ?e) = Done (b', skip_ws buf es (p + length ?t))" "map_cmd (str buf) b' = b"
    using assms(3) [unfolded pipe_ok_def, rule_format, OF u(3)] t(2) unfolding len by blast
  have "parsepipe n buf es p = Done (PIPE a' b', skip_ws buf es (p + length ?t))"
    using a'(1) b'(1) s by (simp add: n parsepipe_body_def peek_eq parsepipe_skip [OF le(2)])
  then show "\<exists>c'. parsepipe n buf es p = Done (c', skip_ws buf es (p + length ?t)) \<and> map_cmd (str buf) c' = PIPE a b"
    using a'(2) b'(2) by simp
qed

lemma back_ok_BACK: "back_ok buf es c \<Longrightarrow> back_ok buf es (BACK c)"
  unfolding back_ok_def
proof (intro allI impI)
  fix p k n
  assume IH: "\<forall>p k n. text_at buf es p (print_cmd c 1 @ replicate k (byte CHR ''&'')) \<longrightarrow>
     nxt buf es (p + length (print_cmd c 1) + k) \<in> exec_stop - {byte CHR ''|'', byte CHR ''&''} \<longrightarrow> 4 * (es - p) + 3 \<le> n \<longrightarrow>
     (\<exists>c' d q. parsepipe n buf es p = Done (d, q) \<and> parse_back n buf es d q = Done (c', skip_ws buf es (p + length (print_cmd c 1) + k))
       \<and> map_cmd (str buf) c' = (BACK ^^ k) c)"
    and t: "text_at buf es p (print_cmd (BACK c) 1 @ replicate k (byte CHR ''&''))"
    "nxt buf es (p + length (print_cmd (BACK c) 1) + k) \<in> exec_stop - {byte CHR ''|'', byte CHR ''&''}" "4 * (es - p) + 3 \<le> n"
  have e: "print_cmd (BACK c) 1 @ replicate k (byte CHR ''&'') = print_cmd c 1 @ replicate (Suc k) (byte CHR ''&'')" by (simp add: par_def)
  have l: "p + length (print_cmd (BACK c) 1) + k = p + length (print_cmd c 1) + Suc k" by (simp add: par_def)
  show "\<exists>c' d q. parsepipe n buf es p = Done (d, q) \<and> parse_back n buf es d q = Done (c', skip_ws buf es (p + length (print_cmd (BACK c) 1) + k))
       \<and> map_cmd (str buf) c' = (BACK ^^ k) (BACK c)"
    using IH [rule_format, OF t(1) [unfolded e] t(2) [unfolded l] t(3)] unfolding l by (simp add: funpow_swap1)
qed

lemma line_ok_LIST:
  assumes "back_ok buf es a" and "line_ok buf es b"
  shows "line_ok buf es (LIST a b)"
  unfolding line_ok_def
proof (intro allI impI)
  fix p n
  let ?t = "print_cmd (LIST a b) 0"
  assume t: "text_at buf es p ?t" "nxt buf es (p + length ?t) \<in> {0, byte CHR '')''}" "4 * (es - p) + 4 \<le> n"
  let ?e = "p + length (print_cmd a 1)"
  have e: "?t = print_cmd a 1 @ byte CHR '';'' # print_cmd b 0" by (simp add: par_def)
  have u: "text_at buf es p (print_cmd a 1)" "buf ! ?e = byte CHR '';''" "text_at buf es (Suc ?e) (print_cmd b 0)"
    using t(1) unfolding e by auto
  have le: "?e < es" "Suc ?e \<le> es" using text_at_le [OF t(1)] unfolding e by auto
  obtain m where n: "n = Suc m" "4 * (es - p) + 3 \<le> m" using t(3) by (cases n) auto
  have s: "skip_ws buf es ?e = ?e" "nxt buf es ?e = byte CHR '';''" "gettoken buf es ?e = (byte CHR '';'', ?e, Suc ?e, skip_ws buf es (Suc ?e))"
    using symbol_at [OF u(2) _ le(1)] by (auto simp: set_symbols)
  obtain a' d q where a': "parsepipe m buf es p = Done (d, q)" "parse_back m buf es d q = Done (a', ?e)" "map_cmd (str buf) a' = a"
    using assms(1) [unfolded back_ok_def, rule_format, of p 0 m] u(1) n(2) s le by (auto simp: exec_stop_def)
  have len: "p + length ?t = Suc ?e + length (print_cmd b 0)" unfolding e by simp
  have "4 * (es - Suc ?e) + 4 \<le> m" using n(2) le(1) by linarith
  then obtain b' where b': "parseline m buf es (Suc ?e) = Done (b', skip_ws buf es (p + length ?t))" "map_cmd (str buf) b' = b"
    using assms(2) [unfolded line_ok_def, rule_format, OF u(3)] t(2) unfolding len by blast
  have "parseline n buf es p = Done (LIST a' b', skip_ws buf es (p + length ?t))"
    using a'(1,2) b'(1) s le(2) by (simp add: n parseline_body_def peek_eq parseline_skip)
  then show "\<exists>c'. parseline n buf es p = Done (c', skip_ws buf es (p + length ?t)) \<and> map_cmd (str buf) c' = LIST a b"
    using a'(3) b'(2) by simp
qed

lemma levels_ok:
  assumes "line_buf buf es" and "cmd_ok word_ok c"
  shows "exec_ok buf es c \<and> pipe_ok buf es c \<and> back_ok buf es c \<and> line_ok buf es c"
  using assms(2)
proof (induction c)
  case (EXEC ws)
  then have "exec_ok buf es (EXEC ws)" using exec_ok_EXEC [OF assms(1)] by simp
  then show ?case using pipe_okI back_okI [OF assms(1)] line_okI by (metis print_cmd.simps(1))
next
  case (REDIR c f m fd)
  then have "exec_ok buf es (REDIR c f m fd)" by (intro exec_ok_REDIR) auto
  then show ?case using pipe_okI back_okI [OF assms(1)] line_okI by (metis print_cmd.simps(2))
next
  case (PIPE a b)
  have p: "pipe_ok buf es (PIPE a b)" using PIPE by (intro pipe_ok_PIPE assms(1)) auto
  then have b: "back_ok buf es (PIPE a b)" by (intro back_okI assms(1)) (auto simp: par_def)
  then have l: "line_ok buf es (PIPE a b)" by (intro line_okI) (auto simp: par_def)
  then show ?case using p b exec_ok_par [OF assms(1) l] by (simp add: par_def)
next
  case (LIST a b)
  have l: "line_ok buf es (LIST a b)" using LIST by (intro line_ok_LIST) auto
  then have e: "exec_ok buf es (LIST a b)" by (intro exec_ok_par assms(1)) (auto simp: par_def)
  then have p: "pipe_ok buf es (LIST a b)" by (intro pipe_okI) (auto simp: par_def)
  then have "back_ok buf es (LIST a b)" by (intro back_okI assms(1)) (auto simp: par_def)
  then show ?case using l e p by simp
next
  case (BACK c)
  have b: "back_ok buf es (BACK c)" using BACK by (intro back_ok_BACK) auto
  then have l: "line_ok buf es (BACK c)" by (intro line_okI) (auto simp: par_def)
  then have e: "exec_ok buf es (BACK c)" by (intro exec_ok_par assms(1)) (auto simp: par_def)
  then have "pipe_ok buf es (BACK c)" by (intro pipe_okI) (auto simp: par_def)
  then show ?case using l e b by simp
qed

section \<open>The round trip\<close>

lemma print_words_nonzero: "list_all word_ok ws \<Longrightarrow> 0 \<notin> set (print_words ws)"
  by (induction ws) (auto simp: print_words_Cons word_ok_def)

lemma print_cmd_nonzero: "cmd_ok word_ok c \<Longrightarrow> 0 \<notin> set (print_cmd c k)"
  by (induction c arbitrary: k) (auto simp: par_def redir_sym_def word_ok_def dest: print_words_nonzero)

lemma parsecmd_inverts_print:
  assumes "cmd_ok word_ok c"
  shows "\<exists>c' buf'. parsecmd (print_cmd c 0 @ [10, 0]) = Done (c', buf') \<and> map_cmd (cstr buf') c' = c"
proof -
  let ?t = "print_cmd c 0"
  let ?buf = "?t @ [10, 0]" and ?es = "Suc (length ?t)"
  have "?t ! i \<noteq> 0" if "i < length ?t" for i using nth_mem [OF that] print_cmd_nonzero [OF assms, of 0] by auto
  then have line: "line_buf ?buf ?es" by (auto simp: line_buf_def nth_append less_Suc_eq)
  have len: "buf_strlen ?buf = ?es" by (rule line_buf_unique [OF line])
  have t: "text_at ?buf ?es 0 ?t" by (simp add: text_at_def nth_append)
  have "is_ws 10" by (simp add: is_ws_alt whitespace_def)
  then have sk: "skip_ws ?buf ?es (length ?t) = ?es"
    by (simp add: skip_ws_def skip_while.simps [of is_ws ?buf ?es "length ?t"] skip_while.simps [of is_ws ?buf ?es ?es])
  then have nx: "nxt ?buf ?es (0 + length ?t) = 0" by (simp add: nxt_def nth_append)
  obtain c' where c: "parseline (4 * ?es + 4) ?buf ?es 0 = Done (c', ?es)" "map_cmd (str ?buf) c' = c"
    using levels_ok [OF line assms, THEN conjunct2, THEN conjunct2, THEN conjunct2, unfolded line_ok_def, rule_format, OF t] nx sk by auto
  have "skip_ws ?buf ?es ?es = ?es" by (simp add: skip_ws_def skip_while.simps [of is_ws ?buf ?es ?es])
  then have p: "parsecmd ?buf = Done (c', nulterminate c' ?buf)" using c(1) by (simp add: parsecmd_def len peek_eq)
  have "parses ?buf ?es 0 (parseline (4 * ?es + 4) ?buf ?es 0)" using parser_returns(1) [OF line, of 0 "4 * ?es + 4"] by simp
  then have ok: "cmd_ok (span_ok ?buf ?es) c'" unfolding c(1) by simp
  have "map_cmd (cstr (nulterminate c' ?buf)) c' = map_cmd (str ?buf) c'"
    using nulterminate_strings [OF line ok] by (intro cmd.map_cong0)
  then show ?thesis using p c(2) by auto
qed

text \<open>
  C16. Parsing is the inverse of printing: every command, printed as a line with as few parentheses as the grammar needs, is parsed back to itself.  After
  \<^verbatim>\<open>nulterminate\<close> the pointers of the parsed command lead to C strings in the line that are exactly the words of the command.
\<close>

theorem parsecmd_print:
  assumes "cmd_ok word_ok c"
  shows "\<exists>c' buf'. parsecmd (print_cmd c 0 @ [10, 0]) = Done (c', buf') \<and> map_cmd (cstr buf') c' = c"
  by (rule parsecmd_inverts_print [OF assms])

theorem parsecmd_print_witness:
  "let c = LIST (BACK (PIPE (EXEC [bytes ''ls'', bytes ''-l'']) (REDIR (EXEC [bytes ''wc'']) (bytes ''x'') (O_WRONLY OR O_CREATE) 1))) (EXEC [bytes ''a''])
   in print_cmd c 0 = bytes ''ls -l |wc >x&;a '' \<and>
      (\<exists>c' buf'. parsecmd (bytes ''ls -l |wc >x&;a '' @ [10, 0]) = Done (c', buf') \<and> map_cmd (cstr buf') c' = c)"
proof -
  define c where "c = LIST (BACK (PIPE (EXEC [bytes ''ls'', bytes ''-l'']) (REDIR (EXEC [bytes ''wc'']) (bytes ''x'') (O_WRONLY OR O_CREATE) 1))) (EXEC [bytes ''a''])"
  have "cmd_ok word_ok c"
    by (simp add: c_def word_ok_def is_word_alt whitespace_def symbols_def MAXARGS_def redir_ok_def)
  moreover have t: "print_cmd c 0 = bytes ''ls -l |wc >x&;a ''"
    by (simp add: c_def par_def print_words_def redir_sym_def)
  ultimately show ?thesis using parsecmd_print [of c] unfolding c_def [symmetric] Let_def by (simp only: t simp_thms)
qed

end
