(* ===== verification/ShellRun.thy ===== *)
theory ShellRun
  imports ShellPrint
begin

text \<open>
  What the shell does with a command: \<^verbatim>\<open>runcmd\<close>, \<^verbatim>\<open>getcmd\<close> and \<^verbatim>\<open>main\<close> of \<^verbatim>\<open>src/xv6/sh.c\<close>, as the system calls they make.  The answers of the kernel are not
  known to the shell, so a program is a tree: each system call with what follows every answer.
\<close>

section \<open>Programs\<close>

datatype prog =
    Sexit
  | Sexec "uchar list list" prog
  | Sopen "uchar list" uint "int \<Rightarrow> prog"
  | Sclose int prog
  | Sdup int prog
  | Spipe "(int \<times> int) option \<Rightarrow> prog"
  | Sfork prog prog prog
  | Swait prog
  | Schdir "uchar list" "bool \<Rightarrow> prog"
  | Sprint int "uchar list" prog

text \<open>
  \<open>Sexec\<close> goes on only if \<^verbatim>\<open>exec\<close> fails; \<open>Sfork\<close> has the child, the parent and the case that \<^verbatim>\<open>fork\<close> fails; the argument of \<open>Schdir\<close>'s continuation is whether it
  succeeded.
\<close>

definition sh_panic :: "string \<Rightarrow> prog" where
  "sh_panic s = Sprint 2 (bytes s @ [10]) Sexit"

definition fork1 :: "prog \<Rightarrow> prog \<Rightarrow> prog" where
  "fork1 child parent = Sfork child parent (sh_panic ''fork'')"

definition run_left :: "int \<Rightarrow> int \<Rightarrow> prog \<Rightarrow> prog" where
  "run_left p0 p1 k = Sclose 1 (Sdup p1 (Sclose p0 (Sclose p1 k)))"

definition run_right :: "int \<Rightarrow> int \<Rightarrow> prog \<Rightarrow> prog" where
  "run_right p0 p1 k = Sclose 0 (Sdup p0 (Sclose p0 (Sclose p1 k)))"

primrec runcmd :: "uchar list cmd \<Rightarrow> prog" where
  "runcmd (EXEC argv) =
     (case argv of [] \<Rightarrow> Sexit
      | f # _ \<Rightarrow> Sexec argv (Sprint 2 (bytes ''exec '' @ f @ bytes '' failed'' @ [10]) Sexit))"
| "runcmd (REDIR c f mode fd) =
     Sclose fd (Sopen f mode (\<lambda>r.
       if r < 0 then Sprint 2 (bytes ''open '' @ f @ bytes '' failed'' @ [10]) Sexit else runcmd c))"
| "runcmd (LIST a b) = fork1 (runcmd a) (Swait (runcmd b))"
| "runcmd (PIPE a b) =
     Spipe (\<lambda>p. case p of None \<Rightarrow> sh_panic ''pipe''
       | Some (p0, p1) \<Rightarrow>
           fork1 (run_left p0 p1 (runcmd a))
             (fork1 (run_right p0 p1 (runcmd b))
               (Sclose p0 (Sclose p1 (Swait (Swait Sexit))))))"
| "runcmd (BACK c) = fork1 (runcmd c) Sexit"

section \<open>The main loop\<close>

text \<open>\<^verbatim>\<open>gets\<close> of \<^verbatim>\<open>ulib.c\<close>, reading from a given input: the bytes it stores before the NUL, and the input that is left.\<close>

fun gets :: "nat \<Rightarrow> uchar list \<Rightarrow> uchar list \<times> uchar list" where
  "gets (Suc (Suc m)) (c # inp) =
     (if c = 10 \<or> c = 13 then ([c], inp) else (case gets (Suc m) inp of (s, rest) \<Rightarrow> (c # s, rest)))"
| "gets m inp = ([], inp)"

definition nbuf :: nat where
  "nbuf = 100"

text \<open>\<open>getcmd\<close> gives the buffer, which was cleared before, and the rest of the input, or \<open>None\<close> at the end of the input.\<close>

definition getcmd :: "uchar list \<Rightarrow> (uchar list \<times> uchar list) option" where
  "getcmd inp =
     (case gets nbuf inp of (s, rest) \<Rightarrow>
        let buf = s @ replicate (nbuf - length s) 0
        in if buf ! 0 = 0 then None else Some (buf, rest))"

lemma gets_length: "gets m inp = (s, rest) \<Longrightarrow> length s + length rest = length inp \<and> (0 < m \<longrightarrow> length s < m)"
  by (induction m inp arbitrary: s rule: gets.induct) (auto split: if_splits prod.splits)

lemma getcmd_shorter:
  assumes "getcmd inp = Some (buf, rest)"
  shows "length rest < length inp" and "0 \<in> set buf" and "length buf = nbuf"
proof -
  obtain s r where g: "gets nbuf inp = (s, r)" by fastforce
  note l = gets_length [OF g]
  have e: "rest = r" "buf = s @ replicate (nbuf - length s) 0" "buf ! 0 \<noteq> 0"
    using assms g by (auto simp: getcmd_def Let_def split: if_splits)
  have "length s < nbuf" using l by (simp add: nbuf_def)
  moreover have "length s \<noteq> 0" using e by (auto simp: nbuf_def)
  ultimately have "length r < length inp" using l by linarith
  then show "length rest < length inp" "0 \<in> set buf" "length buf = nbuf" using \<open>length s < nbuf\<close> e by auto
qed

text \<open>The child runs the parsed line; a panic of the parser ends the child.\<close>

definition run_line :: "uchar list \<Rightarrow> prog" where
  "run_line buf =
     (case parsecmd buf of
        Done (c, buf) \<Rightarrow> runcmd (map_cmd (cstr buf) c)
      | Panic s \<Rightarrow> sh_panic s
      | Block \<Rightarrow> Sexit)"

text \<open>\<^verbatim>\<open>cd\<close> is done by the shell itself: the path is what follows, without the last byte of the line.\<close>

definition cd_path :: "uchar list \<Rightarrow> uchar list" where
  "cd_path buf = cstr (buf[buf_strlen buf - 1 := 0]) (3, 0)"

function main_loop :: "uchar list \<Rightarrow> prog" where
  "main_loop inp = Sprint 2 (bytes ''$ '')
     (case getcmd inp of None \<Rightarrow> Sexit
      | Some (buf, rest) \<Rightarrow>
          if take 3 buf = bytes ''cd '' then
            Schdir (cd_path buf) (\<lambda>ok.
              if ok then main_loop rest
              else Sprint 2 (bytes ''cannot cd '' @ cd_path buf @ [10]) (main_loop rest))
          else fork1 (run_line buf) (Swait (main_loop rest)))"
  by auto
termination by (relation "measure length") (auto dest: getcmd_shorter)

declare main_loop.simps [simp del]

text \<open>
  Before the loop the shell opens the console until descriptors 0 to 2 are open.  The fuel bounds the number of calls; with the lowest free descriptor as the
  answer of \<^verbatim>\<open>open\<close>, four are enough.
\<close>

fun open_console :: "nat \<Rightarrow> prog \<Rightarrow> prog" where
  "open_console 0 k = k"
| "open_console (Suc n) k =
     Sopen (bytes ''console'') O_RDWR (\<lambda>fd.
       if 0 \<le> fd then (if 3 \<le> fd then Sclose fd k else open_console n k) else k)"

definition sh_main :: "uchar list \<Rightarrow> prog" where
  "sh_main inp = open_console 4 (main_loop inp)"

section \<open>Running a program\<close>

text \<open>
  The meaning of the system calls for descriptors, as the kernel implements them: a descriptor table maps descriptors below \<^verbatim>\<open>NOFILE\<close> to open files, \<^verbatim>\<open>open\<close>,
  \<^verbatim>\<open>dup\<close> and \<^verbatim>\<open>pipe\<close> use the lowest free ones, a child starts with a copy of the table, and \<^verbatim>\<open>fork\<close> and \<^verbatim>\<open>exec\<close> succeed.  Which files can be opened is a
  parameter.  The result is the list of the programs that are executed, each with its descriptor table, and the number of pipes made.
\<close>

datatype fobj = Console | Named "uchar list" uint | Pipe_read nat | Pipe_write nat

type_synonym fdtab = "int \<Rightarrow> fobj option"

definition lowest_fd :: "fdtab \<Rightarrow> int option" where
  "lowest_fd t = map_option int (find (\<lambda>i. t (int i) = None) [0..<NOFILE])"

definition pipe_fds :: "fdtab \<Rightarrow> nat \<Rightarrow> ((int \<times> int) \<times> fdtab) option" where
  "pipe_fds t n =
     (case lowest_fd t of None \<Rightarrow> None
      | Some a \<Rightarrow> let t1 = t(a := Some (Pipe_read n))
                 in case lowest_fd t1 of None \<Rightarrow> None
                    | Some b \<Rightarrow> Some ((a, b), t1(b := Some (Pipe_write n))))"

type_synonym launch = "uchar list list \<times> fdtab"

primrec run :: "(uchar list \<Rightarrow> uint \<Rightarrow> bool) \<Rightarrow> prog \<Rightarrow> fdtab \<Rightarrow> nat \<Rightarrow> launch list \<times> nat" where
  "run opens Sexit t n = ([], n)"
| "run opens (Sexec argv k) t n = ([(argv, t)], n)"
| "run opens (Sopen f m k) t n =
     (case lowest_fd t of Some fd \<Rightarrow> if opens f m then run opens (k fd) (t(fd := Some (Named f m))) n else run opens (k (- 1)) t n
      | None \<Rightarrow> run opens (k (- 1)) t n)"
| "run opens (Sclose fd k) t n = run opens k (t(fd := None)) n"
| "run opens (Sdup fd k) t n =
     (case (t fd, lowest_fd t) of (Some f, Some g) \<Rightarrow> run opens k (t(g := Some f)) n | _ \<Rightarrow> run opens k t n)"
| "run opens (Spipe k) t n =
     (case pipe_fds t n of None \<Rightarrow> run opens (k None) t n
      | Some (p, t') \<Rightarrow> run opens (k (Some p)) t' (Suc n))"
| "run opens (Sfork c p f) t n =
     (case run opens c t n of (l1, n) \<Rightarrow> case run opens p t n of (l2, n) \<Rightarrow> (l1 @ l2, n))"
| "run opens (Swait k) t n = run opens k t n"
| "run opens (Schdir d k) t n = run opens (k True) t n"
| "run opens (Sprint fd s k) t n = run opens k t n"

text \<open>
  What a command means: a redirection replaces one descriptor, a pipeline connects descriptor 1 of its left side to descriptor 0 of its right side by a new pipe
  and nothing else refers to that pipe.
\<close>

primrec meaning :: "(uchar list \<Rightarrow> uint \<Rightarrow> bool) \<Rightarrow> uchar list cmd \<Rightarrow> fdtab \<Rightarrow> nat \<Rightarrow> launch list \<times> nat" where
  "meaning opens (EXEC argv) t n = (if argv = [] then [] else [(argv, t)], n)"
| "meaning opens (REDIR c f m fd) t n = (if opens f m then meaning opens c (t(fd := Some (Named f m))) n else ([], n))"
| "meaning opens (PIPE a b) t n =
     (case meaning opens a (t(1 := Some (Pipe_write n))) (Suc n) of (l1, n1) \<Rightarrow>
      case meaning opens b (t(0 := Some (Pipe_read n))) n1 of (l2, n2) \<Rightarrow> (l1 @ l2, n2))"
| "meaning opens (LIST a b) t n =
     (case meaning opens a t n of (l1, n) \<Rightarrow> case meaning opens b t n of (l2, n) \<Rightarrow> (l1 @ l2, n))"
| "meaning opens (BACK c) t n = meaning opens c t n"

definition std_fds :: "fdtab \<Rightarrow> bool" where
  "std_fds t \<longleftrightarrow> t 0 \<noteq> None \<and> t 1 \<noteq> None \<and> t 2 \<noteq> None \<and>
     (\<exists>a b. a \<noteq> b \<and> 0 \<le> a \<and> a < int NOFILE \<and> 0 \<le> b \<and> b < int NOFILE \<and> t a = None \<and> t b = None)"

lemma lowest_fd_spec:
  assumes "0 \<le> a" and "a < int NOFILE" and "t a = None"
  shows "\<exists>fd. lowest_fd t = Some fd \<and> 0 \<le> fd \<and> fd \<le> a \<and> t fd = None \<and> (\<forall>i. 0 \<le> i \<and> i < fd \<longrightarrow> t i \<noteq> None)"
proof -
  have a: "nat a < NOFILE" "t (int (nat a)) = None" using assms by auto
  obtain i where i: "find (\<lambda>i. t (int i) = None) [0..<NOFILE] = Some i"
    using a by (cases "find (\<lambda>i. t (int i) = None) [0..<NOFILE]") (auto simp: find_None_iff)
  then have f: "t (int i) = None" "i < NOFILE" "\<And>j. j < i \<Longrightarrow> t (int j) \<noteq> None" by (auto simp: find_Some_iff)
  have "i \<le> nat a" using f(3) [of "nat a"] a(2) by (metis not_less)
  moreover have "t j \<noteq> None" if "0 \<le> j" "j < int i" for j using f(3) [of "nat j"] that by auto
  ultimately show ?thesis using i f assms(1) by (intro exI [of _ "int i"]) (auto simp: lowest_fd_def)
qed

lemma lowest_fd_eq:
  assumes "0 \<le> a" and "a < int NOFILE" and "t a = None" and "\<And>i. 0 \<le> i \<Longrightarrow> i < a \<Longrightarrow> t i \<noteq> None"
  shows "lowest_fd t = Some a"
  using lowest_fd_spec [where t = t, OF assms(1-3)] assms(4) by (metis order_le_less)

lemma lowest_fd_0: "t 0 = None \<Longrightarrow> lowest_fd t = Some 0"
  by (rule lowest_fd_eq) (auto simp: NOFILE_def)

lemma lowest_fd_1: "t 1 = None \<Longrightarrow> t 0 \<noteq> None \<Longrightarrow> lowest_fd t = Some 1"
proof (rule lowest_fd_eq)
  fix i :: int assume "0 \<le> i" "i < 1" "t 0 \<noteq> None"
  moreover from this have "i = 0" by simp
  ultimately show "t i \<noteq> None" by simp
qed (auto simp: NOFILE_def)

lemma pipe_fds_spec:
  assumes "std_fds t"
  obtains a b where "pipe_fds t n = Some ((a, b), t(a := Some (Pipe_read n), b := Some (Pipe_write n)))"
    and "t a = None" and "t b = None" and "a \<noteq> b" and "a \<noteq> 0" and "a \<noteq> 1" and "b \<noteq> 0" and "b \<noteq> 1"
proof -
  obtain c d where cd: "c \<noteq> d" "0 \<le> c" "c < int NOFILE" "0 \<le> d" "d < int NOFILE" "t c = None" "t d = None"
    using assms by (auto simp: std_fds_def)
  obtain a where a: "lowest_fd t = Some a" "0 \<le> a" "t a = None" "a \<le> c" "a \<le> d"
    using lowest_fd_spec [where t = t, OF cd(2,3,6)] lowest_fd_spec [where t = t, OF cd(4,5,7)] by auto
  let ?t = "t(a := Some (Pipe_read n))"
  define e where "e = (if c = a then d else c)"
  have e: "0 \<le> e" "e < int NOFILE" "?t e = None" using cd a by (auto simp: e_def)
  obtain b where b: "lowest_fd ?t = Some b" "?t b = None" using lowest_fd_spec [where t = ?t, OF e] by auto
  have ab: "a \<noteq> b" "t b = None" using b(2) by (auto split: if_splits)
  show ?thesis
    by (rule that [of a b]) (use a b ab assms in \<open>auto simp: pipe_fds_def Let_def std_fds_def\<close>)
qed

lemma std_fds_upd: "std_fds t \<Longrightarrow> t fd \<noteq> None \<Longrightarrow> std_fds (t(fd := Some f))"
proof -
  assume a: "std_fds t" "t fd \<noteq> None"
  then obtain c d where "c \<noteq> d" "0 \<le> c" "c < int NOFILE" "0 \<le> d" "d < int NOFILE" "t c = None" "t d = None" by (auto simp: std_fds_def)
  moreover from this have "c \<noteq> fd" "d \<noteq> fd" using a(2) by auto
  ultimately have "\<exists>c d. c \<noteq> d \<and> 0 \<le> c \<and> c < int NOFILE \<and> 0 \<le> d \<and> d < int NOFILE \<and> (t(fd := Some f)) c = None \<and> (t(fd := Some f)) d = None"
    by (intro exI [of _ c] exI [of _ d]) simp
  then show ?thesis using a(1) unfolding std_fds_def by simp
qed

lemma lowest_std:
  assumes "std_fds t" and "fd = 0 \<or> fd = 1"
  shows "lowest_fd (t(fd := None)) = Some fd"
  using assms lowest_fd_0 lowest_fd_1 by (auto simp: std_fds_def)

lemma run_left:
  assumes "std_fds t" and "t a = None" and "t b = None" and "a \<noteq> b" and "a \<noteq> 0" and "a \<noteq> 1" and "b \<noteq> 0" and "b \<noteq> 1"
  shows "run opens (run_left a b k) (t(a := Some (Pipe_read n), b := Some (Pipe_write n))) m = run opens k (t(1 := Some (Pipe_write n))) m"
proof -
  let ?t = "t(a := Some (Pipe_read n), b := Some (Pipe_write n))"
  have "lowest_fd (?t(1 := None)) = Some 1" using assms by (intro lowest_fd_1) (auto simp: std_fds_def)
  moreover have "?t(1 := None, 1 := Some (Pipe_write n), a := None, b := None) = t(1 := Some (Pipe_write n))"
    using assms by (auto simp: fun_eq_iff)
  ultimately show ?thesis using assms by (simp add: run_left_def)
qed

lemma run_right:
  assumes "std_fds t" and "t a = None" and "t b = None" and "a \<noteq> b" and "a \<noteq> 0" and "a \<noteq> 1" and "b \<noteq> 0" and "b \<noteq> 1"
  shows "run opens (run_right a b k) (t(a := Some (Pipe_read n), b := Some (Pipe_write n))) m = run opens k (t(0 := Some (Pipe_read n))) m"
proof -
  let ?t = "t(a := Some (Pipe_read n), b := Some (Pipe_write n))"
  have "lowest_fd (?t(0 := None)) = Some 0" using assms by (intro lowest_fd_0) auto
  moreover have "?t(0 := None, 0 := Some (Pipe_read n), a := None, b := None) = t(0 := Some (Pipe_read n))"
    using assms by (auto simp: fun_eq_iff)
  ultimately show ?thesis using assms by (simp add: run_right_def)
qed

lemma runcmd_meaning:
  "cmd_ok word_ok c \<Longrightarrow> std_fds t \<Longrightarrow> run opens (runcmd c) t n = meaning opens c t n"
proof (induction c arbitrary: t n)
  case (EXEC ws)
  then show ?case by (auto split: list.split)
next
  case (REDIR c f m fd)
  have fd: "fd = 0 \<or> fd = 1" using REDIR.prems(1) by (auto simp: redir_ok_def)
  then have "t fd \<noteq> None" using REDIR.prems(2) by (auto simp: std_fds_def)
  then have "std_fds (t(fd := Some (Named f m)))" using REDIR.prems(2) by (intro std_fds_upd)
  then show ?case using REDIR lowest_std [OF REDIR.prems(2) fd] fd by auto
next
  case (PIPE a b)
  obtain p q where p: "pipe_fds t n = Some ((p, q), t(p := Some (Pipe_read n), q := Some (Pipe_write n)))"
    and d: "t p = None" "t q = None" "p \<noteq> q" "p \<noteq> 0" "p \<noteq> 1" "q \<noteq> 0" "q \<noteq> 1"
    by (rule pipe_fds_spec [OF PIPE.prems(2)])
  have "std_fds (t(1 := Some (Pipe_write n)))" "std_fds (t(0 := Some (Pipe_read n)))"
    using std_fds_upd [OF PIPE.prems(2)] PIPE.prems(2) [unfolded std_fds_def] by blast+
  then show ?case
    using PIPE p by (simp add: fork1_def run_left [OF PIPE.prems(2) d] run_right [OF PIPE.prems(2) d] split: prod.split)
qed (auto simp: fork1_def split: prod.split)

text \<open>
  C17. The shell runs a line as the command it is the text of: the child that parses and runs the line executes the programs of the command, in order, each with
  the descriptors the command gives it.  In particular the two sides of a pipeline hold one end of its pipe each, as descriptor 1 and descriptor 0, and no other
  process it starts holds either end.
\<close>

theorem run_line_meaning:
  assumes "cmd_ok word_ok c" and "std_fds t"
  shows "run opens (run_line (print_cmd c 0 @ [10, 0])) t n = meaning opens c t n"
proof -
  obtain c' buf' where "parsecmd (print_cmd c 0 @ [10, 0]) = Done (c', buf')" "map_cmd (cstr buf') c' = c"
    using parsecmd_inverts_print [OF assms(1)] by blast
  then show ?thesis using runcmd_meaning [OF assms] by (simp add: run_line_def)
qed

theorem run_line_meaning_witness:
  "run (\<lambda>_ _. True) (run_line (print_cmd (PIPE (EXEC [bytes ''ls'']) (EXEC [bytes ''wc''])) 0 @ [10, 0])) (\<lambda>fd. if fd \<in> {0, 1, 2} then Some Console else None) 7 =
     ([([bytes ''ls''], (\<lambda>fd. if fd \<in> {0, 1, 2} then Some Console else None)(1 := Some (Pipe_write 7))),
       ([bytes ''wc''], (\<lambda>fd. if fd \<in> {0, 1, 2} then Some Console else None)(0 := Some (Pipe_read 7)))], 8)"
proof -
  have "cmd_ok word_ok (PIPE (EXEC [bytes ''ls'']) (EXEC [bytes ''wc'']))"
    by (simp add: word_ok_def is_word_alt whitespace_def symbols_def MAXARGS_def)
  moreover have "std_fds (\<lambda>fd. if fd \<in> {0, 1, 2} then Some Console else None)"
    unfolding std_fds_def by (intro conjI exI [of _ 3] exI [of _ 4]) (simp_all add: NOFILE_def)
  ultimately show ?thesis by (simp only: run_line_meaning) simp
qed

end
