(* ===== verification/FSBlocks.thy ===== *)
theory FSBlocks
  imports FS
begin

text \<open>
  The file system's use of the log, and its block allocator.  Inside a transaction the file system sees the disk as a function from block numbers to blocks, the
  view of the buffer cache; reading a block leaves it as it is, and an update of a block changes it at one place and takes at most one slot of the log.  The
  theorems are about \<^verbatim>\<open>balloc\<close> and \<^verbatim>\<open>bfree\<close>.
\<close>

section \<open>Steps of a transaction\<close>

abbreviation fs_view :: "'a fstate_scheme \<Rightarrow> uint \<Rightarrow> block" where
  "fs_view s \<equiv> view s 1"

definition in_txn :: "'a fstate_scheme \<Rightarrow> bool" where
  "in_txn s \<longleftrightarrow> log_inv s \<and> 0 < outstanding s"

text \<open>\<open>room k s\<close>: \<open>k\<close> more blocks can be logged, without running out of buffers either.\<close>

definition room :: "nat \<Rightarrow> 'a fstate_scheme \<Rightarrow> bool" where
  "room k s \<longleftrightarrow> card (heldB s) + nat (lh_n s) + k \<le> NBUF \<and> lh_n s + int k \<le> l_size s - 1"

text \<open>\<open>txn_to s V k t\<close>: a run from \<open>s\<close> to \<open>t\<close> that holds the same buffers as before, has logged at most \<open>k\<close> more blocks, and makes the view \<open>V\<close>.\<close>

definition txn_to :: "'a fstate_scheme \<Rightarrow> (uint \<Rightarrow> block) \<Rightarrow> nat \<Rightarrow> 'a fstate_scheme \<Rightarrow> bool" where
  "txn_to s V k t \<longleftrightarrow> in_txn t \<and> fs_view t = V \<and> heldB t = heldB s \<and> lh_n t \<le> lh_n s + int k
     \<and> l_start t = l_start s \<and> l_size t = l_size s \<and> disksize t = disksize s \<and> curpid t = curpid s
     \<and> lstate.more t = lstate.more s \<and> (\<forall>j c. holds s j c \<longrightarrow> holds t j c)"

lemma txn_to_sb:
  assumes "txn_to s V k t"
  shows "sb t = sb s" and "icache t = icache s" and "fstate.more t = fstate.more s"
  using assms by (cases s; cases t; auto simp: txn_to_def)+

lemma txn_to_view: "txn_to s V k t \<Longrightarrow> fs_view t = V \<and> in_txn t"
  by (simp add: txn_to_def)

lemma txn_to_refl: "in_txn s \<Longrightarrow> txn_to s (fs_view s) 0 s"
  by (simp add: txn_to_def)

lemma txn_to_trans: "txn_to s V j t \<Longrightarrow> txn_to t W k u \<Longrightarrow> txn_to s W (j + k) u"
  by (auto simp: txn_to_def)

lemma txn_to_weaken: "txn_to s V j t \<Longrightarrow> j \<le> k \<Longrightarrow> txn_to s V k t"
  by (auto simp: txn_to_def)

lemma room_txn_to: "txn_to s V j t \<Longrightarrow> room (j + k) s \<Longrightarrow> room k t"
  by (auto simp: txn_to_def room_def)

lemma room_weaken: "room k s \<Longrightarrow> j \<le> k \<Longrightarrow> room j s"
  by (auto simp: room_def)

definition logged_ok :: "'a fstate_scheme \<Rightarrow> uint \<Rightarrow> bool" where
  "logged_ok s b \<longleftrightarrow> unat b < disksize s \<and> \<not> in_log (l_start s) (l_size s) b \<and> b \<noteq> 1"

lemma logged_ok_txn_to: "txn_to s V k t \<Longrightarrow> logged_ok t b \<longleftrightarrow> logged_ok s b"
  by (simp add: txn_to_def logged_ok_def)

lemma view_BSIZE: "in_txn s \<Longrightarrow> length (fs_view s b) = BSIZE"
  using view_length [of s b] by (simp add: in_txn_def log_inv_def)

lemma update_step:
  assumes "in_txn s" and "room (Suc k) s" and "logged_ok s b" and "b \<notin> heldB s"
    and "\<And>d. length d = BSIZE \<Longrightarrow> length (f d) = BSIZE"
  obtains t where "log_update b f s = Done t" and "txn_to s ((fs_view s)(b := f (fs_view s b))) 1 t"
proof -
  have a: "log_inv s" "unat b < disksize s" "\<not> in_log (l_start s) (l_size s) b" "b \<noteq> 1" "card (heldB s) + nat (lh_n s) < NBUF"
    "lh_n s < l_size s - 1" "0 < outstanding s"
    using assms(1-3) by (auto simp: in_txn_def room_def logged_ok_def)
  show thesis
    by (rule log_update_spec [OF a(1,2) assms(4) a(3,4) assms(5) a(5-7)], assumption, rule that, assumption)
      (use a in \<open>auto simp: txn_to_def in_txn_def\<close>)
qed

text \<open>Reading a block: the buffer that \<^verbatim>\<open>bread\<close> returns holds the block's contents, and releasing it gives the state back.\<close>

lemma read_step:
  assumes "in_txn s" and "room (Suc k) s" and "unat b < disksize s" and "b \<notin> heldB s"
  obtains i s1 t where "bread 1 b s = Done (i, s1)" and "b_data (bufs s1 ! i) = fs_view s b" and "brelse i s1 = Done t"
    and "txn_to s (fs_view s) 0 t" and "in_txn s1" and "holds s1 i b" and "fs_view s1 = fs_view s"
    and "heldB s1 = insert b (heldB s)" and "bio_frame s s1" and "dirtyB s1 = dirtyB s" and "disk s1 1 = disk s 1"
    and "\<And>j c. holds s j c \<Longrightarrow> holds s1 j c"
proof -
  have inv: "log_inv s" "0 < outstanding s" using assms(1) by (auto simp: in_txn_def)
  have cap: "card (heldB s) + nat (lh_n s) < NBUF" using assms(2) by (simp add: room_def)
  obtain i s1 where 1: "bread 1 b s = Done (i, s1)" "log_inv s1" "holds s1 i b" "view s1 1 = view s 1"
    "disk s1 1 = disk s 1" "bio_frame s s1" "heldB s1 = insert b (heldB s)"
    "dirtyB s1 = dirtyB s" "\<And>j c. holds s j c \<Longrightarrow> holds s1 j c"
    using bread_log [OF inv(1) assms(3,4) disjI2 [OF cap]] by metis
  note f1 = bio_frame_log [OF 1(6)]
  have bi: "bio_inv s" "bio_inv s1" using inv(1) 1(2) by (auto simp: log_inv_def)
  have clean: "b \<in> dirtyB s1 \<or> view s1 1 b = disk s1 1 b"
    using view_clean [OF bi(1) assms(4)] 1(4,5,8) by auto
  obtain t where t: "brelse i s1 = Done t" "log_inv t" "view t 1 = view s1 1" "heldB t = heldB s1 - {b}"
    "\<And>j c. holds s1 j c \<Longrightarrow> c \<noteq> b \<Longrightarrow> holds t j c" "bio_frame s1 t"
    using brelse_log [OF 1(2,3) clean] by metis
  note f2 = bio_frame_log [OF t(6)]
  have hb: "c \<noteq> b" if "holds s j c" for j c using holds_heldB [OF that] assms(4) by auto
  have "txn_to s (fs_view s) 0 t"
    using t 1 f1 f2 inv(2) assms(4) hb by (auto simp: txn_to_def in_txn_def)
  then show thesis using 1 t view_holds [OF bi(2) 1(3)] f1(3) inv(2)
    by (intro that [of i s1 t]) (auto simp: in_txn_def)
qed

lemma log_update_bread:
  "bread 1 b s = Done (i, s1) \<Longrightarrow> log_update b f s = obind (log_write i (set_data i (f (b_data (bufs s1 ! i))) s1)) (brelse i)"
  by (simp add: log_update_def)

section \<open>The bitmap\<close>

lemma bm_test_bit: "bm_test d bi \<longleftrightarrow> bit (d ! (bi div 8)) (bi mod 8)"
proof -
  have "d ! (bi div 8) AND push_bit (bi mod 8) 1 = (if bit (d ! (bi div 8)) (bi mod 8) then push_bit (bi mod 8) 1 else 0)"
    by (rule bit_word_eqI) (auto simp: bit_simps)
  moreover have "push_bit (bi mod 8) (1 :: uchar) \<noteq> 0"
  proof
    assume "push_bit (bi mod 8) (1 :: uchar) = 0"
    moreover have "bit (push_bit (bi mod 8) (1 :: uchar)) (bi mod 8)" by (simp add: bit_simps)
    ultimately show False by simp
  qed
  ultimately show ?thesis by (simp add: bm_test_def)
qed

lemma mod_div_8: "(i :: nat) div 8 = j div 8 \<Longrightarrow> i mod 8 = j mod 8 \<Longrightarrow> i = j"
  by (metis div_mult_mod_eq)

lemma bit_push_1: "n < 8 \<Longrightarrow> m < 8 \<Longrightarrow> bit (push_bit n (1 :: uchar)) m \<longleftrightarrow> m = n"
  by (auto simp: bit_simps)

lemma bit_update:
  fixes d :: block
  assumes "a < length d" and "n < 8" and "m < 8"
  shows "bit (d[a := d ! a OR push_bit n 1] ! c) m \<longleftrightarrow> a = c \<and> n = m \<or> bit (d ! c) m"
    and "bit (d[a := d ! a AND NOT (push_bit n 1)] ! c) m \<longleftrightarrow> \<not> (a = c \<and> n = m) \<and> bit (d ! c) m"
  using bit_push_1 [OF assms(2,3)] assms(1,3) by (cases "a = c"; simp add: bit_or_iff bit_and_iff bit_not_iff; blast)+

lemma bm_index: "bi div 8 = bj div 8 \<and> bi mod 8 = bj mod 8 \<longleftrightarrow> bi = (bj :: nat)"
  using mod_div_8 by blast

lemma bm_test_set:
  assumes "bi div 8 < length d"
  shows "bm_test (bm_set d bi) bj \<longleftrightarrow> bi = bj \<or> bm_test d bj"
proof -
  have "bi mod 8 < 8" "bj mod 8 < 8" by simp_all
  from bit_update(1) [OF assms this, of "bj div 8"] show ?thesis unfolding bm_test_bit bm_set_def bm_index .
qed

lemma bm_test_clear:
  assumes "bi div 8 < length d"
  shows "bm_test (bm_clear d bi) bj \<longleftrightarrow> bi \<noteq> bj \<and> bm_test d bj"
proof -
  have "bi mod 8 < 8" "bj mod 8 < 8" by simp_all
  from bit_update(2) [OF assms this, of "bj div 8"] show ?thesis unfolding bm_test_bit bm_clear_def bm_index .
qed

lemma length_bm [simp]: "length (bm_set d bi) = length d" "length (bm_clear d bi) = length d"
  by (simp_all add: bm_set_def bm_clear_def)

text \<open>
  The layout that \<^verbatim>\<open>mkfs\<close> gives the disk: the log before the inodes, the inodes before the bitmap, the bitmap before the data.
\<close>

definition data_start :: "superblock \<Rightarrow> nat" where
  "data_start g = unat (sb_bmapstart g) + unat (sb_size g) div BPB + 1"

definition layout :: "'a fstate_scheme \<Rightarrow> bool" where
  "layout s \<longleftrightarrow> (\<forall>b. in_log (l_start s) (l_size s) b \<longrightarrow> unat b < unat (sb_inodestart (sb s))) \<and> 1 < unat (sb_inodestart (sb s))
     \<and> unat (sb_inodestart (sb s)) + unat (sb_ninodes (sb s)) div IPB + 1 \<le> unat (sb_bmapstart (sb s))
     \<and> data_start (sb s) \<le> unat (sb_size (sb s)) \<and> unat (sb_size (sb s)) \<le> disksize s"

definition is_bitmap :: "superblock \<Rightarrow> uint \<Rightarrow> bool" where
  "is_bitmap g b \<longleftrightarrow> unat (sb_bmapstart g) \<le> unat b \<and> unat b < data_start g"

definition is_data :: "superblock \<Rightarrow> uint \<Rightarrow> bool" where
  "is_data g b \<longleftrightarrow> data_start g \<le> unat b \<and> unat b < unat (sb_size g)"

definition used :: "superblock \<Rightarrow> (uint \<Rightarrow> block) \<Rightarrow> uint \<Rightarrow> bool" where
  "used g V b \<longleftrightarrow> bm_test (V (BBLOCK b g)) (unat b mod BPB)"

definition meta_used :: "superblock \<Rightarrow> (uint \<Rightarrow> block) \<Rightarrow> bool" where
  "meta_used g V \<longleftrightarrow> (\<forall>b. unat b < data_start g \<longrightarrow> used g V b)"

lemma layout_txn_to: "txn_to s V k t \<Longrightarrow> layout t \<longleftrightarrow> layout s"
  using txn_to_sb [of s V k t] by (simp add: layout_def txn_to_def)

lemma unat_BBLOCK:
  assumes "layout s" and "unat b < unat (sb_size (sb s))"
  shows "unat (BBLOCK b (sb s)) = unat b div BPB + unat (sb_bmapstart (sb s))"
proof -
  have "unat b div BPB \<le> unat (sb_size (sb s)) div BPB" using assms(2) by (intro div_le_mono) simp
  then have "unat b div BPB + unat (sb_bmapstart (sb s)) < 2 ^ 32"
    using assms(1) unat_uint_less [of "sb_size (sb s)"] by (simp add: layout_def data_start_def)
  moreover have "unat (b div of_nat BPB) = unat b div BPB" by (simp add: unat_div BPB_def BSIZE_def)
  ultimately show ?thesis unfolding BBLOCK_def by (subst unat_add_uint) simp_all
qed

lemma BBLOCK_is_bitmap:
  assumes "layout s" and "unat b < unat (sb_size (sb s))"
  shows "is_bitmap (sb s) (BBLOCK b (sb s))"
proof -
  have "unat b div BPB \<le> unat (sb_size (sb s)) div BPB" using assms(2) by (intro div_le_mono) simp
  then show ?thesis using unat_BBLOCK [OF assms] by (simp add: is_bitmap_def data_start_def)
qed

lemma BBLOCK_eq:
  assumes "layout s" and "unat b < unat (sb_size (sb s))" and "unat c < unat (sb_size (sb s))"
  shows "BBLOCK b (sb s) = BBLOCK c (sb s) \<longleftrightarrow> unat b div BPB = unat c div BPB"
  using unat_BBLOCK [OF assms(1,2)] unat_BBLOCK [OF assms(1,3)] by (metis add_right_cancel word_unat_eq_iff)

lemma bitmap_logged_ok: "layout s \<Longrightarrow> is_bitmap (sb s) b \<Longrightarrow> logged_ok s b"
  by (fastforce simp: layout_def is_bitmap_def logged_ok_def)

lemma data_logged_ok: "layout s \<Longrightarrow> is_data (sb s) b \<Longrightarrow> logged_ok s b"
  by (fastforce simp: layout_def is_data_def data_start_def logged_ok_def)

section \<open>The block allocator\<close>

text \<open>Buffers that are held while a block is allocated are buffers of allocated data blocks.\<close>

definition held_ok :: "'a fstate_scheme \<Rightarrow> bool" where
  "held_ok s \<longleftrightarrow> (\<forall>b\<in>heldB s. is_data (sb s) b \<and> used (sb s) (fs_view s) b)"

definition alloc_view :: "superblock \<Rightarrow> (uint \<Rightarrow> block) \<Rightarrow> uint \<Rightarrow> uint \<Rightarrow> block" where
  "alloc_view g V a = V(BBLOCK a g := bm_set (V (BBLOCK a g)) (unat a mod BPB), a := replicate BSIZE 0)"

definition free_view :: "superblock \<Rightarrow> (uint \<Rightarrow> block) \<Rightarrow> uint \<Rightarrow> uint \<Rightarrow> block" where
  "free_view g V a = V(BBLOCK a g := bm_clear (V (BBLOCK a g)) (unat a mod BPB))"

lemma bitmap_not_data: "is_bitmap g b \<Longrightarrow> \<not> is_data g b"
  by (simp add: is_bitmap_def is_data_def)

lemma bitmap_not_held: "held_ok s \<Longrightarrow> is_bitmap (sb s) b \<Longrightarrow> b \<notin> heldB s"
  using bitmap_not_data by (auto simp: held_ok_def)

lemma bm_byte: "unat b mod BPB div 8 < BSIZE"
proof -
  have "unat b mod BPB < BSIZE * 8" by (simp add: BPB_def BSIZE_def)
  then show ?thesis by (simp add: less_mult_imp_div_less)
qed

lemma unat_mod_eq: "unat b div BPB = unat c div BPB \<Longrightarrow> unat b mod BPB = unat c mod BPB \<longleftrightarrow> b = c"
  by (metis div_mult_mod_eq word_unat_eq_iff)

lemma used_alloc:
  assumes "layout s" and "in_txn s" and "is_data (sb s) a" and "unat b < unat (sb_size (sb s))"
  shows "used (sb s) (alloc_view (sb s) (fs_view s) a) b \<longleftrightarrow> b = a \<or> used (sb s) (fs_view s) b"
proof -
  have a: "unat a < unat (sb_size (sb s))" using assms(3) by (simp add: is_data_def)
  have ne: "BBLOCK b (sb s) \<noteq> a" "BBLOCK a (sb s) \<noteq> a"
    using bitmap_not_data BBLOCK_is_bitmap [OF assms(1,4)] BBLOCK_is_bitmap [OF assms(1) a] assms(3) by auto
  show ?thesis
  proof (cases "BBLOCK b (sb s) = BBLOCK a (sb s)")
    case True
    then have "unat b div BPB = unat a div BPB" using BBLOCK_eq [OF assms(1,4) a] by simp
    then have "unat a mod BPB = unat b mod BPB \<longleftrightarrow> b = a" using unat_mod_eq by metis
    then show ?thesis
      using ne True bm_test_set [of "unat a mod BPB" "fs_view s (BBLOCK a (sb s))" "unat b mod BPB"] bm_byte [of a] view_BSIZE [OF assms(2)]
      by (simp add: used_def alloc_view_def)
  next
    case False
    then show ?thesis using ne by (auto simp: used_def alloc_view_def)
  qed
qed

lemma used_free:
  assumes "layout s" and "in_txn s" and "unat a < unat (sb_size (sb s))" and "unat b < unat (sb_size (sb s))"
  shows "used (sb s) (free_view (sb s) (fs_view s) a) b \<longleftrightarrow> b \<noteq> a \<and> used (sb s) (fs_view s) b"
proof (cases "BBLOCK b (sb s) = BBLOCK a (sb s)")
  case True
  then have "unat b div BPB = unat a div BPB" using BBLOCK_eq [OF assms(1,4,3)] by simp
  then have "unat a mod BPB = unat b mod BPB \<longleftrightarrow> b = a" using unat_mod_eq by metis
  then show ?thesis
    using True bm_test_clear [of "unat a mod BPB" "fs_view s (BBLOCK a (sb s))" "unat b mod BPB"] bm_byte [of a] view_BSIZE [OF assms(2)]
    by (simp add: used_def free_view_def)
next
  case False
  then show ?thesis by (auto simp: used_def free_view_def)
qed

lemma bzero_log_update: "bzero 1 b s = log_update b (\<lambda>_. replicate BSIZE 0) s"
  by (simp add: bzero_def log_update_def)

lemma balloc_take:
  assumes "in_txn s" and "room 2 s" and "layout s" and "held_ok s" and "is_data (sb s) a" and "\<not> used (sb s) (fs_view s) a"
  obtains t1 t where "log_update (BBLOCK a (sb s)) (\<lambda>d. bm_set d (unat a mod BPB)) s = Done t1" and "bzero 1 a t1 = Done t"
    and "txn_to s (alloc_view (sb s) (fs_view s) a) 2 t"
proof -
  let ?bb = "BBLOCK a (sb s)"
  have a: "unat a < unat (sb_size (sb s))" using assms(5) by (simp add: is_data_def)
  have bb: "is_bitmap (sb s) ?bb" by (rule BBLOCK_is_bitmap [OF assms(3) a])
  have r: "room (Suc 1) s" using assms(2) by (simp add: numeral_2_eq_2)
  obtain t1 where t1: "log_update ?bb (\<lambda>d. bm_set d (unat a mod BPB)) s = Done t1"
    "txn_to s ((fs_view s)(?bb := bm_set (fs_view s ?bb) (unat a mod BPB))) 1 t1"
    by (rule update_step [OF assms(1) r bitmap_logged_ok [OF assms(3) bb] bitmap_not_held [OF assms(4) bb], of "\<lambda>d. bm_set d (unat a mod BPB)"]) auto
  have "a \<notin> heldB s" using assms(4,6) by (auto simp: held_ok_def)
  then have h: "a \<notin> heldB t1" using t1(2) by (simp add: txn_to_def)
  have r1: "room (Suc 0) t1" using room_txn_to [OF t1(2), of 1] r by simp
  have i1: "in_txn t1" using t1(2) by (simp add: txn_to_def)
  have l1: "logged_ok t1 a" using logged_ok_txn_to [OF t1(2)] data_logged_ok [OF assms(3,5)] by simp
  obtain t where t: "log_update a (\<lambda>_. replicate BSIZE 0) t1 = Done t" "txn_to t1 ((fs_view t1)(a := replicate BSIZE 0)) 1 t"
    by (rule update_step [OF i1 r1 l1 h, of "\<lambda>_. replicate BSIZE 0"]) auto
  have "txn_to s (alloc_view (sb s) (fs_view s) a) 2 t"
    using txn_to_trans [OF t1(2) t(2)] t1(2) by (simp add: txn_to_def alloc_view_def)
  then show thesis using that t1(1) t(1) by (simp add: bzero_log_update)
qed

lemma find_upt_facts:
  "find P [0..<n] = Some i \<Longrightarrow> i < n \<and> P i \<and> (\<forall>j<i. \<not> P j)"
  "find P [0..<n] = None \<Longrightarrow> j < n \<Longrightarrow> \<not> P j"
  by (auto simp: find_Some_iff find_None_iff)

lemma unat_of_nat_size: "i \<le> unat (x :: uint) \<Longrightarrow> unat (of_nat i :: uint) = i"
  using unat_uint_less [of x] by (simp add: unat_of_nat_uint)

lemma balloc_block_spec:
  assumes "in_txn s" and "room 2 s" and "layout s" and "held_ok s" and "meta_used (sb s) (fs_view s)"
    and "BPB dvd b" and "b < unat (sb_size (sb s))" and sz: "sz = unat (sb_size (sb s))"
  shows "(\<exists>a t. balloc_block 1 b sz s = Done (Some a, t) \<and> b \<le> unat a \<and> is_data (sb s) a \<and> \<not> used (sb s) (fs_view s) a
            \<and> (\<forall>c. b \<le> unat c \<and> unat c < unat a \<longrightarrow> used (sb s) (fs_view s) c) \<and> txn_to s (alloc_view (sb s) (fs_view s) a) 2 t)
       \<or> (\<exists>t. balloc_block 1 b sz s = Done (None, t) \<and> txn_to s (fs_view s) 0 t
            \<and> (\<forall>c. b \<le> unat c \<and> unat c < b + BPB \<and> unat c < sz \<longrightarrow> used (sb s) (fs_view s) c))"
proof -
  let ?V = "fs_view s" and ?bb = "BBLOCK (of_nat b) (sb s)"
  have ub: "unat (of_nat b :: uint) = b" using assms(7) unat_of_nat_size [of b "sb_size (sb s)"] by simp
  have bm: "is_bitmap (sb s) ?bb" using BBLOCK_is_bitmap [OF assms(3), of "of_nat b"] assms(7) ub by simp
  have idx: "unat c div BPB = b div BPB \<and> unat c mod BPB = unat c - b" if "b \<le> unat c" "unat c < b + BPB" for c :: uint
  proof -
    obtain k where k: "b = BPB * k" using assms(6) by (elim dvdE)
    have "unat c = BPB * k + (unat c - b)" "unat c - b < BPB" using that k by auto
    then show ?thesis using k by (metis div_mult_self1_is_m div_mult_self2 mod_mult_self2 mod_less div_less add_0 add.commute BPB_pos not_gr_zero)
  qed
  have same: "BBLOCK c (sb s) = ?bb" "used (sb s) ?V c \<longleftrightarrow> bm_test (?V ?bb) (unat c - b)"
    if "b \<le> unat c" "unat c < b + BPB" "unat c < sz" for c
  proof -
    show e: "BBLOCK c (sb s) = ?bb" using BBLOCK_eq [OF assms(3), of c "of_nat b"] idx [OF that(1,2)] that(3) assms(7,8) ub by simp
    show "used (sb s) ?V c \<longleftrightarrow> bm_test (?V ?bb) (unat c - b)" using e idx [OF that(1,2)] by (simp add: used_def)
  qed
  have r1: "room (Suc 1) s" using assms(2) by (simp add: numeral_2_eq_2)
  have ds: "unat ?bb < disksize s" using bitmap_logged_ok [OF assms(3) bm] by (simp add: logged_ok_def)
  obtain i s1 t where 1: "bread 1 ?bb s = Done (i, s1)" "b_data (bufs s1 ! i) = ?V ?bb" "brelse i s1 = Done t" "txn_to s ?V 0 t"
    by (rule read_step [OF assms(1) r1 ds bitmap_not_held [OF assms(4) bm]]) blast
  show ?thesis
  proof (cases "find (\<lambda>bi. b + bi < sz \<and> \<not> bm_test (?V ?bb) bi) [0..<BPB]")
    case None
    have "used (sb s) ?V c" if "b \<le> unat c" "unat c < b + BPB" "unat c < sz" for c
      using find_upt_facts(2) [OF None, of "unat c - b"] same(2) [OF that] that by auto
    then show ?thesis using 1 None by (auto simp: balloc_block_def)
  next
    case (Some bi)
    note f = find_upt_facts(1) [OF Some]
    let ?a = "of_nat (b + bi) :: uint"
    have ua: "unat ?a = b + bi" using f assms(8) unat_of_nat_size [of "b + bi" "sb_size (sb s)"] by simp
    have a: "b \<le> unat ?a" "unat ?a < b + BPB" "unat ?a < sz" using f ua by auto
    have free: "\<not> used (sb s) ?V ?a" using same(2) [OF a] f ua by simp
    then have "is_data (sb s) ?a" using assms(5) a(3) sz by (auto simp: meta_used_def is_data_def not_less)
    then obtain t1 u where u: "log_update (BBLOCK ?a (sb s)) (\<lambda>d. bm_set d (unat ?a mod BPB)) s = Done t1" "bzero 1 ?a t1 = Done u"
      "txn_to s (alloc_view (sb s) ?V ?a) 2 u"
      by (rule balloc_take [OF assms(1-4) _ free])
    have "unat ?a mod BPB = bi" using idx [OF a(1,2)] ua by simp
    then have l: "log_update ?bb (\<lambda>d. bm_set d bi) s = Done t1" using u(1) same(1) [OF a] by simp
    have "used (sb s) ?V c" if "b \<le> unat c" "unat c < unat ?a" for c
      using f [THEN conjunct2, THEN conjunct2, rule_format, of "unat c - b"] same(2) [of c] that a ua by auto
    moreover have "balloc_block 1 b sz s = Done (Some ?a, u)"
      using 1 Some l u(2) by (auto simp: balloc_block_def log_update_bread [OF 1(1)] obind_eq_Done_iff)
    ultimately show ?thesis using a u(3) free \<open>is_data (sb s) ?a\<close> by blast
  qed
qed

lemma balloc_loop_spec:
  assumes "in_txn s" and "room 2 s" and "layout s" and "held_ok s" and "meta_used (sb s) (fs_view s)"
    and "BPB dvd b" and "sz = unat (sb_size (sb s))" and "\<forall>c. unat c < b \<and> unat c < sz \<longrightarrow> used (sb s) (fs_view s) c"
  shows "(\<exists>a t. balloc_loop 1 b sz s = Done (a, t) \<and> is_data (sb s) a \<and> \<not> used (sb s) (fs_view s) a
            \<and> txn_to s (alloc_view (sb s) (fs_view s) a) 2 t)
       \<or> balloc_loop 1 b sz s = Panic ''balloc: out of blocks'' \<and> (\<forall>c. unat c < sz \<longrightarrow> used (sb s) (fs_view s) c)"
  using assms
proof (induction "sz - b" arbitrary: b s rule: less_induct)
  case less
  show ?case
  proof (cases "b < sz")
    case False
    then show ?thesis using less.prems(8) by (subst (1 2) balloc_loop.simps) auto
  next
    case True
    have lt: "b < unat (sb_size (sb s))" using True less.prems(7) by simp
    consider a t where "balloc_block 1 b sz s = Done (Some a, t)" "is_data (sb s) a" "\<not> used (sb s) (fs_view s) a"
        "txn_to s (alloc_view (sb s) (fs_view s) a) 2 t"
      | t where "balloc_block 1 b sz s = Done (None, t)" "txn_to s (fs_view s) 0 t"
        "\<forall>c. b \<le> unat c \<and> unat c < b + BPB \<and> unat c < sz \<longrightarrow> used (sb s) (fs_view s) c"
      using balloc_block_spec [OF less.prems(1-6) lt less.prems(7)] by blast
    then show ?thesis
    proof cases
      case 1
      then show ?thesis using True by (subst balloc_loop.simps) auto
    next
      case (2 t)
      note sb = txn_to_sb [OF 2(2)]
      have v: "fs_view t = fs_view s" "in_txn t" "heldB t = heldB s" using 2(2) by (auto simp: txn_to_def)
      have "room 2 t" using room_txn_to [OF 2(2), of 2] less.prems(2) by (simp add: numeral_2_eq_2)
      moreover have "layout t" using layout_txn_to [OF 2(2)] less.prems(3) by simp
      moreover have "held_ok t" using less.prems(4) v sb by (simp add: held_ok_def)
      moreover have "\<forall>c. unat c < b + BPB \<and> unat c < sz \<longrightarrow> used (sb s) (fs_view s) c" using 2(3) less.prems(8) by (meson not_less)
      moreover have "BPB dvd b + BPB" using less.prems(6) by simp
      moreover have "sz - (b + BPB) < sz - b" using True by (simp add: diff_less_mono2)
      ultimately have IH: "(\<exists>a u. balloc_loop 1 (b + BPB) sz t = Done (a, u) \<and> is_data (sb s) a \<and> \<not> used (sb s) (fs_view s) a
            \<and> txn_to t (alloc_view (sb s) (fs_view s) a) 2 u)
          \<or> balloc_loop 1 (b + BPB) sz t = Panic ''balloc: out of blocks'' \<and> (\<forall>c. unat c < sz \<longrightarrow> used (sb s) (fs_view s) c)"
        using less.hyps [of "b + BPB" t] less.prems(5,7) v sb by auto
      have "balloc_loop 1 b sz s = balloc_loop 1 (b + BPB) sz t" using True 2(1) by (subst balloc_loop.simps) simp
      then show ?thesis using IH txn_to_trans [OF 2(2)] by fastforce
    qed
  qed
qed

lemma balloc_spec:
  assumes "in_txn s" and "room 2 s" and "layout s" and "held_ok s" and "meta_used (sb s) (fs_view s)"
  shows "(\<exists>a t. balloc 1 s = Done (a, t) \<and> is_data (sb s) a \<and> \<not> used (sb s) (fs_view s) a \<and> txn_to s (alloc_view (sb s) (fs_view s) a) 2 t)
       \<or> balloc 1 s = Panic ''balloc: out of blocks'' \<and> (\<forall>c. unat c < unat (sb_size (sb s)) \<longrightarrow> used (sb s) (fs_view s) c)"
  using balloc_loop_spec [OF assms, of 0 "unat (sb_size (sb s))"] by (simp add: balloc_def)

lemma bfree_spec:
  assumes "in_txn s" and "room 1 s" and "layout s" and "held_ok s" and "unat a < unat (sb_size (sb s))" and "used (sb s) (fs_view s) a"
  obtains t where "bfree 1 a s = Done t" and "txn_to s (free_view (sb s) (fs_view s) a) 1 t"
proof -
  let ?bb = "BBLOCK a (sb s)"
  have bb: "is_bitmap (sb s) ?bb" by (rule BBLOCK_is_bitmap [OF assms(3,5)])
  have r: "room (Suc 0) s" using assms(2) by simp
  have ok: "logged_ok s ?bb" "?bb \<notin> heldB s" using bitmap_logged_ok [OF assms(3) bb] bitmap_not_held [OF assms(4) bb] by auto
  obtain i s1 where 1: "bread 1 ?bb s = Done (i, s1)" "b_data (bufs s1 ! i) = fs_view s ?bb"
    by (rule read_step [OF assms(1) r _ ok(2)]) (use ok(1) in \<open>auto simp: logged_ok_def\<close>)
  obtain t where t: "log_update ?bb (\<lambda>d. bm_clear d (unat a mod BPB)) s = Done t"
    "txn_to s ((fs_view s)(?bb := bm_clear (fs_view s ?bb) (unat a mod BPB))) 1 t"
    by (rule update_step [OF assms(1) r ok, of "\<lambda>d. bm_clear d (unat a mod BPB)"]) auto
  have "bfree 1 a s = Done t"
    using t(1) 1 assms(6) by (simp add: bfree_def used_def Let_def log_update_bread [OF 1(1)])
  then show thesis using that t(2) by (simp add: free_view_def)
qed

text \<open>
  C11. \<^verbatim>\<open>balloc\<close> returns a data block that was free, marks it used, zeroes it, and changes nothing else: no other block's status and no block outside the bitmap.  It
  never hands out a block of the log, the inodes or the bitmap, and it panics exactly when every block is used.
\<close>

theorem balloc_allocates:
  assumes "in_txn s" and "room 2 s" and "layout s" and "held_ok s" and "meta_used (sb s) (fs_view s)"
  shows "case balloc 1 s of
      Done (a, t) \<Rightarrow> is_data (sb s) a \<and> \<not> used (sb s) (fs_view s) a \<and> fs_view t a = replicate BSIZE 0
        \<and> (\<forall>b. unat b < unat (sb_size (sb s)) \<longrightarrow> used (sb s) (fs_view t) b = (b = a \<or> used (sb s) (fs_view s) b))
        \<and> (\<forall>b. b \<noteq> a \<and> \<not> is_bitmap (sb s) b \<longrightarrow> fs_view t b = fs_view s b)
    | Panic msg \<Rightarrow> \<forall>b. unat b < unat (sb_size (sb s)) \<longrightarrow> used (sb s) (fs_view s) b
    | Block \<Rightarrow> False"
proof -
  consider a t where "balloc 1 s = Done (a, t)" "is_data (sb s) a" "\<not> used (sb s) (fs_view s) a" "txn_to s (alloc_view (sb s) (fs_view s) a) 2 t"
    | "balloc 1 s = Panic ''balloc: out of blocks''" "\<forall>c. unat c < unat (sb_size (sb s)) \<longrightarrow> used (sb s) (fs_view s) c"
    using balloc_spec [OF assms] by blast
  then show ?thesis
  proof cases
    case (1 a t)
    have v: "fs_view t = alloc_view (sb s) (fs_view s) a" using 1(4) by (simp add: txn_to_def)
    have a: "unat a < unat (sb_size (sb s))" using 1(2) by (simp add: is_data_def)
    have "alloc_view (sb s) (fs_view s) a b = fs_view s b" if "b \<noteq> a" "\<not> is_bitmap (sb s) b" for b
      using that BBLOCK_is_bitmap [OF assms(3) a] by (auto simp: alloc_view_def)
    then show ?thesis using 1(1-3) used_alloc [OF assms(3,1) 1(2)] by (simp add: v) (simp add: alloc_view_def)
  qed auto
qed

text \<open>
  C31. \<^verbatim>\<open>bfree\<close> is the inverse of \<^verbatim>\<open>balloc\<close>: freeing the block that was just allocated succeeds and gives every block its old status; freeing a block that is not
  in use panics.
\<close>

theorem bfree_inverts_balloc:
  assumes "in_txn s" and "room 3 s" and "layout s" and "held_ok s" and "meta_used (sb s) (fs_view s)" and "balloc 1 s = Done (a, t)"
  shows "(\<exists>u. bfree 1 a t = Done u \<and> (\<forall>b. unat b < unat (sb_size (sb s)) \<longrightarrow> used (sb s) (fs_view u) b = used (sb s) (fs_view s) b))
    \<and> bfree 1 a s = Panic ''freeing free block''"
proof -
  have r: "room 2 s" using assms(2) by (rule room_weaken) simp
  have a: "is_data (sb s) a" "\<not> used (sb s) (fs_view s) a" and t: "txn_to s (alloc_view (sb s) (fs_view s) a) 2 t"
    using balloc_spec [OF assms(1) r assms(3-5)] assms(6) by auto
  note sb = txn_to_sb [OF t]
  have ua: "unat a < unat (sb_size (sb s))" using a(1) by (simp add: is_data_def)
  note used = used_alloc [OF assms(3,1) a(1)]
  have v: "fs_view t = alloc_view (sb s) (fs_view s) a" "in_txn t" "heldB t = heldB s" using t by (auto simp: txn_to_def)
  have l: "layout t" using layout_txn_to [OF t] assms(3) by simp
  have h: "held_ok t" using assms(4) used v sb by (auto simp: held_ok_def is_data_def)
  have r1: "room 1 t" using room_txn_to [OF t, of 1] assms(2) by simp
  have ut: "unat a < unat (sb_size (sb t))" "used (sb t) (fs_view t) a" using ua used [OF ua] v(1) sb by auto
  obtain u where u: "bfree 1 a t = Done u" "txn_to t (free_view (sb t) (fs_view t) a) 1 u"
    by (rule bfree_spec [OF v(2) r1 l h ut])
  have "used (sb s) (fs_view u) b = used (sb s) (fs_view s) b" if b: "unat b < unat (sb_size (sb s))" for b
    using used_free [OF l v(2) ut(1), of b] used [OF b] b u(2) v(1) sb a(2) by (auto simp: txn_to_def)
  moreover have "bfree 1 a s = Panic ''freeing free block''"
  proof -
    let ?bb = "BBLOCK a (sb s)"
    have bb: "is_bitmap (sb s) ?bb" by (rule BBLOCK_is_bitmap [OF assms(3) ua])
    have r: "room (Suc 1) s" using r by (simp add: numeral_2_eq_2)
    obtain i s1 where 1: "bread 1 ?bb s = Done (i, s1)" "b_data (bufs s1 ! i) = fs_view s ?bb"
      by (rule read_step [OF assms(1) r _ bitmap_not_held [OF assms(4) bb]])
        (use bitmap_logged_ok [OF assms(3) bb] in \<open>auto simp: logged_ok_def\<close>)
    then show ?thesis using a(2) by (simp add: bfree_def used_def Let_def)
  qed
  ultimately show ?thesis using u(1) by blast
qed

section \<open>A disk to run on\<close>

text \<open>
  The disk that \<^verbatim>\<open>mkfs\<close> makes, with 1000 blocks: the log in blocks 2 to 31, the inodes in 32 to 57, the bitmap in block 58, in which the blocks before the data
  are marked.  \<open>fs_boot\<close> is the kernel over a disk with this layout, with an empty cache and one system call in its transaction.
\<close>

definition sample_sb :: superblock where
  "sample_sb = \<lparr>sb_size = 1000, sb_nblocks = 941, sb_ninodes = 200, sb_nlog = 30, sb_logstart = 2, sb_inodestart = 32, sb_bmapstart = 58\<rparr>"

definition fs_boot :: "(uint \<Rightarrow> block) \<Rightarrow> inode list \<Rightarrow> fstate" where
  "fs_boot D ic = binit \<lparr>disk = \<lambda>_. D, disksize = 1000, dwrites = [], bufs = [], mru = [], curpid = 1,
     l_start = 2, l_size = 30, outstanding = 1, committing = False, l_dev = 1, lh_n = 0,
     lh_block = replicate LOGSIZE 0, sb = sample_sb, icache = ic\<rparr>"

lemma fs_boot_simps [simp]:
  "disk (fs_boot D ic) = (\<lambda>_. D)" "disksize (fs_boot D ic) = 1000" "curpid (fs_boot D ic) = 1" "l_start (fs_boot D ic) = 2"
  "l_size (fs_boot D ic) = 30" "outstanding (fs_boot D ic) = 1" "l_dev (fs_boot D ic) = 1" "lh_n (fs_boot D ic) = 0"
  "lh_block (fs_boot D ic) = replicate LOGSIZE 0" "sb (fs_boot D ic) = sample_sb" "icache (fs_boot D ic) = ic"
  by (simp_all add: fs_boot_def binit_def)

lemma fs_boot_txn:
  assumes "log_disk 2 30 1000 D" and "header_n (D 2) = 0"
  shows "in_txn (fs_boot D ic)" and "fs_view (fs_boot D ic) = D" and "heldB (fs_boot D ic) = {}"
    and "layout (fs_boot D ic)" and "held_ok (fs_boot D ic)" and "k \<le> 29 \<Longrightarrow> room k (fs_boot D ic)"
proof -
  have len: "length (D b) = BSIZE" for b using assms(1) by (simp add: log_disk_def)
  have c: "bio_inv (fs_boot D ic)" "heldB (fs_boot D ic) = {}" "dirtyB (fs_boot D ic) = {}" "view (fs_boot D ic) 1 = D"
    using len unfolding fs_boot_def by (subst binit_inv; simp)+
  then show "in_txn (fs_boot D ic)" "fs_view (fs_boot D ic) = D" "heldB (fs_boot D ic) = {}"
    using assms by (simp_all add: in_txn_def log_inv_def entries_ok_def)
  show "layout (fs_boot D ic)" by (auto simp: layout_def sample_sb_def in_log_def data_start_def BPB_def IPB_def BSIZE_def dinode_size_def)
  show "held_ok (fs_boot D ic)" using c(2) by (simp add: held_ok_def)
  show "room k (fs_boot D ic)" if "k \<le> 29" using that c(2) by (simp add: room_def NBUF_def)
qed

definition fs_disk :: "uint \<Rightarrow> block" where
  "fs_disk = sample_disk(58 := replicate 7 255 @ [7] @ replicate 504 0)"

lemma fs_disk_ok: "log_disk 2 30 1000 fs_disk" "header_n (fs_disk 2) = 0"
proof -
  note d = sample_log_disk
  have "sample_disk 1 = fs_disk 1" "sample_disk 2 = fs_disk 2" by (simp_all add: fs_disk_def)
  moreover have "length (fs_disk b) = BSIZE" for b using d by (simp add: fs_disk_def log_disk_def BSIZE_def)
  moreover show h: "header_n (fs_disk 2) = 0" by (simp add: fs_disk_def sample_disk_def header_n_def get32_def BSIZE_def)
  ultimately show "log_disk 2 30 1000 fs_disk" using d by (simp add: log_disk_def header_list_def)
qed

lemma fs_disk_meta: "meta_used sample_sb fs_disk"
  unfolding meta_used_def
proof (intro allI impI)
  fix b :: uint
  assume "unat b < data_start sample_sb"
  then have b: "unat b < 59" by (simp add: data_start_def sample_sb_def BPB_def BSIZE_def)
  have "unat (b div of_nat BPB) = 0" using b by (simp add: unat_div BPB_def BSIZE_def)
  then have bb: "BBLOCK b sample_sb = 58" by (simp add: BBLOCK_def sample_sb_def unsigned_eq_0_iff)
  have m: "unat b mod BPB = unat b" using b by (simp add: BPB_def BSIZE_def)
  have 255: "bit (255 :: uchar) n" if "n < 8" for n
  proof -
    have e: "(255 :: uchar) = mask 8" by (simp add: mask_eq_exp_minus_1)
    show ?thesis using that unfolding e by (simp add: bit_mask_iff del: mask_numeral)
  qed
  have 7: "bit (7 :: uchar) n" if "n < 3" for n
  proof -
    have e: "(7 :: uchar) = mask 3" by (simp add: mask_eq_exp_minus_1)
    show ?thesis using that unfolding e by (simp add: bit_mask_iff del: mask_numeral)
  qed
  have "bm_test (fs_disk 58) (unat b)"
  proof (cases "unat b < 56")
    case True
    then have "unat b div 8 < 7" by simp
    then have "fs_disk 58 ! (unat b div 8) = 255" by (simp add: fs_disk_def nth_append)
    then show ?thesis using 255 [of "unat b mod 8"] by (simp add: bm_test_bit)
  next
    case False
    then have "unat b = 56 \<or> unat b = 57 \<or> unat b = 58" using b by linarith
    then have "unat b div 8 = 7" "unat b mod 8 < 3" by auto
    then show ?thesis using 7 by (simp add: bm_test_bit fs_disk_def nth_append)
  qed
  then show "used sample_sb fs_disk b" by (simp add: used_def bb m)
qed

lemma fs_disk_free: "\<not> used sample_sb fs_disk 59"
proof -
  have "BBLOCK 59 sample_sb = 58" by (simp add: BBLOCK_def sample_sb_def BPB_def BSIZE_def)
  moreover have "\<not> bit (7 :: uchar) 3"
  proof -
    have e: "(7 :: uchar) = mask 3" by (simp add: mask_eq_exp_minus_1)
    show ?thesis unfolding e by (simp add: bit_mask_iff del: mask_numeral)
  qed
  ultimately show ?thesis by (simp add: used_def bm_test_bit fs_disk_def nth_append BPB_def BSIZE_def)
qed

lemma fs_disk_balloc:
  obtains a t where "balloc 1 (fs_boot fs_disk ic) = Done (a, t)"
proof -
  note s = fs_boot_txn [OF fs_disk_ok, where ic = ic]
  have "unat (59 :: uint) < unat (sb_size sample_sb)" by (simp add: sample_sb_def)
  then show thesis
    using that balloc_spec [OF s(1) s(6) s(4,5)] fs_disk_meta fs_disk_free s(2) by auto
qed

theorem balloc_allocates_witness:
  "case balloc 1 (fs_boot fs_disk []) of Done (a, t) \<Rightarrow> fs_view t a = replicate BSIZE 0 \<and> 59 \<le> unat a | Panic msg \<Rightarrow> False | Block \<Rightarrow> False"
proof (rule fs_disk_balloc)
  fix a t assume a: "balloc 1 (fs_boot fs_disk []) = Done (a, t)"
  note s = fs_boot_txn [OF fs_disk_ok, where ic = "[]"]
  have m: "meta_used (sb (fs_boot fs_disk [])) (fs_view (fs_boot fs_disk []))" using fs_disk_meta s(2) by simp
  have r: "room 2 (fs_boot fs_disk [])" by (rule s(6)) simp
  show ?thesis
    using balloc_allocates [OF s(1) r s(4,5) m] a by (simp add: is_data_def sample_sb_def data_start_def BPB_def BSIZE_def)
qed

theorem bfree_inverts_balloc_witness:
  "\<exists>a t u. balloc 1 (fs_boot fs_disk []) = Done (a, t) \<and> bfree 1 a t = Done u \<and> \<not> used sample_sb (fs_view u) 59"
proof (rule fs_disk_balloc)
  fix a t assume a: "balloc 1 (fs_boot fs_disk []) = Done (a, t)"
  note s = fs_boot_txn [OF fs_disk_ok, where ic = "[]"]
  have m: "meta_used (sb (fs_boot fs_disk [])) (fs_view (fs_boot fs_disk []))" using fs_disk_meta s(2) by simp
  have r: "room 3 (fs_boot fs_disk [])" by (rule s(6)) simp
  obtain u where "bfree 1 a t = Done u" "\<forall>b. unat b < 1000 \<longrightarrow> used sample_sb (fs_view u) b = used sample_sb fs_disk b"
    using bfree_inverts_balloc [OF s(1) r s(4,5) m a] s(2) by (auto simp: sample_sb_def)
  then show ?thesis using a fs_disk_free by (auto dest!: spec [of _ 59])
qed

end
