(* ===== verification/FSInode.thy ===== *)
theory FSInode
  imports FSBlocks "HOL-Library.Multiset"
begin

text \<open>
  The inode cache and the inodes on disk.  A reference that \<^verbatim>\<open>iget\<close> or \<^verbatim>\<open>idup\<close> returns keeps its entry of the cache: the entry is not recycled until the
  last reference is put, and there is one entry per inode.  An inode written by \<^verbatim>\<open>iupdate\<close> is what \<^verbatim>\<open>ilock\<close> reads back, and no other inode of its block changes.
\<close>

section \<open>What identifies the entries of the cache\<close>

definition ident :: "inode \<Rightarrow> uint \<times> uint \<times> nat" where
  "ident i = (i_dev i, i_inum i, i_ref i)"

definition idents :: "'a fstate_scheme \<Rightarrow> (uint \<times> uint \<times> nat) list" where
  "idents s = map ident (icache s)"

text \<open>Operations below the inodes do not touch the cache of inodes.\<close>

lemma lstate_more_icache:
  fixes s t :: "'a fstate_scheme"
  assumes "lstate.more t = lstate.more s"
  shows "icache t = icache s" and "sb t = sb s"
  using assms by (cases s; cases t; simp)+

lemma bio_frame_icache:
  fixes s t :: "'a fstate_scheme"
  assumes "bio_frame s t"
  shows "icache t = icache s" and "sb t = sb s"
  using lstate_more_icache [OF bio_frame_log(8) [OF assms]] by simp_all

lemma bread_icache: "bread dev b (s :: 'a fstate_scheme) = Done (i, t) \<Longrightarrow> icache t = icache s"
  using bread_more bio_frame_icache by metis

lemma brelse_icache: "brelse i (s :: 'a fstate_scheme) = Done t \<Longrightarrow> icache t = icache s"
  using brelse_more bio_frame_icache by metis

lemma set_data_icache [simp]: "icache (set_data i d s) = icache s"
  by (simp add: set_data_def upd_buf_def)

lemma log_write_icache: "log_write i (s :: 'a fstate_scheme) = Done t \<Longrightarrow> icache t = icache s"
  by (auto simp: log_write_def Let_def upd_buf_def split: if_splits)

lemmas block_icache = bread_icache brelse_icache log_write_icache

lemma bzero_icache: "bzero dev b s = Done t \<Longrightarrow> icache t = icache s"
  by (auto simp: bzero_def obind_eq_Done_iff dest!: block_icache)

lemma bfree_icache: "bfree dev b s = Done t \<Longrightarrow> icache t = icache s"
  by (auto simp: bfree_def Let_def obind_eq_Done_iff split: if_splits dest!: block_icache)

lemma iupdate_icache: "iupdate ip s = Done t \<Longrightarrow> icache t = icache s"
  by (auto simp: iupdate_def Let_def obind_eq_Done_iff dest!: block_icache)

lemma balloc_block_icache: "balloc_block dev b sz s = Done (r, t) \<Longrightarrow> icache t = icache s"
  by (auto simp: balloc_block_def obind_eq_Done_iff split: option.splits dest!: block_icache bzero_icache)

lemma balloc_loop_icache: "balloc_loop dev b sz s = Done (a, t) \<Longrightarrow> icache t = icache s"
proof (induction dev b sz s rule: balloc_loop.induct)
  case (1 dev b sz s)
  then show ?case
    by (subst (asm) (2) balloc_loop.simps) (fastforce simp: obind_eq_Done_iff split: if_splits option.splits dest: balloc_block_icache)
qed

lemma balloc_icache: "balloc dev s = Done (a, t) \<Longrightarrow> icache t = icache s"
  by (simp add: balloc_def balloc_loop_icache)

lemmas fs_icache = block_icache bfree_icache iupdate_icache balloc_icache

text \<open>Changes of an inode that leave its identity and its count.\<close>

lemma idents_upd: "(\<And>i. ident (f i) = ident i) \<Longrightarrow> idents (upd_inode ip f s) = idents s"
  by (simp add: idents_def upd_inode_def map_update) (metis list_update_id map_update nth_map list_update_beyond not_le)

lemma idents_icache: "icache t = icache s \<Longrightarrow> idents t = idents s"
  by (simp add: idents_def)

lemma idents_upd_simps [simp]:
  "idents (upd_inode ip (\<lambda>i. i\<lparr>i_addrs := f i\<rparr>) s) = idents s" "idents (upd_inode ip (\<lambda>i. i\<lparr>i_size := z\<rparr>) s) = idents s"
  "idents (upd_inode ip (\<lambda>i. i\<lparr>i_lock := g i\<rparr>) s) = idents s" "idents (upd_inode ip (\<lambda>i. i\<lparr>i_valid := v\<rparr>) s) = idents s"
  "idents (upd_inode ip (\<lambda>i. i\<lparr>i_type := ty\<rparr>) s) = idents s" "idents (upd_inode ip (load_dinode di) s) = idents s"
  "idents (set_data b d s) = idents s"
  by (rule idents_upd; simp add: ident_def load_dinode_def; fail | rule idents_icache; simp)+

lemmas fs_idents = fs_icache [THEN idents_icache]

lemma itrunc_direct_idents: "itrunc_direct ip i k s = Done t \<Longrightarrow> idents t = idents s"
proof (induction k arbitrary: i s)
  case (Suc k)
  then show ?case by (fastforce simp: obind_eq_Done_iff split: if_splits dest: fs_idents)
qed simp

lemma itrunc_indirect_idents: "itrunc_indirect ip bp j k s = Done t \<Longrightarrow> idents t = idents s"
proof (induction k arbitrary: j s)
  case (Suc k)
  then show ?case by (fastforce simp: Let_def obind_eq_Done_iff split: if_splits dest: fs_idents)
qed simp

lemma itrunc_idents: "itrunc ip s = Done t \<Longrightarrow> idents t = idents s"
  by (auto simp: itrunc_def obind_eq_Done_iff split: if_splits dest!: fs_idents itrunc_direct_idents itrunc_indirect_idents)

text \<open>The other operations on inodes keep the identity of every entry and every count.\<close>

lemma ilock_idents:
  assumes "ilock ip s = Done t"
  shows "idents t = idents s"
proof -
  obtain lk where ref: "\<not> i_ref (inode_at s ip) < 1" and lk: "acquiresleep (curpid s) (i_lock (inode_at s ip)) = Done lk"
    using assms by (auto simp: ilock_def obind_eq_Done_iff split: if_splits)
  show ?thesis
  proof (cases "i_valid (inode_at (upd_inode ip (\<lambda>i. i\<lparr>i_lock := lk\<rparr>) s) ip)")
    case True
    then show ?thesis using assms ref lk by (auto simp: ilock_def Let_def)
  next
    case False
    then show ?thesis using assms ref lk
      by (clarsimp simp: ilock_def Let_def obind_eq_Done_iff split: if_split_asm) (auto dest!: fs_idents)
  qed
qed

lemma iunlock_idents: "iunlock ip s = Done t \<Longrightarrow> idents t = idents s"
  by (auto simp: iunlock_def split: if_splits)

lemma bmap_idents: "bmap ip bn s = Done (a, t) \<Longrightarrow> idents t = idents s"
  by (auto simp: bmap_def Let_def obind_eq_Done_iff split: if_splits dest!: fs_idents)

lemma readi_chunk_idents: "readi_chunk ip off m s = Done (bs, t) \<Longrightarrow> idents t = idents s"
  by (auto simp: readi_chunk_def Let_def obind_eq_Done_iff dest!: fs_idents bmap_idents)

lemma writei_chunk_idents: "writei_chunk ip off bs s = Done t \<Longrightarrow> idents t = idents s"
  by (auto simp: writei_chunk_def Let_def obind_eq_Done_iff dest!: fs_idents bmap_idents)

lemma iput_free_idents:
  "(if P then obind (itrunc ip s) (\<lambda>s. obind (iupdate ip (upd_inode ip (\<lambda>i. i\<lparr>i_type := 0\<rparr>) s)) (\<lambda>s.
       Done (upd_inode ip (\<lambda>i. i\<lparr>i_valid := False\<rparr>) s))) else Done s) = Done u \<Longrightarrow> idents u = idents s"
  by (auto simp: obind_eq_Done_iff split: if_splits dest!: fs_idents itrunc_idents)

lemma idents_nth: "ip < length (icache s) \<Longrightarrow> idents s ! ip = (i_dev (inode_at s ip), i_inum (inode_at s ip), i_ref (inode_at s ip))"
  by (simp add: idents_def ident_def)

lemma idents_upd_ref: "idents (upd_inode ip (\<lambda>i. i\<lparr>i_ref := f (i_ref i)\<rparr>) s) = (idents s)[ip := apsnd (apsnd f) (idents s ! ip)]"
  by (cases "ip < length (icache s)") (simp_all add: idents_def ident_def upd_inode_def map_update list_update_beyond not_less)

lemma iput_idents:
  assumes "iput ip s = Done t"
  shows "idents t = (idents s)[ip := apsnd (apsnd (\<lambda>n. n - 1)) (idents s ! ip)]"
proof -
  obtain lk u where lk: "acquiresleep (curpid s) (i_lock (inode_at s ip)) = Done lk"
    and u: "idents u = idents (upd_inode ip (\<lambda>i. i\<lparr>i_lock := lk\<rparr>) s)"
    and t: "t = upd_inode ip (\<lambda>i. i\<lparr>i_ref := i_ref i - 1\<rparr>) (upd_inode ip (\<lambda>i. i\<lparr>i_lock := releasesleep (i_lock i)\<rparr>) u)"
    using assms by (simp only: iput_def Let_def obind_eq_Done_iff outcome.inject) (elim exE conjE, rule that, assumption, erule iput_free_idents, rule sym)
  have "idents (upd_inode ip (\<lambda>i. i\<lparr>i_lock := releasesleep (i_lock i)\<rparr>) u) = idents s" using u by simp
  then show ?thesis unfolding t idents_upd_ref [of ip "\<lambda>n. n - 1"] by (simp only:)
qed

lemma iget_idents:
  assumes "iget dev inum s = Done (ip, t)" "length (icache s) = NINODE"
  obtains (hit) "ip < NINODE" "fst (idents s ! ip) = dev" "fst (snd (idents s ! ip)) = inum" "0 < snd (snd (idents s ! ip))"
      "idents t = (idents s)[ip := apsnd (apsnd Suc) (idents s ! ip)]"
    | (miss) "ip < NINODE" "snd (snd (idents s ! ip)) = 0" "idents t = (idents s)[ip := (dev, inum, 1)]"
      "\<And>j. j < NINODE \<Longrightarrow> 0 < snd (snd (idents s ! j)) \<Longrightarrow> \<not> (fst (idents s ! j) = dev \<and> fst (snd (idents s ! j)) = inum)"
proof (cases "find (\<lambda>ip. 0 < i_ref (inode_at s ip) \<and> i_dev (inode_at s ip) = dev \<and> i_inum (inode_at s ip) = inum) [0..<NINODE]")
  case (Some j)
  then have "j = ip" and t: "t = upd_inode ip (\<lambda>i. i\<lparr>i_ref := i_ref i + 1\<rparr>) s" using assms(1) by (auto simp: iget_def)
  then have "ip < NINODE" "0 < i_ref (inode_at s ip)" "i_dev (inode_at s ip) = dev" "i_inum (inode_at s ip) = inum"
    using Some by (auto simp: find_Some_iff)
  then show thesis using hit idents_upd_ref [of ip Suc s] assms(2) by (simp add: t idents_nth)
next
  case None
  then obtain j where j: "find (\<lambda>ip. i_ref (inode_at s ip) = 0) [0..<NINODE] = Some j"
    using assms(1) by (auto simp: iget_def split: option.splits)
  then have "j = ip" and t: "t = upd_inode ip (\<lambda>i. i\<lparr>i_dev := dev, i_inum := inum, i_ref := 1, i_valid := False\<rparr>) s"
    using assms(1) None by (auto simp: iget_def)
  then have ip: "ip < NINODE" "i_ref (inode_at s ip) = 0" using j by (auto simp: find_Some_iff)
  have t': "idents t = (idents s)[ip := (dev, inum, 1)]"
    using ip assms(2) by (simp add: t idents_def ident_def upd_inode_def map_update)
  have "\<not> (fst (idents s ! j) = dev \<and> fst (snd (idents s ! j)) = inum)" if "j < NINODE" "0 < snd (snd (idents s ! j))" for j
    using None that assms(2) by (auto simp: idents_nth find_None_iff)
  then show thesis using miss [OF ip(1) _ t'] ip assms(2) by (simp add: idents_nth)
qed

section \<open>References\<close>

text \<open>
  The clients of the cache and their references.  A reference is the entry it points to, with the inode it was obtained for; \<open>rest\<close> is any operation that
  keeps the identities, as all the other operations on inodes do.
\<close>

inductive icache_use :: "fstate \<Rightarrow> (nat \<times> uint \<times> uint) multiset \<Rightarrow> bool" where
  init: "icache s = replicate NINODE inode0 \<Longrightarrow> icache_use s {#}"
| get: "icache_use s us \<Longrightarrow> iget dev inum s = Done (ip, t) \<Longrightarrow> icache_use t (add_mset (ip, dev, inum) us)"
| dup: "icache_use s us \<Longrightarrow> (ip, dev, inum) \<in># us \<Longrightarrow> idup ip s = (jp, t) \<Longrightarrow> icache_use t (add_mset (jp, dev, inum) us)"
| put: "icache_use s (add_mset (ip, dev, inum) us) \<Longrightarrow> iput ip s = Done t \<Longrightarrow> icache_use t us"
| rest: "icache_use s us \<Longrightarrow> idents t = idents s \<Longrightarrow> icache_use t us"

definition refs :: "(nat \<times> uint \<times> uint) multiset \<Rightarrow> nat \<Rightarrow> nat" where
  "refs us ip = size (filter_mset (\<lambda>u. fst u = ip) us)"

text \<open>The invariant, on the identities alone.\<close>

definition named_ok :: "(uint \<times> uint \<times> nat) list \<Rightarrow> (nat \<times> uint \<times> uint) multiset \<Rightarrow> bool" where
  "named_ok ds us \<longleftrightarrow> (\<forall>(ip, dev, inum) \<in># us. ip < NINODE \<and> fst (ds ! ip) = dev \<and> fst (snd (ds ! ip)) = inum)"

definition counts_ok :: "(uint \<times> uint \<times> nat) list \<Rightarrow> (nat \<times> uint \<times> uint) multiset \<Rightarrow> bool" where
  "counts_ok ds us \<longleftrightarrow> (\<forall>ip < NINODE. snd (snd (ds ! ip)) = refs us ip)"

definition one_each :: "(uint \<times> uint \<times> nat) list \<Rightarrow> bool" where
  "one_each ds \<longleftrightarrow> (\<forall>i < NINODE. \<forall>j < NINODE. 0 < snd (snd (ds ! i)) \<longrightarrow> 0 < snd (snd (ds ! j)) \<longrightarrow>
     fst (ds ! i) = fst (ds ! j) \<longrightarrow> fst (snd (ds ! i)) = fst (snd (ds ! j)) \<longrightarrow> i = j)"

definition ids_ok :: "(uint \<times> uint \<times> nat) list \<Rightarrow> (nat \<times> uint \<times> uint) multiset \<Rightarrow> bool" where
  "ids_ok ds us \<longleftrightarrow> length ds = NINODE \<and> named_ok ds us \<and> counts_ok ds us \<and> one_each ds"

lemma refs_add [simp]: "refs (add_mset u us) ip = (if fst u = ip then Suc (refs us ip) else refs us ip)"
  by (simp add: refs_def)

lemma refs_pos: "(ip, dev, inum) \<in># us \<Longrightarrow> 0 < refs us ip"
  by (auto simp: refs_def nonempty_has_size [symmetric] filter_mset_eq_mempty_iff intro: exI)


lemma ids_ok_init: "ids_ok (replicate NINODE (0, 0, 0)) {#}"
  by (simp add: ids_ok_def named_ok_def counts_ok_def one_each_def refs_def)

text \<open>A new reference to an entry in use, the first reference to a free entry, and a reference dropped.\<close>

lemma named_ok_ref: "named_ok ds us \<Longrightarrow> length ds = NINODE \<Longrightarrow> ip < NINODE \<Longrightarrow> named_ok (ds[ip := apsnd (apsnd f) (ds ! ip)]) us"
  unfolding named_ok_def by (fastforce simp: nth_list_update)

lemma one_each_ref:
  assumes "one_each ds" "length ds = NINODE" "ip < NINODE" "0 < snd (snd (ds ! ip)) \<or> f (snd (snd (ds ! ip))) = 0"
  shows "one_each (ds[ip := apsnd (apsnd f) (ds ! ip)])"
proof -
  let ?ds = "ds[ip := apsnd (apsnd f) (ds ! ip)]"
  have "fst (?ds ! i) = fst (ds ! i) \<and> fst (snd (?ds ! i)) = fst (snd (ds ! i)) \<and> (0 < snd (snd (?ds ! i)) \<longrightarrow> 0 < snd (snd (ds ! i)))"
    if "i < NINODE" for i using assms(2-4) that by (auto simp: nth_list_update)
  then show ?thesis using assms(1) unfolding one_each_def by simp
qed

lemma ids_ok_hit:
  assumes "ids_ok ds us" "ip < NINODE" "fst (ds ! ip) = dev" "fst (snd (ds ! ip)) = inum" "0 < snd (snd (ds ! ip))"
  shows "ids_ok (ds[ip := apsnd (apsnd Suc) (ds ! ip)]) (add_mset (ip, dev, inum) us)"
proof -
  have "named_ok (ds[ip := apsnd (apsnd Suc) (ds ! ip)]) (add_mset (ip, dev, inum) us)"
    using assms named_ok_ref [of ds us ip Suc] by (simp add: ids_ok_def named_ok_def)
  moreover have "counts_ok (ds[ip := apsnd (apsnd Suc) (ds ! ip)]) (add_mset (ip, dev, inum) us)"
    using assms by (auto simp: ids_ok_def counts_ok_def nth_list_update)
  ultimately show ?thesis using assms one_each_ref [of ds ip Suc] by (simp add: ids_ok_def)
qed

lemma ids_ok_miss:
  assumes "ids_ok ds us" "ip < NINODE" "snd (snd (ds ! ip)) = 0"
    and new: "\<And>j. j < NINODE \<Longrightarrow> 0 < snd (snd (ds ! j)) \<Longrightarrow> \<not> (fst (ds ! j) = dev \<and> fst (snd (ds ! j)) = inum)"
  shows "ids_ok (ds[ip := (dev, inum, 1)]) (add_mset (ip, dev, inum) us)"
proof -
  have len: "length ds = NINODE" using assms(1) by (simp add: ids_ok_def)
  have r0: "refs us ip = 0" using assms(1-3) by (simp add: ids_ok_def counts_ok_def)
  have no: "fst u \<noteq> ip" if "u \<in># us" for u using refs_pos [of "fst u" "fst (snd u)" "snd (snd u)" us] that r0 by auto
  have "named_ok (ds[ip := (dev, inum, 1)]) us"
    using assms(1) no unfolding ids_ok_def named_ok_def by (fastforce simp: nth_list_update)
  then have "named_ok (ds[ip := (dev, inum, 1)]) (add_mset (ip, dev, inum) us)" using assms(2) len by (simp add: named_ok_def)
  moreover have "counts_ok (ds[ip := (dev, inum, 1)]) (add_mset (ip, dev, inum) us)"
    using assms(1) len r0 by (auto simp: ids_ok_def counts_ok_def nth_list_update)
  moreover have "one_each (ds[ip := (dev, inum, 1)])"
    using assms(1,2) len new unfolding ids_ok_def one_each_def by (auto simp: nth_list_update)
  ultimately show ?thesis using len by (simp add: ids_ok_def)
qed

lemma ids_ok_put:
  assumes "ids_ok ds (add_mset (ip, dev, inum) us)"
  shows "ids_ok (ds[ip := apsnd (apsnd (\<lambda>n. n - 1)) (ds ! ip)]) us"
proof -
  have ip: "ip < NINODE" "named_ok ds us" "length ds = NINODE" using assms by (auto simp: ids_ok_def named_ok_def)
  have "counts_ok (ds[ip := apsnd (apsnd (\<lambda>n. n - 1)) (ds ! ip)]) us"
    using assms ip by (auto simp: ids_ok_def counts_ok_def nth_list_update)
  moreover have "0 < snd (snd (ds ! ip))" using assms ip(1) by (simp add: ids_ok_def counts_ok_def)
  ultimately show ?thesis using assms ip named_ok_ref [of ds us ip "\<lambda>n. n - 1"] one_each_ref [of ds ip "\<lambda>n. n - 1"]
    by (simp add: ids_ok_def)
qed

lemma idents_length: "idents t = idents s \<Longrightarrow> length (icache t) = length (icache s)"
  using map_eq_imp_length_eq by (auto simp: idents_def)

lemma icache_use_ok: "icache_use s us \<Longrightarrow> ids_ok (idents s) us"
proof (induction rule: icache_use.induct)
  case (init s)
  then show ?case using ids_ok_init by (simp add: idents_def ident_def inode0_def)
next
  case (get s us dev inum ip t)
  then have len: "length (icache s) = NINODE" by (simp add: ids_ok_def idents_def)
  from get.hyps(2) len show ?case
  proof (cases rule: iget_idents)
    case hit
    then show ?thesis using ids_ok_hit [OF get.IH] by simp
  next
    case miss
    then show ?thesis using ids_ok_miss [OF get.IH] by simp
  qed
next
  case (dup s us ip dev inum jp t)
  have "ip < NINODE" "fst (idents s ! ip) = dev" "fst (snd (idents s ! ip)) = inum" "0 < snd (snd (idents s ! ip))"
    using dup.IH dup.hyps(2) refs_pos [OF dup.hyps(2)] by (auto simp: ids_ok_def named_ok_def counts_ok_def)
  then show ?case using ids_ok_hit [OF dup.IH] dup.hyps(3) idents_upd_ref [of ip Suc s] by (auto simp: idup_def)
next
  case (put s ip dev inum us t)
  then show ?case using ids_ok_put iput_idents by metis
next
  case (rest s us t)
  then show ?case by simp
qed

text \<open>
  C12. The inode cache keeps what it is referenced for.  In any run of \<^verbatim>\<open>iget\<close>, \<^verbatim>\<open>idup\<close>, \<^verbatim>\<open>iput\<close> and the other operations on inodes that starts with the cache
  \<^verbatim>\<open>iinit\<close> makes, every reference not yet put still points to the entry of the inode it was obtained for: \<^verbatim>\<open>iget\<close> recycles no entry in use.  The count of an entry
  is the number of references to it, and no inode has two entries in use.
\<close>

theorem icache_references:
  assumes "icache_use s us"
  shows "(\<forall>(ip, dev, inum) \<in># us. ip < NINODE \<and> i_dev (inode_at s ip) = dev \<and> i_inum (inode_at s ip) = inum)
    \<and> (\<forall>ip < NINODE. i_ref (inode_at s ip) = refs us ip)
    \<and> (\<forall>i < NINODE. \<forall>j < NINODE. 0 < i_ref (inode_at s i) \<longrightarrow> 0 < i_ref (inode_at s j) \<longrightarrow>
         i_dev (inode_at s i) = i_dev (inode_at s j) \<longrightarrow> i_inum (inode_at s i) = i_inum (inode_at s j) \<longrightarrow> i = j)"
proof -
  have "length (icache s) = NINODE" using icache_use_ok [OF assms] by (simp add: ids_ok_def idents_def)
  then have n: "idents s ! ip = (i_dev (inode_at s ip), i_inum (inode_at s ip), i_ref (inode_at s ip))" if "ip < NINODE" for ip
    using that by (simp add: idents_nth)
  have "\<forall>(ip, dev, inum) \<in># us. ip < NINODE \<and> i_dev (inode_at s ip) = dev \<and> i_inum (inode_at s ip) = inum"
    using icache_use_ok [OF assms] n unfolding ids_ok_def named_ok_def by (auto simp: n)
  moreover have "\<forall>ip < NINODE. i_ref (inode_at s ip) = refs us ip"
    using icache_use_ok [OF assms] n unfolding ids_ok_def counts_ok_def by simp
  moreover have "\<forall>i < NINODE. \<forall>j < NINODE. 0 < i_ref (inode_at s i) \<longrightarrow> 0 < i_ref (inode_at s j) \<longrightarrow>
         i_dev (inode_at s i) = i_dev (inode_at s j) \<longrightarrow> i_inum (inode_at s i) = i_inum (inode_at s j) \<longrightarrow> i = j"
    using icache_use_ok [OF assms] n unfolding ids_ok_def one_each_def by simp
  ultimately show ?thesis by blast
qed

section \<open>Inodes on disk\<close>

lemma length_put_addrs [simp]: "length (put_addrs a vs d) = length d"
  by (induction vs arbitrary: a d) simp_all

lemma get_put_addrs_other:
  "b + 3 < a \<or> a + 4 * length vs \<le> b \<Longrightarrow> get32 b (put_addrs a vs d) = get32 b d"
  "b + 1 < a \<or> a + 4 * length vs \<le> b \<Longrightarrow> get16 b (put_addrs a vs d) = get16 b d"
  by (induction vs arbitrary: a d) auto

lemma get32_put_addrs:
  "a + 4 * length vs \<le> length d \<Longrightarrow> i < length vs \<Longrightarrow> get32 (a + 4 * i) (put_addrs a vs d) = vs ! i"
proof (induction vs arbitrary: a d i)
  case (Cons v vs)
  show ?case
  proof (cases i)
    case 0
    then show ?thesis using Cons.prems get_put_addrs_other(1) [of a "a + 4" vs "put32 a v d"] by simp
  next
    case (Suc j)
    then show ?thesis using Cons.IH [of "a + 4" "put32 a v d" j] Cons.prems by (simp add: add.assoc)
  qed
qed simp

lemma length_put_dinode [simp]: "length (put_dinode inum di d) = length d"
  by (simp add: put_dinode_def Let_def)

lemma dinode_fits: "length d = BSIZE \<Longrightarrow> dinode_size * (unat inum mod IPB) + dinode_size \<le> length d"
proof -
  have "unat inum mod IPB < 8" by (simp add: IPB_def BSIZE_def dinode_size_def)
  then show "length d = BSIZE \<Longrightarrow> ?thesis" by (simp add: dinode_size_def BSIZE_def)
qed

lemma get_put_dinode:
  assumes "length d = BSIZE" "length (d_addrs di) = NDIRECT + 1"
  shows "get_dinode inum (put_dinode inum di d) = di"
proof -
  define o0 where "o0 = dinode_size * (unat inum mod IPB)"
  have o0: "o0 + 64 \<le> length d" using dinode_fits [OF assms(1), of inum] by (simp add: o0_def dinode_size_def)
  note l = assms(2) [unfolded NDIRECT_def]
  let ?e = "put32 (o0 + 8) (d_size di) (put16 (o0 + 6) (d_nlink di) (put16 (o0 + 4) (d_minor di) (put16 (o0 + 2) (d_major di) (put16 o0 (d_type di) d))))"
  have "get32 (o0 + 12 + 4 * i) (put_addrs (o0 + 12) (d_addrs di) ?e) = d_addrs di ! i" if "i < 13" for i
    by (rule get32_put_addrs) (use that l o0 in auto)
  then have "map (\<lambda>i. get32 (o0 + 12 + 4 * i) (put_addrs (o0 + 12) (d_addrs di) ?e)) [0..<13] = d_addrs di"
    using l by (intro nth_equalityI) auto
  moreover have "get16 b (put_addrs (o0 + 12) (d_addrs di) ?e) = get16 b ?e"
    if "b + 1 < o0 + 12" for b using that by (simp add: get_put_addrs_other)
  moreover have "get32 (o0 + 8) (put_addrs (o0 + 12) (d_addrs di) ?e) = get32 (o0 + 8) ?e" by (simp add: get_put_addrs_other)
  ultimately show ?thesis
    using o0 by (simp add: get_dinode_def put_dinode_def Let_def o0_def [symmetric] NDIRECT_def)
qed

lemma get_put_dinode_other:
  assumes "unat inum mod IPB \<noteq> unat inum' mod IPB" "length (d_addrs di) = NDIRECT + 1"
  shows "get_dinode inum' (put_dinode inum di d) = get_dinode inum' d"
proof -
  define a where "a = dinode_size * (unat inum mod IPB)"
  define b where "b = dinode_size * (unat inum' mod IPB)"
  have ab: "b + 64 \<le> a \<or> a + 64 \<le> b" using assms(1) unfolding a_def b_def dinode_size_def by (cases "unat inum mod IPB < unat inum' mod IPB") auto
  note l = assms(2) [unfolded NDIRECT_def]
  have 32: "get32 x (put_addrs (a + 12) (d_addrs di) e) = get32 x e" if "b \<le> x" "x + 3 < b + 64" for x e
    using that ab l by (intro get_put_addrs_other) auto
  have 16: "get16 x (put_addrs (a + 12) (d_addrs di) e) = get16 x e" if "b \<le> x" "x + 1 < b + 64" for x e
    using that ab l by (intro get_put_addrs_other) auto
  have "map (\<lambda>i. get32 (b + 12 + 4 * i) (put_addrs (a + 12) (d_addrs di) (put32 (a + 8) z (put16 (a + 6) y (put16 (a + 4) x (put16 (a + 2) w (put16 a v d))))))) [0..<13]
      = map (\<lambda>i. get32 (b + 12 + 4 * i) d) [0..<13]" for v w x y z
    using ab by (intro map_cong) (auto simp: 32)
  moreover from ab have fields: "get32 (b + 8) (put32 (a + 8) z (put16 (a + 6) y (put16 (a + 4) x (put16 (a + 2) w (put16 a v d))))) = get32 (b + 8) d"
    "\<And>k. k \<le> 6 \<Longrightarrow> get16 (b + k) (put32 (a + 8) z (put16 (a + 6) y (put16 (a + 4) x (put16 (a + 2) w (put16 a v d))))) = get16 (b + k) d" for v w x y z
    by auto
  ultimately show ?thesis using fields(2) [of 0] fields(2) [of 2] fields(2) [of 4] fields(2) [of 6]
    by (simp add: get_dinode_def put_dinode_def Let_def a_def [symmetric] b_def [symmetric] 16 32 NDIRECT_def)
qed

text \<open>The inodes on disk, as a function of the blocks; blocks are as the transaction sees them.\<close>

definition inode_view :: "superblock \<Rightarrow> (uint \<Rightarrow> block) \<Rightarrow> uint \<Rightarrow> dinode" where
  "inode_view g V inum = get_dinode inum (V (IBLOCK inum g))"

lemma inode_view_put:
  assumes "length (V (IBLOCK inum g)) = BSIZE" "length (d_addrs di) = NDIRECT + 1"
  shows "inode_view g (V(IBLOCK inum g := put_dinode inum di (V (IBLOCK inum g)))) = (inode_view g V)(inum := di)"
proof
  fix n
  have "unat inum mod IPB \<noteq> unat n mod IPB" if "n \<noteq> inum" "IBLOCK n g = IBLOCK inum g"
  proof
    assume m: "unat inum mod IPB = unat n mod IPB"
    have "n div 8 = inum div 8" using that(2) by (simp add: IBLOCK_def IPB_def BSIZE_def dinode_size_def)
    then have "unat n div IPB = unat inum div IPB"
      using unat_div [of n 8] unat_div [of inum 8] by (simp add: IPB_def BSIZE_def dinode_size_def)
    then have "unat n = unat inum" using m by (metis div_mult_mod_eq)
    then show False using that(1) by (simp add: unsigned_word_eqI)
  qed
  then show "inode_view g (V(IBLOCK inum g := put_dinode inum di (V (IBLOCK inum g)))) n = ((inode_view g V)(inum := di)) n"
    using assms by (auto simp: inode_view_def get_put_dinode get_put_dinode_other)
qed

lemma IBLOCK_ok:
  assumes "layout s" "unat inum < unat (sb_ninodes (sb s))"
  shows "logged_ok s (IBLOCK inum (sb s))" and "unat (IBLOCK inum (sb s)) < unat (sb_bmapstart (sb s))"
proof -
  have d: "unat (inum div 8) = unat inum div 8" by (simp add: unat_div)
  have "unat inum div 8 \<le> unat (sb_ninodes (sb s)) div 8" using assms(2) by (intro div_le_mono) simp
  then have le: "unat inum div 8 + unat (sb_inodestart (sb s)) < unat (sb_bmapstart (sb s))"
    using assms(1) by (simp add: layout_def IPB_def BSIZE_def dinode_size_def)
  then have u: "unat (IBLOCK inum (sb s)) = unat inum div 8 + unat (sb_inodestart (sb s))"
    using unat_uint_less [of "sb_bmapstart (sb s)"] by (simp add: IBLOCK_def IPB_def BSIZE_def dinode_size_def unat_word_ariths d)
  have "unat (sb_bmapstart (sb s)) \<le> disksize s" using assms(1) by (simp add: layout_def data_start_def)
  moreover have "\<not> in_log (l_start s) (l_size s) (IBLOCK inum (sb s))" "1 < unat (IBLOCK inum (sb s))"
    using assms(1) u by (auto simp: layout_def)
  ultimately show "logged_ok s (IBLOCK inum (sb s))" "unat (IBLOCK inum (sb s)) < unat (sb_bmapstart (sb s))"
    using u le by (auto simp: logged_ok_def)
qed

lemma in_txn_icache [simp]:
  "in_txn (s\<lparr>icache := ic\<rparr>) = in_txn s" "room k (s\<lparr>icache := ic\<rparr>) = room k s" "layout (s\<lparr>icache := ic\<rparr>) = layout s"
  "heldB (s\<lparr>icache := ic\<rparr>) = heldB s" "fs_view (s\<lparr>icache := ic\<rparr>) = fs_view s" "logged_ok (s\<lparr>icache := ic\<rparr>) b = logged_ok s b"
  "holds (s\<lparr>icache := ic\<rparr>) j b = holds s j b"
  by (simp_all add: in_txn_def log_inv_def bio_inv_def buf_ok_def caches_def heldB_def dirtyB_def heldI_def dirtyI_def room_def layout_def view_def
      holds_def logged_ok_def fun_eq_iff Let_def cong: option.case_cong)

lemma txn_to_icache:
  assumes "txn_to (s\<lparr>icache := ic\<rparr>) V k t"
  shows "txn_to s V k (t\<lparr>icache := icache s\<rparr>)"
proof -
  have "lstate.more t = lstate.more (s\<lparr>icache := ic\<rparr>)" using assms by (simp add: txn_to_def)
  then have "lstate.more (t\<lparr>icache := icache s\<rparr>) = lstate.more s" by (cases s; cases t; simp)
  then show ?thesis using assms by (simp add: txn_to_def)
qed

lemma iupdate_spec:
  assumes "in_txn s" "room (Suc k) s" "layout s" "unat (i_inum (inode_at s ip)) < unat (sb_ninodes (sb s))"
    and "i_dev (inode_at s ip) = 1" "IBLOCK (i_inum (inode_at s ip)) (sb s) \<notin> heldB s" "length (i_addrs (inode_at s ip)) = NDIRECT + 1"
  obtains t where "iupdate ip s = Done t"
    and "txn_to s ((fs_view s)(IBLOCK (i_inum (inode_at s ip)) (sb s) :=
           put_dinode (i_inum (inode_at s ip)) (dinode_of (inode_at s ip)) (fs_view s (IBLOCK (i_inum (inode_at s ip)) (sb s))))) 1 t"
    and "inode_view (sb t) (fs_view t) = (inode_view (sb s) (fs_view s))(i_inum (inode_at s ip) := dinode_of (inode_at s ip))"
proof -
  let ?i = "i_inum (inode_at s ip)" and ?di = "dinode_of (inode_at s ip)"
  let ?b = "IBLOCK ?i (sb s)"
  have ok: "logged_ok s ?b" using IBLOCK_ok(1) assms by blast
  obtain t where t: "log_update ?b (put_dinode ?i ?di) s = Done t" "txn_to s ((fs_view s)(?b := put_dinode ?i ?di (fs_view s ?b))) 1 t"
    by (rule update_step [OF assms(1,2) ok assms(6), of "put_dinode ?i ?di"]) auto
  have "unat ?b < disksize s" using ok by (simp add: logged_ok_def)
  then obtain j s1 where j: "bread 1 ?b s = Done (j, s1)" "bio_frame s s1"
    by (rule read_step [OF assms(1,2) _ assms(6)]) blast
  have "iupdate ip s = Done t"
    using t(1) j bio_frame_icache [OF j(2)] by (simp add: iupdate_def log_update_bread assms(5) Let_def)
  moreover have "inode_view (sb t) (fs_view t) = (inode_view (sb s) (fs_view s))(?i := ?di)"
    using inode_view_put [of "fs_view s" ?i "sb s" ?di] view_BSIZE [OF assms(1)] assms(7) txn_to_view [OF t(2)] txn_to_sb [OF t(2)]
    by (simp add: dinode_of_def)
  ultimately show thesis using that t(2) by blast
qed

lemma brelse_icache_frame:
  "brelse i (s\<lparr>icache := ic\<rparr>) = (case brelse i s of Done t \<Rightarrow> Done (t\<lparr>icache := ic\<rparr>) | Panic m \<Rightarrow> Panic m | Block \<Rightarrow> Block)"
  by (simp add: brelse_def Let_def upd_buf_def)

lemma ilock_spec:
  assumes "in_txn s" "room (Suc k) s" "layout s" "unat (i_inum (inode_at s ip)) < unat (sb_ninodes (sb s))"
    and "i_dev (inode_at s ip) = 1" "IBLOCK (i_inum (inode_at s ip)) (sb s) \<notin> heldB s"
    and "ip < length (icache s)" "0 < i_ref (inode_at s ip)" "\<not> sl_locked (i_lock (inode_at s ip))" "\<not> i_valid (inode_at s ip)"
    and "d_type (inode_view (sb s) (fs_view s) (i_inum (inode_at s ip))) \<noteq> 0"
  obtains u v where "ilock ip s = Done u" and "txn_to s (fs_view s) 0 v"
    and "u = v\<lparr>icache := (icache s)[ip := (load_dinode (inode_view (sb s) (fs_view s) (i_inum (inode_at s ip)))
           ((inode_at s ip)\<lparr>i_lock := (i_lock (inode_at s ip))\<lparr>sl_locked := True, sl_pid := curpid s\<rparr>\<rparr>))\<lparr>i_valid := True\<rparr>]\<rparr>"
proof -
  let ?i = "inode_at s ip"
  let ?lk = "(i_lock ?i)\<lparr>sl_locked := True, sl_pid := curpid s\<rparr>"
  let ?b = "IBLOCK (i_inum ?i) (sb s)"
  let ?s = "upd_inode ip (\<lambda>i. i\<lparr>i_lock := ?lk\<rparr>) s"
  have b: "unat ?b < disksize ?s" using IBLOCK_ok(1) [OF assms(3,4)] by (simp add: logged_ok_def upd_inode_def)
  have s: "in_txn ?s" "room (Suc k) ?s" "?b \<notin> heldB ?s" "fs_view ?s = fs_view s" using assms(1,2,6) by (simp_all add: upd_inode_def)
  from s(1,2) b s(3) obtain j s1 t where 1: "bread 1 ?b ?s = Done (j, s1)" "b_data (bufs s1 ! j) = fs_view s ?b" "brelse j s1 = Done t"
    "txn_to ?s (fs_view s) 0 t" "bio_frame ?s s1"
    using s(4) by (elim read_step [of ?s k ?b]) auto
  have ic: "icache s1 = icache ?s" "sb s1 = sb s" using bio_frame_icache [OF 1(5)] by (auto simp: upd_inode_def)
  let ?di = "inode_view (sb s) (fs_view s) (i_inum ?i)"
  let ?e = "(load_dinode ?di (?i\<lparr>i_lock := ?lk\<rparr>))\<lparr>i_valid := True\<rparr>"
  have v: "txn_to s (fs_view s) 0 (t\<lparr>icache := icache s\<rparr>)"
    using 1(4) txn_to_icache unfolding upd_inode_def by blast
  have "ilock ip s = Done (t\<lparr>icache := (icache s)[ip := ?e]\<rparr>)"
    using assms 1(1-3) ic
    by (simp add: ilock_def acquiresleep_def Let_def upd_inode_def inode_view_def load_dinode_def brelse_icache_frame)
  then show thesis using that [OF _ v] by simp
qed

lemma dinode_of_load [simp]: "dinode_of (load_dinode di i) = di" "dinode_of (i\<lparr>i_valid := v\<rparr>) = dinode_of i"
  by (simp_all add: dinode_of_def load_dinode_def)

text \<open>
  C13. \<^verbatim>\<open>iupdate\<close> writes one inode and \<^verbatim>\<open>ilock\<close> reads it back.  Inside a transaction with room for the block, \<^verbatim>\<open>iupdate\<close> makes the inode on disk the copy in
  memory and leaves every other inode as it was, the ones in the same block included.  When the inode is later locked through any entry \<open>e\<close> of the cache that has no valid
  copy, \<^verbatim>\<open>ilock\<close> returns, with the fields \<^verbatim>\<open>iupdate\<close> wrote.
\<close>

theorem iupdate_ilock:
  assumes "in_txn s" "room 2 s" "layout s" "unat (i_inum (inode_at s ip)) < unat (sb_ninodes (sb s))" "i_dev (inode_at s ip) = 1"
    and "IBLOCK (i_inum (inode_at s ip)) (sb s) \<notin> heldB s" "length (i_addrs (inode_at s ip)) = NDIRECT + 1" "i_type (inode_at s ip) \<noteq> 0"
    and "jp < length (icache s)" "i_dev e = 1" "i_inum e = i_inum (inode_at s ip)" "0 < i_ref e" "\<not> sl_locked (i_lock e)" "\<not> i_valid e"
  shows "\<exists>t. iupdate ip s = Done t
    \<and> inode_view (sb t) (fs_view t) = (inode_view (sb s) (fs_view s))(i_inum (inode_at s ip) := dinode_of (inode_at s ip))
    \<and> (\<exists>u. ilock jp (upd_inode jp (\<lambda>_. e) t) = Done u \<and> dinode_of (inode_at u jp) = dinode_of (inode_at s ip)
          \<and> i_valid (inode_at u jp) \<and> holdingsleep (curpid s) (i_lock (inode_at u jp)))"
proof -
  have "room (Suc 0) s" using assms(2) by (simp add: room_def)
  then obtain t where t: "iupdate ip s = Done t"
    "inode_view (sb t) (fs_view t) = (inode_view (sb s) (fs_view s))(i_inum (inode_at s ip) := dinode_of (inode_at s ip))"
    and tx: "\<exists>V. txn_to s V 1 t"
    using iupdate_spec [of s 0 ip] assms(1,3-7) by metis
  then obtain V where V: "txn_to s V 1 t" by blast
  have c: "sb t = sb s" "icache t = icache s" "in_txn t" "layout t" "heldB t = heldB s" "room (Suc 0) t" "curpid t = curpid s"
    using V txn_to_sb [OF V] assms(2,3) by (auto simp: txn_to_def layout_def room_def)
  let ?t = "upd_inode jp (\<lambda>_. e) t"
  have h: "in_txn ?t" "room (Suc 0) ?t" "layout ?t" "unat (i_inum (inode_at ?t jp)) < unat (sb_ninodes (sb ?t))" "i_dev (inode_at ?t jp) = 1"
    "IBLOCK (i_inum (inode_at ?t jp)) (sb ?t) \<notin> heldB ?t" "jp < length (icache ?t)" "0 < i_ref (inode_at ?t jp)"
    "\<not> sl_locked (i_lock (inode_at ?t jp))" "\<not> i_valid (inode_at ?t jp)" "d_type (inode_view (sb ?t) (fs_view ?t) (i_inum (inode_at ?t jp))) \<noteq> 0"
    using assms(4,6,8-14) c t(2) by (simp_all add: upd_inode_def dinode_of_def)
  obtain u v where u: "ilock jp ?t = Done u"
    "u = v\<lparr>icache := (icache ?t)[jp := (load_dinode (inode_view (sb ?t) (fs_view ?t) (i_inum (inode_at ?t jp)))
           ((inode_at ?t jp)\<lparr>i_lock := (i_lock (inode_at ?t jp))\<lparr>sl_locked := True, sl_pid := curpid ?t\<rparr>\<rparr>))\<lparr>i_valid := True\<rparr>]\<rparr>"
    by (rule ilock_spec [OF h])
  then have "inode_at u jp = (load_dinode (dinode_of (inode_at s ip)) (e\<lparr>i_lock := (i_lock e)\<lparr>sl_locked := True, sl_pid := curpid s\<rparr>\<rparr>))\<lparr>i_valid := True\<rparr>"
    using assms(9,11) c t(2) by (simp add: upd_inode_def)
  then show ?thesis using t u(1) by (simp add: load_dinode_def dinode_of_def holdingsleep_def)
qed

section \<open>Witnesses\<close>

text \<open>A cache with one entry in use, for inode 5, a file of 100 bytes.\<close>

definition sample_inode :: inode where
  "sample_inode = inode0\<lparr>i_dev := 1, i_inum := 5, i_ref := 1, i_valid := True, i_type := 2, i_nlink := 1, i_size := 100, i_addrs := 70 # replicate NDIRECT 0\<rparr>"

theorem iupdate_ilock_witness:
  "\<exists>t u. iupdate 0 (fs_boot fs_disk [sample_inode, inode0]) = Done t
    \<and> ilock 1 (upd_inode 1 (\<lambda>_. inode0\<lparr>i_dev := 1, i_inum := 5, i_ref := 1\<rparr>) t) = Done u \<and> i_size (inode_at u 1) = 100
    \<and> hd (i_addrs (inode_at u 1)) = 70"
proof -
  note s = fs_boot_txn [OF fs_disk_ok, where ic = "[sample_inode, inode0]"]
  have "\<exists>t. iupdate 0 (fs_boot fs_disk [sample_inode, inode0]) = Done t
    \<and> inode_view (sb t) (fs_view t) = (inode_view sample_sb fs_disk)(5 := dinode_of sample_inode)
    \<and> (\<exists>u. ilock 1 (upd_inode 1 (\<lambda>_. inode0\<lparr>i_dev := 1, i_inum := 5, i_ref := 1\<rparr>) t) = Done u \<and> dinode_of (inode_at u 1) = dinode_of sample_inode
          \<and> i_valid (inode_at u 1) \<and> holdingsleep 1 (i_lock (inode_at u 1)))"
    using iupdate_ilock [OF s(1,6,4), of 0 1 "inode0\<lparr>i_dev := 1, i_inum := 5, i_ref := 1\<rparr>"] s(2,3)
    by (simp add: sample_inode_def sample_sb_def inode0_def NDIRECT_def initsleeplock_def)
  then show ?thesis by (auto simp: dinode_of_def sample_inode_def)
qed

text \<open>Two system calls look up inode 5, a third looks up inode 7 and puts it.\<close>

definition sample_icache :: "inode list" where
  "sample_icache = replicate NINODE inode0"

lemma sample_icache_run:
  "\<exists>s. icache_use s {#(0, 1, 5), (0, 1, 5)#}"
proof -
  let ?s = "fs_boot fs_disk sample_icache"
  have 0: "icache_use ?s {#}" by (rule icache_use.init) (simp add: sample_icache_def)
  have n0: "0 < NINODE" by (simp add: NINODE_def)
  then have ups: "[0..<NINODE] = 0 # [1..<NINODE]" by (simp add: upt_conv_Cons)
  have "find (\<lambda>ip. 0 < i_ref (inode_at ?s ip) \<and> i_dev (inode_at ?s ip) = 1 \<and> i_inum (inode_at ?s ip) = 5) [0..<NINODE] = None"
    by (simp add: find_None_iff sample_icache_def inode0_def)
  moreover have "find (\<lambda>ip. i_ref (inode_at ?s ip) = 0) [0..<NINODE] = Some 0"
    using n0 unfolding ups by (simp add: sample_icache_def inode0_def)
  ultimately obtain t where t: "iget 1 5 ?s = Done (0, t)" "i_ref (inode_at t 0) = 1" "i_dev (inode_at t 0) = 1" "i_inum (inode_at t 0) = 5"
    using n0 by (simp add: iget_def upd_inode_def sample_icache_def)
  then have "find (\<lambda>ip. 0 < i_ref (inode_at t ip) \<and> i_dev (inode_at t ip) = 1 \<and> i_inum (inode_at t ip) = 5) [0..<NINODE] = Some 0"
    unfolding ups by simp
  then obtain u where u: "iget 1 5 t = Done (0, u)" by (simp add: iget_def)
  show ?thesis using icache_use.get [OF icache_use.get [OF 0 t(1)] u] by blast
qed

theorem icache_references_witness:
  "\<exists>s. icache_use s {#(0, 1, 5), (0, 1, 5)#} \<and> i_ref (inode_at s 0) = 2 \<and> i_inum (inode_at s 0) = 5"
  using sample_icache_run
proof
  fix s assume s: "icache_use s {#(0, 1, 5), (0, 1, 5)#}"
  have n: "0 < NINODE" by (simp add: NINODE_def)
  have "i_ref (inode_at s 0) = refs {#(0, 1, 5), (0, 1, 5)#} 0" using icache_references [OF s] n by blast
  moreover have "i_inum (inode_at s 0) = 5" using icache_references [OF s] by simp
  ultimately show ?thesis using s by (auto simp: refs_def)
qed

end
