(* ===== verification/FSData.thy ===== *)
theory FSData
  imports FSInode
begin

text \<open>
  The contents of files.  A file is a function from offsets to bytes, read off the blocks of the inode; a block the file does not have yet reads as zeros.
  \<^verbatim>\<open>bmap\<close> adds blocks without changing the function, \<^verbatim>\<open>readi\<close> returns its values and \<^verbatim>\<open>writei\<close> updates it, and neither touches a block of another file.
\<close>

section \<open>Files as functions\<close>

text \<open>The block that holds block \<open>k\<close> of the file, or 0.\<close>

definition faddr :: "(uint \<Rightarrow> block) \<Rightarrow> inode \<Rightarrow> nat \<Rightarrow> uint" where
  "faddr V i k =
     (if k < NDIRECT then i_addrs i ! k
      else if i_addrs i ! NDIRECT = 0 then 0 else get32 (4 * (k - NDIRECT)) (V (i_addrs i ! NDIRECT)))"

definition fblocks :: "(uint \<Rightarrow> block) \<Rightarrow> inode \<Rightarrow> uint set" where
  "fblocks V i = insert (i_addrs i ! NDIRECT) (faddr V i ` {..<MAXFILE}) - {0}"

definition fbyte :: "(uint \<Rightarrow> block) \<Rightarrow> inode \<Rightarrow> nat \<Rightarrow> uchar" where
  "fbyte V i q = (let a = faddr V i (q div BSIZE) in if a = 0 then 0 else V a ! (q mod BSIZE))"

text \<open>The blocks of a file are allocated data blocks, each at one place of the file.\<close>

definition file_ok :: "superblock \<Rightarrow> (uint \<Rightarrow> block) \<Rightarrow> inode \<Rightarrow> bool" where
  "file_ok g V i \<longleftrightarrow> i_dev i = 1 \<and> length (i_addrs i) = NDIRECT + 1 \<and> (\<forall>a\<in>fblocks V i. is_data g a \<and> used g V a)
     \<and> (\<forall>k<MAXFILE. faddr V i k \<noteq> 0 \<longrightarrow> faddr V i k \<noteq> i_addrs i ! NDIRECT \<and> (\<forall>j<MAXFILE. faddr V i j = faddr V i k \<longrightarrow> j = k))"

text \<open>
  \<open>extends g V i W j\<close>: from the blocks \<open>V\<close> and the inode \<open>i\<close> to \<open>W\<close> and \<open>j\<close> the file may have gained blocks that were free, and nothing else than the file and the
  bitmap has changed.  \<open>grow g V i W j\<close>: the contents of the file are the same as well.
\<close>

definition extends :: "superblock \<Rightarrow> (uint \<Rightarrow> block) \<Rightarrow> inode \<Rightarrow> (uint \<Rightarrow> block) \<Rightarrow> inode \<Rightarrow> bool" where
  "extends g V i W j \<longleftrightarrow> file_ok g W j \<and> j = i\<lparr>i_addrs := i_addrs j\<rparr>
     \<and> (\<forall>c. is_data g c \<and> used g V c \<and> c \<notin> fblocks V i \<longrightarrow> W c = V c)
     \<and> (\<forall>c. \<not> is_data g c \<and> \<not> is_bitmap g c \<longrightarrow> W c = V c)
     \<and> (\<forall>c. unat c < unat (sb_size g) \<and> used g V c \<longrightarrow> used g W c)
     \<and> fblocks V i \<subseteq> fblocks W j \<and> (\<forall>c\<in>fblocks W j - fblocks V i. \<not> used g V c)
     \<and> (\<forall>k<MAXFILE. faddr V i k \<noteq> 0 \<longrightarrow> faddr W j k = faddr V i k)"

definition grow :: "superblock \<Rightarrow> (uint \<Rightarrow> block) \<Rightarrow> inode \<Rightarrow> (uint \<Rightarrow> block) \<Rightarrow> inode \<Rightarrow> bool" where
  "grow g V i W j \<longleftrightarrow> extends g V i W j \<and> (\<forall>q<MAXFILE * BSIZE. fbyte W j q = fbyte V i q)"

definition nfree :: "superblock \<Rightarrow> (uint \<Rightarrow> block) \<Rightarrow> nat" where
  "nfree g V = card {b. unat b < unat (sb_size g) \<and> \<not> used g V b}"

lemma grow_refl: "file_ok g V i \<Longrightarrow> grow g V i V i"
  by (simp add: grow_def extends_def)

lemma file_okD:
  assumes "file_ok g V i"
  shows "a \<in> fblocks V i \<Longrightarrow> is_data g a" and "a \<in> fblocks V i \<Longrightarrow> used g V a" and "i_dev i = 1" and "length (i_addrs i) = NDIRECT + 1"
    and "k < MAXFILE \<Longrightarrow> faddr V i k \<noteq> 0 \<Longrightarrow> faddr V i k \<noteq> i_addrs i ! NDIRECT"
    and "k < MAXFILE \<Longrightarrow> j < MAXFILE \<Longrightarrow> faddr V i k \<noteq> 0 \<Longrightarrow> faddr V i j = faddr V i k \<Longrightarrow> j = k"
  using assms unfolding file_ok_def by blast+

lemma extendsD:
  assumes "extends g V i W j"
  shows "file_ok g W j" "j = i\<lparr>i_addrs := i_addrs j\<rparr>" "is_data g c \<Longrightarrow> used g V c \<Longrightarrow> c \<notin> fblocks V i \<Longrightarrow> W c = V c"
    "\<not> is_data g c \<Longrightarrow> \<not> is_bitmap g c \<Longrightarrow> W c = V c" "k < MAXFILE \<Longrightarrow> faddr V i k \<noteq> 0 \<Longrightarrow> faddr W j k = faddr V i k"
  using assms unfolding extends_def by blast+

lemma faddr_fblocks: "k < MAXFILE \<Longrightarrow> faddr V i k \<noteq> 0 \<Longrightarrow> faddr V i k \<in> fblocks V i"
  by (auto simp: fblocks_def)

lemma is_data_size: "is_data g a \<Longrightarrow> unat a < unat (sb_size g)" "is_data g a \<Longrightarrow> a \<noteq> 0"
  by (auto simp: is_data_def data_start_def)

lemma extends_trans:
  assumes "file_ok g V i" "extends g V i W j" "extends g W j X l"
  shows "extends g V i X l"
proof -
  note v = file_okD [OF assms(1)]
  have 1: "X c = V c" if "is_data g c" "used g V c" "c \<notin> fblocks V i" for c
  proof -
    have "W c = V c" "used g W c" "c \<notin> fblocks W j" using assms(2) that is_data_size [OF that(1)] unfolding extends_def by auto
    then show ?thesis using assms(3) that(1) unfolding extends_def by auto
  qed
  have 2: "used g X c" if "unat c < unat (sb_size g)" "used g V c" for c using assms(2,3) that unfolding extends_def by blast
  have 3: "\<not> used g V c" if "c \<in> fblocks X l" "c \<notin> fblocks V i" for c
  proof (cases "c \<in> fblocks W j")
    case False
    have "is_data g c" using assms(3) that(1) unfolding extends_def file_ok_def by blast
    moreover have "\<not> used g W c" using False that(1) assms(3) unfolding extends_def by blast
    ultimately show ?thesis using assms(2) is_data_size unfolding extends_def by blast
  qed (use assms(2) that in \<open>auto simp: extends_def\<close>)
  have 4: "l = i\<lparr>i_addrs := i_addrs l\<rparr>"
  proof -
    have "l = j\<lparr>i_addrs := i_addrs l\<rparr>" "j = i\<lparr>i_addrs := i_addrs j\<rparr>" using assms(2,3) unfolding extends_def by blast+
    then have "l = i\<lparr>i_addrs := i_addrs j\<rparr>\<lparr>i_addrs := i_addrs l\<rparr>" by metis
    then show ?thesis by simp
  qed
  have 5: "fblocks V i \<subseteq> fblocks X l" "\<forall>c. \<not> is_data g c \<and> \<not> is_bitmap g c \<longrightarrow> X c = V c" "file_ok g X l"
    "\<forall>k<MAXFILE. faddr V i k \<noteq> 0 \<longrightarrow> faddr X l k = faddr V i k" using assms(2,3) unfolding extends_def by auto
  show ?thesis unfolding extends_def using 1 2 3 4 5 by blast
qed

lemma growI:
  assumes "file_ok g V i" and a: "is_data g a" "\<not> used g V a" "W a = replicate BSIZE 0" and j: "j = i\<lparr>i_addrs := as\<rparr>" "length as = NDIRECT + 1"
    and keep: "\<And>c. is_data g c \<Longrightarrow> used g V c \<Longrightarrow> c \<noteq> i_addrs i ! NDIRECT \<Longrightarrow> W c = V c"
    and meta: "\<And>c. \<not> is_data g c \<Longrightarrow> \<not> is_bitmap g c \<Longrightarrow> W c = V c"
    and us: "\<And>c. unat c < unat (sb_size g) \<Longrightarrow> used g W c \<longleftrightarrow> c = a \<or> used g V c"
    and ad: "\<And>k. k < MAXFILE \<Longrightarrow> faddr W j k = (if k = k0 then a else faddr V i k)"
    and k0: "k0 < MAXFILE \<Longrightarrow> faddr V i k0 = 0"
    and ind: "as ! NDIRECT = i_addrs i ! NDIRECT \<or> i_addrs i ! NDIRECT = 0 \<and> as ! NDIRECT = a \<and> MAXFILE \<le> k0"
  shows "grow g V i W j"
proof -
  note v = file_okD [OF assms(1)]
  have a0: "a \<noteq> 0" "a \<notin> fblocks V i" using is_data_size(2) a v(2) by auto
  have fb: "fblocks W j \<subseteq> insert a (fblocks V i)" using ad ind j(1) by (auto simp: fblocks_def split: if_splits)
  have sub: "fblocks V i \<subseteq> fblocks W j"
  proof
    fix c assume c: "c \<in> fblocks V i"
    then consider "c = i_addrs i ! NDIRECT" "c \<noteq> 0" | k where "k < MAXFILE" "c = faddr V i k" "c \<noteq> 0" by (auto simp: fblocks_def)
    then show "c \<in> fblocks W j"
    proof cases
      case 1
      then show ?thesis using ind j(1) by (auto simp: fblocks_def)
    next
      case (2 k)
      then have "faddr W j k = c" using ad k0 by auto
      then show ?thesis using 2 faddr_fblocks [of k W j] by auto
    qed
  qed
  have na: "faddr V i k \<noteq> a" if "k < MAXFILE" for k using faddr_fblocks [OF that, of V i] a0 by metis
  have ia: "i_addrs i ! NDIRECT \<noteq> a" using a0 by (auto simp: fblocks_def)
  have ok: "file_ok g W j" unfolding file_ok_def
  proof (intro conjI ballI allI impI)
    show "i_dev j = 1" "length (i_addrs j) = NDIRECT + 1" using v(3) j by auto
    fix c assume "c \<in> fblocks W j"
    then show "is_data g c" "used g W c" using fb v(1,2) a us is_data_size(1) by auto
  next
    fix k assume k: "k < MAXFILE" "faddr W j k \<noteq> 0"
    show "faddr W j k \<noteq> i_addrs j ! NDIRECT" using k ad [OF k(1)] ind j(1) v(5) [of k] ia na [OF k(1)] by (auto split: if_splits)
    fix l assume l: "l < MAXFILE" "faddr W j l = faddr W j k"
    show "l = k" using l k ad [OF k(1)] ad [OF l(1)] na [OF k(1)] na [OF l(1)] v(6) [of k l] by (auto split: if_splits)
  qed
  have fb2: "fbyte W j q = fbyte V i q" if "q < MAXFILE * BSIZE" for q
  proof -
    have k: "q div BSIZE < MAXFILE" using that by (simp add: less_mult_imp_div_less)
    show ?thesis
    proof (cases "q div BSIZE = k0")
      case True
      have "W a ! (q mod BSIZE) = 0" using a(3) by (simp add: BSIZE_def)
      then show ?thesis using True k ad [OF k] k0 by (simp add: fbyte_def a0)
    next
      case False
      have "W (faddr V i (q div BSIZE)) = V (faddr V i (q div BSIZE))" if "faddr V i (q div BSIZE) \<noteq> 0"
        using keep v(1,2) faddr_fblocks [OF k that] v(5) [OF k that] by blast
      then show ?thesis using False ad [OF k] by (auto simp: fbyte_def Let_def)
    qed
  qed
  have kp: "W c = V c" if "is_data g c" "used g V c" "c \<notin> fblocks V i" for c
    using that is_data_size(2) [OF that(1)] by (intro keep) (auto simp: fblocks_def)
  show ?thesis unfolding grow_def extends_def using ok sub fb a(2) us fb2 j(1) kp meta ad k0 by auto
qed

section \<open>Steps of a transaction on a file\<close>

text \<open>Writing and releasing a buffer that is held.\<close>

lemma write_held:
  assumes "in_txn s" and h: "holds s i b" and "logged_ok s b" and room: "lh_n s < int NBUF" "lh_n s < l_size s - 1" and d: "length d = BSIZE"
  obtains t where "obind (log_write i (set_data i d s)) (brelse i) = Done t" and "in_txn t" and "fs_view t = (fs_view s)(b := d)"
    and "heldB t = heldB s - {b}" and "lh_n t \<le> lh_n s + 1" and "l_start t = l_start s" and "l_size t = l_size s"
    and "disksize t = disksize s" and "curpid t = curpid s" and "lstate.more t = lstate.more s" and "\<And>j c. holds s j c \<Longrightarrow> c \<noteq> b \<Longrightarrow> holds t j c"
proof -
  have inv: "log_inv s" "0 < outstanding s" using assms(1) by (auto simp: in_txn_def)
  let ?s2 = "set_data i d s"
  note s2 = set_data_log [OF inv(1) h d]
  note f2 = bio_frame_log [OF set_data_frame(6) [of s i d]]
  have "holds ?s2 i b" "\<not> in_log (l_start ?s2) (l_size ?s2) b" "b \<noteq> 1" "lh_n ?s2 < int LOGSIZE" "lh_n ?s2 < l_size ?s2 - 1" "0 < outstanding ?s2"
    using s2(5) h assms(3) f2 room inv(2) by (auto simp: NBUF_def LOGSIZE_def MAXOPBLOCKS_def logged_ok_def)
  from log_write_spec [OF s2(1) this]
  obtain s3 where 3: "log_write i ?s2 = Done s3" "log_inv s3" "view s3 1 = view ?s2 1" "heldB s3 = heldB ?s2" "dirtyB s3 = insert b (dirtyB ?s2)"
    "holds s3 = holds ?s2" "lh_n s3 = (if b \<in> dirtyB ?s2 then lh_n ?s2 else lh_n ?s2 + 1)"
    "l_start s3 = l_start ?s2" "l_size s3 = l_size ?s2" "disksize s3 = disksize ?s2" "outstanding s3 = outstanding ?s2"
    "lstate.more s3 = lstate.more ?s2" "curpid s3 = curpid ?s2"
    by metis
  have "holds s3 i b" "b \<in> dirtyB s3" using 3(5,6) s2(5) h by auto
  from brelse_log [OF 3(2) this(1) disjI1 [OF this(2)]]
  obtain s4 where 4: "brelse i s3 = Done s4" "log_inv s4" "view s4 1 = view s3 1" "heldB s4 = heldB s3 - {b}"
    "\<And>j c. holds s3 j c \<Longrightarrow> c \<noteq> b \<Longrightarrow> holds s4 j c" "bio_frame s3 s4"
    by metis
  note f4 = bio_frame_log [OF 4(6)]
  show thesis
    by (rule that [of s4]) (use 4 3 s2 f2 f4 inv(2) in \<open>auto simp: in_txn_def\<close>)
qed

text \<open>Any step on the file \<open>ip\<close>: at most \<open>k\<close> blocks logged, the file grown, at most \<open>n\<close> blocks allocated, no other inode of the cache touched.\<close>

definition ftxn :: "'a fstate_scheme \<Rightarrow> nat \<Rightarrow> 'a fstate_scheme \<Rightarrow> bool" where
  "ftxn s k t \<longleftrightarrow> txn_to s (fs_view t) k (t\<lparr>icache := icache s\<rparr>)"

lemma ftxn_trans:
  assumes "ftxn s j t" "ftxn t k u"
  shows "ftxn s (j + k) u"
proof -
  have "txn_to ((t\<lparr>icache := icache s\<rparr>)\<lparr>icache := icache t\<rparr>) (fs_view u) k (u\<lparr>icache := icache t\<rparr>)" using assms(2) by (simp add: ftxn_def)
  from txn_to_icache [OF this] have "txn_to (t\<lparr>icache := icache s\<rparr>) (fs_view u) k (u\<lparr>icache := icache s\<rparr>)" by simp
  with assms(1) show ?thesis unfolding ftxn_def by (rule txn_to_trans)
qed

lemma ftxn_weaken: "ftxn s j t \<Longrightarrow> j \<le> k \<Longrightarrow> ftxn s k t"
  unfolding ftxn_def by (rule txn_to_weaken)

lemma ftxn_facts:
  assumes "ftxn s k t"
  shows "in_txn t" and "heldB t = heldB s" and "sb t = sb s" and "layout t = layout s" and "room (k + j) s \<Longrightarrow> room j t"
    and "logged_ok t b = logged_ok s b" and "curpid t = curpid s" and "holds s l c \<Longrightarrow> holds t l c"
proof -
  note a = assms [unfolded ftxn_def]
  show "in_txn t" "heldB t = heldB s" "curpid t = curpid s" "holds s l c \<Longrightarrow> holds t l c" using a by (auto simp: txn_to_def)
  show "sb t = sb s" using txn_to_sb(1) [OF a] by simp
  show "layout t = layout s" using layout_txn_to [OF a] by simp
  show "room (k + j) s \<Longrightarrow> room j t" using room_txn_to [OF a] by simp
  show "logged_ok t b = logged_ok s b" using logged_ok_txn_to [OF a] by simp
qed

lemma txn_to_ftxn:
  assumes "txn_to s V k t"
  shows "ftxn s k (t\<lparr>icache := ic\<rparr>)"
proof -
  have "t\<lparr>icache := icache s\<rparr> = t" unfolding txn_to_sb(2) [OF assms, symmetric] by simp
  then show ?thesis using assms txn_to_view [OF assms] by (simp add: ftxn_def)
qed

definition file_txn :: "'a fstate_scheme \<Rightarrow> nat \<Rightarrow> bool" where
  "file_txn s ip \<longleftrightarrow> in_txn s \<and> layout s \<and> held_ok s \<and> meta_used (sb s) (fs_view s) \<and> ip < length (icache s)
     \<and> file_ok (sb s) (fs_view s) (inode_at s ip) \<and> heldB s \<inter> fblocks (fs_view s) (inode_at s ip) = {}"

definition ext_step :: "'a fstate_scheme \<Rightarrow> nat \<Rightarrow> nat \<Rightarrow> nat \<Rightarrow> 'a fstate_scheme \<Rightarrow> bool" where
  "ext_step s ip n k t \<longleftrightarrow> ftxn s k t \<and> extends (sb s) (fs_view s) (inode_at s ip) (fs_view t) (inode_at t ip)
     \<and> (icache t)[ip := inode_at s ip] = icache s \<and> nfree (sb s) (fs_view s) \<le> nfree (sb s) (fs_view t) + n"

definition file_step :: "'a fstate_scheme \<Rightarrow> nat \<Rightarrow> nat \<Rightarrow> nat \<Rightarrow> 'a fstate_scheme \<Rightarrow> bool" where
  "file_step s ip n k t \<longleftrightarrow> ext_step s ip n k t
     \<and> (\<forall>q<MAXFILE * BSIZE. fbyte (fs_view t) (inode_at t ip) q = fbyte (fs_view s) (inode_at s ip) q)"

lemma file_stepI:
  assumes "ftxn s k t" "grow (sb s) (fs_view s) (inode_at s ip) (fs_view t) (inode_at t ip)"
    and "(icache t)[ip := inode_at s ip] = icache s" "nfree (sb s) (fs_view s) \<le> nfree (sb s) (fs_view t) + n"
  shows "file_step s ip n k t"
  using assms by (simp add: file_step_def ext_step_def grow_def)

lemma file_step_refl: "file_txn s ip \<Longrightarrow> file_step s ip 0 0 s"
  by (rule file_stepI) (simp_all add: file_txn_def grow_refl ftxn_def txn_to_refl)

lemma ext_step_txn:
  assumes "file_txn s ip" "ext_step s ip n k t"
  shows "file_txn t ip"
proof -
  note f = ftxn_facts [OF assms(2) [unfolded ext_step_def, THEN conjunct1]]
  have g: "extends (sb s) (fs_view s) (inode_at s ip) (fs_view t) (inode_at t ip)" and ic: "(icache t)[ip := inode_at s ip] = icache s"
    using assms(2) by (auto simp: ext_step_def)
  have u: "used (sb s) (fs_view t) c" if "unat c < unat (sb_size (sb s))" "used (sb s) (fs_view s) c" for c
    using g that by (auto simp: extends_def)
  have "held_ok t" using assms(1) f(2,3) u is_data_size(1) by (auto simp: file_txn_def held_ok_def)
  moreover have "data_start (sb s) \<le> unat (sb_size (sb s))" using assms(1) by (simp add: file_txn_def layout_def)
  then have "meta_used (sb t) (fs_view t)" using assms(1) f(3) u by (auto simp: file_txn_def meta_used_def)
  moreover have "heldB t \<inter> fblocks (fs_view t) (inode_at t ip) = {}"
    using assms(1) f(2) g unfolding extends_def file_txn_def held_ok_def by blast
  moreover have "ip < length (icache t)" using assms(1) arg_cong [OF ic, of length] by (simp add: file_txn_def)
  ultimately show ?thesis using assms(1) f(1,3,4) g by (simp add: file_txn_def extends_def)
qed

lemma ext_step_trans:
  assumes "file_txn s ip" "ext_step s ip n k t" "ext_step t ip m l u"
  shows "ext_step s ip (n + m) (k + l) u"
proof -
  have a: "ftxn s k t" "extends (sb s) (fs_view s) (inode_at s ip) (fs_view t) (inode_at t ip)" "(icache t)[ip := inode_at s ip] = icache s"
    "nfree (sb s) (fs_view s) \<le> nfree (sb s) (fs_view t) + n" using assms(2) unfolding ext_step_def by blast+
  have f: "sb t = sb s" by (rule ftxn_facts(3) [OF a(1)])
  have b: "ftxn t l u" "extends (sb s) (fs_view t) (inode_at t ip) (fs_view u) (inode_at u ip)" "(icache u)[ip := inode_at t ip] = icache t"
    "nfree (sb s) (fs_view t) \<le> nfree (sb s) (fs_view u) + m" using assms(3) unfolding ext_step_def f by blast+
  have v: "file_ok (sb s) (fs_view s) (inode_at s ip)" using assms(1) by (simp add: file_txn_def)
  have "(icache u)[ip := inode_at s ip] = ((icache u)[ip := inode_at t ip])[ip := inode_at s ip]" by simp
  also have "\<dots> = icache s" unfolding b(3) a(3) ..
  finally show ?thesis using ftxn_trans [OF a(1) b(1)] extends_trans [OF v a(2) b(2)] a(4) b(4) unfolding ext_step_def by linarith
qed

lemma file_step_txn: "file_txn s ip \<Longrightarrow> file_step s ip n k t \<Longrightarrow> file_txn t ip"
  using ext_step_txn by (auto simp: file_step_def)

lemma file_step_trans: "file_txn s ip \<Longrightarrow> file_step s ip n k t \<Longrightarrow> file_step t ip m l u \<Longrightarrow> file_step s ip (n + m) (k + l) u"
  using ext_step_trans by (auto simp: file_step_def)

lemma ext_step_weaken: "ext_step s ip n k t \<Longrightarrow> n \<le> m \<Longrightarrow> k \<le> l \<Longrightarrow> ext_step s ip m l t"
  unfolding ext_step_def using ftxn_weaken by auto

lemma file_step_weaken: "file_step s ip n k t \<Longrightarrow> n \<le> m \<Longrightarrow> k \<le> l \<Longrightarrow> file_step s ip m l t"
  unfolding file_step_def using ext_step_weaken by auto

section \<open>Adding blocks\<close>

text \<open>What allocating block \<open>a\<close> does to the other blocks and to the number of free blocks.\<close>

lemma alloc_view_facts:
  assumes "in_txn s" "layout s" "is_data (sb s) a" "\<not> used (sb s) (fs_view s) a"
  shows "is_data (sb s) c \<Longrightarrow> used (sb s) (fs_view s) c \<Longrightarrow> alloc_view (sb s) (fs_view s) a c = fs_view s c"
    and "\<not> is_data (sb s) c \<Longrightarrow> \<not> is_bitmap (sb s) c \<Longrightarrow> alloc_view (sb s) (fs_view s) a c = fs_view s c"
    and "alloc_view (sb s) (fs_view s) a a = replicate BSIZE 0"
    and "nfree (sb s) (fs_view s) \<le> nfree (sb s) (alloc_view (sb s) (fs_view s) a) + 1"
proof -
  have a: "unat a < unat (sb_size (sb s))" using assms(3) by (simp add: is_data_def)
  have bb: "\<not> is_data (sb s) (BBLOCK a (sb s))" using BBLOCK_is_bitmap [OF assms(2) a] bitmap_not_data by blast
  show "is_data (sb s) c \<Longrightarrow> used (sb s) (fs_view s) c \<Longrightarrow> alloc_view (sb s) (fs_view s) a c = fs_view s c"
    using bb assms(4) by (auto simp: alloc_view_def)
  show "\<not> is_data (sb s) c \<Longrightarrow> \<not> is_bitmap (sb s) c \<Longrightarrow> alloc_view (sb s) (fs_view s) a c = fs_view s c"
    using BBLOCK_is_bitmap [OF assms(2) a] assms(3) by (auto simp: alloc_view_def)
  show "alloc_view (sb s) (fs_view s) a a = replicate BSIZE 0" by (simp add: alloc_view_def)
  let ?F = "{b. unat b < unat (sb_size (sb s)) \<and> \<not> used (sb s) (fs_view s) b}"
  have "{b. unat b < unat (sb_size (sb s)) \<and> \<not> used (sb s) (alloc_view (sb s) (fs_view s) a) b} = ?F - {a}"
    using used_alloc [OF assms(2,1,3)] by auto
  then show "nfree (sb s) (fs_view s) \<le> nfree (sb s) (alloc_view (sb s) (fs_view s) a) + 1"
    using diff_card_le_card_Diff [of "{a}" ?F] by (simp add: nfree_def)
qed

lemma balloc_ok:
  assumes "in_txn s" "room 2 s" "layout s" "held_ok s" "meta_used (sb s) (fs_view s)" "0 < nfree (sb s) (fs_view s)"
  obtains a t where "balloc 1 s = Done (a, t)" "is_data (sb s) a" "\<not> used (sb s) (fs_view s) a" "txn_to s (alloc_view (sb s) (fs_view s) a) 2 t"
proof -
  have "{b. unat b < unat (sb_size (sb s)) \<and> \<not> used (sb s) (fs_view s) b} \<noteq> {}" using assms(6) unfolding nfree_def by (metis card.empty less_numeral_extra(3))
  then show thesis using balloc_spec [OF assms(1-5)] that by blast
qed

lemma file_txnD:
  assumes "file_txn s ip"
  shows "in_txn s" "layout s" "held_ok s" "meta_used (sb s) (fs_view s)" "ip < length (icache s)" "file_ok (sb s) (fs_view s) (inode_at s ip)"
    "heldB s \<inter> fblocks (fs_view s) (inode_at s ip) = {}"
  using assms by (simp_all add: file_txn_def)

lemma NDIRECT_less: "NDIRECT < MAXFILE"
  by (simp add: MAXFILE_def NINDIRECT_def BSIZE_def)

lemma get32_zeros: "b + 3 < BSIZE \<Longrightarrow> get32 b (replicate BSIZE 0) = 0"
  by (simp add: get32_def)

text \<open>A new block recorded in the inode: a direct block, or the block of indirect addresses.\<close>

lemma alloc_direct:
  assumes "file_txn s ip" "room 2 s" "0 < nfree (sb s) (fs_view s)" "k \<le> NDIRECT" "i_addrs (inode_at s ip) ! k = 0"
  obtains a t where "balloc 1 s = Done (a, t)" and "a \<noteq> 0"
    and "file_step s ip 1 2 (upd_inode ip (\<lambda>i. i\<lparr>i_addrs := (i_addrs i)[k := a]\<rparr>) t)"
    and "i_addrs (inode_at (upd_inode ip (\<lambda>i. i\<lparr>i_addrs := (i_addrs i)[k := a]\<rparr>) t) ip) = (i_addrs (inode_at s ip))[k := a]"
    and "k = NDIRECT \<Longrightarrow> fs_view t a = replicate BSIZE 0"
proof -
  note d = file_txnD [OF assms(1)]
  let ?g = "sb s" and ?V = "fs_view s" and ?i = "inode_at s ip"
  obtain a t where t: "balloc 1 s = Done (a, t)" "is_data ?g a" "\<not> used ?g ?V a" "txn_to s (alloc_view ?g ?V a) 2 t"
    by (rule balloc_ok [OF d(1) assms(2) d(2-4) assms(3)])
  note al = alloc_view_facts [OF d(1,2) t(2,3)]
  note ok = file_okD [OF d(6)]
  have a0: "a \<noteq> 0" using is_data_size(2) [OF t(2)] .
  let ?as = "(i_addrs ?i)[k := a]"
  let ?j = "?i\<lparr>i_addrs := ?as\<rparr>" and ?W = "alloc_view ?g ?V a"
  let ?t = "upd_inode ip (\<lambda>i. i\<lparr>i_addrs := (i_addrs i)[k := a]\<rparr>) t"
  have ic: "icache t = icache s" "fs_view t = ?W" using txn_to_sb(2) [OF t(4)] txn_to_view [OF t(4)] by auto
  have j: "inode_at ?t ip = ?j" "fs_view ?t = ?W" using ic d(5) by (simp_all add: upd_inode_def)
  have len: "length (i_addrs ?i) = NDIRECT + 1" by (rule ok(4))
  have "?W (i_addrs ?i ! NDIRECT) = ?V (i_addrs ?i ! NDIRECT)" if "i_addrs ?i ! NDIRECT \<noteq> 0"
    using that ok(1,2) by (intro al(1)) (auto simp: fblocks_def)
  moreover have "get32 (4 * (l - NDIRECT)) (?W a) = 0" if "l < MAXFILE" for l
    unfolding al(3) using that by (intro get32_zeros) (simp add: MAXFILE_def NINDIRECT_def BSIZE_def)
  ultimately have ad: "faddr ?W ?j l = (if l = (if k < NDIRECT then k else MAXFILE) then a else faddr ?V ?i l)" if "l < MAXFILE" for l
    using that assms(4,5) a0 len by (cases "k = NDIRECT") (auto simp: faddr_def nth_list_update)
  have "grow ?g ?V ?i ?W ?j"
    by (rule growI [OF d(6) t(2,3) al(3) refl _ al(1) al(2) used_alloc [OF d(2,1) t(2)] ad])
      (use len assms(4,5) in \<open>auto simp: faddr_def nth_list_update\<close>)
  moreover have "ftxn s 2 ?t" unfolding upd_inode_def by (rule txn_to_ftxn [OF t(4)])
  ultimately have "file_step s ip 1 2 ?t" using al(4) j ic by (intro file_stepI) (simp_all add: upd_inode_def)
  then show thesis using that [OF t(1) a0] j(1) ic(2) al(3) by simp
qed

text \<open>A new block recorded in the block of indirect addresses, which is held meanwhile.\<close>

lemma alloc_indirect:
  assumes "file_txn s ip" "room 4 s" "0 < nfree (sb s) (fs_view s)" and m: "m < NINDIRECT"
    and ib: "i_addrs (inode_at s ip) ! NDIRECT = ib" "ib \<noteq> 0" and zero: "get32 (4 * m) (fs_view s ib) = 0"
  obtains bp s1 a s2 t where "bread 1 ib s = Done (bp, s1)" and "b_data (bufs s1 ! bp) = fs_view s ib" and "icache s1 = icache s"
    and "balloc 1 s1 = Done (a, s2)" and "a \<noteq> 0"
    and "obind (log_write bp (set_data bp (put32 (4 * m) a (b_data (bufs s2 ! bp))) s2)) (brelse bp) = Done t"
    and "file_step s ip 1 3 t" and "icache t = icache s" and "get32 (4 * m) (fs_view t ib) = a"
proof -
  note d = file_txnD [OF assms(1)]
  note ok = file_okD [OF d(6)]
  let ?g = "sb s" and ?V = "fs_view s" and ?i = "inode_at s ip"
  have fb: "ib \<in> fblocks ?V ?i" using ib by (auto simp: fblocks_def)
  then have ibd: "is_data ?g ib" "used ?g ?V ib" "ib \<notin> heldB s" using ok(1,2) d(7) by auto
  have lo: "logged_ok s ib" using data_logged_ok [OF d(2) ibd(1)] .
  have r: "room (Suc 3) s" using assms(2) by (simp add: eval_nat_numeral)
  have ds: "unat ib < disksize s" using lo by (simp add: logged_ok_def)
  obtain bp s1 where 1: "bread 1 ib s = Done (bp, s1)" "b_data (bufs s1 ! bp) = ?V ib" "in_txn s1" "holds s1 bp ib" "fs_view s1 = ?V"
    "heldB s1 = insert ib (heldB s)" "bio_frame s s1" "\<And>j c. holds s j c \<Longrightarrow> holds s1 j c"
    by (rule read_step [OF d(1) r ds ibd(3)], rule that, assumption+)
  note ic1 = bio_frame_icache [OF 1(7)] and f1 = bio_frame_log [OF 1(7)]
  have l1: "layout s1" using d(2) ic1(2) f1 by (simp add: layout_def)
  have h1: "held_ok s1" using d(3) ibd ic1(2) 1(5,6) by (auto simp: held_ok_def)
  have c: "card (heldB s1) \<le> card (heldB s) + 1" unfolding 1(6) using card_insert_le_m1 [of "Suc (card (heldB s))" "heldB s" ib] by simp
  have r1: "room 2 s1" "room 3 s1" using r c f1 by (auto simp: room_def)
  obtain a s2 where 2: "balloc 1 s1 = Done (a, s2)" "is_data ?g a" "\<not> used ?g ?V a" "txn_to s1 (alloc_view ?g ?V a) 2 s2"
    using balloc_ok [OF 1(3) r1(1) l1 h1] d(4) assms(3) ic1(2) 1(5) by metis
  note al = alloc_view_facts [OF d(1,2) 2(2,3)]
  have a0: "a \<noteq> 0" using is_data_size(2) [OF 2(2)] .
  have h2: "in_txn s2" "holds s2 bp ib" "fs_view s2 = alloc_view ?g ?V a" "heldB s2 = heldB s1" using 2(4) 1(4) by (auto simp: txn_to_def)
  have "bio_inv s2" using h2(1) by (simp add: in_txn_def log_inv_def)
  then have bd: "b_data (bufs s2 ! bp) = ?V ib" using view_holds [OF _ h2(2)] h2(3) al(1) [OF ibd(1,2)] by simp
  let ?e = "put32 (4 * m) a (?V ib)"
  have len: "length (?V ib) = BSIZE" by (rule view_BSIZE [OF d(1)])
  have "lh_n s1 + 3 \<le> l_size s1 - 1" "nat (lh_n s1) + 3 \<le> NBUF" using r1(2) by (auto simp: room_def)
  then have n: "lh_n s2 < int NBUF" "lh_n s2 < l_size s2 - 1" using 2(4) by (auto simp: txn_to_def)
  have lo2: "logged_ok s2 ib" using lo f1 logged_ok_txn_to [OF 2(4), of ib] by (simp add: logged_ok_def)
  obtain t where 3: "obind (log_write bp (set_data bp ?e s2)) (brelse bp) = Done t" "in_txn t" "fs_view t = (fs_view s2)(ib := ?e)"
    "heldB t = heldB s2 - {ib}" "lh_n t \<le> lh_n s2 + 1" "l_start t = l_start s2" "l_size t = l_size s2" "disksize t = disksize s2" "curpid t = curpid s2"
    "lstate.more t = lstate.more s2" "\<And>j c. holds s2 j c \<Longrightarrow> c \<noteq> ib \<Longrightarrow> holds t j c"
    using write_held [OF h2(1,2) lo2 n, of ?e] len by (metis length_put(1))
  let ?W = "(alloc_view ?g ?V a)(ib := ?e)"
  have ne: "ib \<noteq> a" using ibd(2) 2(3) by blast
  have hh: "c \<noteq> ib" if "holds s j c" for j c using holds_heldB [OF that] ibd(3) by auto
  have more: "lstate.more t = lstate.more s" using 3(10) 2(4) f1(8) by (simp add: txn_to_def)
  then have ict: "icache t = icache s" by (rule lstate_more_icache)
  have "txn_to s ?W 3 t"
    unfolding txn_to_def using 3 2(4) f1 h2 1(6) ibd(3) more hh 1(8) by (auto simp: txn_to_def)
  then have ft: "ftxn s 3 t" using txn_to_ftxn [of s ?W 3 t "icache t"] by simp
  have m4: "4 * m + 3 < BSIZE" using m by (simp add: NINDIRECT_def BSIZE_def)
  have g32: "get32 (4 * l) ?e = (if l = m then a else get32 (4 * l) (?V ib))" for l
    using m4 len by (cases l m rule: linorder_cases) auto
  have ad: "faddr ?W ?i l = (if l = m + NDIRECT then a else faddr ?V ?i l)" if "l < MAXFILE" for l
    using g32 ib by (auto simp: faddr_def)
  have us: "used ?g ?W c \<longleftrightarrow> c = a \<or> used ?g ?V c" if "unat c < unat (sb_size ?g)" for c
  proof -
    have "BBLOCK c ?g \<noteq> ib" using BBLOCK_is_bitmap [OF d(2) that] bitmap_not_data ibd(1) by metis
    then show ?thesis using used_alloc [OF d(2,1) 2(2) that] by (simp add: used_def)
  qed
  have Wa: "?W a = replicate BSIZE 0" using al(3) ne by simp
  have keep: "?W c = ?V c" if "is_data ?g c" "used ?g ?V c" "c \<noteq> i_addrs ?i ! NDIRECT" for c using al(1) [OF that(1,2)] that(3) ib(1) by simp
  have meta: "?W c = ?V c" if "\<not> is_data ?g c" "\<not> is_bitmap ?g c" for c using al(2) [OF that] that(1) ibd(1) by auto
  have z: "faddr ?V ?i (m + NDIRECT) = 0" using zero ib by (simp add: faddr_def)
  have "grow ?g ?V ?i ?W ?i"
    by (rule growI [OF d(6) 2(2,3) Wa _ ok(4) keep meta us ad]) (use z in auto)
  moreover have "nfree ?g ?V \<le> nfree ?g ?W + 1"
  proof -
    have "nfree ?g ?W = nfree ?g (alloc_view ?g ?V a)"
      using us used_alloc [OF d(2,1) 2(2)] unfolding nfree_def by (intro arg_cong [of _ _ card]) auto
    then show ?thesis using al(4) by simp
  qed
  ultimately have fs: "file_step s ip 1 3 t" using ft 3(3) h2(3) ict by (intro file_stepI) simp_all
  show thesis
    by (rule that [OF 1(1,2) ic1(1) 2(1) a0 _ fs ict]) (use 3(1,3) bd g32 in auto)
qed

section \<open>The blocks of a file\<close>

lemma bmap_index:
  assumes "k < MAXFILE"
  shows "(of_nat k :: uint) < of_nat NDIRECT \<longleftrightarrow> k < NDIRECT" and "unat (of_nat k :: uint) = k"
    and "\<not> k < NDIRECT \<Longrightarrow> (of_nat k - of_nat NDIRECT :: uint) < of_nat NINDIRECT"
    and "\<not> k < NDIRECT \<Longrightarrow> unat (of_nat k - of_nat NDIRECT :: uint) = k - NDIRECT"
proof -
  have k: "k < 140" using assms by (simp add: MAXFILE_def NDIRECT_def NINDIRECT_def BSIZE_def)
  have u: "unat (of_nat l :: uint) = l" if "l < 200" for l using that by (simp add: unat_of_nat_uint)
  show "unat (of_nat k :: uint) = k" using k u by simp
  show "(of_nat k :: uint) < of_nat NDIRECT \<longleftrightarrow> k < NDIRECT" using k u [of k] u [of NDIRECT] by (simp add: word_less_nat_alt NDIRECT_def)
  assume n: "\<not> k < NDIRECT"
  then have e: "of_nat k - of_nat NDIRECT = (of_nat (k - NDIRECT) :: uint)" by simp
  show "unat (of_nat k - of_nat NDIRECT :: uint) = k - NDIRECT" unfolding e using k by (intro u) simp
  then show "(of_nat k - of_nat NDIRECT :: uint) < of_nat NINDIRECT"
    using assms n u [of NINDIRECT] by (simp add: word_less_nat_alt MAXFILE_def NINDIRECT_def BSIZE_def)
qed

text \<open>A block the file has: \<^verbatim>\<open>bmap\<close> looks it up and changes nothing.\<close>

lemma bmap_hit:
  assumes "file_txn s ip" "room 1 s" "k < MAXFILE" "faddr (fs_view s) (inode_at s ip) k \<noteq> 0"
  obtains t where "bmap ip (of_nat k) s = Done (faddr (fs_view s) (inode_at s ip) k, t)" and "txn_to s (fs_view s) 0 t"
proof (cases "k < NDIRECT")
  case True
  have "bmap ip (of_nat k) s = Done (faddr (fs_view s) (inode_at s ip) k, s)"
    using True assms(4) bmap_index(1,2) [OF assms(3)] by (simp add: bmap_def faddr_def)
  then show thesis using that file_txnD(1) [OF assms(1)] txn_to_refl by blast
next
  case False
  note d = file_txnD [OF assms(1)]
  let ?ib = "i_addrs (inode_at s ip) ! NDIRECT"
  have ib: "?ib \<noteq> 0" using False assms(4) by (auto simp: faddr_def)
  then have "?ib \<in> fblocks (fs_view s) (inode_at s ip)" by (auto simp: fblocks_def)
  then have ibd: "is_data (sb s) ?ib" "?ib \<notin> heldB s" using file_okD(1) [OF d(6)] d(7) by auto
  have ds: "unat ?ib < disksize s" using data_logged_ok [OF d(2) ibd(1)] by (simp add: logged_ok_def)
  have r: "room (Suc 0) s" using assms(2) by simp
  obtain bp s1 t where 1: "bread 1 ?ib s = Done (bp, s1)" "b_data (bufs s1 ! bp) = fs_view s ?ib" "brelse bp s1 = Done t" "txn_to s (fs_view s) 0 t"
    by (rule read_step [OF d(1) r ds ibd(2)], rule that, assumption+)
  have "bmap ip (of_nat k) s = Done (faddr (fs_view s) (inode_at s ip) k, t)"
    using False assms(4) ib 1(1-3) bmap_index [OF assms(3)] file_okD(3) [OF d(6)] by (simp add: bmap_def Let_def faddr_def)
  then show thesis using that 1(4) by blast
qed

text \<open>In general \<^verbatim>\<open>bmap\<close> adds at most two blocks to the file.\<close>

lemma txn_to_file_step:
  assumes "file_txn s ip" "txn_to s (fs_view s) k t"
  shows "file_step s ip 0 k t"
proof -
  have "ftxn s k t" using txn_to_ftxn [OF assms(2), of "icache t"] by simp
  then show ?thesis using txn_to_sb(2) [OF assms(2)] txn_to_view [OF assms(2)] grow_refl [OF file_txnD(6) [OF assms(1)]]
    by (intro file_stepI) simp_all
qed

lemma bmap_spec:
  assumes "file_txn s ip" "room 6 s" "k < MAXFILE" "2 \<le> nfree (sb s) (fs_view s)"
  obtains t where "bmap ip (of_nat k) s = Done (faddr (fs_view t) (inode_at t ip) k, t)" and "file_step s ip 2 5 t"
    and "faddr (fs_view t) (inode_at t ip) k \<noteq> 0"
proof (cases "faddr (fs_view s) (inode_at s ip) k = 0")
  case False
  have r: "room 1 s" using room_weaken [OF assms(2)] by simp
  obtain t where t: "bmap ip (of_nat k) s = Done (faddr (fs_view s) (inode_at s ip) k, t)" "txn_to s (fs_view s) 0 t"
    by (rule bmap_hit [OF assms(1) r assms(3) False])
  show thesis
    by (rule that [of t]) (use t False txn_to_sb(2) [OF t(2)] txn_to_view [OF t(2)] file_step_weaken [OF txn_to_file_step [OF assms(1) t(2)], of 2 5] in auto)
next
  case True
  note d = file_txnD [OF assms(1)]
  have r2: "room 2 s" "0 < nfree (sb s) (fs_view s)" using room_weaken [OF assms(2)] assms(4) by auto
  have dev: "i_dev (inode_at s ip) = 1" using file_okD(3) [OF d(6)] .
  note len = file_okD(4) [OF d(6)]
  show thesis
  proof (cases "k < NDIRECT")
    case k: True
    then have z: "i_addrs (inode_at s ip) ! k = 0" using True by (simp add: faddr_def)
    obtain a t where t: "balloc 1 s = Done (a, t)" "a \<noteq> 0" "file_step s ip 1 2 (upd_inode ip (\<lambda>i. i\<lparr>i_addrs := (i_addrs i)[k := a]\<rparr>) t)"
      "i_addrs (inode_at (upd_inode ip (\<lambda>i. i\<lparr>i_addrs := (i_addrs i)[k := a]\<rparr>) t) ip) = (i_addrs (inode_at s ip))[k := a]"
      using alloc_direct [OF assms(1) r2 _ z] k by auto
    let ?t = "upd_inode ip (\<lambda>i. i\<lparr>i_addrs := (i_addrs i)[k := a]\<rparr>) t"
    have f: "faddr (fs_view ?t) (inode_at ?t ip) k = a" using k t(4) len by (simp add: faddr_def)
    have "bmap ip (of_nat k) s = Done (a, ?t)" using k z t(1) dev bmap_index(1,2) [OF assms(3)] by (simp add: bmap_def)
    then show thesis using that [of ?t] f t(2) file_step_weaken [OF t(3), of 2 5] by simp
  next
    case k: False
    let ?m = "k - NDIRECT"
    have m: "?m < NINDIRECT" using assms(3) k by (simp add: MAXFILE_def)
    obtain s1 where s1: "file_step s ip 1 2 s1" "i_addrs (inode_at s1 ip) ! NDIRECT \<noteq> 0" "get32 (4 * ?m) (fs_view s1 (i_addrs (inode_at s1 ip) ! NDIRECT)) = 0"
      and run: "(if i_addrs (inode_at s ip) ! NDIRECT = 0
        then obind (balloc (i_dev (inode_at s ip)) s) (\<lambda>(addr, s). Done (addr, upd_inode ip (\<lambda>i. i\<lparr>i_addrs := (i_addrs i)[NDIRECT := addr]\<rparr>) s))
        else Done (i_addrs (inode_at s ip) ! NDIRECT, s)) = Done (i_addrs (inode_at s1 ip) ! NDIRECT, s1)"
    proof (cases "i_addrs (inode_at s ip) ! NDIRECT = 0")
      case z: True
      obtain a t where t: "balloc 1 s = Done (a, t)" "a \<noteq> 0" "file_step s ip 1 2 (upd_inode ip (\<lambda>i. i\<lparr>i_addrs := (i_addrs i)[NDIRECT := a]\<rparr>) t)"
        "i_addrs (inode_at (upd_inode ip (\<lambda>i. i\<lparr>i_addrs := (i_addrs i)[NDIRECT := a]\<rparr>) t) ip) = (i_addrs (inode_at s ip))[NDIRECT := a]"
        "fs_view t a = replicate BSIZE 0"
        using alloc_direct [OF assms(1) r2 _ z] by auto
      have "get32 (4 * ?m) (replicate BSIZE 0) = 0" using m by (intro get32_zeros) (simp add: NINDIRECT_def BSIZE_def)
      then show thesis using that [OF t(3)] t len z dev by (simp add: upd_inode_def)
    next
      case nz: False
      then have "get32 (4 * ?m) (fs_view s (i_addrs (inode_at s ip) ! NDIRECT)) = 0" using True k by (simp add: faddr_def)
      then show thesis using that [of s] nz file_step_weaken [OF file_step_refl [OF assms(1)], of 1 2] by simp
    qed
    have f1: "file_txn s1 ip" by (rule file_step_txn [OF assms(1) s1(1)])
    have ft: "ftxn s 2 s1" "nfree (sb s) (fs_view s) \<le> nfree (sb s) (fs_view s1) + 1" using s1(1) by (auto simp: file_step_def ext_step_def)
    note ff = ftxn_facts [OF ft(1)]
    have r: "room 4 s1" "0 < nfree (sb s1) (fs_view s1)" using ff(5) [of 4] assms(2,4) ff(3) ft(2) by auto
    let ?ib = "i_addrs (inode_at s1 ip) ! NDIRECT"
    obtain bp s2 a s3 t where 2: "bread 1 ?ib s1 = Done (bp, s2)" "b_data (bufs s2 ! bp) = fs_view s1 ?ib" "icache s2 = icache s1" "balloc 1 s2 = Done (a, s3)"
      "a \<noteq> 0" "obind (log_write bp (set_data bp (put32 (4 * ?m) a (b_data (bufs s3 ! bp))) s3)) (brelse bp) = Done t"
      "file_step s1 ip 1 3 t" "icache t = icache s1" "get32 (4 * ?m) (fs_view t ?ib) = a"
      by (rule alloc_indirect [OF f1 r m refl s1(2,3)])
    have dev1: "i_dev (inode_at s1 ip) = 1" using file_okD(3) [OF file_txnD(6) [OF f1]] .
    obtain u where u: "log_write bp (set_data bp (put32 (4 * ?m) a (b_data (bufs s3 ! bp))) s3) = Done u" "brelse bp u = Done t"
      using 2(6) by (auto simp: obind_eq_Done_iff)
    have "bmap ip (of_nat k) s = Done (a, t)"
      using k bmap_index [OF assms(3)] run 2(1-5) s1(3) dev1 u by (simp add: bmap_def Let_def)
    moreover have "faddr (fs_view t) (inode_at t ip) k = a" using k 2(8,9) s1(2) by (simp add: faddr_def)
    ultimately show thesis using that [of t] 2(5) file_step_weaken [OF file_step_trans [OF assms(1) s1(1) 2(7)], of 2 5] by simp
  qed
qed

section \<open>Reading\<close>

definition fbytes :: "(uint \<Rightarrow> block) \<Rightarrow> inode \<Rightarrow> nat \<Rightarrow> nat \<Rightarrow> uchar list" where
  "fbytes V i q n = map (fbyte V i) [q..<q + n]"

lemma length_fbytes [simp]: "length (fbytes V i q n) = n"
  by (simp add: fbytes_def)

lemma fbytes_append: "fbytes V i q m @ fbytes V i (q + m) n = fbytes V i q (m + n)"
  using upt_add_eq_append [of q "q + m" n] by (simp add: fbytes_def add.assoc)

lemma block_index: "unat (off div of_nat BSIZE :: uint) = unat off div BSIZE" "off div of_nat BSIZE = (of_nat (unat off div BSIZE) :: uint)"
proof -
  show 1: "unat (off div of_nat BSIZE :: uint) = unat off div BSIZE" by (simp add: unat_div BSIZE_def)
  show "off div of_nat BSIZE = (of_nat (unat off div BSIZE) :: uint)" unfolding 1 [symmetric] by simp
qed

lemma same_block:
  assumes "q mod BSIZE + n \<le> BSIZE" "q \<le> p" "p < q + n"
  shows "p div BSIZE = q div BSIZE" "p mod BSIZE = q mod BSIZE + (p - q)"
proof -
  have "p = q div BSIZE * BSIZE + (q mod BSIZE + (p - q))" using assms(2) by (metis add.assoc div_mult_mod_eq le_add_diff_inverse)
  moreover have "q mod BSIZE + (p - q) < BSIZE" using assms by linarith
  ultimately show "p div BSIZE = q div BSIZE" "p mod BSIZE = q mod BSIZE + (p - q)"
    by (metis div_mult_self3 div_less add.commute add_0 BSIZE_def less_nat_zero_code not_gr_zero, metis mod_mult_self3 mod_less)
qed

lemma fbytes_in_block:
  assumes "q mod BSIZE + n \<le> BSIZE" "faddr V i (q div BSIZE) \<noteq> 0" "length (V (faddr V i (q div BSIZE))) = BSIZE"
  shows "fbytes V i q n = take n (drop (q mod BSIZE) (V (faddr V i (q div BSIZE))))"
proof (rule nth_equalityI)
  show "length (fbytes V i q n) = length (take n (drop (q mod BSIZE) (V (faddr V i (q div BSIZE)))))" using assms by simp
  fix l assume "l < length (fbytes V i q n)"
  then have l: "l < n" by simp
  then have "(q + l) div BSIZE = q div BSIZE" "(q + l) mod BSIZE = q mod BSIZE + l" using same_block [OF assms(1), of "q + l"] by auto
  then show "fbytes V i q n ! l = take n (drop (q mod BSIZE) (V (faddr V i (q div BSIZE)))) ! l"
    using l assms by (simp add: fbytes_def fbyte_def)
qed

lemma readi_chunk_spec:
  assumes "file_txn s ip" "room 1 s" "unat off div BSIZE < MAXFILE" "faddr (fs_view s) (inode_at s ip) (unat off div BSIZE) \<noteq> 0"
    and "unat off mod BSIZE + unat m \<le> BSIZE"
  obtains t where "readi_chunk ip off m s = Done (fbytes (fs_view s) (inode_at s ip) (unat off) (unat m), t)" and "txn_to s (fs_view s) 0 t"
proof -
  let ?a = "faddr (fs_view s) (inode_at s ip) (unat off div BSIZE)"
  obtain s1 where 1: "bmap ip (of_nat (unat off div BSIZE)) s = Done (?a, s1)" "txn_to s (fs_view s) 0 s1"
    by (rule bmap_hit [OF assms(1-4)])
  have f1: "file_txn s1 ip" by (rule file_step_txn [OF assms(1) txn_to_file_step [OF assms(1) 1(2)]])
  have v: "icache s1 = icache s" "fs_view s1 = fs_view s" "heldB s1 = heldB s" using txn_to_sb(2) [OF 1(2)] 1(2) by (auto simp: txn_to_def)
  note d = file_txnD [OF f1]
  have fb: "?a \<in> fblocks (fs_view s1) (inode_at s1 ip)" unfolding v by (rule faddr_fblocks [OF assms(3,4)])
  have ds: "unat ?a < disksize s1" using data_logged_ok [OF d(2) file_okD(1) [OF d(6) fb]] by (simp add: logged_ok_def)
  have r: "room (Suc 0) s1" using room_txn_to [OF 1(2), of 1] assms(2) by simp
  have nh: "?a \<notin> heldB s1" using d(7) fb by blast
  obtain bp s2 t where 2: "bread 1 ?a s1 = Done (bp, s2)" "b_data (bufs s2 ! bp) = fs_view s1 ?a" "brelse bp s2 = Done t" "txn_to s1 (fs_view s1) 0 t"
    by (rule read_step [OF d(1) r ds nh], rule that, assumption+)
  have dev: "i_dev (inode_at s1 ip) = 1" by (rule file_okD(3) [OF d(6)])
  have len: "length (fs_view s ?a) = BSIZE" by (rule view_BSIZE [OF file_txnD(1) [OF assms(1)]])
  have "readi_chunk ip off m s = Done (fbytes (fs_view s) (inode_at s ip) (unat off) (unat m), t)"
    using 1(1) 2(1-3) dev v(2) fbytes_in_block [where i = "inode_at s ip", OF assms(5,4) len] by (simp add: readi_chunk_def Let_def block_index(2) off_mod_def)
  moreover have "txn_to s (fs_view s) 0 t" using txn_to_trans [OF 1(2) 2(4)] v(2) by simp
  ultimately show thesis by (rule that)
qed

text \<open>The chunks the loops move: they stay in a block, make progress and do not pass the end.\<close>

lemma chunk_facts:
  assumes "tot < n"
  shows "unat off mod BSIZE + unat (chunk tot off n) \<le> BSIZE" "0 < unat (chunk tot off n)" "unat (chunk tot off n) \<le> unat n - unat tot"
    "unat (tot + chunk tot off n) = unat tot + unat (chunk tot off n)"
proof -
  have m: "unat off mod BSIZE < BSIZE" by (simp add: BSIZE_def)
  have u: "unat (of_nat (BSIZE - off_mod off) :: uint) = BSIZE - off_mod off" by (rule unat_of_nat_uint) (simp add: BSIZE_def)
  have d: "unat (n - tot) = unat n - unat tot" using assms by (simp add: unat_sub word_less_nat_alt word_le_nat_alt)
  have c: "unat (chunk tot off n) = min (unat n - unat tot) (BSIZE - unat off mod BSIZE)"
    unfolding chunk_def min_def using u d by (simp add: word_le_nat_alt off_mod_def)
  show "unat off mod BSIZE + unat (chunk tot off n) \<le> BSIZE" "0 < unat (chunk tot off n)" "unat (chunk tot off n) \<le> unat n - unat tot"
    using c m assms by (auto simp: word_less_nat_alt)
  then show "unat (tot + chunk tot off n) = unat tot + unat (chunk tot off n)"
    using unat_uint_less [of n] by (intro unat_add_uint) simp
qed

lemma readi_loop_spec:
  assumes "file_txn s ip" "room 1 s" "tot \<le> n" "unat off + (unat n - unat tot) \<le> MAXFILE * BSIZE" "unat n - unat tot < fuel"
    and "\<And>q. unat off \<le> q \<Longrightarrow> q < unat off + (unat n - unat tot) \<Longrightarrow> faddr (fs_view s) (inode_at s ip) (q div BSIZE) \<noteq> 0"
  shows "\<exists>t. readi_loop fuel ip tot off n dst s = Done (dst @ fbytes (fs_view s) (inode_at s ip) (unat off) (unat n - unat tot), t) \<and> txn_to s (fs_view s) 0 t"
  using assms
proof (induction fuel arbitrary: tot off dst s)
  case (Suc fuel)
  note d = file_txnD [OF Suc.prems(1)]
  show ?case
  proof (cases "tot < n")
    case True
    let ?c = "chunk tot off n" and ?i = "inode_at s ip" and ?V = "fs_view s"
    note c = chunk_facts [OF True, of off]
    have le: "unat tot < unat n" using True by (simp add: word_less_nat_alt)
    have k: "unat off div BSIZE < MAXFILE" using Suc.prems(4) le by (intro less_mult_imp_div_less) simp
    obtain t where t: "readi_chunk ip off ?c s = Done (fbytes ?V ?i (unat off) (unat ?c), t)" "txn_to s ?V 0 t"
      by (rule readi_chunk_spec [OF Suc.prems(1,2) k _ c(1)]) (use Suc.prems(6) [of "unat off"] le in auto)
    have f: "file_txn t ip" by (rule file_step_txn [OF Suc.prems(1) txn_to_file_step [OF Suc.prems(1) t(2)]])
    have v: "icache t = icache s" "fs_view t = ?V" using txn_to_sb(2) [OF t(2)] t(2) by (auto simp: txn_to_def)
    have "MAXFILE * BSIZE < 2 ^ 32" by (simp add: MAXFILE_def NDIRECT_def NINDIRECT_def BSIZE_def)
    then have o: "unat (off + ?c) = unat off + unat ?c" using Suc.prems(4) c(3) by (intro unat_add_uint) simp
    have tn: "tot + ?c \<le> n" using c(3,4) le by (simp add: word_le_nat_alt)
    have rest: "unat n - unat (tot + ?c) = unat n - unat tot - unat ?c" using c(4) by simp
    have r: "room 1 t" using room_txn_to [OF t(2), of 1] Suc.prems(2) by simp
    have "\<exists>u. readi_loop fuel ip (tot + ?c) (off + ?c) n (dst @ fbytes ?V ?i (unat off) (unat ?c)) t
        = Done ((dst @ fbytes ?V ?i (unat off) (unat ?c)) @ fbytes (fs_view t) (inode_at t ip) (unat (off + ?c)) (unat n - unat (tot + ?c)), u)
        \<and> txn_to t (fs_view t) 0 u"
    proof (rule Suc.IH [OF f r tn])
      show "unat (off + ?c) + (unat n - unat (tot + ?c)) \<le> MAXFILE * BSIZE" using Suc.prems(4) c(3) o rest by linarith
      show "unat n - unat (tot + ?c) < fuel" using Suc.prems(5) c(2,3) rest by linarith
      fix q assume "unat (off + ?c) \<le> q" "q < unat (off + ?c) + (unat n - unat (tot + ?c))"
      then show "faddr (fs_view t) (inode_at t ip) (q div BSIZE) \<noteq> 0" unfolding v using o rest c(3) by (intro Suc.prems(6)) linarith+
    qed
    moreover have "fbytes ?V ?i (unat off) (unat ?c) @ fbytes ?V ?i (unat off + unat ?c) (unat n - unat tot - unat ?c) = fbytes ?V ?i (unat off) (unat n - unat tot)"
      unfolding fbytes_append using c(3) by (intro arg_cong [where f = "fbytes ?V ?i (unat off)"]) linarith
    ultimately obtain u where u: "readi_loop fuel ip (tot + ?c) (off + ?c) n (dst @ fbytes ?V ?i (unat off) (unat ?c)) t
        = Done (dst @ fbytes ?V ?i (unat off) (unat n - unat tot), u)" "txn_to t ?V 0 u"
      unfolding v o rest append_assoc by metis
    then show ?thesis using True t(1) txn_to_trans [OF t(2) u(2)] by (auto simp: readi_loop.simps(2))
  next
    case False
    then have "tot = n" using Suc.prems(3) by simp
    then show ?thesis using txn_to_refl [OF d(1)] by (auto simp: fbytes_def readi_loop.simps(2))
  qed
qed simp

lemma readi_spec:
  assumes "file_txn s ip" "room 1 s" "i_type (inode_at s ip) \<noteq> T_DEV" "off \<le> i_size (inode_at s ip)" "unat off + unat n < 2 ^ 32"
    and "unat (i_size (inode_at s ip)) \<le> MAXFILE * BSIZE"
    and "\<And>q. q < unat (i_size (inode_at s ip)) \<Longrightarrow> faddr (fs_view s) (inode_at s ip) (q div BSIZE) \<noteq> 0"
    and m: "m = min (unat n) (unat (i_size (inode_at s ip)) - unat off)"
  shows "\<exists>t. readi devsw ip off n s = Done (int m, fbytes (fs_view s) (inode_at s ip) (unat off) m, t) \<and> txn_to s (fs_view s) 0 t"
proof -
  let ?z = "i_size (inode_at s ip)"
  let ?n = "if ?z < off + n then ?z - off else n"
  have le: "unat off \<le> unat ?z" using assms(4) by (simp add: word_le_nat_alt)
  have on: "unat (off + n) = unat off + unat n" using assms(5) by (rule unat_add_uint)
  have ok: "\<not> (?z < off \<or> off + n < off)" using le on by (simp add: word_less_nat_alt)
  have d: "unat (?z - off) = unat ?z - unat off" using assms(4) by (simp add: unat_sub)
  have un: "unat ?n = m" using d on le unfolding m by (auto simp: word_less_nat_alt)
  have "m \<le> 140 * 512" using un assms(6) le m by (simp add: MAXFILE_def NDIRECT_def NINDIRECT_def BSIZE_def)
  then have si: "sint ?n = int m" using un sint_uint32 [of ?n] by (simp add: uint_nat)
  have "\<exists>t. readi_loop (unat ?n + 1) ip 0 off ?n [] s = Done ([] @ fbytes (fs_view s) (inode_at s ip) (unat off) (unat ?n - unat (0 :: uint)), t) \<and> txn_to s (fs_view s) 0 t"
  proof (rule readi_loop_spec [OF assms(1,2)])
    show "unat off + (unat ?n - unat (0 :: uint)) \<le> MAXFILE * BSIZE" using un assms(6) le m by simp
    fix q assume "unat off \<le> q" "q < unat off + (unat ?n - unat (0 :: uint))"
    then show "faddr (fs_view s) (inode_at s ip) (q div BSIZE) \<noteq> 0" using un le m by (intro assms(7)) auto
  qed auto
  then obtain t where t: "readi_loop (unat ?n + 1) ip 0 off ?n [] s = Done (fbytes (fs_view s) (inode_at s ip) (unat off) m, t)" "txn_to s (fs_view s) 0 t"
    using un by auto
  have "readi devsw ip off n s = obind (readi_loop (unat ?n + 1) ip 0 off ?n [] s) (\<lambda>(dst, s). Done (sint ?n, dst, s))"
    using assms(3) ok by (simp add: readi_def Let_def)
  then show ?thesis using t si by simp
qed

section \<open>Writing\<close>

definition put_bytes :: "(nat \<Rightarrow> uchar) \<Rightarrow> nat \<Rightarrow> uchar list \<Rightarrow> nat \<Rightarrow> uchar" where
  "put_bytes f q bs p = (if q \<le> p \<and> p < q + length bs then bs ! (p - q) else f p)"

lemma put_bytes_Nil [simp]: "put_bytes f q [] = f"
  by (rule ext) (auto simp: put_bytes_def)

lemma put_bytes_append: "put_bytes (put_bytes f q bs) (q + length bs) cs = put_bytes f q (bs @ cs)"
  by (rule ext) (auto simp: put_bytes_def nth_append)

text \<open>A step that also writes \<open>bs\<close> at \<open>q\<close>.\<close>

definition write_step :: "'a fstate_scheme \<Rightarrow> nat \<Rightarrow> nat \<Rightarrow> nat \<Rightarrow> nat \<Rightarrow> uchar list \<Rightarrow> 'a fstate_scheme \<Rightarrow> bool" where
  "write_step s ip n k q bs t \<longleftrightarrow> ext_step s ip n k t
     \<and> (\<forall>p<MAXFILE * BSIZE. fbyte (fs_view t) (inode_at t ip) p = put_bytes (fbyte (fs_view s) (inode_at s ip)) q bs p)
     \<and> (\<forall>p. q \<le> p \<and> p < q + length bs \<longrightarrow> faddr (fs_view t) (inode_at t ip) (p div BSIZE) \<noteq> 0)"

lemma write_step_trans:
  assumes "file_txn s ip" "write_step s ip n k q bs t" "write_step t ip m l (q + length bs) cs u" "q + length bs + length cs \<le> MAXFILE * BSIZE"
  shows "write_step s ip (n + m) (k + l) q (bs @ cs) u"
proof -
  have e: "ext_step s ip n k t" "ext_step t ip m l u" using assms(2,3) by (auto simp: write_step_def)
  have "fbyte (fs_view u) (inode_at u ip) p = put_bytes (fbyte (fs_view s) (inode_at s ip)) q (bs @ cs) p" if "p < MAXFILE * BSIZE" for p
    using assms(2,3) that unfolding write_step_def put_bytes_append [symmetric] by (auto simp: put_bytes_def)
  moreover have "faddr (fs_view u) (inode_at u ip) (p div BSIZE) \<noteq> 0" if p: "q \<le> p" "p < q + length (bs @ cs)" for p
  proof (cases "p < q + length bs")
    case True
    have k: "p div BSIZE < MAXFILE" using p assms(4) by (intro less_mult_imp_div_less) simp
    have "faddr (fs_view t) (inode_at t ip) (p div BSIZE) \<noteq> 0" using True p(1) assms(2) by (auto simp: write_step_def)
    then show ?thesis using e(2) k by (simp add: ext_step_def extends_def)
  qed (use p assms(3) in \<open>auto simp: write_step_def\<close>)
  ultimately show ?thesis using ext_step_trans [OF assms(1) e] by (simp add: write_step_def)
qed

text \<open>Changing the data of a block of the file.\<close>

lemma extends_data:
  assumes "file_ok g V i" "k < MAXFILE" "faddr V i k = a" "a \<noteq> 0" "\<forall>c. unat c < unat (sb_size g) \<longrightarrow> BBLOCK c g \<noteq> a"
  shows "extends g V i (V(a := d)) i" and "\<And>l. l < MAXFILE \<Longrightarrow> faddr (V(a := d)) i l = faddr V i l" and "nfree g (V(a := d)) = nfree g V"
proof -
  have ni: "a \<noteq> i_addrs i ! NDIRECT" using file_okD(5) [OF assms(1,2)] assms(3,4) by simp
  show f: "faddr (V(a := d)) i l = faddr V i l" if "l < MAXFILE" for l using ni by (simp add: faddr_def)
  then have fb: "fblocks (V(a := d)) i = fblocks V i" by (auto simp: fblocks_def)
  have us: "used g (V(a := d)) c = used g V c" if "unat c < unat (sb_size g)" for c using assms(5) that by (simp add: used_def)
  have ad: "is_data g a" "a \<in> fblocks V i" using file_okD(1) [OF assms(1)] faddr_fblocks [OF assms(2), of V i] assms(3,4) by auto
  have "file_ok g (V(a := d)) i" using assms(1) f fb us is_data_size(1) unfolding file_ok_def by auto
  then show "extends g V i (V(a := d)) i" unfolding extends_def using f fb us ad by auto
  show "nfree g (V(a := d)) = nfree g V" using us unfolding nfree_def by (intro arg_cong [of _ _ card]) auto
qed

lemma fbyte_data:
  assumes "file_ok g V i" "q div BSIZE < MAXFILE" "faddr V i (q div BSIZE) = a" "a \<noteq> 0" "length (V a) = BSIZE" "q mod BSIZE + length bs \<le> BSIZE"
    and "p < MAXFILE * BSIZE" and "\<And>l. l < MAXFILE \<Longrightarrow> faddr (V(a := d)) i l = faddr V i l"
    and d: "d = take (q mod BSIZE) (V a) @ bs @ drop (q mod BSIZE + length bs) (V a)"
  shows "fbyte (V(a := d)) i p = put_bytes (fbyte V i) q bs p"
proof -
  have k: "p div BSIZE < MAXFILE" using assms(7) by (simp add: less_mult_imp_div_less)
  show ?thesis
  proof (cases "p div BSIZE = q div BSIZE")
    case True
    have "q = q div BSIZE * BSIZE + q mod BSIZE" "p = q div BSIZE * BSIZE + p mod BSIZE" unfolding True [symmetric] by simp_all (simp add: True)
    then have pq: "q \<le> p \<longleftrightarrow> q mod BSIZE \<le> p mod BSIZE" "p < q + length bs \<longleftrightarrow> p mod BSIZE < q mod BSIZE + length bs" "q \<le> p \<Longrightarrow> p - q = p mod BSIZE - q mod BSIZE"
      by linarith+
    have "p mod BSIZE < BSIZE" by (simp add: BSIZE_def)
    then have "d ! (p mod BSIZE) = (if q \<le> p \<and> p < q + length bs then bs ! (p - q) else V a ! (p mod BSIZE))"
      unfolding d using assms(5,6) pq by (auto simp: nth_append min_def)
    then show ?thesis using True assms(3,4,8) k by (simp add: fbyte_def put_bytes_def)
  next
    case False
    then have "\<not> (q \<le> p \<and> p < q + length bs)" using same_block(1) [OF assms(6), of p] by blast
    moreover have "faddr V i (p div BSIZE) \<noteq> a" using False file_okD(6) [OF assms(1,2) k] assms(3,4) by metis
    ultimately show ?thesis using assms(8) [OF k] by (auto simp: fbyte_def put_bytes_def Let_def)
  qed
qed

lemma writei_chunk_spec:
  assumes "file_txn s ip" "room 7 s" "2 \<le> nfree (sb s) (fs_view s)" "unat off div BSIZE < MAXFILE" "unat off mod BSIZE + length bs \<le> BSIZE"
  obtains t where "writei_chunk ip off bs s = Done t" and "write_step s ip 2 6 (unat off) bs t"
proof -
  have r6: "room 6 s" using room_weaken [OF assms(2)] by simp
  let ?q = "unat off"
  obtain s1 where 1: "bmap ip (of_nat (?q div BSIZE)) s = Done (faddr (fs_view s1) (inode_at s1 ip) (?q div BSIZE), s1)" "file_step s ip 2 5 s1"
    "faddr (fs_view s1) (inode_at s1 ip) (?q div BSIZE) \<noteq> 0"
    by (rule bmap_spec [OF assms(1) r6 assms(4,3)])
  have f1: "file_txn s1 ip" by (rule file_step_txn [OF assms(1) 1(2)])
  note d = file_txnD [OF f1]
  let ?V = "fs_view s1" and ?i = "inode_at s1 ip" and ?g = "sb s1"
  let ?a = "faddr ?V ?i (?q div BSIZE)"
  let ?f = "\<lambda>d. take (?q mod BSIZE) d @ bs @ drop (?q mod BSIZE + length bs) d"
  have fb: "?a \<in> fblocks ?V ?i" by (rule faddr_fblocks [OF assms(4) 1(3)])
  have ad: "is_data ?g ?a" by (rule file_okD(1) [OF d(6) fb])
  have lo: "logged_ok s1 ?a" by (rule data_logged_ok [OF d(2) ad])
  have nh: "?a \<notin> heldB s1" using d(7) fb by blast
  have ft: "ftxn s 5 s1" using 1(2) by (simp add: file_step_def ext_step_def)
  have r: "room (Suc 1) s1" using ftxn_facts(5) [OF ft, of 2] assms(2) by (simp add: numeral_2_eq_2)
  have fl: "length (?f d) = BSIZE" if "length d = BSIZE" for d using that assms(5) by (auto simp: min_def)
  obtain t where t: "log_update ?a ?f s1 = Done t" "txn_to s1 (?V(?a := ?f (?V ?a))) 1 t"
    by (rule update_step [where f = ?f, OF d(1) r lo nh], erule fl, rule that, assumption+)
  have ds: "unat ?a < disksize s1" using lo by (simp add: logged_ok_def)
  obtain j s2 where j: "bread 1 ?a s1 = Done (j, s2)"
    by (rule read_step [OF d(1) r ds nh], rule that, assumption)
  have dev: "i_dev ?i = 1" by (rule file_okD(3) [OF d(6)])
  have run: "writei_chunk ip off bs s = Done t"
    using 1(1) t(1) j dev by (simp add: writei_chunk_def log_update_bread Let_def block_index(2) off_mod_def)
  have bb: "\<forall>c. unat c < unat (sb_size ?g) \<longrightarrow> BBLOCK c ?g \<noteq> ?a"
    using BBLOCK_is_bitmap [OF d(2)] bitmap_not_data ad by metis
  note ex = extends_data [OF d(6) assms(4) refl 1(3) bb, where d = "?f (?V ?a)"]
  have v: "icache t = icache s1" "fs_view t = ?V(?a := ?f (?V ?a))" using txn_to_sb(2) [OF t(2)] t(2) by (auto simp: txn_to_def)
  have "ftxn s1 1 t" using txn_to_ftxn [OF t(2), of "icache t"] by simp
  then have e1: "ext_step s1 ip 0 1 t" unfolding ext_step_def v using ex(1,3) by simp
  have len: "length (?V ?a) = BSIZE" by (rule view_BSIZE [OF d(1)])
  have bt: "fbyte (fs_view t) (inode_at t ip) p = put_bytes (fbyte ?V ?i) ?q bs p" if "p < MAXFILE * BSIZE" for p
    unfolding v by (rule fbyte_data [OF d(6) assms(4) refl 1(3) len assms(5) that ex(2) refl])
  have fs: "fbyte ?V ?i p = fbyte (fs_view s) (inode_at s ip) p" if "p < MAXFILE * BSIZE" for p using 1(2) that by (simp add: file_step_def)
  have "ext_step s ip 2 6 t" using ext_step_trans [OF assms(1) _ e1, of 2 5] 1(2) by (simp add: file_step_def)
  moreover have "faddr (fs_view t) (inode_at t ip) (p div BSIZE) \<noteq> 0" if "?q \<le> p" "p < ?q + length bs" for p
    unfolding same_block(1) [OF assms(5) that] v ex(2) [OF assms(4)] by (rule 1(3))
  ultimately have "write_step s ip 2 6 ?q bs t" using bt fs by (simp add: write_step_def put_bytes_def)
  with run show thesis by (rule that)
qed

text \<open>Writing at most \<open>j\<close> blocks.\<close>

lemma write_step_refl: "file_txn s ip \<Longrightarrow> write_step s ip 0 0 q [] s"
  using file_step_refl [of s ip] by (auto simp: write_step_def file_step_def)

lemma write_step_weaken: "write_step s ip n k q bs t \<Longrightarrow> n \<le> m \<Longrightarrow> k \<le> l \<Longrightarrow> write_step s ip m l q bs t"
  unfolding write_step_def using ext_step_weaken by blast

lemma chunk_ends_block:
  assumes "tot < n" "unat (chunk tot off n) < unat n - unat tot"
  shows "(unat off + unat (chunk tot off n)) div BSIZE = Suc (unat off div BSIZE)"
proof -
  have m: "unat off mod BSIZE < BSIZE" by (simp add: BSIZE_def)
  have u: "unat (of_nat (BSIZE - off_mod off) :: uint) = BSIZE - off_mod off" by (rule unat_of_nat_uint) (simp add: BSIZE_def)
  have "unat (n - tot) = unat n - unat tot" using assms(1) by (simp add: unat_sub word_less_nat_alt word_le_nat_alt)
  then have "unat (chunk tot off n) = BSIZE - unat off mod BSIZE"
    using assms(2) u unfolding chunk_def min_def by (simp add: off_mod_def split: if_splits)
  then have "unat off + unat (chunk tot off n) = Suc (unat off div BSIZE) * BSIZE"
    using m div_mult_mod_eq [of "unat off" BSIZE] unfolding mult_Suc by linarith
  then show ?thesis by (simp add: BSIZE_def)
qed

lemma writei_loop_spec:
  assumes "file_txn s ip" "room (6 * j + 1) s" "2 * j \<le> nfree (sb s) (fs_view s)" "tot \<le> n" "unat off + (unat n - unat tot) \<le> MAXFILE * BSIZE"
    and "unat n - unat tot < fuel" "tot < n \<Longrightarrow> unat off + (unat n - unat tot) \<le> (unat off div BSIZE + j) * BSIZE" "unat n \<le> length src"
  shows "\<exists>t. writei_loop fuel ip src tot off n s = Done (off + (n - tot), t)
    \<and> write_step s ip (2 * j) (6 * j) (unat off) (take (unat n - unat tot) (drop (unat tot) src)) t"
  using assms(1-7)
proof (induction fuel arbitrary: tot off j s)
  case (Suc fuel)
  note d = file_txnD [OF Suc.prems(1)]
  show ?case
  proof (cases "tot < n")
    case True
    let ?c = "chunk tot off n" and ?r = "unat n - unat tot"
    let ?bs = "take (unat ?c) (drop (unat tot) src)"
    note c = chunk_facts [OF True, of off]
    have le: "unat tot < unat n" using True by (simp add: word_less_nat_alt)
    have "j \<noteq> 0"
    proof
      assume "j = 0"
      then have "unat off + ?r \<le> unat off div BSIZE * BSIZE" using Suc.prems(7) [OF True] by simp
      then show False using le div_times_less_eq_dividend [of "unat off" BSIZE] by linarith
    qed
    then obtain l where j: "j = Suc l" using not0_implies_Suc by blast
    have k: "unat off div BSIZE < MAXFILE" using Suc.prems(5) le by (intro less_mult_imp_div_less) simp
    have r7: "room 7 s" "2 \<le> nfree (sb s) (fs_view s)" using room_weaken [OF Suc.prems(2), of 7] Suc.prems(3) j by auto
    have lb: "length ?bs = unat ?c" using c(3) assms(8) by simp
    obtain t where t: "writei_chunk ip off ?bs s = Done t" "write_step s ip 2 6 (unat off) ?bs t"
      by (rule writei_chunk_spec [OF Suc.prems(1) r7 k, of ?bs]) (use c(1) lb in auto)
    have e: "ext_step s ip 2 6 t" "ftxn s 6 t" "nfree (sb s) (fs_view s) \<le> nfree (sb s) (fs_view t) + 2"
      using t(2) by (auto simp: write_step_def ext_step_def)
    note ff = ftxn_facts [OF e(2)]
    have f: "file_txn t ip" by (rule ext_step_txn [OF Suc.prems(1) e(1)])
    have r: "room (6 * l + 1) t" "2 * l \<le> nfree (sb t) (fs_view t)" using ff(5) [of "6 * l + 1"] Suc.prems(2,3) e(3) ff(3) j by (auto simp: add.assoc)
    have "MAXFILE * BSIZE < 2 ^ 32" by (simp add: MAXFILE_def NDIRECT_def NINDIRECT_def BSIZE_def)
    then have o: "unat (off + ?c) = unat off + unat ?c" using Suc.prems(5) c(3) by (intro unat_add_uint) simp
    have tn: "tot + ?c \<le> n" using c(3,4) le by (simp add: word_le_nat_alt)
    have rest: "unat n - unat (tot + ?c) = ?r - unat ?c" using c(4) by simp
    have "\<exists>u. writei_loop fuel ip src (tot + ?c) (off + ?c) n t = Done (off + ?c + (n - (tot + ?c)), u)
      \<and> write_step t ip (2 * l) (6 * l) (unat (off + ?c)) (take (unat n - unat (tot + ?c)) (drop (unat (tot + ?c)) src)) u"
    proof (rule Suc.IH [OF f r tn])
      show "unat (off + ?c) + (unat n - unat (tot + ?c)) \<le> MAXFILE * BSIZE" using Suc.prems(5) c(3) o rest by linarith
      show "unat n - unat (tot + ?c) < fuel" using Suc.prems(6) c(2,3) rest by linarith
      assume "tot + ?c < n"
      then have lt: "unat ?c < ?r" using c(4) by (simp add: word_less_nat_alt)
      have "unat (off + ?c) div BSIZE = Suc (unat off div BSIZE)" unfolding o by (rule chunk_ends_block [OF True lt])
      then show "unat (off + ?c) + (unat n - unat (tot + ?c)) \<le> (unat (off + ?c) div BSIZE + l) * BSIZE"
        using Suc.prems(7) [OF True] c(3) o rest j by simp
    qed
    moreover have "off + ?c + (n - (tot + ?c)) = off + (n - tot)" by simp
    ultimately obtain u where u: "writei_loop fuel ip src (tot + ?c) (off + ?c) n t = Done (off + (n - tot), u)"
      "write_step t ip (2 * l) (6 * l) (unat off + length ?bs) (take (?r - unat ?c) (drop (unat tot + unat ?c) src)) u"
      unfolding o c(4) lb diff_diff_left by metis
    have app: "?bs @ take (?r - unat ?c) (drop (unat tot + unat ?c) src) = take ?r (drop (unat tot) src)"
      using take_add [of "unat ?c" "?r - unat ?c" "drop (unat tot) src"] le_add_diff_inverse [OF c(3)] by (simp add: add.commute)
    have "length (take (?r - unat ?c) (drop (unat tot + unat ?c) src)) \<le> ?r - unat ?c" by simp
    then have "unat off + length ?bs + length (take (?r - unat ?c) (drop (unat tot + unat ?c) src)) \<le> MAXFILE * BSIZE"
      using Suc.prems(5) c(3) lb by linarith
    from write_step_trans [OF Suc.prems(1) t(2) u(2) this]
    have "write_step s ip (2 * j) (6 * j) (unat off) (take ?r (drop (unat tot) src)) u" unfolding app j by simp
    then show ?thesis using True t(1) u(1) by (auto simp: writei_loop.simps(2))
  next
    case False
    then have "tot = n" using Suc.prems(4) by simp
    then show ?thesis using write_step_weaken [OF write_step_refl [OF Suc.prems(1)], of "2 * j" "6 * j"] by (auto simp: writei_loop.simps(2))
  qed
qed simp

text \<open>What a file does not depend on: its size, and the blocks that are neither data nor bitmap.\<close>

lemma file_size_simps [simp]:
  "faddr V (i\<lparr>i_size := z\<rparr>) = faddr V i" "fblocks V (i\<lparr>i_size := z\<rparr>) = fblocks V i" "fbyte V (i\<lparr>i_size := z\<rparr>) = fbyte V i"
  "file_ok g V (i\<lparr>i_size := z\<rparr>) = file_ok g V i"
proof -
  show 1: "faddr V (i\<lparr>i_size := z\<rparr>) = faddr V i" by (rule ext) (simp add: faddr_def)
  show 2: "fblocks V (i\<lparr>i_size := z\<rparr>) = fblocks V i" by (simp add: fblocks_def 1)
  show "fbyte V (i\<lparr>i_size := z\<rparr>) = fbyte V i" by (rule ext) (simp add: fbyte_def 1)
  show "file_ok g V (i\<lparr>i_size := z\<rparr>) = file_ok g V i" by (simp add: file_ok_def 1 2)
qed

lemma file_txn_size [simp]: "file_txn (upd_inode ip (\<lambda>i. i\<lparr>i_size := z\<rparr>) s) ip = file_txn s ip"
  by (cases "ip < length (icache s)") (simp_all add: file_txn_def upd_inode_def held_ok_def)

lemma file_meta:
  assumes "layout s" "\<not> is_data (sb s) c" "\<not> is_bitmap (sb s) c" "file_ok (sb s) V i"
  shows "faddr (V(c := d)) i = faddr V i" "fbyte (V(c := d)) i q = (if q < MAXFILE * BSIZE then fbyte V i q else fbyte (V(c := d)) i q)"
    "unat b < unat (sb_size (sb s)) \<Longrightarrow> used (sb s) (V(c := d)) b = used (sb s) V b" "fblocks (V(c := d)) i = fblocks V i" "file_ok (sb s) (V(c := d)) i"
proof -
  note ok = file_okD [OF assms(4)]
  have ni: "c \<noteq> i_addrs i ! NDIRECT" if "i_addrs i ! NDIRECT \<noteq> 0" using ok(1) [of c] assms(2) that by (auto simp: fblocks_def)
  show f: "faddr (V(c := d)) i = faddr V i" by (rule ext) (use ni in \<open>auto simp: faddr_def\<close>)
  show fb: "fblocks (V(c := d)) i = fblocks V i" by (simp add: fblocks_def f)
  show us: "used (sb s) (V(c := d)) b = used (sb s) V b" if "unat b < unat (sb_size (sb s))" for b
    using BBLOCK_is_bitmap [OF assms(1) that] assms(3) by (auto simp: used_def)
  have "faddr V i (q div BSIZE) \<noteq> c" if "q < MAXFILE * BSIZE" "faddr V i (q div BSIZE) \<noteq> 0"
    using ok(1) [OF faddr_fblocks [OF _ that(2)]] assms(2) that(1) less_mult_imp_div_less by metis
  then show "fbyte (V(c := d)) i q = (if q < MAXFILE * BSIZE then fbyte V i q else fbyte (V(c := d)) i q)" by (auto simp: fbyte_def f Let_def)
  show "file_ok (sb s) (V(c := d)) i" using assms(4) us is_data_size(1) by (auto simp: file_ok_def f fb)
qed

lemma file_txn_meta:
  assumes "file_txn s ip" "txn_to s ((fs_view s)(c := d)) k t" "\<not> is_data (sb s) c" "\<not> is_bitmap (sb s) c"
  shows "file_txn t ip"
proof -
  note f = file_txnD [OF assms(1)]
  note m = file_meta [OF f(2) assms(3,4) f(6), where d = d]
  have t: "in_txn t" "fs_view t = (fs_view s)(c := d)" "heldB t = heldB s" using assms(2) by (auto simp: txn_to_def)
  note u = txn_to_sb [OF assms(2)]
  have l: "data_start (sb s) \<le> unat (sb_size (sb s))" using f(2) by (simp add: layout_def)
  have "held_ok t" using f(3) m(3) is_data_size(1) unfolding held_ok_def t u by auto
  moreover have "meta_used (sb t) (fs_view t)" using f(4) m(3) l unfolding meta_used_def t u by auto
  ultimately show ?thesis using f m(4,5) t u layout_txn_to [OF assms(2)] by (simp add: file_txn_def)
qed

text \<open>A file without holes: every byte below its size is in a block.\<close>

definition whole :: "'a fstate_scheme \<Rightarrow> nat \<Rightarrow> bool" where
  "whole s ip \<longleftrightarrow> unat (i_size (inode_at s ip)) \<le> MAXFILE * BSIZE
     \<and> (\<forall>q<unat (i_size (inode_at s ip)). faddr (fs_view s) (inode_at s ip) (q div BSIZE) \<noteq> 0)"

lemma writei_spec:
  assumes "file_txn s ip" "whole s ip" "i_type (inode_at s ip) \<noteq> T_DEV" "off \<le> i_size (inode_at s ip)" "unat off + unat n \<le> MAXFILE * BSIZE"
    and "unat n \<le> length src" "room (6 * j + 2) s" "2 * j \<le> nfree (sb s) (fs_view s)" "unat off + unat n \<le> (unat off div BSIZE + j) * BSIZE"
    and "unat (i_inum (inode_at s ip)) < unat (sb_ninodes (sb s))" "IBLOCK (i_inum (inode_at s ip)) (sb s) \<notin> heldB s"
  shows "\<exists>t. writei devsw ip src off n s = Done (int (unat n), t) \<and> file_txn t ip \<and> whole t ip
    \<and> unat (i_size (inode_at t ip)) = max (unat (i_size (inode_at s ip))) (unat off + unat n) \<and> i_type (inode_at t ip) = i_type (inode_at s ip)
    \<and> (\<forall>p<MAXFILE * BSIZE. fbyte (fs_view t) (inode_at t ip) p = put_bytes (fbyte (fs_view s) (inode_at s ip)) (unat off) (take (unat n) src) p)
    \<and> (\<forall>c. is_data (sb s) c \<and> used (sb s) (fs_view s) c \<and> c \<notin> fblocks (fs_view s) (inode_at s ip) \<longrightarrow> fs_view t c = fs_view s c)
    \<and> ftxn s (6 * j + 1) t \<and> sb t = sb s"
proof -
  note d = file_txnD [OF assms(1)]
  let ?i = "inode_at s ip" and ?V = "fs_view s"
  let ?z = "i_size ?i"
  have mx: "MAXFILE * BSIZE = 71680" by (simp add: MAXFILE_def NDIRECT_def NINDIRECT_def BSIZE_def)
  have on: "unat (off + n) = unat off + unat n" using assms(5) mx by (intro unat_add_uint) simp
  have le: "unat off \<le> unat ?z" using assms(4) by (simp add: word_le_nat_alt)
  have g: "\<not> (?z < off \<or> off + n < off)" "\<not> of_nat (MAXFILE * BSIZE) < off + n" using le on assms(5) mx by (auto simp: word_less_nat_alt)
  have "unat n \<le> 71680" using assms(5) mx by linarith
  then have "int (unat n) \<le> int 71680" by (simp only: of_nat_le_iff)
  then have si: "sint n = int (unat n)" unfolding sint_uint32 by simp
  have "\<exists>t. writei_loop (unat n + 1) ip src 0 off n s = Done (off + (n - 0), t)
    \<and> write_step s ip (2 * j) (6 * j) (unat off) (take (unat n - unat (0 :: uint)) (drop (unat (0 :: uint)) src)) t"
    by (rule writei_loop_spec [OF assms(1) room_weaken [OF assms(7)] assms(8)]) (use assms(5,6,9) in auto)
  then obtain t where t: "writei_loop (unat n + 1) ip src 0 off n s = Done (off + n, t)" "write_step s ip (2 * j) (6 * j) (unat off) (take (unat n) src) t"
    by auto
  have e: "ext_step s ip (2 * j) (6 * j) t" "ftxn s (6 * j) t" "extends (sb s) ?V ?i (fs_view t) (inode_at t ip)"
    using t(2) by (auto simp: write_step_def ext_step_def)
  note ff = ftxn_facts [OF e(2)]
  have ft: "file_txn t ip" by (rule ext_step_txn [OF assms(1) e(1)])
  have i: "inode_at t ip = ?i\<lparr>i_addrs := i_addrs (inode_at t ip)\<rparr>" by (rule extendsD(2) [OF e(3)])
  have sz: "i_size (inode_at t ip) = ?z" "i_inum (inode_at t ip) = i_inum ?i" "i_type (inode_at t ip) = i_type ?i"
    by (subst i, simp)+
  have no: "faddr (fs_view t) (inode_at t ip) (q div BSIZE) \<noteq> 0" if "q < max (unat ?z) (unat off + unat n)" for q
  proof (cases "q < unat ?z")
    case True
    then have "faddr ?V ?i (q div BSIZE) \<noteq> 0" "q div BSIZE < MAXFILE" using assms(2) by (auto simp: whole_def intro!: less_mult_imp_div_less)
    then show ?thesis using extendsD(5) [OF e(3)] by metis
  next
    case False
    then show ?thesis using t(2) le that assms(6) by (auto simp: write_step_def)
  qed
  have kp: "fs_view t c = ?V c" if "is_data (sb s) c" "used (sb s) ?V c" "c \<notin> fblocks ?V ?i" for c by (rule extendsD(3) [OF e(3) that])
  have mxz: "max (unat ?z) (unat off + unat n) \<le> MAXFILE * BSIZE" using assms(2,5) by (simp add: whole_def)
  have run: "writei devsw ip src off n s = (if 0 < n \<and> i_size (inode_at t ip) < off + n
      then obind (iupdate ip (upd_inode ip (\<lambda>i. i\<lparr>i_size := off + n\<rparr>) t)) (\<lambda>s. Done (sint n, s)) else Done (sint n, t))"
    using assms(3) g t(1) by (simp add: writei_def Let_def)
  show ?thesis
  proof (cases "?z < off + n")
    case False
    then have "unat off + unat n \<le> unat ?z" using on by (simp add: word_less_nat_alt)
    then show ?thesis
      using run False sz si ft no t(2) kp ftxn_weaken [OF e(2), of "6 * j + 1"] ff(3) mxz by (auto simp: whole_def write_step_def)
  next
    case True
    then have n0: "0 < n" using g(1) by (auto simp: word_gt_0)
    let ?t = "upd_inode ip (\<lambda>i. i\<lparr>i_size := off + n\<rparr>) t"
    note ftd = file_txnD [OF ft]
    have it: "inode_at ?t ip = (inode_at t ip)\<lparr>i_size := off + n\<rparr>" "fs_view ?t = fs_view t" "sb ?t = sb s" "heldB ?t = heldB s"
      using ftd(5) ff(2,3) by (simp_all add: upd_inode_def)
    have ft': "file_txn ?t ip" using ft by simp
    have "room (6 * j + 2) s" by (rule assms(7))
    then have r: "room (Suc 0) ?t" using ff(5) [of 2] room_weaken [of 2 t 1] by (simp add: upd_inode_def)
    have in1: "unat (i_inum (inode_at ?t ip)) < unat (sb_ninodes (sb ?t))" "IBLOCK (i_inum (inode_at ?t ip)) (sb ?t) \<notin> heldB ?t"
      unfolding it using assms(10,11) sz(2) by simp_all
    have dv: "i_dev (inode_at ?t ip) = 1" "length (i_addrs (inode_at ?t ip)) = NDIRECT + 1"
      using file_okD(3,4) [OF file_txnD(6) [OF ft']] by auto
    let ?c = "IBLOCK (i_inum (inode_at ?t ip)) (sb ?t)"
    let ?e = "put_dinode (i_inum (inode_at ?t ip)) (dinode_of (inode_at ?t ip)) (fs_view ?t ?c)"
    obtain u where u: "iupdate ip ?t = Done u" "txn_to ?t ((fs_view ?t)(?c := ?e)) 1 u"
      by (rule iupdate_spec [OF file_txnD(1) [OF ft'] r file_txnD(2) [OF ft'] in1(1) dv(1) in1(2) dv(2)])
    have cm: "\<not> is_data (sb ?t) ?c" "\<not> is_bitmap (sb ?t) ?c"
      using IBLOCK_ok(2) [OF file_txnD(2) [OF ft'] in1(1)] by (auto simp: is_data_def is_bitmap_def data_start_def)
    have fu: "file_txn u ip" by (rule file_txn_meta [OF ft' u(2) cm])
    note fm = file_meta [OF file_txnD(2) [OF ft'] cm file_txnD(6) [OF ft'], where d = ?e]
    have vu: "fs_view u = (fs_view ?t)(?c := ?e)" "icache u = icache ?t" "sb u = sb s" using u(2) txn_to_sb [OF u(2)] it(3) by (auto simp: txn_to_def)
    have fa: "faddr (fs_view u) (inode_at u ip) = faddr (fs_view t) (inode_at t ip)"
      unfolding vu fm(1) unfolding it by simp
    have by1: "fbyte (fs_view u) (inode_at u ip) p = fbyte (fs_view t) (inode_at t ip) p" if "p < MAXFILE * BSIZE" for p
      using fm(2) [of p] that unfolding vu it(1,2) by simp
    have zu: "unat (i_size (inode_at u ip)) = max (unat ?z) (unat off + unat n)" "i_type (inode_at u ip) = i_type ?i"
      unfolding vu it using True on sz(3) by (simp_all add: word_less_nat_alt)
    have fr: "fs_view u c = fs_view s c" if "is_data (sb s) c" "used (sb s) ?V c" "c \<notin> fblocks ?V ?i" for c
      using cm(1) that kp [OF that] unfolding vu it(2,3) by auto
    have "ftxn t 1 u" using u(2) txn_to_icache unfolding ftxn_def upd_inode_def vu by fastforce
    then have fx: "ftxn s (6 * j + 1) u" by (rule ftxn_trans [OF e(2)])
    have "whole u ip" unfolding whole_def zu(1) fa using no mxz by simp
    then show ?thesis using run True n0 sz(1) si u(1) fu zu by1 fr fx vu(3) t(2) by (auto simp: write_step_def)
  qed
qed

section \<open>Properties\<close>

lemma no_wrap:
  assumes "\<not> x + y < (x :: uint)"
  shows "unat x + unat y < 2 ^ 32"
proof (rule ccontr)
  assume c: "\<not> ?thesis"
  have "unat (x + y) = (unat x + unat y) mod 2 ^ 32" by (simp add: unat_word_ariths)
  also have "\<dots> = unat x + unat y - 2 ^ 32"
    using c unat_uint_less [of x] unat_uint_less [of y] by (subst le_mod_geq) auto
  also have "\<dots> < unat x" using c unat_uint_less [of y] by linarith
  finally show False using assms by (simp add: word_less_nat_alt)
qed

text \<open>
  C25. \<^verbatim>\<open>readi\<close> returns the bytes of the file.  An offset past the end or a range that wraps around is refused with \<open>-1\<close>; any other request returns the bytes of the file from the
  offset, as many as were asked for or as there are up to the end, in order and across direct and indirect blocks, and it changes neither a block nor the inode.
\<close>

theorem readi_returns:
  assumes "file_txn s ip" "whole s ip" "room 1 s" "i_type (inode_at s ip) \<noteq> T_DEV"
  shows "if i_size (inode_at s ip) < off \<or> off + n < off then readi devsw ip off n s = Done (-1, [], s)
    else \<exists>t m. m = min (unat n) (unat (i_size (inode_at s ip)) - unat off)
      \<and> readi devsw ip off n s = Done (int m, map (fbyte (fs_view s) (inode_at s ip)) [unat off..<unat off + m], t)
      \<and> fs_view t = fs_view s \<and> icache t = icache s \<and> heldB t = heldB s"
proof (cases "i_size (inode_at s ip) < off \<or> off + n < off")
  case True
  then show ?thesis using assms(4) by (simp add: readi_def Let_def)
next
  case False
  let ?m = "min (unat n) (unat (i_size (inode_at s ip)) - unat off)"
  have le: "off \<le> i_size (inode_at s ip)" using False by (simp add: not_less)
  have "unat off + unat n < 2 ^ 32" using False no_wrap by blast
  then obtain t where t: "readi devsw ip off n s = Done (int ?m, fbytes (fs_view s) (inode_at s ip) (unat off) ?m, t)" "txn_to s (fs_view s) 0 t"
    using readi_spec [OF assms(1,3,4) le, of n ?m devsw] assms(2) by (auto simp: whole_def)
  then have "fs_view t = fs_view s \<and> icache t = icache s \<and> heldB t = heldB s" using txn_to_sb(2) [OF t(2)] by (simp add: txn_to_def)
  then show ?thesis using False t(1) by (simp add: fbytes_def)
qed

text \<open>
  C3. What \<^verbatim>\<open>writei\<close> writes is what \<^verbatim>\<open>readi\<close> reads.  Inside a transaction with room for the \<open>j\<close> blocks the range touches, and with enough free blocks, \<^verbatim>\<open>writei\<close> writes all the
  bytes, allocating blocks and the indirect block as it needs them; the size becomes the larger of the old size and the end of the range.  Afterwards every \<^verbatim>\<open>readi\<close> of the file
  returns the new bytes inside the range and the old ones outside it, and no allocated block of another file has changed.
\<close>

theorem writei_readi:
  assumes "file_txn s ip" "whole s ip" "i_type (inode_at s ip) \<noteq> T_DEV" "off \<le> i_size (inode_at s ip)" "unat off + unat n \<le> MAXFILE * BSIZE"
    and "length src = unat n" "room (6 * j + 2) s" "2 * j \<le> nfree (sb s) (fs_view s)" "unat off + unat n \<le> (unat off div BSIZE + j) * BSIZE"
    and "unat (i_inum (inode_at s ip)) < unat (sb_ninodes (sb s))" "IBLOCK (i_inum (inode_at s ip)) (sb s) \<notin> heldB s"
  shows "\<exists>t. writei devsw ip src off n s = Done (int (unat n), t)
    \<and> unat (i_size (inode_at t ip)) = max (unat (i_size (inode_at s ip))) (unat off + unat n)
    \<and> (\<forall>q k. q \<le> i_size (inode_at t ip) \<and> unat q + unat k < 2 ^ 32 \<longrightarrow>
         (\<exists>u m. m = min (unat k) (unat (i_size (inode_at t ip)) - unat q)
            \<and> readi devsw ip q k t = Done (int m, map (put_bytes (fbyte (fs_view s) (inode_at s ip)) (unat off) src) [unat q..<unat q + m], u)))
    \<and> (\<forall>c. is_data (sb s) c \<and> used (sb s) (fs_view s) c \<and> c \<notin> fblocks (fs_view s) (inode_at s ip) \<longrightarrow> fs_view t c = fs_view s c)"
proof -
  have n: "unat n \<le> length src" and tk: "take (unat n) src = src" using assms(6) by simp_all
  obtain t where t: "writei devsw ip src off n s = Done (int (unat n), t)" "file_txn t ip" "whole t ip"
    "unat (i_size (inode_at t ip)) = max (unat (i_size (inode_at s ip))) (unat off + unat n)" "i_type (inode_at t ip) = i_type (inode_at s ip)"
    "\<forall>p<MAXFILE * BSIZE. fbyte (fs_view t) (inode_at t ip) p = put_bytes (fbyte (fs_view s) (inode_at s ip)) (unat off) src p"
    "\<forall>c. is_data (sb s) c \<and> used (sb s) (fs_view s) c \<and> c \<notin> fblocks (fs_view s) (inode_at s ip) \<longrightarrow> fs_view t c = fs_view s c"
    "ftxn s (6 * j + 1) t"
    using writei_spec [OF assms(1-5) n assms(7-11), of devsw, unfolded tk] by blast
  have r: "room 1 t" using ftxn_facts(5) [OF t(8), of 1] assms(7) by simp
  have td: "i_type (inode_at t ip) \<noteq> T_DEV" using assms(3) t(5) by simp
  have rd: "\<exists>u. readi devsw ip q k t = Done (int m, map (put_bytes (fbyte (fs_view s) (inode_at s ip)) (unat off) src) [unat q..<unat q + m], u)"
    if q: "q \<le> i_size (inode_at t ip)" "unat q + unat k < 2 ^ 32" and m: "m = min (unat k) (unat (i_size (inode_at t ip)) - unat q)" for q k m
  proof -
    obtain u where u: "readi devsw ip q k t = Done (int m, fbytes (fs_view t) (inode_at t ip) (unat q) m, u)"
      using readi_spec [OF t(2) r td q _ _ m, of devsw] t(3) unfolding whole_def by blast
    have "unat q \<le> unat (i_size (inode_at t ip))" using q(1) by (simp add: word_le_nat_alt)
    then have "unat q + m \<le> MAXFILE * BSIZE" using t(3) m unfolding whole_def by linarith
    then have "fbytes (fs_view t) (inode_at t ip) (unat q) m = map (put_bytes (fbyte (fs_view s) (inode_at s ip)) (unat off) src) [unat q..<unat q + m]"
      unfolding fbytes_def using t(6) by (intro map_cong) auto
    then show ?thesis using u by simp
  qed
  show ?thesis
  proof (rule exI [of _ t], intro conjI t(1) t(4) t(7) allI impI)
    fix q k :: uint assume q: "q \<le> i_size (inode_at t ip) \<and> unat q + unat k < 2 ^ 32"
    show "\<exists>u m. m = min (unat k) (unat (i_size (inode_at t ip)) - unat q)
       \<and> readi devsw ip q k t = Done (int m, map (put_bytes (fbyte (fs_view s) (inode_at s ip)) (unat off) src) [unat q..<unat q + m], u)"
      using rd [OF conjunct1 [OF q] conjunct2 [OF q] refl] by (elim exE, intro exI conjI) (rule refl, assumption)
  qed
qed

section \<open>Witnesses\<close>

text \<open>An empty file, inode 5 of the sample disk.\<close>

definition empty_inode :: inode where
  "empty_inode = inode0\<lparr>i_dev := 1, i_inum := 5, i_ref := 1, i_valid := True, i_type := 2, i_nlink := 1\<rparr>"

lemma empty_faddr: "k < MAXFILE \<Longrightarrow> faddr V empty_inode k = 0"
  by (simp add: faddr_def empty_inode_def inode0_def del: replicate.simps replicate_Suc)

lemma empty_file:
  shows "file_txn (fs_boot fs_disk [empty_inode]) 0" and "whole (fs_boot fs_disk [empty_inode]) 0"
proof -
  have "faddr V empty_inode ` {..<MAXFILE} \<subseteq> {0}" for V using empty_faddr by auto
  moreover have "i_addrs empty_inode ! NDIRECT = 0" by (simp add: empty_inode_def inode0_def del: replicate.simps replicate_Suc)
  ultimately have fb: "fblocks V empty_inode = {}" for V by (auto simp: fblocks_def)
  have "file_ok g V empty_inode" for g V
    unfolding file_ok_def fb using empty_faddr by (simp add: empty_inode_def inode0_def)
  then show "file_txn (fs_boot fs_disk [empty_inode]) 0"
    using fs_boot_txn [OF fs_disk_ok, where ic = "[empty_inode]"] fs_disk_meta by (simp add: file_txn_def fb)
  show "whole (fs_boot fs_disk [empty_inode]) 0" by (simp add: whole_def empty_inode_def inode0_def)
qed

lemma fs_disk_nfree: "2 \<le> nfree sample_sb fs_disk"
proof -
  have "\<not> used sample_sb fs_disk 64" "\<not> used sample_sb fs_disk 72"
    by (simp_all add: used_def bm_test_bit fs_disk_def nth_append BPB_def BSIZE_def BBLOCK_def sample_sb_def)
  then have "{64, 72} \<subseteq> {b. unat b < unat (sb_size sample_sb) \<and> \<not> used sample_sb fs_disk b}" by (simp add: sample_sb_def)
  then have "card {64, 72 :: uint} \<le> nfree sample_sb fs_disk" unfolding nfree_def by (intro card_mono) auto
  then show ?thesis by simp
qed

theorem readi_returns_witness:
  "(\<exists>t. readi (\<lambda>_. (None, None)) 0 0 10 (fs_boot fs_disk [empty_inode]) = Done (0, [], t))
   \<and> readi (\<lambda>_. (None, None)) 0 1 10 (fs_boot fs_disk [empty_inode]) = Done (-1, [], fs_boot fs_disk [empty_inode])"
proof -
  note s = fs_boot_txn [OF fs_disk_ok, where ic = "[empty_inode]"]
  have r: "room 1 (fs_boot fs_disk [empty_inode])" by (rule s(6)) simp
  have ty: "i_type (inode_at (fs_boot fs_disk [empty_inode]) 0) \<noteq> T_DEV" by (simp add: empty_inode_def T_DEV_def)
  note w = readi_returns [OF empty_file r ty, where devsw = "\<lambda>_. (None, None)" and n = 10]
  show ?thesis using w [of 0] w [of 1] by (auto simp: empty_inode_def inode0_def)
qed

theorem writei_readi_witness:
  "\<exists>t u. writei (\<lambda>_. (None, None)) 0 [1, 2, 3] 0 3 (fs_boot fs_disk [empty_inode]) = Done (3, t)
     \<and> readi (\<lambda>_. (None, None)) 0 1 10 t = Done (2, [2, 3], u)"
proof -
  note s = fs_boot_txn [OF fs_disk_ok, where ic = "[empty_inode]"]
  have r: "room (6 * 1 + 2) (fs_boot fs_disk [empty_inode])" by (rule s(6)) simp
  let ?s = "fs_boot fs_disk [empty_inode]"
  have h: "i_type (inode_at ?s 0) \<noteq> T_DEV" "0 \<le> i_size (inode_at ?s 0)" "unat (0 :: uint) + unat (3 :: uint) \<le> MAXFILE * BSIZE"
    "length [1, 2, 3 :: uchar] = unat (3 :: uint)" "2 * 1 \<le> nfree (sb ?s) (fs_view ?s)"
    "unat (0 :: uint) + unat (3 :: uint) \<le> (unat (0 :: uint) div BSIZE + 1) * BSIZE"
    "unat (i_inum (inode_at ?s 0)) < unat (sb_ninodes (sb ?s))" "IBLOCK (i_inum (inode_at ?s 0)) (sb ?s) \<notin> heldB ?s"
    using fs_disk_nfree s(2,3) by (simp_all add: empty_inode_def T_DEV_def MAXFILE_def NDIRECT_def BSIZE_def sample_sb_def)
  obtain t where t: "writei (\<lambda>_. (None, None)) 0 [1, 2, 3] 0 3 ?s = Done (int (unat (3 :: uint)), t)"
    "unat (i_size (inode_at t 0)) = max (unat (i_size (inode_at ?s 0))) (unat (0 :: uint) + unat (3 :: uint))"
    "\<forall>q k. q \<le> i_size (inode_at t 0) \<and> unat q + unat k < 2 ^ 32 \<longrightarrow>
         (\<exists>u m. m = min (unat k) (unat (i_size (inode_at t 0)) - unat q)
            \<and> readi (\<lambda>_. (None, None)) 0 q k t = Done (int m, map (put_bytes (fbyte (fs_view ?s) (inode_at ?s 0)) (unat (0 :: uint)) [1, 2, 3]) [unat q..<unat q + m], u))"
    using writei_readi [OF empty_file h(1-4) r h(5-8), where devsw = "\<lambda>_. (None, None)"] by blast
  have z: "unat (i_size (inode_at t 0)) = 3" using t(2) by (simp add: empty_inode_def inode0_def)
  then have "(1 :: uint) \<le> i_size (inode_at t 0)" by (simp add: word_le_nat_alt)
  then obtain u m where m: "m = min (unat (10 :: uint)) (unat (i_size (inode_at t 0)) - unat (1 :: uint))"
    "readi (\<lambda>_. (None, None)) 0 1 10 t = Done (int m, map (put_bytes (fbyte (fs_view ?s) (inode_at ?s 0)) (unat (0 :: uint)) [1, 2, 3]) [unat (1 :: uint)..<unat (1 :: uint) + m], u)"
    using t(3) [rule_format, of 1 10] by auto
  have "m = 2" using m(1) z by simp
  moreover have "map (put_bytes f 0 [1, 2, 3]) [1..<1 + 2] = [2, 3 :: uchar]" for f by (simp add: put_bytes_def upt_rec)
  ultimately have "readi (\<lambda>_. (None, None)) 0 1 10 t = Done (2, [2, 3], u)" using m(2) by simp
  then show ?thesis using t(1) by auto
qed

end
