(* ===== verification/Grep.thy ===== *)
theory Grep
  imports Prelude
begin

text \<open>
  The user program \<^verbatim>\<open>grep\<close> (\<^verbatim>\<open>grep.c\<close>): the matcher for regular expressions and the loop that splits its input into lines.  A C string is the list of its bytes
  without the terminating NUL, so the end of the list is where the C code reads NUL.  The matcher is shown to decide the language a pattern denotes, and the loop to print
  exactly the lines that match, as long as every \<^verbatim>\<open>read\<close> completes a line.
\<close>

section \<open>The matcher\<close>

function (sequential) matchhere :: "uchar list \<Rightarrow> uchar list \<Rightarrow> bool"
and matchstar :: "uchar \<Rightarrow> uchar list \<Rightarrow> uchar list \<Rightarrow> bool" where
  "matchhere [] tx = True"
| "matchhere [r] tx =
     (if r = byte (CHR ''$'') then tx = []
      else case tx of [] \<Rightarrow> False | t # ts \<Rightarrow> (r = byte (CHR ''.'') \<or> r = t) \<and> matchhere [] ts)"
| "matchhere (r # s # re) tx =
     (if s = byte (CHR ''*'') then matchstar r re tx
      else case tx of [] \<Rightarrow> False | t # ts \<Rightarrow> (r = byte (CHR ''.'') \<or> r = t) \<and> matchhere (s # re) ts)"
| "matchstar c re tx =
     (matchhere re tx \<or> (case tx of [] \<Rightarrow> False | t # ts \<Rightarrow> (t = c \<or> c = byte (CHR ''.'')) \<and> matchstar c re ts))"
  by pat_completeness auto
termination
  by (relation "measure (\<lambda>x. case x of Inl (re, tx) \<Rightarrow> 2 * length re + length tx | Inr (c, re, tx) \<Rightarrow> Suc (2 * length re + length tx))") auto

fun match_from :: "uchar list \<Rightarrow> uchar list \<Rightarrow> bool" where
  "match_from re [] = matchhere re []"
| "match_from re (t # ts) = (matchhere re (t # ts) \<or> match_from re ts)"

definition match :: "uchar list \<Rightarrow> uchar list \<Rightarrow> bool" where
  "match re tx = (if re \<noteq> [] \<and> hd re = byte (CHR ''^'') then matchhere (tl re) tx else match_from re tx)"

section \<open>Splitting the input into lines\<close>

text \<open>
  The buffer from \<open>p\<close> to \<open>buf + m\<close>: \<^verbatim>\<open>strchr\<close> looks for a newline and stops at a NUL.  \<open>scan\<close> gives what the inner loop writes and the bytes from the final \<open>p\<close>.
\<close>

definition newline :: uchar where
  "newline = 10"

function scan :: "uchar list \<Rightarrow> uchar list \<Rightarrow> uchar list list \<times> uchar list" where
  "scan pattern bs =
     (case dropWhile (\<lambda>c. c \<noteq> newline \<and> c \<noteq> 0) bs of
        [] \<Rightarrow> ([], bs)
      | q # rest \<Rightarrow>
          if q = newline
          then let line = takeWhile (\<lambda>c. c \<noteq> newline \<and> c \<noteq> 0) bs;
                   (out, p) = scan pattern rest
               in (if match pattern line then (line @ [newline]) # out else out, p)
          else ([], bs))"
  by pat_completeness auto
termination
proof (relation "measure (\<lambda>(pattern, bs). length bs)")
  fix pattern bs q rest assume "dropWhile (\<lambda>c. c \<noteq> newline \<and> c \<noteq> 0) bs = q # rest"
  then have "Suc (length rest) \<le> length bs" using length_dropWhile_le [of "\<lambda>c. c \<noteq> newline \<and> c \<noteq> 0" bs] by simp
  then show "((pattern, rest), (pattern, bs)) \<in> measure (\<lambda>(pattern, bs). length bs)" by simp
qed simp

declare scan.simps [simp del]

text \<open>
  What the file descriptor still has, as the pieces that the successive \<^verbatim>\<open>read\<close> calls find; a call returns at most as many bytes as it asks for and nothing at the end.
\<close>

definition read_piece :: "nat \<Rightarrow> uchar list list \<Rightarrow> uchar list \<times> uchar list list" where
  "read_piece n input =
     (case input of
        [] \<Rightarrow> ([], [])
      | c # cs \<Rightarrow> (take n c, if length c \<le> n then cs else drop n c # cs))"

definition bufsize :: nat where
  "bufsize = 1024"

definition after_scan :: "uchar list \<Rightarrow> uchar list \<Rightarrow> uchar list" where
  "after_scan buf p = (if length p = length buf then [] else p)"

function grep_loop :: "uchar list \<Rightarrow> uchar list \<Rightarrow> uchar list list \<Rightarrow> uchar list list" where
  "grep_loop pattern kept input =
     (let (got, input') = read_piece (bufsize - length kept - 1) input
      in if got = [] then []
         else let buf = kept @ got;
                  (out, p) = scan pattern buf
              in out @ grep_loop pattern (after_scan buf p) input')"
  by pat_completeness auto
termination
proof (relation "measure (\<lambda>(pattern, kept, input). length (concat input))", goal_cases)
  case (2 pattern kept input x got input' buf y out p)
  then have "length (concat input') < length (concat input)" by (auto simp: read_piece_def split: list.splits if_splits)
  then show ?case by simp
qed simp

declare grep_loop.simps [simp del]

definition grep :: "uchar list \<Rightarrow> uchar list list \<Rightarrow> (nat \<times> uchar list) list" where
  "grep pattern input = map (Pair 1) (grep_loop pattern [] input)"

text \<open>\<^verbatim>\<open>main\<close>: \<open>opened\<close> is what opening a file gives, the pieces of its contents or nothing; the result is the sequence of writes to file descriptors.\<close>

fun grep_files :: "(uchar list \<Rightarrow> uchar list list option) \<Rightarrow> uchar list \<Rightarrow> uchar list list \<Rightarrow> (nat \<times> uchar list) list" where
  "grep_files opened pattern [] = []"
| "grep_files opened pattern (f # fs) =
     (case opened f of
        None \<Rightarrow> [(1, bytes ''grep: cannot open '' @ f @ [newline])]
      | Some input \<Rightarrow> grep pattern input @ grep_files opened pattern fs)"

definition grep_main :: "(uchar list \<Rightarrow> uchar list list option) \<Rightarrow> uchar list list \<Rightarrow> uchar list list \<Rightarrow> (nat \<times> uchar list) list" where
  "grep_main opened stdin argv =
     (case argv of
        _ # pattern # files \<Rightarrow> if files = [] then grep pattern stdin else grep_files opened pattern files
      | _ \<Rightarrow> [(2, bytes ''usage: grep pattern [file ...]'' @ [newline])])"

section \<open>The language of a pattern\<close>

datatype item = One uchar | Many uchar

fun atom_ok :: "uchar \<Rightarrow> uchar \<Rightarrow> bool" where
  "atom_ok a t \<longleftrightarrow> a = byte (CHR ''.'') \<or> a = t"

text \<open>A pattern is a list of items, with a flag for a \<^verbatim>\<open>$\<close> at the end.\<close>

fun items :: "uchar list \<Rightarrow> item list \<times> bool" where
  "items [] = ([], False)"
| "items [r] = (if r = byte (CHR ''$'') then ([], True) else ([One r], False))"
| "items (r # s # re) =
     (if s = byte (CHR ''*'') then apfst (Cons (Many r)) (items re) else apfst (Cons (One r)) (items (s # re)))"

fun item_lang :: "item \<Rightarrow> uchar list set" where
  "item_lang (One a) = {[t] | t. atom_ok a t}"
| "item_lang (Many a) = {ts. list_all (atom_ok a) ts}"

fun lang :: "item list \<Rightarrow> uchar list set" where
  "lang [] = {[]}"
| "lang (x # xs) = {u @ v | u v. u \<in> item_lang x \<and> v \<in> lang xs}"

definition matches_at_start :: "item list \<times> bool \<Rightarrow> uchar list \<Rightarrow> bool" where
  "matches_at_start p tx \<longleftrightarrow> (\<exists>u v. tx = u @ v \<and> u \<in> lang (fst p) \<and> (snd p \<longrightarrow> v = []))"

lemma matches_at_startI: "u \<in> lang xs \<Longrightarrow> (e \<longrightarrow> v = []) \<Longrightarrow> matches_at_start (xs, e) (u @ v)"
  unfolding matches_at_start_def by auto

lemma matches_at_startE:
  assumes "matches_at_start (xs, e) tx"
  obtains u v where "tx = u @ v" "u \<in> lang xs" "e \<longrightarrow> v = []"
  using assms unfolding matches_at_start_def by auto

lemma lang_Cons: "u \<in> item_lang x \<Longrightarrow> v \<in> lang xs \<Longrightarrow> u @ v \<in> lang (x # xs)"
  by (simp del: item_lang.simps) blast

lemma matches_at_start_One:
  "matches_at_start (One a # xs, e) tx \<longleftrightarrow> (case tx of [] \<Rightarrow> False | t # ts \<Rightarrow> atom_ok a t \<and> matches_at_start (xs, e) ts)"
proof
  assume "matches_at_start (One a # xs, e) tx"
  then obtain u v where w: "tx = u @ v" "u \<in> lang (One a # xs)" "e \<longrightarrow> v = []" by (rule matches_at_startE)
  then obtain t u' where "u = t # u'" "atom_ok a t" "u' \<in> lang xs" by auto
  then show "case tx of [] \<Rightarrow> False | t # ts \<Rightarrow> atom_ok a t \<and> matches_at_start (xs, e) ts" using w(1,3) matches_at_startI by simp
next
  assume "case tx of [] \<Rightarrow> False | t # ts \<Rightarrow> atom_ok a t \<and> matches_at_start (xs, e) ts"
  then obtain t ts where t: "tx = t # ts" "atom_ok a t" "matches_at_start (xs, e) ts" by (cases tx) auto
  then obtain u v where w: "ts = u @ v" "u \<in> lang xs" "e \<longrightarrow> v = []" using matches_at_startE by blast
  have "[t] @ u \<in> lang (One a # xs)" using t(2) w(2) by (intro lang_Cons) auto
  from matches_at_startI [OF this w(3)] show "matches_at_start (One a # xs, e) tx" using t(1) w(1) by simp
qed

lemma matches_at_start_Many:
  "matches_at_start (Many a # xs, e) tx \<longleftrightarrow>
     matches_at_start (xs, e) tx \<or> (case tx of [] \<Rightarrow> False | t # ts \<Rightarrow> atom_ok a t \<and> matches_at_start (Many a # xs, e) ts)"
  (is "?l tx \<longleftrightarrow> ?m tx \<or> ?r")
proof
  assume "?l tx"
  then obtain w x where w: "tx = w @ x" "w \<in> lang (Many a # xs)" "e \<longrightarrow> x = []" by (rule matches_at_startE)
  then obtain u v where u: "w = u @ v" "list_all (atom_ok a) u" "v \<in> lang xs" by auto
  show "?m tx \<or> ?r"
  proof (cases u)
    case Nil
    then show ?thesis using w(1,3) u matches_at_startI [of v] by simp
  next
    case (Cons t u')
    then have "?l ((u' @ v) @ x)" using u w(3) by (intro matches_at_startI lang_Cons) auto
    then show ?thesis using w(1) u Cons by simp
  qed
next
  assume "?m tx \<or> ?r"
  then show "?l tx"
  proof
    assume "?m tx"
    then obtain v w where v: "tx = ([] @ v) @ w" "v \<in> lang xs" "e \<longrightarrow> w = []" using matches_at_startE by (metis append_Nil)
    then show ?thesis unfolding v(1) by (intro matches_at_startI lang_Cons) auto
  next
    assume ?r
    then obtain t ts where t: "tx = t # ts" "atom_ok a t" "?l ts" by (cases tx) auto
    then obtain w x where w: "ts = w @ x" "w \<in> lang (Many a # xs)" "e \<longrightarrow> x = []" using matches_at_startE by blast
    then obtain u v where u: "w = u @ v" "list_all (atom_ok a) u" "v \<in> lang xs" by auto
    have "?l (((t # u) @ v) @ x)" using u t(2) w(3) by (intro matches_at_startI lang_Cons) auto
    then show ?thesis using t(1) w(1) u(1) by simp
  qed
qed

lemma matchhere_lang:
  "matchhere re tx \<longleftrightarrow> matches_at_start (items re) tx"
  "matchstar c re tx \<longleftrightarrow> matches_at_start (apfst (Cons (Many c)) (items re)) tx"
proof (induction re tx and c re tx rule: matchhere_matchstar.induct)
  case (1 tx)
  then show ?case by (simp add: matches_at_start_def)
next
  case (2 r tx)
  then show ?case by (cases tx) (simp_all add: matches_at_start_One, simp_all add: matches_at_start_def)
next
  case (3 r s re tx)
  then show ?case by (cases "items (s # re)"; cases tx) (auto simp: matches_at_start_One)
next
  case (4 c re tx)
  then show ?case by (cases "items re"; cases tx) (auto simp: matches_at_start_Many)
qed

lemma match_from_iff: "match_from re tx \<longleftrightarrow> (\<exists>u v. tx = u @ v \<and> matchhere re v)"
proof (induction tx)
  case (Cons t ts)
  then show ?case by (simp add: Cons_eq_append_conv) blast
qed simp

text \<open>
  C22. \<^verbatim>\<open>match\<close> decides the language of the pattern.  A text matches if and only if a part of it is in the language of the items of the pattern, where an item is a character, a
  dot for any character, or one of them followed by a star for any number of repetitions; the part begins at the start of the text if the pattern begins with \<^verbatim>\<open>^\<close>, and ends
  at its end if the pattern ends with \<^verbatim>\<open>$\<close>.
\<close>

theorem match_decides_language:
  "match re tx \<longleftrightarrow>
     (let anchored = (re \<noteq> [] \<and> hd re = byte (CHR ''^'')); (xs, dollar) = items (if anchored then tl re else re)
      in \<exists>before part rest. tx = before @ part @ rest \<and> part \<in> lang xs \<and> (anchored \<longrightarrow> before = []) \<and> (dollar \<longrightarrow> rest = []))"
proof (cases "re \<noteq> [] \<and> hd re = byte (CHR ''^'')")
  case True
  then show ?thesis by (cases "items (tl re)") (auto simp: match_def matchhere_lang matches_at_start_def)
next
  case False
  then show ?thesis by (cases "items re") (auto simp: match_def match_from_iff matchhere_lang matches_at_start_def)
qed

section \<open>The lines printed\<close>

text \<open>The complete lines of a text, and what follows the last newline.\<close>

function split_lines :: "uchar list \<Rightarrow> uchar list list \<times> uchar list" where
  "split_lines bs =
     (case dropWhile (\<lambda>c. c \<noteq> newline) bs of
        [] \<Rightarrow> ([], bs)
      | q # rest \<Rightarrow> apfst (Cons (takeWhile (\<lambda>c. c \<noteq> newline) bs)) (split_lines rest))"
  by pat_completeness auto
termination
proof (relation "measure length")
  fix bs q rest assume "dropWhile (\<lambda>c. c \<noteq> newline) bs = q # rest"
  then have "Suc (length rest) \<le> length bs" using length_dropWhile_le [of "\<lambda>c. c \<noteq> newline" bs] by simp
  then show "(rest, bs) \<in> measure length" by simp
qed simp

declare split_lines.simps [simp del]

definition print_matching :: "uchar list \<Rightarrow> uchar list list \<Rightarrow> uchar list list" where
  "print_matching pattern ls = map (\<lambda>l. l @ [newline]) (filter (match pattern) ls)"

lemma print_matching_simps [simp]:
  "print_matching pattern [] = []" "print_matching pattern (l # ls) = (if match pattern l then (l @ [newline]) # print_matching pattern ls else print_matching pattern ls)"
  "print_matching pattern (ls @ ks) = print_matching pattern ls @ print_matching pattern ks"
  by (simp_all add: print_matching_def)

lemma line_cases:
  obtains (none) "newline \<notin> set bs" | (line) l rest where "bs = l @ newline # rest" "newline \<notin> set l"
  using split_list_first [of newline bs] by blast

lemma line_induct [case_names none line]:
  assumes "\<And>bs. newline \<notin> set bs \<Longrightarrow> P bs" and "\<And>l rest. newline \<notin> set l \<Longrightarrow> P rest \<Longrightarrow> P (l @ newline # rest)"
  shows "P bs"
proof (induction bs rule: length_induct)
  case (1 bs)
  show ?case
  proof (cases bs rule: line_cases)
    case (line l rest)
    then show ?thesis using 1 assms(2) by simp
  qed (rule assms(1))
qed

lemma dropWhile_line: "newline \<notin> set l \<Longrightarrow> dropWhile (\<lambda>c. c \<noteq> newline) (l @ newline # rest) = newline # rest"
  "newline \<notin> set l \<Longrightarrow> takeWhile (\<lambda>c. c \<noteq> newline) (l @ newline # rest) = l"
  "newline \<notin> set l \<Longrightarrow> 0 \<notin> set l \<Longrightarrow> dropWhile (\<lambda>c. c \<noteq> newline \<and> c \<noteq> 0) (l @ newline # rest) = newline # rest"
  "newline \<notin> set l \<Longrightarrow> 0 \<notin> set l \<Longrightarrow> takeWhile (\<lambda>c. c \<noteq> newline \<and> c \<noteq> 0) (l @ newline # rest) = l"
  by (induction l) auto

lemma split_lines_none:
  assumes "newline \<notin> set bs"
  shows "split_lines bs = ([], bs)"
proof -
  have "dropWhile (\<lambda>c. c \<noteq> newline) bs = []" using assms by (induction bs) auto
  from split_lines.simps [of bs, unfolded this] show ?thesis by simp
qed

lemma split_lines_line: "newline \<notin> set l \<Longrightarrow> split_lines (l @ newline # rest) = apfst (Cons l) (split_lines rest)"
  by (subst split_lines.simps) (simp add: dropWhile_line)

lemma scan_none:
  assumes "newline \<notin> set bs" "0 \<notin> set bs"
  shows "scan pattern bs = ([], bs)"
proof -
  have "dropWhile (\<lambda>c. c \<noteq> newline \<and> c \<noteq> 0) bs = []" using assms by (induction bs) auto
  from scan.simps [of pattern bs, unfolded this] show ?thesis by simp
qed

lemma scan_lines: "0 \<notin> set bs \<Longrightarrow> scan pattern bs = apfst (print_matching pattern) (split_lines bs)"
proof (induction bs rule: line_induct)
  case (line l rest)
  then show ?case by (subst scan.simps) (simp add: dropWhile_line split_lines_line split_beta apfst_def map_prod_def)
qed (simp add: scan_none split_lines_none)

lemma split_lines_append:
  "split_lines (xs @ ys) = apfst (append (fst (split_lines xs))) (split_lines (snd (split_lines xs) @ ys))"
proof (induction xs rule: line_induct)
  case (line l rest)
  then show ?case by (simp add: split_lines_line) (cases "split_lines (snd (split_lines rest) @ ys)", simp)
qed (simp add: split_lines_none apfst_def map_prod_def split_beta)

lemma split_lines_rest:
  "set (snd (split_lines bs)) \<subseteq> set bs" "length (snd (split_lines bs)) \<le> length bs" "newline \<in> set bs \<Longrightarrow> length (snd (split_lines bs)) < length bs"
  by (induction bs rule: line_induct) (auto simp: split_lines_line split_lines_none)

lemma split_lines_again: "split_lines (snd (split_lines bs)) = ([], snd (split_lines bs))"
  by (induction bs rule: line_induct) (auto simp: split_lines_line split_lines_none)

text \<open>
  \<open>reads_ok kept input\<close>: with \<open>kept\<close> in the buffer, every piece fits into the rest of the buffer and has a newline.
\<close>

fun reads_ok :: "uchar list \<Rightarrow> uchar list list \<Rightarrow> bool" where
  "reads_ok kept [] \<longleftrightarrow> True"
| "reads_ok kept (c # cs) \<longleftrightarrow> newline \<in> set c \<and> length kept + length c < bufsize \<and> reads_ok (snd (split_lines (kept @ c))) cs"

lemma grep_loop_lines:
  "0 \<notin> set kept \<Longrightarrow> 0 \<notin> set (concat input) \<Longrightarrow> reads_ok kept input \<Longrightarrow> newline \<notin> set kept \<Longrightarrow>
     grep_loop pattern kept input = print_matching pattern (fst (split_lines (kept @ concat input)))"
proof (induction input arbitrary: kept)
  case Nil
  then show ?case by (subst grep_loop.simps) (simp add: read_piece_def split_lines_none)
next
  case (Cons c cs)
  have c: "newline \<in> set c" "length kept + length c < bufsize" using Cons.prems(3) by auto
  let ?r = "snd (split_lines (kept @ c))"
  have "length ?r < length (kept @ c)" using c(1) by (intro split_lines_rest(3)) simp
  then have a: "after_scan (kept @ c) ?r = ?r" by (simp add: after_scan_def)
  have z: "0 \<notin> set (kept @ c)" using Cons.prems(1,2) by simp
  have "set ?r \<subseteq> set (kept @ c)" by (rule split_lines_rest(1))
  then have r: "0 \<notin> set ?r" using z by blast
  have nr: "newline \<notin> set ?r"
  proof
    assume "newline \<in> set ?r"
    from split_lines_rest(3) [OF this] show False by (simp add: split_lines_again)
  qed
  have ih: "grep_loop pattern ?r cs = print_matching pattern (fst (split_lines (?r @ concat cs)))"
    using Cons.prems r nr by (intro Cons.IH) auto
  have "read_piece (bufsize - length kept - 1) (c # cs) = (c, cs)" "c \<noteq> []" using c by (auto simp: read_piece_def)
  then have "grep_loop pattern kept (c # cs) = print_matching pattern (fst (split_lines (kept @ c))) @ grep_loop pattern ?r cs"
    by (subst grep_loop.simps) (simp add: scan_lines [OF z] a split_beta Let_def)
  also have "\<dots> = print_matching pattern (fst (split_lines (kept @ c)) @ fst (split_lines (?r @ concat cs)))" using ih by simp
  also have "fst (split_lines (kept @ c)) @ fst (split_lines (?r @ concat cs)) = fst (split_lines (kept @ concat (c # cs)))"
    using split_lines_append [of "kept @ c" "concat cs"] by simp
  finally show ?case .
qed

text \<open>
  C32. \<^verbatim>\<open>grep\<close> prints exactly the matching lines, in order.  When no byte of the input is NUL and every \<^verbatim>\<open>read\<close> fits into the buffer behind the unfinished line kept there and brings at
  least one newline, the writes of \<^verbatim>\<open>grep\<close> are the lines of the input that match the pattern, however the reads cut the lines; an unfinished last line is not printed.
\<close>

theorem grep_prints_matching_lines:
  assumes "0 \<notin> set (concat input)" "reads_ok [] input"
  shows "grep pattern input = map (\<lambda>l. (1, l @ [newline])) (filter (match pattern) (fst (split_lines (concat input))))"
  using grep_loop_lines [of "[]" input pattern] assms by (simp add: grep_def print_matching_def)

text \<open>A piece without a newline is lost, although the rest of its line follows.\<close>

lemma grep_loses_partial_line: "grep (bytes ''a'') [bytes ''ab'', bytes ''c'' @ [newline]] = []"
  by code_simp

theorem match_decides_language_witness:
  "match (bytes ''^a*b'') (bytes ''aabc'') \<and> (\<exists>part rest. bytes ''aabc'' = part @ rest \<and> part \<in> lang (fst (items (bytes ''a*b''))))"
proof -
  have m: "match (bytes ''^a*b'') (bytes ''aabc'')" by code_simp
  have h: "bytes ''^a*b'' \<noteq> [] \<and> hd (bytes ''^a*b'') = byte (CHR ''^'')" "tl (bytes ''^a*b'') = bytes ''a*b''" by code_simp+
  show ?thesis using m m [unfolded match_decides_language] h by (cases "items (bytes ''a*b'')") auto
qed

theorem grep_prints_matching_lines_witness:
  "grep (bytes ''^a'') [bytes ''b'' @ [newline] @ bytes ''a'', bytes ''b'' @ [newline]] = [(1, bytes ''ab'' @ [newline])]"
proof -
  have r: "0 \<notin> set (concat [bytes ''b'' @ [newline] @ bytes ''a'', bytes ''b'' @ [newline]])"
    "reads_ok [] [bytes ''b'' @ [newline] @ bytes ''a'', bytes ''b'' @ [newline]]"
    by code_simp+
  have "map (\<lambda>l. (1, l @ [newline])) (filter (match (bytes ''^a'')) (fst (split_lines (concat [bytes ''b'' @ [newline] @ bytes ''a'', bytes ''b'' @ [newline]]))))
      = [(1 :: nat, bytes ''ab'' @ [newline])]" by code_simp
  then show ?thesis using grep_prints_matching_lines [OF r, of "bytes ''^a''"] by (simp only:)
qed

end
