(* ===== verification/Mkfs.thy ===== *)
theory Mkfs
  imports FSData
begin

text \<open>
  The program that builds the file system image on the host (\<^verbatim>\<open>src/xv6/mkfs.c\<close>).  The image file is a list of sectors; \<^verbatim>\<open>lseek\<close> and \<^verbatim>\<open>write\<close> extend it, and a \<^verbatim>\<open>read\<close> past its end
  is short, which makes the program exit.  The files named on the command line are given by a function from names to contents.  An \<^verbatim>\<open>exit(1)\<close> and a failed \<^verbatim>\<open>assert\<close> are
  \<open>Panic\<close>; opening and extending the image file itself succeeds, and the messages the program prints are left out.  The host is little endian.
\<close>

section \<open>Sectors and inodes\<close>

definition NINODES :: nat where
  "NINODES = 200"

definition nbitmap :: nat where
  "nbitmap = FSSIZE div (BSIZE * 8) + 1"

definition ninodeblocks :: nat where
  "ninodeblocks = NINODES div IPB + 1"

definition nlog :: nat where
  "nlog = LOGSIZE"

definition nmeta :: nat where
  "nmeta = 2 + nlog + ninodeblocks + nbitmap"

definition zeroes :: block where
  "zeroes = replicate BSIZE 0"

definition xshort :: "ushort \<Rightarrow> ushort" where
  "xshort x = get16 0 [ucast x, ucast (drop_bit 8 x)]"

definition xint :: "uint \<Rightarrow> uint" where
  "xint x = get32 0 [ucast x, ucast (drop_bit 8 x), ucast (drop_bit 16 x), ucast (drop_bit 24 x)]"

record mkfs =
  fsfd :: "block list"
  freeinode :: uint
  freeblock :: uint

definition mkfs_sb :: superblock where
  "mkfs_sb = \<lparr>sb_size = xint (of_nat FSSIZE), sb_nblocks = xint (of_nat (FSSIZE - nmeta)), sb_ninodes = xint (of_nat NINODES), sb_nlog = xint (of_nat nlog),
     sb_logstart = xint 2, sb_inodestart = xint (of_nat (2 + nlog)), sb_bmapstart = xint (of_nat (2 + nlog + ninodeblocks))\<rparr>"

definition sector :: "uint \<Rightarrow> nat" where
  "sector sec = unat (sec * of_nat BSIZE) div BSIZE"

definition wsect :: "uint \<Rightarrow> block \<Rightarrow> mkfs \<Rightarrow> mkfs" where
  "wsect sec buf s = s\<lparr>fsfd := (fsfd s @ replicate (sector sec + 1 - length (fsfd s)) zeroes)[sector sec := buf]\<rparr>"

definition rsect :: "uint \<Rightarrow> mkfs \<Rightarrow> block outcome" where
  "rsect sec s = (if sector sec < length (fsfd s) then Done (fsfd s ! sector sec) else Panic ''read'')"

definition winode :: "uint \<Rightarrow> dinode \<Rightarrow> mkfs \<Rightarrow> mkfs outcome" where
  "winode inum ip s =
     (let bn = IBLOCK inum mkfs_sb in obind (rsect bn s) (\<lambda>buf. Done (wsect bn (put_dinode inum ip buf) s)))"

definition rinode :: "uint \<Rightarrow> mkfs \<Rightarrow> dinode outcome" where
  "rinode inum s = (let bn = IBLOCK inum mkfs_sb in obind (rsect bn s) (\<lambda>buf. Done (get_dinode inum buf)))"

definition mkfs_ialloc :: "ushort \<Rightarrow> mkfs \<Rightarrow> (uint \<times> mkfs) outcome" where
  "mkfs_ialloc type s =
     (let inum = freeinode s;
          din = \<lparr>d_type = xshort type, d_major = 0, d_minor = 0, d_nlink = xshort 1, d_size = xint 0, d_addrs = replicate (NDIRECT + 1) 0\<rparr>
      in obind (winode inum din (s\<lparr>freeinode := freeinode s + 1\<rparr>)) (\<lambda>s. Done (inum, s)))"

definition mkfs_balloc :: "int \<Rightarrow> mkfs \<Rightarrow> mkfs outcome" where
  "mkfs_balloc n s =
     (if \<not> n < int (BSIZE * 8) then Panic ''assert''
      else Done (wsect (sb_bmapstart mkfs_sb) (foldl bm_set zeroes [0..<nat n]) s))"

section \<open>Appending to a file\<close>

text \<open>Entry \<open>k\<close> of the indirect block \<open>ind\<close>, allocated when the file does not have it.\<close>

definition ind_entry :: "uint \<Rightarrow> nat \<Rightarrow> mkfs \<Rightarrow> (uint \<times> mkfs) outcome" where
  "ind_entry ind k s =
     obind (rsect ind s) (\<lambda>indirect.
       if get32 (4 * k) indirect = 0 then
         let indirect = put32 (4 * k) (xint (freeblock s)) indirect
         in Done (xint (get32 (4 * k) indirect), wsect ind indirect (s\<lparr>freeblock := freeblock s + 1\<rparr>))
       else Done (xint (get32 (4 * k) indirect), s))"

text \<open>The block \<^verbatim>\<open>x\<close> for block \<open>fbn\<close> of the file, allocated when the file does not have it.\<close>

definition iappend_block :: "uint \<Rightarrow> dinode \<Rightarrow> mkfs \<Rightarrow> (uint \<times> dinode \<times> mkfs) outcome" where
  "iappend_block fbn din s =
     (if unat fbn < NDIRECT then
        let (din, s) = (if xint (d_addrs din ! unat fbn) = 0
                        then (din\<lparr>d_addrs := (d_addrs din)[unat fbn := xint (freeblock s)]\<rparr>, s\<lparr>freeblock := freeblock s + 1\<rparr>) else (din, s))
        in Done (xint (d_addrs din ! unat fbn), din, s)
      else
        let (din, s) = (if xint (d_addrs din ! NDIRECT) = 0
                        then (din\<lparr>d_addrs := (d_addrs din)[NDIRECT := xint (freeblock s)]\<rparr>, s\<lparr>freeblock := freeblock s + 1\<rparr>) else (din, s))
        in obind (ind_entry (xint (d_addrs din ! NDIRECT)) (unat fbn - NDIRECT) s) (\<lambda>(x, s). Done (x, din, s)))"

fun iappend_loop :: "nat \<Rightarrow> uchar list \<Rightarrow> uint \<Rightarrow> dinode \<Rightarrow> mkfs \<Rightarrow> (uint \<times> dinode \<times> mkfs) outcome" where
  "iappend_loop 0 p off din s = Panic ''fuel''"
| "iappend_loop (Suc fuel) p off din s =
     (if p = [] then Done (off, din, s)
      else
        let fbn = off div of_nat BSIZE
        in if \<not> unat fbn < MAXFILE then Panic ''assert''
           else obind (iappend_block fbn din s) (\<lambda>(x, din, s).
                  let n1 = min (of_nat (length p)) ((fbn + 1) * of_nat BSIZE - off);
                      o1 = unat (off - fbn * of_nat BSIZE)
                  in obind (rsect x s) (\<lambda>buf.
                       iappend_loop fuel (drop (unat n1) p) (off + n1) din
                         (wsect x (take o1 buf @ take (unat n1) p @ drop (o1 + unat n1) buf) s))))"

definition iappend :: "uint \<Rightarrow> uchar list \<Rightarrow> mkfs \<Rightarrow> mkfs outcome" where
  "iappend inum xp s =
     obind (rinode inum s) (\<lambda>din.
       obind (iappend_loop (length xp + 1) xp (xint (d_size din)) din s) (\<lambda>(off, din, s).
         winode inum (din\<lparr>d_size := xint off\<rparr>) s))"

section \<open>The program\<close>

text \<open>\<^verbatim>\<open>while((cc = read(fd, buf, sizeof(buf))) > 0) iappend(inum, buf, cc)\<close>\<close>

function append_file :: "uint \<Rightarrow> uchar list \<Rightarrow> mkfs \<Rightarrow> mkfs outcome" where
  "append_file inum bs s = (if bs = [] then Done s else obind (iappend inum (take BSIZE bs) s) (\<lambda>s. append_file inum (drop BSIZE bs) s))"
  by pat_completeness auto
termination
  by (relation "measure (\<lambda>(inum, bs, s). length bs)") (auto simp: BSIZE_def)

declare append_file.simps [simp del]

definition mk_dirent :: "uint \<Rightarrow> uchar list \<Rightarrow> uchar list" where
  "mk_dirent inum name = put_dirent \<lparr>de_inum = xshort (ucast inum), de_name = name_ncpy DIRSIZ name\<rparr>"

text \<open>The name of a file in the file system: a leading underscore, character 95, is skipped.\<close>

definition mkfs_name :: "uchar list \<Rightarrow> uchar list" where
  "mkfs_name arg = (if arg \<noteq> [] \<and> hd arg = 95 then tl arg else arg)"

text \<open>One turn of the loop over \<^verbatim>\<open>argv\<close>; character 47 is the slash.\<close>

definition mkfs_file :: "(uchar list \<Rightarrow> uchar list option) \<Rightarrow> uchar list \<Rightarrow> mkfs \<Rightarrow> mkfs outcome" where
  "mkfs_file files arg s =
     (if 47 \<in> set arg then Panic ''assert''
      else case files arg of
             None \<Rightarrow> Panic ''open''
           | Some bs \<Rightarrow>
               obind (mkfs_ialloc T_FILE s) (\<lambda>(inum, s).
                 obind (iappend ROOTINO (mk_dirent inum (mkfs_name arg)) s) (\<lambda>s.
                   append_file inum bs s)))"

fun mkfs_files :: "(uchar list \<Rightarrow> uchar list option) \<Rightarrow> uchar list list \<Rightarrow> mkfs \<Rightarrow> mkfs outcome" where
  "mkfs_files files [] s = Done s"
| "mkfs_files files (arg # args) s = obind (mkfs_file files arg s) (\<lambda>s. mkfs_files files args s)"

text \<open>\<^verbatim>\<open>memmove(buf, &sb, sizeof(sb))\<close> into a block of zeros.\<close>

definition sb_block :: block where
  "sb_block = put32 0 (sb_size mkfs_sb) (put32 4 (sb_nblocks mkfs_sb) (put32 8 (sb_ninodes mkfs_sb) (put32 12 (sb_nlog mkfs_sb)
     (put32 16 (sb_logstart mkfs_sb) (put32 20 (sb_inodestart mkfs_sb) (put32 24 (sb_bmapstart mkfs_sb) zeroes))))))"

definition mkfs_init :: mkfs where
  "mkfs_init = wsect 1 sb_block (foldl (\<lambda>s i. wsect (of_nat i) zeroes s) \<lparr>fsfd = [], freeinode = 1, freeblock = of_nat nmeta\<rparr> [0..<FSSIZE])"

text \<open>The size of the root directory is rounded to blocks, and the bitmap is written.\<close>

definition mkfs_finish :: "uint \<Rightarrow> mkfs \<Rightarrow> mkfs outcome" where
  "mkfs_finish rootino s =
     obind (rinode rootino s) (\<lambda>din.
       let off = xint (d_size din);
           off = (off div of_nat BSIZE + 1) * of_nat BSIZE
       in obind (winode rootino (din\<lparr>d_size := xint off\<rparr>) s) (\<lambda>s.
            mkfs_balloc (sint (freeblock s)) s))"

definition mkfs_main :: "(uchar list \<Rightarrow> uchar list option) \<Rightarrow> uchar list list \<Rightarrow> mkfs outcome" where
  "mkfs_main files argv =
     (if length argv < 2 then Panic ''Usage: mkfs fs.img files...''
      else
        obind (mkfs_ialloc T_DIR mkfs_init) (\<lambda>(rootino, s).
          if rootino \<noteq> ROOTINO then Panic ''assert''
          else
            obind (iappend rootino (mk_dirent rootino [46]) s) (\<lambda>s.
              obind (iappend rootino (mk_dirent rootino [46, 46]) s) (\<lambda>s.
                obind (mkfs_files files (drop 2 argv) s) (\<lambda>s.
                  mkfs_finish rootino s)))))"

section \<open>The image and its allocated blocks\<close>

lemma xint_id [simp]: "xint x = x"
  by (simp add: xint_def get32_def bytes32_join)

lemma xshort_id [simp]: "xshort x = x"
  by (simp add: xshort_def get16_def bytes16_join)

lemma mkfs_sb_eq: "mkfs_sb = sample_sb"
  by (simp add: mkfs_sb_def sample_sb_def FSSIZE_def nmeta_def nlog_def ninodeblocks_def nbitmap_def NINODES_def LOGSIZE_def MAXOPBLOCKS_def IPB_def BSIZE_def dinode_size_def)

lemma nmeta_eq: "nmeta = 59"
  by (simp add: nmeta_def nlog_def ninodeblocks_def nbitmap_def NINODES_def LOGSIZE_def MAXOPBLOCKS_def IPB_def BSIZE_def dinode_size_def FSSIZE_def)

lemma mkfs_layout: "data_start mkfs_sb = nmeta" "unat (sb_size mkfs_sb) = FSSIZE" "is_bitmap mkfs_sb b \<longleftrightarrow> b = 58"
proof -
  show d: "data_start mkfs_sb = nmeta" "unat (sb_size mkfs_sb) = FSSIZE"
    by (simp_all add: mkfs_sb_eq nmeta_eq data_start_def sample_sb_def BPB_def BSIZE_def FSSIZE_def)
  have "unat b = 58 \<longleftrightarrow> b = 58" by (simp add: word_unat_eq_iff)
  then show "is_bitmap mkfs_sb b \<longleftrightarrow> b = 58" unfolding is_bitmap_def d(1) by (simp add: mkfs_sb_eq nmeta_eq sample_sb_def) linarith
qed

lemma is_data_mkfs: "is_data mkfs_sb b \<longleftrightarrow> nmeta \<le> unat b \<and> unat b < FSSIZE"
  by (simp add: is_data_def mkfs_layout)

lemma BBLOCK_mkfs: "unat b < FSSIZE \<Longrightarrow> BBLOCK b mkfs_sb = 58"
proof -
  assume "unat b < FSSIZE"
  then have "unat (b div of_nat BPB) = 0" by (simp add: unat_div BPB_def BSIZE_def FSSIZE_def)
  then show ?thesis by (simp add: BBLOCK_def mkfs_sb_eq sample_sb_def unsigned_eq_0_iff)
qed

definition mview :: "mkfs \<Rightarrow> uint \<Rightarrow> block" where
  "mview s b = (if unat b < length (fsfd s) then fsfd s ! unat b else zeroes)"

definition img_ok :: "mkfs \<Rightarrow> bool" where
  "img_ok s \<longleftrightarrow> length (fsfd s) = FSSIZE \<and> (\<forall>b\<in>set (fsfd s). length b = BSIZE)"

lemma length_zeroes [simp]: "length zeroes = BSIZE"
  by (simp add: zeroes_def)

lemma length_mview [simp]: "img_ok s \<Longrightarrow> length (mview s b) = BSIZE"
  by (simp add: mview_def img_ok_def)

lemma sector_eq: "unat sec < FSSIZE \<Longrightarrow> sector sec = unat sec"
proof -
  assume "unat sec < FSSIZE"
  then have "unat (sec * of_nat BSIZE) = unat sec * BSIZE" by (simp add: unat_word_ariths BSIZE_def FSSIZE_def)
  then show ?thesis by (simp add: sector_def BSIZE_def)
qed

lemma rsect_ok: "img_ok s \<Longrightarrow> unat b < FSSIZE \<Longrightarrow> rsect b s = Done (mview s b)"
  by (simp add: rsect_def sector_eq img_ok_def mview_def)

lemma wsect_ok:
  assumes "img_ok s" "unat b < FSSIZE" "length d = BSIZE"
  shows "img_ok (wsect b d s)" "mview (wsect b d s) = (mview s)(b := d)"
proof -
  have e: "fsfd (wsect b d s) = (fsfd s)[unat b := d]" using assms by (simp add: wsect_def sector_eq img_ok_def)
  show "img_ok (wsect b d s)" unfolding img_ok_def e using assms by (auto simp: img_ok_def dest: set_update_subset_insert [THEN subsetD])
  show "mview (wsect b d s) = (mview s)(b := d)" using assms(1,2) by (auto simp: mview_def e img_ok_def nth_list_update word_unat_eq_iff)
qed

lemma wsect_frame [simp]: "freeblock (wsect b d s) = freeblock s" "freeinode (wsect b d s) = freeinode s"
  by (simp_all add: wsect_def)

lemma mview_frame [simp]: "mview (s\<lparr>freeblock := f\<rparr>) = mview s" "mview (s\<lparr>freeinode := i\<rparr>) = mview s" "img_ok (s\<lparr>freeblock := f\<rparr>) = img_ok s"
  "img_ok (s\<lparr>freeinode := i\<rparr>) = img_ok s"
  by (auto simp: mview_def img_ok_def)

text \<open>The bitmap that \<^verbatim>\<open>balloc\<close> writes at the end marks the first blocks.\<close>

definition bitmap_of :: "nat \<Rightarrow> block" where
  "bitmap_of n = foldl bm_set zeroes [0..<n]"

lemma length_bitmap_of [simp]: "length (bitmap_of n) = BSIZE"
  by (induction n) (simp_all add: bitmap_of_def)

lemma bm_test_bitmap_of:
  assumes "n \<le> BSIZE * 8" "b < BSIZE * 8"
  shows "bm_test (bitmap_of n) b \<longleftrightarrow> b < n"
  using assms(1)
proof (induction n)
  case 0
  have "b div 8 < BSIZE" using assms(2) by (simp add: less_mult_imp_div_less)
  then show ?case by (simp add: bitmap_of_def zeroes_def bm_test_bit)
next
  case (Suc n)
  have "n div 8 < length (bitmap_of n)" using Suc.prems by (simp add: less_mult_imp_div_less)
  then have "bm_test (bitmap_of (Suc n)) b \<longleftrightarrow> n = b \<or> bm_test (bitmap_of n) b" using bm_test_set [of n "bitmap_of n" b] by (simp add: bitmap_of_def)
  then show ?case using Suc by auto
qed

text \<open>
  While the program runs, the allocated blocks are those before \<^verbatim>\<open>freeblock\<close>: \<open>gview\<close> is the image with the bitmap that would be written now, so that the lemmas on files of the kernel
  apply to it.
\<close>

definition gview :: "mkfs \<Rightarrow> uint \<Rightarrow> block" where
  "gview s = (mview s)(58 := bitmap_of (unat (freeblock s)))"

definition mk_ok :: "mkfs \<Rightarrow> bool" where
  "mk_ok s \<longleftrightarrow> img_ok s \<and> nmeta \<le> unat (freeblock s) \<and> unat (freeblock s) \<le> FSSIZE \<and> (\<forall>b. unat (freeblock s) \<le> unat b \<longrightarrow> mview s b = zeroes)"

lemma used_gview: "mk_ok s \<Longrightarrow> unat b < FSSIZE \<Longrightarrow> used mkfs_sb (gview s) b \<longleftrightarrow> unat b < unat (freeblock s)"
  using bm_test_bitmap_of [of "unat (freeblock s)" "unat b"]
  by (simp add: used_def gview_def BBLOCK_mkfs mk_ok_def FSSIZE_def BPB_def BSIZE_def)

lemma gview_data: "nmeta \<le> unat b \<Longrightarrow> gview s b = mview s b"
  by (auto simp: gview_def nmeta_eq)

lemma length_gview [simp]: "mk_ok s \<Longrightarrow> length (gview s b) = BSIZE"
  by (simp add: gview_def mk_ok_def)

section \<open>Appending\<close>

text \<open>The inode of the kernel with the fields of the on-disk inode, so that its file can be spoken of.\<close>

definition ino :: "dinode \<Rightarrow> inode" where
  "ino d = load_dinode d (inode0\<lparr>i_dev := 1\<rparr>)"

lemma ino_simps [simp]: "i_addrs (ino d) = d_addrs d" "i_dev (ino d) = 1" "ino (d\<lparr>d_addrs := as\<rparr>) = (ino d)\<lparr>i_addrs := as\<rparr>"
  by (simp_all add: ino_def load_dinode_def)

abbreviation mfile :: "mkfs \<Rightarrow> dinode \<Rightarrow> bool" where
  "mfile s d \<equiv> file_ok mkfs_sb (gview s) (ino d)"

definition take_block :: "mkfs \<Rightarrow> mkfs" where
  "take_block s = s\<lparr>freeblock := freeblock s + 1\<rparr>"

lemma take_block_frame [simp]: "mview (take_block s) = mview s" "freeinode (take_block s) = freeinode s"
  by (simp_all add: take_block_def)

lemma take_block_ok:
  assumes "mk_ok s" "unat (freeblock s) < FSSIZE"
  shows "mk_ok (take_block s)" "unat (freeblock (take_block s)) = unat (freeblock s) + 1" "is_data mkfs_sb (freeblock s)"
    "\<not> used mkfs_sb (gview s) (freeblock s)" "mview s (freeblock s) = zeroes"
    "unat c < FSSIZE \<Longrightarrow> used mkfs_sb (gview (take_block s)) c \<longleftrightarrow> c = freeblock s \<or> used mkfs_sb (gview s) c"
    "c \<noteq> 58 \<Longrightarrow> gview (take_block s) c = gview s c"
proof -
  show u: "unat (freeblock (take_block s)) = unat (freeblock s) + 1"
    using assms(2) unat_add_uint [of "freeblock s" 1] by (simp add: take_block_def FSSIZE_def)
  show ok: "mk_ok (take_block s)" using assms u by (simp add: mk_ok_def) (simp add: take_block_def)
  show "is_data mkfs_sb (freeblock s)" "\<not> used mkfs_sb (gview s) (freeblock s)" "mview s (freeblock s) = zeroes"
    using assms used_gview [OF assms] by (simp_all add: is_data_mkfs mk_ok_def)
  show "used mkfs_sb (gview (take_block s)) c \<longleftrightarrow> c = freeblock s \<or> used mkfs_sb (gview s) c" if "unat c < FSSIZE"
    using used_gview [OF ok that] used_gview [OF assms(1) that] u by (auto simp: word_unat_eq_iff)
  show "gview (take_block s) c = gview s c" if "c \<noteq> 58" using that by (simp add: gview_def)
qed

lemma data_not_bitmap: "is_data mkfs_sb c \<Longrightarrow> c \<noteq> 58"
  by (auto simp: is_data_mkfs nmeta_eq)

lemma take_addr:
  assumes "mk_ok s" "unat (freeblock s) < FSSIZE" "mfile s d" "k \<le> NDIRECT" "d_addrs d ! k = 0"
  defines "e \<equiv> d\<lparr>d_addrs := (d_addrs d)[k := freeblock s]\<rparr>"
  shows "grow mkfs_sb (gview s) (ino d) (gview (take_block s)) (ino e)"
    "l < MAXFILE \<Longrightarrow> faddr (gview (take_block s)) (ino e) l = (if k < NDIRECT \<and> l = k then freeblock s else faddr (gview s) (ino d) l)"
proof -
  let ?a = "freeblock s" and ?V = "gview s" and ?W = "gview (take_block s)"
  note t = take_block_ok [OF assms(1,2)]
  note v = file_okD [OF assms(3)]
  have len: "length (d_addrs d) = NDIRECT + 1" using v(4) by simp
  have z: "?W ?a = replicate BSIZE 0" using t(5) t(7) [OF data_not_bitmap [OF t(3)]] t(3) by (simp add: gview_data is_data_mkfs zeroes_def)
  have ind: "?W (d_addrs d ! NDIRECT) = ?V (d_addrs d ! NDIRECT)" if "d_addrs d ! NDIRECT \<noteq> 0"
    using that v(1) [of "d_addrs d ! NDIRECT"] by (intro t(7) data_not_bitmap) (simp add: fblocks_def)
  have ad: "faddr ?W (ino e) l = (if l = (if k < NDIRECT then k else MAXFILE) then ?a else faddr ?V (ino d) l)" if "l < MAXFILE" for l
  proof (cases "k = NDIRECT")
    case True
    have "4 * (l - NDIRECT) + 3 < BSIZE" using that by (simp add: MAXFILE_def NINDIRECT_def NDIRECT_def BSIZE_def)
    then show ?thesis using True that z len assms(5) get32_zeros by (auto simp: faddr_def e_def)
  next
    case False
    then show ?thesis using that len assms(4) ind by (auto simp: faddr_def e_def nth_list_update)
  qed
  show "faddr ?W (ino e) l = (if k < NDIRECT \<and> l = k then ?a else faddr ?V (ino d) l)" if "l < MAXFILE" using ad [OF that] that by auto
  show "grow mkfs_sb ?V (ino d) ?W (ino e)"
  proof (rule growI [OF assms(3) t(3,4), where ?k0.0 = "if k < NDIRECT then k else MAXFILE" and as = "(d_addrs d)[k := ?a]"])
    show "?W c = ?V c" if "is_data mkfs_sb c" for c using t(7) data_not_bitmap that by blast
    show "?W c = ?V c" if "\<not> is_bitmap mkfs_sb c" for c using t(7) that by (simp add: mkfs_layout)
    show "used mkfs_sb ?W c \<longleftrightarrow> c = ?a \<or> used mkfs_sb ?V c" if "unat c < unat (sb_size mkfs_sb)" for c using t(6) that by (simp add: mkfs_layout)
    show "faddr ?V (ino d) (if k < NDIRECT then k else MAXFILE) = 0" if "(if k < NDIRECT then k else MAXFILE) < MAXFILE"
      using that assms(5) by (auto simp: faddr_def split: if_splits)
    show "(d_addrs d)[k := ?a] ! NDIRECT = i_addrs (ino d) ! NDIRECT
      \<or> i_addrs (ino d) ! NDIRECT = 0 \<and> (d_addrs d)[k := ?a] ! NDIRECT = ?a \<and> MAXFILE \<le> (if k < NDIRECT then k else MAXFILE)"
      using assms(4,5) len by (auto simp: nth_list_update)
  qed (use len ad z in \<open>simp_all add: e_def\<close>)
qed

lemma take_entry:
  assumes "mk_ok s" "unat (freeblock s) < FSSIZE" "mfile s d" "m < NINDIRECT" "d_addrs d ! NDIRECT = ib" "ib \<noteq> 0" "get32 (4 * m) (mview s ib) = 0"
  defines "t \<equiv> wsect ib (put32 (4 * m) (freeblock s) (mview s ib)) (take_block s)"
  shows "grow mkfs_sb (gview s) (ino d) (gview t) (ino d)" "mk_ok t" "unat (freeblock t) = unat (freeblock s) + 1"
    "l < MAXFILE \<Longrightarrow> faddr (gview t) (ino d) l = (if l = m + NDIRECT then freeblock s else faddr (gview s) (ino d) l)"
proof -
  let ?a = "freeblock s" and ?V = "gview s" and ?W = "gview t" and ?e = "put32 (4 * m) (freeblock s) (mview s ib)"
  note t = take_block_ok [OF assms(1,2)]
  note v = file_okD [OF assms(3)]
  have ib: "is_data mkfs_sb ib" "used mkfs_sb ?V ib" using v(1,2) assms(5,6) by (auto simp: fblocks_def)
  then have ibs: "unat ib < FSSIZE" "ib \<noteq> 58" "ib \<noteq> ?a" "?V ib = mview s ib" using t(4) data_not_bitmap by (auto simp: is_data_mkfs gview_data)
  have img: "img_ok (take_block s)" "img_ok s" using t(1) assms(1) by (simp_all add: mk_ok_def)
  have len: "length (mview s ib) = BSIZE" using img by simp
  have e: "length ?e = BSIZE" using len by simp
  note w = wsect_ok [OF img(1) ibs(1) e]
  have mv: "mview t = (mview s)(ib := ?e)" "freeblock t = freeblock (take_block s)" unfolding t_def using w by simp_all
  have W: "?W = (gview (take_block s))(ib := ?e)" unfolding gview_def mv using ibs(2) by auto
  show ok: "mk_ok t" using t(1,2) w(1) ib(2) used_gview [OF assms(1) ibs(1)] unfolding mk_ok_def mv t_def [symmetric] by auto
  show "unat (freeblock t) = unat ?a + 1" using t(2) mv(2) by simp
  have m4: "4 * m + 3 < BSIZE" using assms(4) by (simp add: NINDIRECT_def BSIZE_def)
  have g32: "get32 (4 * l) ?e = (if l = m then ?a else get32 (4 * l) (mview s ib))" for l
    using m4 len by (cases l m rule: linorder_cases) auto
  show ad: "faddr ?W (ino d) l = (if l = m + NDIRECT then ?a else faddr ?V (ino d) l)" if "l < MAXFILE" for l
    using g32 assms(5,6) ibs(4) by (auto simp: faddr_def W)
  have z: "?W ?a = replicate BSIZE 0" using t(5) t(7) [OF data_not_bitmap [OF t(3)]] t(3) ibs(3) by (simp add: W gview_data is_data_mkfs zeroes_def)
  show "grow mkfs_sb ?V (ino d) ?W (ino d)"
  proof (rule growI [OF assms(3) t(3,4), where ?k0.0 = "m + NDIRECT" and as = "d_addrs d"])
    show "?W c = ?V c" if "is_data mkfs_sb c" "c \<noteq> i_addrs (ino d) ! NDIRECT" for c using t(7) data_not_bitmap that assms(5) by (simp add: W)
    show "?W c = ?V c" if "\<not> is_data mkfs_sb c" "\<not> is_bitmap mkfs_sb c" for c using t(7) that ib(1) by (auto simp: W mkfs_layout)
    show "used mkfs_sb ?W c \<longleftrightarrow> c = ?a \<or> used mkfs_sb ?V c" if "unat c < unat (sb_size mkfs_sb)" for c
      using t(6) [of c] that ibs(2) BBLOCK_mkfs [of c] by (simp add: mkfs_layout used_def W)
    show "faddr ?V (ino d) (m + NDIRECT) = 0" using assms(5,6,7) ibs(4) by (simp add: faddr_def)
  qed (use v(4) ad z in \<open>simp_all add: ino_def load_dinode_def\<close>)
qed

text \<open>A file of \<open>n\<close> blocks has its first \<open>n\<close> blocks, and an indirect block if they need one; \<open>need n\<close> blocks of the disk in all.\<close>

definition dense :: "(uint \<Rightarrow> block) \<Rightarrow> inode \<Rightarrow> nat \<Rightarrow> bool" where
  "dense V i n \<longleftrightarrow> (\<forall>k<MAXFILE. faddr V i k \<noteq> 0 \<longleftrightarrow> k < n) \<and> (i_addrs i ! NDIRECT \<noteq> 0 \<longleftrightarrow> NDIRECT < n)"

definition need :: "nat \<Rightarrow> nat" where
  "need n = n + (if NDIRECT < n then 1 else 0)"

definition meta_eq :: "dinode \<Rightarrow> dinode \<Rightarrow> bool" where
  "meta_eq d e \<longleftrightarrow> e = d\<lparr>d_addrs := d_addrs e\<rparr>"

definition grow_step :: "mkfs \<Rightarrow> dinode \<Rightarrow> nat \<Rightarrow> mkfs \<Rightarrow> dinode \<Rightarrow> nat \<Rightarrow> bool" where
  "grow_step s d n t e m \<longleftrightarrow> mk_ok t \<and> grow mkfs_sb (gview s) (ino d) (gview t) (ino e) \<and> dense (gview t) (ino e) m \<and> meta_eq d e
     \<and> freeinode t = freeinode s \<and> unat (freeblock t) + need n = unat (freeblock s) + need m"

lemma denseD:
  assumes "dense V i n"
  shows "k < MAXFILE \<Longrightarrow> faddr V i k = 0 \<longleftrightarrow> n \<le> k" "i_addrs i ! NDIRECT = 0 \<longleftrightarrow> n \<le> NDIRECT"
  using assms by (auto simp: dense_def not_less [symmetric])

lemma iappend_direct:
  assumes "mk_ok s" "mfile s d" "dense (gview s) (ino d) n" "unat fbn \<le> n" "unat fbn < NDIRECT" "unat (freeblock s) + need (max n (unat fbn + 1)) \<le> FSSIZE + need n"
  shows "\<exists>t e. iappend_block fbn d s = Done (faddr (gview t) (ino e) (unat fbn), e, t) \<and> grow_step s d n t e (max n (unat fbn + 1))"
proof (cases "unat fbn = n")
  case False
  then have n: "max n (unat fbn + 1) = n" "unat fbn < n" using assms(4) by auto
  then have "d_addrs d ! unat fbn \<noteq> 0" "faddr (gview s) (ino d) (unat fbn) = d_addrs d ! unat fbn"
    using denseD(1) [OF assms(3), of "unat fbn"] assms(5) by (auto simp: faddr_def MAXFILE_def)
  then have "iappend_block fbn d s = Done (faddr (gview s) (ino d) (unat fbn), d, s)" using assms(5) by (simp add: iappend_block_def)
  moreover have "grow_step s d n s d n" using assms(1-3) by (simp add: grow_step_def grow_refl meta_eq_def)
  ultimately show ?thesis using n by auto
next
  case True
  let ?e = "d\<lparr>d_addrs := (d_addrs d)[unat fbn := freeblock s]\<rparr>" and ?t = "take_block s"
  have m: "max n (unat fbn + 1) = n + 1" "n < MAXFILE" "n < NDIRECT" using True assms(5) by (auto simp: MAXFILE_def)
  have fr: "unat (freeblock s) < FSSIZE" using assms(6) m(1,3) by (simp add: need_def)
  have z: "d_addrs d ! unat fbn = 0" using denseD(1) [OF assms(3) m(2)] True m(3) by (simp add: faddr_def)
  have len: "unat fbn < length (d_addrs d)" using file_okD(4) [OF assms(2)] assms(5) by simp
  note t = take_block_ok [OF assms(1) fr] and a = take_addr [OF assms(1) fr assms(2) less_imp_le [OF assms(5)] z]
  have a0: "freeblock s \<noteq> 0" using is_data_size(2) [OF t(3)] .
  have "iappend_block fbn d s = Done (freeblock s, ?e, ?t)" using assms(5) z len by (simp add: iappend_block_def take_block_def)
  moreover have "faddr (gview ?t) (ino ?e) (unat fbn) = freeblock s" using a(2) [of "unat fbn"] m(2) True assms(5) by simp
  moreover have "dense (gview ?t) (ino ?e) (n + 1)"
    unfolding dense_def using a(2) denseD [OF assms(3)] True a0 m(3) assms(5) by auto
  then have "grow_step s d n ?t ?e (n + 1)" using a(1) t(1,2) m(3) by (simp add: grow_step_def meta_eq_def need_def)
  ultimately show ?thesis using m(1) by auto
qed

text \<open>The entry of the indirect block, once there is an indirect block.\<close>

lemma iappend_entry:
  assumes "mk_ok s" "mfile s d" "\<And>k. k < MAXFILE \<Longrightarrow> faddr (gview s) (ino d) k = 0 \<longleftrightarrow> n \<le> k" "k \<le> n" "NDIRECT \<le> k" "k < MAXFILE" "d_addrs d ! NDIRECT \<noteq> 0"
    and "n = k \<Longrightarrow> unat (freeblock s) < FSSIZE"
  shows "\<exists>t. ind_entry (d_addrs d ! NDIRECT) (k - NDIRECT) s = Done (faddr (gview t) (ino d) k, t)
         \<and> mk_ok t \<and> grow mkfs_sb (gview s) (ino d) (gview t) (ino d) \<and> (\<forall>l<MAXFILE. faddr (gview t) (ino d) l = 0 \<longleftrightarrow> max n (k + 1) \<le> l)
         \<and> freeinode t = freeinode s \<and> unat (freeblock t) + n = unat (freeblock s) + max n (k + 1)"
proof -
  let ?ib = "d_addrs d ! NDIRECT"
  have ib: "is_data mkfs_sb ?ib" using file_okD(1) [OF assms(2), of ?ib] assms(7) by (simp add: fblocks_def)
  then have gv: "gview s ?ib = mview s ?ib" "unat ?ib < FSSIZE" by (simp_all add: gview_data is_data_mkfs)
  have img: "img_ok s" using assms(1) by (simp add: mk_ok_def)
  have rd: "rsect ?ib s = Done (mview s ?ib)" using rsect_ok [OF img gv(2)] .
  have fa: "faddr (gview s) (ino d) k = get32 (4 * (k - NDIRECT)) (mview s ?ib)" using assms(5,7) gv(1) by (simp add: faddr_def)
  show ?thesis
  proof (cases "n = k")
    case False
    then have "max n (k + 1) = n" "get32 (4 * (k - NDIRECT)) (mview s ?ib) \<noteq> 0" using assms(3) [OF assms(6)] assms(4) fa by auto
    then show ?thesis using rd fa assms(1-3) grow_refl by (intro exI [of _ s]) (auto simp: ind_entry_def)
  next
    case True
    let ?m = "k - NDIRECT"
    have z: "get32 (4 * (k - NDIRECT)) (mview s ?ib) = 0" using assms(3) [OF assms(6)] True fa by simp
    have m: "?m < NINDIRECT" "?m + NDIRECT = k" using assms(5,6) by (auto simp: MAXFILE_def)
    have fr: "unat (freeblock s) < FSSIZE" using assms(8) True by simp
    note t = take_entry [OF assms(1) fr assms(2) m(1) refl assms(7) z]
    let ?t = "wsect ?ib (put32 (4 * ?m) (freeblock s) (mview s ?ib)) (take_block s)"
    have a0: "freeblock s \<noteq> 0" using is_data_size(2) [OF take_block_ok(3) [OF assms(1) fr]] .
    have fk: "faddr (gview ?t) (ino d) k = freeblock s" using t(4) [OF assms(6)] m(2) by simp
    have "get32 (4 * (k - NDIRECT)) (put32 (4 * (k - NDIRECT)) (freeblock s) (mview s ?ib)) = freeblock s"
      using m(1) img by (intro get32_put32_same) (simp add: NINDIRECT_def BSIZE_def)
    then have run: "ind_entry ?ib ?m s = Done (faddr (gview ?t) (ino d) k, ?t)" using rd z fk by (simp add: ind_entry_def Let_def take_block_def)
    have "faddr (gview ?t) (ino d) l = 0 \<longleftrightarrow> max n (k + 1) \<le> l" if "l < MAXFILE" for l
      using t(4) [OF that] assms(3) [OF that] True a0 m(2) by auto
    then show ?thesis using run t(1-3) True by (intro exI [of _ ?t]) auto
  qed
qed

lemma grow_trans: "file_ok g V i \<Longrightarrow> grow g V i W j \<Longrightarrow> grow g W j X l \<Longrightarrow> grow g V i X l"
  unfolding grow_def using extends_trans by metis

lemma iappend_indirect:
  assumes "mk_ok s" "mfile s d" "dense (gview s) (ino d) n" "unat fbn \<le> n" "NDIRECT \<le> unat fbn" "unat fbn < MAXFILE"
    and "unat (freeblock s) + need (max n (unat fbn + 1)) \<le> FSSIZE + need n"
  shows "\<exists>t e. iappend_block fbn d s = Done (faddr (gview t) (ino e) (unat fbn), e, t) \<and> grow_step s d n t e (max n (unat fbn + 1))"
proof (cases "d_addrs d ! NDIRECT = 0")
  case False
  then have n: "NDIRECT < n" using denseD(2) [OF assms(3)] by auto
  have fr: "unat (freeblock s) < FSSIZE" if "n = unat fbn" using assms(7) n that by (simp add: need_def)
  obtain t where t: "iappend_block fbn d s = Done (faddr (gview t) (ino d) (unat fbn), d, t)" "mk_ok t" "grow mkfs_sb (gview s) (ino d) (gview t) (ino d)"
    "\<forall>l<MAXFILE. faddr (gview t) (ino d) l = 0 \<longleftrightarrow> max n (unat fbn + 1) \<le> l" "freeinode t = freeinode s" "unat (freeblock t) + n = unat (freeblock s) + max n (unat fbn + 1)"
    using iappend_entry [OF assms(1,2) denseD(1) [OF assms(3)] assms(4-6) False fr] False assms(5) unfolding iappend_block_def by auto
  have "dense (gview t) (ino d) (max n (unat fbn + 1))" unfolding dense_def using t(4) n False by (auto simp: not_less [symmetric])
  then have "grow_step s d n t d (max n (unat fbn + 1))" using t(2,3,5,6) n by (auto simp: grow_step_def meta_eq_def need_def)
  then show ?thesis using t(1) by blast
next
  case True
  then have n: "n = NDIRECT" "unat fbn = NDIRECT" using denseD(2) [OF assms(3)] assms(4,5) by auto
  have fr: "unat (freeblock s) + 1 < FSSIZE" using assms(7) n by (simp add: need_def)
  let ?d = "d\<lparr>d_addrs := (d_addrs d)[NDIRECT := freeblock s]\<rparr>" and ?u = "take_block s"
  have frs: "unat (freeblock s) < FSSIZE" using fr by simp
  note u = take_block_ok [OF assms(1) frs] and a = take_addr [OF assms(1) frs assms(2) order_refl True]
  have len: "NDIRECT < length (d_addrs d)" using file_okD(4) [OF assms(2)] by simp
  have ib: "d_addrs ?d ! NDIRECT = freeblock s" "d_addrs ?d ! NDIRECT \<noteq> 0" using len is_data_size(2) [OF u(3)] by auto
  have f: "mfile ?u ?d" using a(1) extendsD(1) unfolding grow_def by blast
  have z: "faddr (gview ?u) (ino ?d) k = 0 \<longleftrightarrow> n \<le> k" if "k < MAXFILE" for k using a(2) [OF that] denseD(1) [OF assms(3) that] by simp
  have fu: "unat (freeblock ?u) < FSSIZE" using u(2) fr by simp
  obtain t where t: "iappend_block fbn d s = Done (faddr (gview t) (ino ?d) (unat fbn), ?d, t)" "mk_ok t" "grow mkfs_sb (gview ?u) (ino ?d) (gview t) (ino ?d)"
    "\<forall>l<MAXFILE. faddr (gview t) (ino ?d) l = 0 \<longleftrightarrow> max n (unat fbn + 1) \<le> l" "freeinode t = freeinode s" "unat (freeblock t) + n = unat (freeblock ?u) + max n (unat fbn + 1)"
    using iappend_entry [OF u(1) f z assms(4-6) ib(2) fu] True ib(1) n(2) len unfolding iappend_block_def by (auto simp: take_block_def)
  have "dense (gview t) (ino ?d) (max n (unat fbn + 1))" unfolding dense_def using t(4) n ib(2) by (auto simp: not_less [symmetric])
  then have "grow_step s d n t ?d (max n (unat fbn + 1))"
    using t(2,5,6) n u(2) grow_trans [OF assms(2) a(1) t(3)] by (simp add: grow_step_def meta_eq_def need_def)
  then show ?thesis using t(1) by blast
qed

lemma iappend_block_spec:
  assumes "mk_ok s" "mfile s d" "dense (gview s) (ino d) n" "unat fbn \<le> n" "unat fbn < MAXFILE" "unat (freeblock s) + need (max n (unat fbn + 1)) \<le> FSSIZE + need n"
  shows "\<exists>t e. iappend_block fbn d s = Done (faddr (gview t) (ino e) (unat fbn), e, t) \<and> grow_step s d n t e (max n (unat fbn + 1))"
  using iappend_direct [OF assms(1-4)] iappend_indirect [OF assms(1-4)] assms(5,6) by (cases "unat fbn < NDIRECT") auto

text \<open>The contents after an append.\<close>

definition nblk :: "nat \<Rightarrow> nat" where
  "nblk z = (z + (BSIZE - 1)) div BSIZE"

definition append_step :: "mkfs \<Rightarrow> dinode \<Rightarrow> nat \<Rightarrow> uchar list \<Rightarrow> mkfs \<Rightarrow> dinode \<Rightarrow> bool" where
  "append_step s d z p t e \<longleftrightarrow> mk_ok t \<and> extends mkfs_sb (gview s) (ino d) (gview t) (ino e) \<and> dense (gview t) (ino e) (nblk (z + length p)) \<and> meta_eq d e
     \<and> (\<forall>q<MAXFILE * BSIZE. fbyte (gview t) (ino e) q = put_bytes (fbyte (gview s) (ino d)) z p q)
     \<and> freeinode t = freeinode s \<and> unat (freeblock t) + need (nblk z) = unat (freeblock s) + need (nblk (z + length p))"

lemma nblk_simps: "nblk z \<le> z div BSIZE + 1" "z div BSIZE \<le> nblk z" "0 < n \<Longrightarrow> z mod BSIZE + n \<le> BSIZE \<Longrightarrow> nblk (z + n) = z div BSIZE + 1"
proof -
  define q r where "q = z div 512" and "r = z mod 512"
  have z: "z = q * 512 + r" "r < 512" by (simp_all add: q_def r_def)
  have e: "nblk (z + n) = q + (r + n + 511) div 512" for n
    unfolding nblk_def BSIZE_def z(1) using div_mult_self3 [of 512 q "r + n + 511"] by (simp add: add.assoc)
  have "nblk z = q + (r + 511) div 512" using e [of 0] by simp
  then show "nblk z \<le> z div BSIZE + 1" "z div BSIZE \<le> nblk z" using z(2) by (simp_all add: BSIZE_def q_def [symmetric])
  show "nblk (z + n) = z div BSIZE + 1" if "0 < n" "z mod BSIZE + n \<le> BSIZE"
  proof -
    have "(r + n + 511) div 512 = 1" using that by (intro div_nat_eqI) (simp_all add: BSIZE_def r_def)
    then show ?thesis using e by (simp add: BSIZE_def q_def [symmetric])
  qed
qed

lemma nblk_mono: "y \<le> z \<Longrightarrow> nblk y \<le> nblk z" and need_mono: "m \<le> n \<Longrightarrow> need m \<le> need n"
  by (auto simp: nblk_def need_def div_le_mono)

lemma n1_facts:
  fixes off :: uint
  assumes "p \<noteq> []" "unat off + length p \<le> MAXFILE * BSIZE"
  defines "n1 \<equiv> min (of_nat (length p)) ((off div of_nat BSIZE + 1) * of_nat BSIZE - off)"
  shows "0 < unat n1" "unat off mod BSIZE + unat n1 \<le> BSIZE" "unat n1 \<le> length p" "unat (off + n1) = unat off + unat n1"
    "unat (off - off div of_nat BSIZE * of_nat BSIZE) = unat off mod BSIZE"
proof -
  have M: "MAXFILE * BSIZE = 71680" by (simp add: MAXFILE_def NINDIRECT_def NDIRECT_def BSIZE_def)
  have o: "unat off \<le> 71680" "length p \<le> 71680" using assms(2) unfolding M by simp_all
  have d: "unat (off div of_nat BSIZE) = unat off div 512" by (simp add: unat_div BSIZE_def)
  have d1: "unat (off div of_nat BSIZE + 1) = unat off div 512 + 1" using o(1) d by (subst unat_add_uint) (simp_all add: BSIZE_def)
  have f: "unat ((off div of_nat BSIZE + 1) * of_nat BSIZE) = (unat off div 512 + 1) * 512" "unat (off div of_nat BSIZE * of_nat BSIZE) = unat off div 512 * 512"
    using o(1) d d1 by (simp_all add: unat_word_ariths BSIZE_def)
  have r: "unat ((off div of_nat BSIZE + 1) * of_nat BSIZE - off) = 512 - unat off mod 512"
  proof -
    have "off \<le> (off div of_nat BSIZE + 1) * of_nat BSIZE" unfolding word_le_nat_alt f add_mult_distrib using div_mult_mod_eq [of "unat off" 512] mod_less_divisor [of 512 "unat off", OF zero_less_numeral] by linarith
    then show ?thesis using div_mult_mod_eq [of "unat off" 512] by (simp only: unat_sub f add_mult_distrib)
  qed
  have l: "unat (of_nat (length p) :: uint) = length p" using o(2) by (intro unat_of_nat_uint) simp
  have n: "unat n1 = min (length p) (512 - unat off mod 512)"
    unfolding n1_def min_def word_le_nat_alt l r by (simp only: if_distrib [of unat] l r)
  show "0 < unat n1" "unat off mod BSIZE + unat n1 \<le> BSIZE" "unat n1 \<le> length p" unfolding n using assms(1) by (auto simp: BSIZE_def)
  then show "unat (off + n1) = unat off + unat n1" using o by (intro unat_add_uint) simp
  have "off div of_nat BSIZE * of_nat BSIZE \<le> off" unfolding word_le_nat_alt f by simp
  then show "unat (off - off div of_nat BSIZE * of_nat BSIZE) = unat off mod BSIZE" by (simp only: unat_sub f) (simp add: BSIZE_def minus_div_mult_eq_mod)
qed

lemma write_data:
  assumes "mk_ok s" "mfile s d" "q div BSIZE < MAXFILE" "faddr (gview s) (ino d) (q div BSIZE) = x" "x \<noteq> 0" "q mod BSIZE + length bs \<le> BSIZE"
  defines "t \<equiv> wsect x (take (q mod BSIZE) (mview s x) @ bs @ drop (q mod BSIZE + length bs) (mview s x)) s"
  shows "rsect x s = Done (mview s x)" "mk_ok t" "extends mkfs_sb (gview s) (ino d) (gview t) (ino d)" "dense (gview t) (ino d) n \<longleftrightarrow> dense (gview s) (ino d) n"
    "p < MAXFILE * BSIZE \<Longrightarrow> fbyte (gview t) (ino d) p = put_bytes (fbyte (gview s) (ino d)) q bs p" "freeblock t = freeblock s" "freeinode t = freeinode s"
proof -
  let ?b = "take (q mod BSIZE) (mview s x) @ bs @ drop (q mod BSIZE + length bs) (mview s x)"
  note v = file_okD [OF assms(2)]
  have "x \<in> fblocks (gview s) (ino d)" using faddr_fblocks [OF assms(3)] assms(4,5) by metis
  then have x: "is_data mkfs_sb x" "used mkfs_sb (gview s) x" using v(1,2) by auto
  then have xs: "unat x < FSSIZE" "x \<noteq> 58" "gview s x = mview s x" using data_not_bitmap by (auto simp: is_data_mkfs gview_data)
  have img: "img_ok s" using assms(1) by (simp add: mk_ok_def)
  show "rsect x s = Done (mview s x)" using rsect_ok [OF img xs(1)] .
  have len: "length ?b = BSIZE" using assms(6) img by simp
  note w = wsect_ok [OF img xs(1) len]
  have mv: "mview t = (mview s)(x := ?b)" "img_ok t" unfolding t_def using w by simp_all
  show f: "freeblock t = freeblock s" "freeinode t = freeinode s" unfolding t_def by simp_all
  have g: "gview t = (gview s)(x := ?b)" unfolding gview_def mv(1) f(1) using xs(2) by auto
  show "mk_ok t" using assms(1) x(2) used_gview [OF assms(1) xs(1)] mv(2) unfolding mk_ok_def mv(1) f(1) by auto
  have nb: "\<forall>c. unat c < unat (sb_size mkfs_sb) \<longrightarrow> BBLOCK c mkfs_sb \<noteq> x" using xs(2) by (simp add: mkfs_layout BBLOCK_mkfs)
  note e = extends_data [OF assms(2-5) nb, where d = ?b]
  show "extends mkfs_sb (gview s) (ino d) (gview t) (ino d)" unfolding g by (rule e(1))
  show "dense (gview t) (ino d) n \<longleftrightarrow> dense (gview s) (ino d) n" unfolding g dense_def using e(2) by auto
  show "fbyte (gview t) (ino d) p = put_bytes (fbyte (gview s) (ino d)) q bs p" if "p < MAXFILE * BSIZE"
    unfolding g by (rule fbyte_data [OF assms(2-5) _ assms(6) that e(2)]) (use img xs(3) in simp_all)
qed

lemma append_step_trans:
  assumes "mfile s d" "append_step s d z p t e" "append_step t e (z + length p) p' u f"
  shows "append_step s d z (p @ p') u f"
proof -
  have "extends mkfs_sb (gview s) (ino d) (gview u) (ino f)" using extends_trans [OF assms(1)] assms(2,3) unfolding append_step_def by blast
  moreover have "meta_eq d f" using assms(2,3) unfolding append_step_def meta_eq_def by (metis dinode.surjective dinode.update_convs(6))
  moreover have "put_bytes g y p' q = put_bytes h y p' q" if "g q = h q" for g h y q using that by (simp add: put_bytes_def)
  then have "fbyte (gview u) (ino f) q = put_bytes (fbyte (gview s) (ino d)) z (p @ p') q" if "q < MAXFILE * BSIZE" for q
    using assms(2,3) that unfolding append_step_def put_bytes_append [symmetric] by metis
  ultimately show ?thesis using assms(2,3) unfolding append_step_def by (simp add: add.assoc)
qed

lemma iappend_loop_spec:
  assumes "mk_ok s" "mfile s d" "dense (gview s) (ino d) (nblk (unat off))" "unat off + length p \<le> MAXFILE * BSIZE" "length p < fuel"
    and "unat (freeblock s) + need (nblk (unat off + length p)) \<le> FSSIZE + need (nblk (unat off))"
  shows "\<exists>off' t e. iappend_loop fuel p off d s = Done (off', e, t) \<and> unat off' = unat off + length p \<and> append_step s d (unat off) p t e"
  using assms
proof (induction fuel arbitrary: p off d s)
  case (Suc fuel)
  show ?case
  proof (cases "p = []")
    case True
    then show ?thesis using Suc.prems(1-3) grow_refl [OF Suc.prems(2)] by (auto simp: append_step_def grow_def meta_eq_def)
  next
    case False
    let ?fbn = "off div of_nat BSIZE :: uint" and ?z = "unat off"
    let ?n1 = "min (of_nat (length p)) ((?fbn + 1) * of_nat BSIZE - off)"
    note n1 = n1_facts [OF False Suc.prems(4)]
    have fbn: "unat ?fbn = ?z div BSIZE" by (rule block_index)
    have "?z < MAXFILE * BSIZE" using Suc.prems(4) False by (cases p) auto
    then have mx: "?z div BSIZE < MAXFILE" by (simp add: less_mult_imp_div_less)
    have nb: "max (nblk ?z) (?z div BSIZE + 1) = ?z div BSIZE + 1" "nblk (?z + unat ?n1) = ?z div BSIZE + 1"
      using nblk_simps(1) [of ?z] nblk_simps(3) [OF n1(1,2)] by simp_all
    have "need (?z div BSIZE + 1) \<le> need (nblk (?z + length p))" using nblk_mono [of "?z + unat ?n1" "?z + length p"] n1(3) nb(2) need_mono by auto
    then obtain t e where t: "iappend_block ?fbn d s = Done (faddr (gview t) (ino e) (?z div BSIZE), e, t)" "grow_step s d (nblk ?z) t e (?z div BSIZE + 1)"
      using iappend_block_spec [OF Suc.prems(1-3), of ?fbn] nblk_simps(2) [of ?z] Suc.prems(6) mx unfolding fbn nb(1) by auto
    let ?x = "faddr (gview t) (ino e) (?z div BSIZE)"
    have te: "mk_ok t" "mfile t e" "dense (gview t) (ino e) (?z div BSIZE + 1)" using t(2) extendsD(1) by (auto simp: grow_step_def grow_def)
    have x: "?x \<noteq> 0" using te(3) mx by (simp add: dense_def)
    have bs: "?z mod BSIZE + length (take (unat ?n1) p) \<le> BSIZE" "length (take (unat ?n1) p) = unat ?n1" using n1(2,3) by auto
    note w = write_data [OF te(1,2) mx refl x bs(1), unfolded bs(2)]
    let ?u = "wsect ?x (take (?z mod BSIZE) (mview t ?x) @ take (unat ?n1) p @ drop (?z mod BSIZE + unat ?n1) (mview t ?x)) t"
    have st: "append_step s d ?z (take (unat ?n1) p) ?u e"
      using t(2) w(2-7) te(3) extends_trans [OF Suc.prems(2)] unfolding append_step_def grow_step_def grow_def bs(2) nb(2)
      by (auto simp: put_bytes_def)
    have fu: "mfile ?u e" using w(3) extendsD(1) by blast
    have zn: "unat (off + ?n1) = ?z + unat ?n1" by (rule n1(4))
    have "\<exists>off' t' e'. iappend_loop fuel (drop (unat ?n1) p) (off + ?n1) e ?u = Done (off', e', t') \<and> unat off' = unat (off + ?n1) + length (drop (unat ?n1) p)
        \<and> append_step ?u e (unat (off + ?n1)) (drop (unat ?n1) p) t' e'"
    proof (rule Suc.IH [OF w(2) fu], unfold zn nb(2))
      show "dense (gview ?u) (ino e) (?z div BSIZE + 1)" using w(4) te(3) by blast
      show "?z + unat ?n1 + length (drop (unat ?n1) p) \<le> MAXFILE * BSIZE" using Suc.prems(4) n1(3) by simp
      show "length (drop (unat ?n1) p) < fuel" using Suc.prems(5) n1(1,3) by simp
      have "unat (freeblock ?u) + need (nblk ?z) = unat (freeblock s) + need (?z div BSIZE + 1)" using t(2) w(6) by (simp add: grow_step_def)
      moreover have "?z + unat ?n1 + length (drop (unat ?n1) p) = ?z + length p" using n1(3) by simp
      ultimately show "unat (freeblock ?u) + need (nblk (?z + unat ?n1 + length (drop (unat ?n1) p))) \<le> FSSIZE + need (?z div BSIZE + 1)"
        using Suc.prems(6) by simp
    qed
    then obtain off' t' e' where r: "iappend_loop fuel (drop (unat ?n1) p) (off + ?n1) e ?u = Done (off', e', t')" "unat off' = ?z + length p"
      "append_step ?u e (?z + unat ?n1) (drop (unat ?n1) p) t' e'" unfolding zn using n1(3) by auto
    have "append_step s d ?z p t' e'" using append_step_trans [OF Suc.prems(2) st, unfolded bs(2), OF r(3)] by (simp only: append_take_drop_id)
    moreover have "iappend_loop (Suc fuel) p off d s = Done (off', e', t')" using False mx t(1) w(1) r(1) n1(5) fbn by (simp add: Let_def)
    ultimately show ?thesis using r(2) by blast
  qed
qed simp

section \<open>All the files of the image\<close>

lemma file_same:
  assumes "file_ok g V i" "\<And>c. c \<in> fblocks V i \<Longrightarrow> W c = V c \<and> used g W c"
  shows "k < MAXFILE \<Longrightarrow> faddr W i k = faddr V i k" "fblocks W i = fblocks V i" "file_ok g W i" "q < MAXFILE * BSIZE \<Longrightarrow> fbyte W i q = fbyte V i q"
    "dense W i n \<longleftrightarrow> dense V i n"
proof -
  note v = file_okD [OF assms(1)]
  have "W (i_addrs i ! NDIRECT) = V (i_addrs i ! NDIRECT)" if "i_addrs i ! NDIRECT \<noteq> 0" using assms(2) that by (simp add: fblocks_def)
  then show ad: "faddr W i k = faddr V i k" if "k < MAXFILE" for k by (simp add: faddr_def)
  then show fb: "fblocks W i = fblocks V i" by (simp add: fblocks_def)
  show "file_ok g W i" using assms ad unfolding file_ok_def fb by auto
  show "dense W i n \<longleftrightarrow> dense V i n" using ad by (simp add: dense_def)
  show "fbyte W i q = fbyte V i q" if "q < MAXFILE * BSIZE"
  proof -
    have k: "q div BSIZE < MAXFILE" using that by (simp add: less_mult_imp_div_less)
    show ?thesis using ad [OF k] assms(2) faddr_fblocks [OF k, of V i] by (simp add: fbyte_def Let_def)
  qed
qed

abbreviation minode :: "mkfs \<Rightarrow> uint \<Rightarrow> dinode" where
  "minode s \<equiv> inode_view mkfs_sb (mview s)"

lemma iblock_mkfs:
  assumes "unat inum < NINODES"
  shows "32 \<le> unat (IBLOCK inum mkfs_sb)" "unat (IBLOCK inum mkfs_sb) < 58"
proof -
  have "unat (inum div 8) = unat inum div 8" by (simp add: unat_div)
  then have "unat (IBLOCK inum mkfs_sb) = unat inum div 8 + 32"
    using assms by (simp add: IBLOCK_def mkfs_sb_eq sample_sb_def IPB_def BSIZE_def dinode_size_def NINODES_def unat_word_ariths)
  then show "32 \<le> unat (IBLOCK inum mkfs_sb)" "unat (IBLOCK inum mkfs_sb) < 58" using assms by (simp_all add: NINODES_def)
qed

lemma rinode_ok: "img_ok s \<Longrightarrow> unat inum < NINODES \<Longrightarrow> rinode inum s = Done (minode s inum)"
  using iblock_mkfs [of inum] by (simp add: rinode_def inode_view_def rsect_ok FSSIZE_def)

lemma winode_ok:
  assumes "mk_ok s" "unat inum < NINODES" "length (d_addrs d) = NDIRECT + 1"
  obtains t where "winode inum d s = Done t" "mk_ok t" "minode t = (minode s)(inum := d)" "freeblock t = freeblock s" "freeinode t = freeinode s"
    "\<And>c. unat c < 32 \<Longrightarrow> mview t c = mview s c" "\<And>c. 58 \<le> unat c \<Longrightarrow> gview t c = gview s c"
proof -
  let ?b = "IBLOCK inum mkfs_sb"
  let ?t = "wsect ?b (put_dinode inum d (mview s ?b)) s"
  note b = iblock_mkfs [OF assms(2)]
  have img: "img_ok s" and bs: "unat ?b < FSSIZE" using assms(1) b(2) by (simp_all add: mk_ok_def FSSIZE_def)
  have len: "length (put_dinode inum d (mview s ?b)) = BSIZE" using img by (simp add: length_put_dinode)
  note w = wsect_ok [OF img bs len]
  show thesis
  proof
    show "winode inum d s = Done ?t" using rsect_ok [OF img bs] by (simp add: winode_def Let_def)
    show "mk_ok ?t" using assms(1) w b(2) by (auto simp: mk_ok_def nmeta_eq)
    show "minode ?t = (minode s)(inum := d)" unfolding w(2) using inode_view_put [of "mview s" inum mkfs_sb d] img assms(3) by simp
    show "mview ?t c = mview s c" if "unat c < 32" for c using that b(1) by (auto simp: w(2))
    show "gview ?t c = gview s c" if "58 \<le> unat c" for c using that b(2) by (auto simp: gview_def w(2))
  qed simp_all
qed

definition file_is :: "mkfs \<Rightarrow> uint \<Rightarrow> ushort \<times> uchar list \<Rightarrow> bool" where
  "file_is s inum f \<longleftrightarrow>
     (let d = minode s inum
      in d_type d = fst f \<and> d_major d = 0 \<and> d_minor d = 0 \<and> d_nlink d = 1 \<and> unat (d_size d) = length (snd f) \<and> length (snd f) \<le> MAXFILE * BSIZE \<and> mfile s d
         \<and> dense (gview s) (ino d) (nblk (length (snd f))) \<and> (\<forall>q<length (snd f). fbyte (gview s) (ino d) q = snd f ! q))"

definition blocks_of :: "(ushort \<times> uchar list) list \<Rightarrow> nat" where
  "blocks_of fs = sum_list (map (\<lambda>f. need (nblk (length (snd f)))) fs)"

abbreviation iblocks :: "mkfs \<Rightarrow> nat \<Rightarrow> uint set" where
  "iblocks s k \<equiv> fblocks (gview s) (ino (minode s (of_nat (k + 1))))"

text \<open>\<open>fs_is s fs\<close>: the inodes from 1 on are the files \<open>fs\<close>, with disjoint blocks, and no other block is allocated.\<close>

definition fs_is :: "mkfs \<Rightarrow> (ushort \<times> uchar list) list \<Rightarrow> bool" where
  "fs_is s fs \<longleftrightarrow> mk_ok s \<and> unat (freeinode s) = length fs + 1 \<and> length fs < NINODES \<and> (\<forall>k<length fs. file_is s (of_nat (k + 1)) (fs ! k))
     \<and> (\<forall>k<length fs. \<forall>j<length fs. j \<noteq> k \<longrightarrow> iblocks s j \<inter> iblocks s k = {}) \<and> unat (freeblock s) = nmeta + blocks_of fs
     \<and> mview s 1 = sb_block \<and> (\<forall>c. unat c < 32 \<and> c \<noteq> 1 \<longrightarrow> mview s c = zeroes)"

lemma file_is_same:
  assumes "file_is s inum f" "minode t inum = minode s inum" "\<And>c. c \<in> fblocks (gview s) (ino (minode s inum)) \<Longrightarrow> gview t c = gview s c \<and> used mkfs_sb (gview t) c"
  shows "file_is t inum f" "fblocks (gview t) (ino (minode t inum)) = fblocks (gview s) (ino (minode s inum))"
proof -
  have ok: "mfile s (minode s inum)" using assms(1) by (simp add: file_is_def Let_def)
  note f = file_same [OF ok assms(3)]
  show "fblocks (gview t) (ino (minode t inum)) = fblocks (gview s) (ino (minode s inum))" unfolding assms(2) by (rule f(2))
  show "file_is t inum f" using assms(1) f(3,4,5) unfolding file_is_def Let_def assms(2) by simp
qed

lemma blocks_of_update:
  assumes "k < length fs"
  shows "blocks_of (fs[k := f]) + need (nblk (length (snd (fs ! k)))) = blocks_of fs + need (nblk (length (snd f)))"
proof -
  let ?n = "\<lambda>f :: ushort \<times> uchar list. need (nblk (length (snd f)))"
  have "?n (fs ! k) \<le> blocks_of fs" unfolding blocks_of_def using elem_le_sum_list [of k "map ?n fs"] assms by simp
  then show ?thesis using sum_list_update [of k "map ?n fs" "?n f"] assms by (simp add: blocks_of_def map_update)
qed

lemma file_addrs:
  assumes "i_addrs i = i_addrs j" "i_dev i = i_dev j"
  shows "faddr V i = faddr V j" "fblocks V i = fblocks V j" "fbyte V i = fbyte V j" "file_ok g V i = file_ok g V j" "dense V i n = dense V j n"
proof -
  show a: "faddr V i = faddr V j" for V using assms by (intro ext) (simp add: faddr_def)
  show b: "fblocks V i = fblocks V j" using assms by (simp add: fblocks_def a)
  show "fbyte V i = fbyte V j" by (rule ext) (simp add: fbyte_def a)
  show "file_ok g V i = file_ok g V j" using assms by (simp add: file_ok_def a b)
  show "dense V i n = dense V j n" using assms by (simp add: dense_def a)
qed

lemmas ino_size [simp] = file_addrs [where i = "ino (d\<lparr>d_size := z\<rparr>)" and j = "ino d" for d z, simplified]

lemma unat_inum: "k < NINODES \<Longrightarrow> unat (of_nat (k + 1) :: uint) = k + 1"
  by (rule unat_of_nat_uint) (simp add: NINODES_def)

lemma inum_inj: "j < NINODES \<Longrightarrow> k < NINODES \<Longrightarrow> (of_nat (j + 1) :: uint) = of_nat (k + 1) \<longleftrightarrow> j = k"
  using unat_inum by (metis add_right_cancel)

lemma mfile_used: "mfile s d \<Longrightarrow> c \<in> fblocks (gview s) (ino d) \<Longrightarrow> is_data mkfs_sb c \<and> used mkfs_sb (gview s) c \<and> 58 \<le> unat c \<and> unat c < FSSIZE"
  using file_okD(1,2) [of mkfs_sb "gview s" "ino d" c] by (auto simp: is_data_mkfs nmeta_eq)

text \<open>
  One file is changed by a step that extends it and by writing its inode.  Inode blocks come before block 58, so the bitmap and the data are those after the step.
\<close>

lemma used_same: "\<forall>c. 58 \<le> unat c \<longrightarrow> gview u c = gview t c \<Longrightarrow> unat c < FSSIZE \<Longrightarrow> used mkfs_sb (gview u) c \<longleftrightarrow> used mkfs_sb (gview t) c"
  by (simp add: used_def BBLOCK_mkfs)

lemma step_other:
  assumes "file_is s i f" "extends mkfs_sb (gview s) (ino d) (gview t) (ino e)" "fblocks (gview s) (ino (minode s i)) \<inter> fblocks (gview s) (ino d) = {}"
    and "minode u i = minode s i" "\<forall>c. 58 \<le> unat c \<longrightarrow> gview u c = gview t c"
  shows "file_is u i f" "fblocks (gview u) (ino (minode u i)) = fblocks (gview s) (ino (minode s i))"
    "fblocks (gview s) (ino (minode s i)) \<inter> fblocks (gview t) (ino e) = {}"
proof -
  have ok: "mfile s (minode s i)" using assms(1) by (simp add: file_is_def Let_def)
  have same: "gview u c = gview s c \<and> used mkfs_sb (gview u) c" if c: "c \<in> fblocks (gview s) (ino (minode s i))" for c
  proof -
    note m = mfile_used [OF ok c]
    have "gview t c = gview s c" using extendsD(3) [OF assms(2)] m c assms(3) by blast
    moreover have "used mkfs_sb (gview t) c" using assms(2) m unfolding extends_def mkfs_layout(2) by blast
    ultimately show ?thesis using m assms(5) used_same [OF assms(5)] by simp
  qed
  show "file_is u i f" "fblocks (gview u) (ino (minode u i)) = fblocks (gview s) (ino (minode s i))" using file_is_same [OF assms(1,4) same] by blast+
  show "fblocks (gview s) (ino (minode s i)) \<inter> fblocks (gview t) (ino e) = {}"
  proof (intro equals0I, elim IntE)
    fix c assume c: "c \<in> fblocks (gview s) (ino (minode s i))" "c \<in> fblocks (gview t) (ino e)"
    then have "\<not> used mkfs_sb (gview s) c" using assms(2,3) unfolding extends_def by blast
    then show False using mfile_used [OF ok c(1)] by blast
  qed
qed

lemma step_self:
  assumes "file_is s i f" "append_step s (minode s i) (length (snd f)) p t e" "length (snd f) + length p \<le> MAXFILE * BSIZE"
    and "minode u i = e\<lparr>d_size := off\<rparr>" "unat off = length (snd f) + length p" "\<forall>c. 58 \<le> unat c \<longrightarrow> gview u c = gview t c"
  shows "file_is u i (fst f, snd f @ p)" "fblocks (gview u) (ino (minode u i)) = fblocks (gview t) (ino e)"
proof -
  let ?d = "minode s i"
  have t: "extends mkfs_sb (gview s) (ino ?d) (gview t) (ino e)" "dense (gview t) (ino e) (nblk (length (snd f) + length p))" "meta_eq ?d e"
    "\<And>q. q < MAXFILE * BSIZE \<Longrightarrow> fbyte (gview t) (ino e) q = put_bytes (fbyte (gview s) (ino ?d)) (length (snd f)) p q"
    using assms(2) by (auto simp: append_step_def)
  note x = extendsD(1) [OF t(1)]
  have "gview u c = gview t c \<and> used mkfs_sb (gview u) c" if "c \<in> fblocks (gview t) (ino e)" for c
    using mfile_used [OF x that] assms(6) used_same [OF assms(6)] by blast
  then have fu: "fblocks (gview u) (ino e) = fblocks (gview t) (ino e)" "mfile u e" "dense (gview u) (ino e) n \<longleftrightarrow> dense (gview t) (ino e) n"
    "q < MAXFILE * BSIZE \<Longrightarrow> fbyte (gview u) (ino e) q = fbyte (gview t) (ino e) q" for n q
    using file_same [OF x, of "gview u"] by blast+
  show "fblocks (gview u) (ino (minode u i)) = fblocks (gview t) (ino e)" unfolding assms(4) using fu(1) by simp
  have old: "d_type ?d = fst f" "d_major ?d = 0" "d_minor ?d = 0" "d_nlink ?d = 1" "\<And>q. q < length (snd f) \<Longrightarrow> fbyte (gview s) (ino ?d) q = snd f ! q"
    using assms(1) by (simp_all add: file_is_def Let_def)
  have "d_type e = d_type ?d" "d_major e = d_major ?d" "d_minor e = d_minor ?d" "d_nlink e = d_nlink ?d"
    using t(3) unfolding meta_eq_def by (metis dinode.select_convs dinode.surjective dinode.update_convs(6))+
  moreover have "fbyte (gview u) (ino e) q = (snd f @ p) ! q" if "q < length (snd f) + length p" for q
  proof -
    have q: "q < MAXFILE * BSIZE" using that assms(3) by linarith
    show ?thesis unfolding fu(4) [OF q] t(4) [OF q] using old(5) that by (auto simp: put_bytes_def nth_append)
  qed
  ultimately show "file_is u i (fst f, snd f @ p)" using old fu(2,3) t(2) assms(3,5) unfolding file_is_def Let_def assms(4) by simp
qed

lemma fs_change:
  assumes "fs_is s fs" "k < length fs"
    and step: "append_step s (minode s (of_nat (k + 1))) (length (snd (fs ! k))) p t e" and len: "length (snd (fs ! k)) + length p \<le> MAXFILE * BSIZE"
    and size: "unat off = length (snd (fs ! k)) + length p"
  obtains u where "winode (of_nat (k + 1)) (e\<lparr>d_size := off\<rparr>) t = Done u" "fs_is u (fs[k := (fst (fs ! k), snd (fs ! k) @ p)])"
proof -
  let ?i = "of_nat (k + 1) :: uint" and ?e = "e\<lparr>d_size := off\<rparr>" and ?f = "(fst (fs ! k), snd (fs ! k) @ p)"
  let ?d = "minode s ?i"
  have s: "mk_ok s" "unat (freeinode s) = length fs + 1" "length fs < NINODES" "\<And>j. j < length fs \<Longrightarrow> file_is s (of_nat (j + 1)) (fs ! j)"
    "\<And>j l. l < length fs \<Longrightarrow> j < length fs \<Longrightarrow> j \<noteq> l \<Longrightarrow> iblocks s j \<inter> iblocks s l = {}" "unat (freeblock s) = nmeta + blocks_of fs"
    "mview s 1 = sb_block" "\<And>c. unat c < 32 \<Longrightarrow> c \<noteq> 1 \<Longrightarrow> mview s c = zeroes"
    using assms(1) by (auto simp: fs_is_def)
  have t: "mk_ok t" "extends mkfs_sb (gview s) (ino ?d) (gview t) (ino e)" "freeinode t = freeinode s"
    "unat (freeblock t) + need (nblk (length (snd (fs ! k)))) = unat (freeblock s) + need (nblk (length (snd (fs ! k)) + length p))"
    using step by (auto simp: append_step_def)
  note x = extendsD [OF t(2)]
  have mt: "mview t c = mview s c" if "unat c < 58" for c
  proof -
    have "c \<noteq> 58" using that by auto
    then show ?thesis using x(4) [of c] that by (simp add: is_data_mkfs mkfs_layout nmeta_eq) (simp add: gview_def)
  qed
  have mit: "minode t i = minode s i" if "unat i < NINODES" for i using mt iblock_mkfs(2) [OF that] by (simp add: inode_view_def)
  have kn: "k < NINODES" "unat ?i < NINODES" using assms(2) s(3) unat_inum [of k] by auto
  have la: "length (d_addrs ?e) = NDIRECT + 1" using file_okD(4) [OF x(1)] by simp
  obtain u where u: "winode ?i ?e t = Done u" "mk_ok u" "minode u = (minode t)(?i := ?e)" "freeblock u = freeblock t" "freeinode u = freeinode t"
    "\<And>c. unat c < 32 \<Longrightarrow> mview u c = mview t c" "\<forall>c. 58 \<le> unat c \<longrightarrow> gview u c = gview t c"
    using winode_ok [OF t(1) kn(2) la] by metis
  have mu: "minode u ?i = ?e" by (simp add: u(3))
  note self = step_self [OF s(4) [OF assms(2)] step len mu size u(7)]
  have others: "file_is u (of_nat (j + 1)) (fs ! j) \<and> iblocks u j = iblocks s j \<and> iblocks s j \<inter> iblocks u k = {}" if j: "j < length fs" "j \<noteq> k" for j
  proof -
    have jn: "unat (of_nat (j + 1) :: uint) < NINODES" "(of_nat (j + 1) :: uint) \<noteq> ?i" using j s(3) unat_inum [of j] inum_inj [of j k] kn(1) by auto
    have mj: "minode u (of_nat (j + 1)) = minode s (of_nat (j + 1))" using mit [OF jn(1)] jn(2) by (simp only: u(3) fun_upd_apply if_False)
    show ?thesis using step_other [OF s(4) [OF j(1)] t(2) s(5) [OF assms(2) j] mj u(7)] unfolding self(2) by blast
  qed
  have dis: "iblocks u j \<inter> iblocks u l = {}" if "j < length fs" "l < length fs" "j \<noteq> l" for j l
    using others [of j] others [of l] s(5) [OF that(2,1,3)] that by (cases "j = k"; cases "l = k") (simp_all add: Int_commute)
  have cnt: "unat (freeblock u) = nmeta + blocks_of (fs[k := ?f])" using t(4) u(4) s(6) blocks_of_update [OF assms(2), of ?f] by simp
  have files: "file_is u (of_nat (j + 1)) (fs[k := ?f] ! j)" if "j < length fs" for j using self(1) others that by (cases "j = k") auto
  have "fs_is u (fs[k := ?f])" unfolding fs_is_def length_list_update using u(2,5,6) t(3) s(2,3,7,8) mt cnt files dis by simp
  then show thesis using that u(1) by blast
qed

lemma fs_iappend:
  assumes "fs_is s fs" "k < length fs" "length (snd (fs ! k)) + length p \<le> MAXFILE * BSIZE"
    and "nmeta + blocks_of (fs[k := (fst (fs ! k), snd (fs ! k) @ p)]) \<le> FSSIZE"
  obtains u where "iappend (of_nat (k + 1)) p s = Done u" "fs_is u (fs[k := (fst (fs ! k), snd (fs ! k) @ p)])"
proof -
  let ?i = "of_nat (k + 1) :: uint"
  let ?d = "minode s ?i" and ?z = "length (snd (fs ! k))"
  have s: "mk_ok s" "length fs < NINODES" "file_is s ?i (fs ! k)" "unat (freeblock s) = nmeta + blocks_of fs" using assms(1,2) by (auto simp: fs_is_def)
  then have d: "mfile s ?d" "unat (d_size ?d) = ?z" "dense (gview s) (ino ?d) (nblk ?z)" by (auto simp: file_is_def Let_def)
  have i: "unat ?i < NINODES" using assms(2) s(2) unat_inum [of k] by simp
  have fit: "unat (freeblock s) + need (nblk (?z + length p)) \<le> FSSIZE + need (nblk ?z)"
    using assms(4) s(4) blocks_of_update [OF assms(2), of "(fst (fs ! k), snd (fs ! k) @ p)"] by simp
  obtain off t e where l: "iappend_loop (length p + 1) p (d_size ?d) ?d s = Done (off, e, t)" "unat off = ?z + length p" "append_step s ?d ?z p t e"
    using iappend_loop_spec [OF s(1) d(1), of "d_size ?d" p "length p + 1"] d(2,3) assms(3) fit by auto
  have rd: "rinode ?i s = Done ?d" using rinode_ok [of s ?i] s(1) i by (simp add: mk_ok_def)
  obtain u where u: "winode ?i (e\<lparr>d_size := off\<rparr>) t = Done u" "fs_is u (fs[k := (fst (fs ! k), snd (fs ! k) @ p)])"
    by (rule fs_change [OF assms(1,2) l(3) assms(3) l(2)])
  have "iappend ?i p s = Done u" unfolding iappend_def rd using l(1) u(1) by (simp del: iappend_loop.simps)
  then show thesis using that u(2) by blast
qed

lemma empty_dinode:
  assumes "d_addrs d = replicate (NDIRECT + 1) 0"
  shows "fblocks V (ino d) = {}" "file_ok g V (ino d)" "dense V (ino d) 0"
proof -
  have a: "faddr V (ino d) k = 0" if "k < MAXFILE" for k using assms by (simp add: faddr_def del: replicate.simps replicate_Suc)
  have n: "i_addrs (ino d) ! NDIRECT = 0" "length (i_addrs (ino d)) = NDIRECT + 1" using assms by (simp_all del: replicate.simps replicate_Suc)
  show fb: "fblocks V (ino d) = {}" using a n(1) by (auto simp: fblocks_def)
  show "file_ok g V (ino d)" unfolding file_ok_def fb using a n(2) by simp
  show "dense V (ino d) 0" using a n(1) by (simp add: dense_def)
qed

lemma blocks_of_simps [simp]: "blocks_of (fs @ gs) = blocks_of fs + blocks_of gs" "blocks_of (f # gs) = need (nblk (length (snd f))) + blocks_of gs" "blocks_of [] = 0"
  by (simp_all add: blocks_of_def)

lemma nblk_0 [simp]: "nblk 0 = 0" "need 0 = 0"
  by (simp_all add: nblk_def need_def BSIZE_def)

lemma fs_ialloc:
  assumes "fs_is s fs" "length fs + 1 < NINODES"
  obtains t where "mkfs_ialloc ty s = Done (of_nat (length fs + 1), t)" "fs_is t (fs @ [(ty, [])])"
proof -
  let ?n = "length fs" and ?s = "s\<lparr>freeinode := freeinode s + 1\<rparr>"
  let ?i = "of_nat (?n + 1) :: uint"
  let ?d = "\<lparr>d_type = ty, d_major = 0, d_minor = 0, d_nlink = 1, d_size = 0, d_addrs = replicate (NDIRECT + 1) 0\<rparr>"
  have s: "mk_ok s" "unat (freeinode s) = ?n + 1" "?n < NINODES" "\<And>j. j < ?n \<Longrightarrow> file_is s (of_nat (j + 1)) (fs ! j)"
    "\<And>j l. l < ?n \<Longrightarrow> j < ?n \<Longrightarrow> j \<noteq> l \<Longrightarrow> iblocks s j \<inter> iblocks s l = {}" "unat (freeblock s) = nmeta + blocks_of fs"
    "mview s 1 = sb_block" "\<And>c. unat c < 32 \<Longrightarrow> c \<noteq> 1 \<Longrightarrow> mview s c = zeroes"
    using assms(1) by (auto simp: fs_is_def)
  have fi: "freeinode s = ?i" using s(2,3) unat_inum [of ?n] by (simp add: word_unat_eq_iff)
  have i: "unat ?i < NINODES" "unat (freeinode s + 1) = ?n + 2"
    using assms(2) unat_inum [of ?n] s(2) unat_add_uint [of "freeinode s" 1] by (simp_all add: NINODES_def)
  have ok: "mk_ok ?s" using s(1) by (simp add: mk_ok_def)
  obtain t where t: "winode ?i ?d ?s = Done t" "mk_ok t" "minode t = (minode s)(?i := ?d)" "freeblock t = freeblock s" "freeinode t = freeinode s + 1"
    "\<And>c. unat c < 32 \<Longrightarrow> mview t c = mview s c" "\<And>c. 58 \<le> unat c \<Longrightarrow> gview t c = gview s c"
    using winode_ok [OF ok i(1), of ?d] by (auto simp: gview_def simp del: of_nat_add)
  have old: "file_is t (of_nat (j + 1)) (fs ! j) \<and> iblocks t j = iblocks s j" if j: "j < ?n" for j
  proof -
    have ne: "(of_nat (j + 1) :: uint) \<noteq> ?i" using j s(3) inum_inj [of j ?n] by simp
    have mj: "minode t (of_nat (j + 1)) = minode s (of_nat (j + 1))" using ne by (simp only: t(3) fun_upd_apply if_False)
    have fj: "mfile s (minode s (of_nat (j + 1)))" using s(4) [OF j] by (simp add: file_is_def Let_def)
    have "gview t c = gview s c \<and> used mkfs_sb (gview t) c" if "c \<in> iblocks s j" for c
      using mfile_used [OF fj that] t(4,7) used_gview [OF t(2), of c] used_gview [OF s(1), of c] by simp
    then show ?thesis using file_is_same [OF s(4) [OF j] mj] by blast
  qed
  have mt: "minode t ?i = ?d" by (simp add: t(3))
  note e = empty_dinode [of ?d, OF dinode.select_convs(6)]
  have new: "file_is t ?i (ty, [])" unfolding file_is_def Let_def mt using e(2,3) by simp
  have nb: "iblocks t ?n = {}" unfolding mt by (rule e(1))
  have "fs_is t (fs @ [(ty, [])])" unfolding fs_is_def
  proof (intro conjI allI impI)
    fix k assume k: "k < length (fs @ [(ty, [])])"
    show "file_is t (of_nat (k + 1)) ((fs @ [(ty, [])]) ! k)" using k old new by (cases "k = ?n") (auto simp: nth_append simp del: of_nat_add)
    fix j assume j: "j < length (fs @ [(ty, [])])" "j \<noteq> k"
    show "iblocks t j \<inter> iblocks t k = {}"
    proof (cases "j = ?n \<or> k = ?n")
      case False
      then show ?thesis using j k old [of j] old [of k] s(5) [of k j] by simp
    qed (use nb in auto)
  qed (use t(2,4,5,6) i(2) s(6-8) assms(2) in simp_all)
  moreover have "mkfs_ialloc ty s = Done (?i, t)" using t(1) by (simp add: mkfs_ialloc_def fi)
  ultimately show thesis using that by blast
qed

lemma fs_append_file:
  assumes "fs_is s fs" "k < length fs" "length (snd (fs ! k)) + length bs \<le> MAXFILE * BSIZE"
    and "nmeta + blocks_of (fs[k := (fst (fs ! k), snd (fs ! k) @ bs)]) \<le> FSSIZE"
  shows "\<exists>t. append_file (of_nat (k + 1)) bs s = Done t \<and> fs_is t (fs[k := (fst (fs ! k), snd (fs ! k) @ bs)])"
  using assms
proof (induction "length bs" arbitrary: bs s fs rule: less_induct)
  case less
  show ?case
  proof (cases "bs = []")
    case True
    then show ?thesis using less.prems(1,2) by (simp add: append_file.simps)
  next
    case False
    let ?p = "take BSIZE bs" and ?r = "drop BSIZE bs"
    let ?f = "(fst (fs ! k), snd (fs ! k) @ ?p)"
    let ?fs = "fs[k := ?f]"
    have all: "?fs[k := (fst (?fs ! k), snd (?fs ! k) @ ?r)] = fs[k := (fst (fs ! k), snd (fs ! k) @ bs)]" using less.prems(2) by simp
    have "need (nblk (length (snd ?f))) \<le> need (nblk (length (snd (fs ! k) @ bs)))" by (intro need_mono nblk_mono) simp
    then have "blocks_of ?fs \<le> blocks_of (fs[k := (fst (fs ! k), snd (fs ! k) @ bs)])"
      using blocks_of_update [OF less.prems(2), of ?f] blocks_of_update [OF less.prems(2), of "(fst (fs ! k), snd (fs ! k) @ bs)"] by (simp only: snd_conv)
    then have fit: "nmeta + blocks_of ?fs \<le> FSSIZE" using less.prems(4) by linarith
    have len: "length (snd (fs ! k)) + length ?p \<le> MAXFILE * BSIZE" using less.prems(3) by (simp add: min_def)
    obtain u where u: "iappend (of_nat (k + 1)) ?p s = Done u" "fs_is u ?fs" by (rule fs_iappend [OF less.prems(1,2) len fit])
    have "\<exists>t. append_file (of_nat (k + 1)) ?r u = Done t \<and> fs_is t (?fs[k := (fst (?fs ! k), snd (?fs ! k) @ ?r)])"
    proof (rule less.hyps [OF _ u(2)])
      show "length ?r < length bs" using False by (simp add: BSIZE_def)
      show "k < length ?fs" "length (snd (?fs ! k)) + length ?r \<le> MAXFILE * BSIZE" using less.prems(2,3) by (simp_all add: min_def)
      show "nmeta + blocks_of (?fs[k := (fst (?fs ! k), snd (?fs ! k) @ ?r)]) \<le> FSSIZE" unfolding all by (rule less.prems(4))
    qed
    then show ?thesis unfolding all using False u(1) append_file.simps [of "of_nat (k + 1)" bs s] by simp
  qed
qed

definition root_dir :: "uchar list list \<Rightarrow> uchar list" where
  "root_dir args = mk_dirent 1 [46] @ mk_dirent 1 [46, 46] @ concat (map (\<lambda>k. mk_dirent (of_nat (k + 2)) (mkfs_name (args ! k))) [0..<length args])"

definition image_files :: "(uchar list \<Rightarrow> uchar list option) \<Rightarrow> uchar list list \<Rightarrow> (ushort \<times> uchar list) list" where
  "image_files files args = (T_DIR, root_dir args) # map (\<lambda>a. (T_FILE, the (files a))) args"

lemma length_mk_dirent [simp]: "length (mk_dirent i n) = 16"
  by (simp add: mk_dirent_def put_dirent_def name_ncpy_def Let_def DIRSIZ_def)

lemma length_root_dir [simp]: "length (root_dir args) = 16 * (length args + 2)"
  by (simp add: root_dir_def length_concat comp_def sum_list_triv)

lemma root_dir_snoc: "root_dir (as @ [a]) = root_dir as @ mk_dirent (of_nat (length as + 2)) (mkfs_name a)"
proof -
  have "map (\<lambda>k. mk_dirent (of_nat (k + 2)) (mkfs_name ((as @ [a]) ! k))) [0..<length as] = map (\<lambda>k. mk_dirent (of_nat (k + 2)) (mkfs_name (as ! k))) [0..<length as]"
    by (intro map_cong) (simp_all add: nth_append)
  then show ?thesis by (simp add: root_dir_def del: map_eq_conv)
qed

lemma blocks_of_image: "blocks_of (image_files files as) \<le> blocks_of (image_files files (as @ bs))"
  using need_mono [OF nblk_mono [of "16 * (length as + 2)" "16 * (length as + length bs + 2)"]] by (simp add: image_files_def)

lemma fs_mkfs_file:
  assumes "fs_is s (image_files files as)" "47 \<notin> set a" "files a = Some bs" "length bs \<le> MAXFILE * BSIZE" "length as + 2 < NINODES"
    and "nmeta + blocks_of (image_files files (as @ [a])) \<le> FSSIZE"
  shows "\<exists>t. mkfs_file files a s = Done t \<and> fs_is t (image_files files (as @ [a]))"
proof -
  let ?fs = "image_files files as" and ?i = "of_nat (length as + 2) :: uint"
  have n: "length ?fs = length as + 1" by (simp add: image_files_def)
  obtain s1 where s1: "mkfs_ialloc T_FILE s = Done (?i, s1)" "fs_is s1 (?fs @ [(T_FILE, [])])"
    using fs_ialloc [OF assms(1), of T_FILE] assms(5) n by auto
  let ?d = "mk_dirent ?i (mkfs_name a)"
  let ?gs = "(?fs @ [(T_FILE, [])])[0 := (fst ((?fs @ [(T_FILE, [])]) ! 0), snd ((?fs @ [(T_FILE, [])]) ! 0) @ ?d)]"
  have gs: "?gs = (T_DIR, root_dir (as @ [a])) # map (\<lambda>a. (T_FILE, the (files a))) as @ [(T_FILE, [])]" by (simp add: image_files_def root_dir_snoc)
  have fin: "?gs[length as + 1 := (fst (?gs ! (length as + 1)), snd (?gs ! (length as + 1)) @ bs)] = image_files files (as @ [a])"
    unfolding gs using assms(3) by (simp add: image_files_def nth_append list_update_append)
  have fit: "nmeta + blocks_of ?gs \<le> FSSIZE" using assms(6) unfolding gs by (simp add: image_files_def)
  have len: "length (snd ((?fs @ [(T_FILE, [])]) ! 0)) + length ?d \<le> MAXFILE * BSIZE"
    using assms(5) by (simp add: image_files_def MAXFILE_def NDIRECT_def NINDIRECT_def BSIZE_def NINODES_def)
  have p0: "0 < length (?fs @ [(T_FILE, [])])" by simp
  obtain s2 where s2: "iappend (of_nat (0 + 1)) ?d s1 = Done s2" "fs_is s2 ?gs" by (rule fs_iappend [OF s1(2) p0 len fit])
  have k: "length as + 1 < length ?gs" "length (snd (?gs ! (length as + 1))) + length bs \<le> MAXFILE * BSIZE" using assms(4) by (simp_all add: image_files_def nth_append)
  obtain t where t: "append_file (of_nat (length as + 1 + 1)) bs s2 = Done t" "fs_is t (image_files files (as @ [a]))"
    using fs_append_file [OF s2(2) k] assms(6) unfolding fin by blast
  have "mkfs_file files a s = Done t" using assms(2,3) s1(1) s2(1) t(1) by (simp add: mkfs_file_def ROOTINO_def)
  then show ?thesis using t(2) by blast
qed

definition arg_ok :: "(uchar list \<Rightarrow> uchar list option) \<Rightarrow> uchar list \<Rightarrow> bool" where
  "arg_ok files a \<longleftrightarrow> 47 \<notin> set a \<and> files a \<noteq> None \<and> length (the (files a)) \<le> MAXFILE * BSIZE"

lemma fs_mkfs_files:
  assumes "fs_is s (image_files files as)" "list_all (arg_ok files) bs" "length as + length bs + 1 < NINODES" "nmeta + blocks_of (image_files files (as @ bs)) \<le> FSSIZE"
  shows "\<exists>t. mkfs_files files bs s = Done t \<and> fs_is t (image_files files (as @ bs))"
  using assms
proof (induction bs arbitrary: as s)
  case (Cons b bs)
  have "nmeta + blocks_of (image_files files (as @ [b])) \<le> FSSIZE" using Cons.prems(4) blocks_of_image [of files "as @ [b]" bs] by simp
  then obtain u where u: "mkfs_file files b s = Done u" "fs_is u (image_files files (as @ [b]))"
    using fs_mkfs_file [OF Cons.prems(1), of b "the (files b)"] Cons.prems(2,3) by (auto simp: arg_ok_def)
  show ?case using Cons.IH [OF u(2)] Cons.prems(2-4) u(1) by simp
qed simp

section \<open>The finished image\<close>

lemma length_sb_block [simp]: "length sb_block = BSIZE"
  by (simp add: sb_block_def)

lemma zero_fill: "n \<le> FSSIZE \<Longrightarrow> foldl (\<lambda>s i. wsect (of_nat i) zeroes s) \<lparr>fsfd = [], freeinode = i, freeblock = b\<rparr> [0..<n] = \<lparr>fsfd = replicate n zeroes, freeinode = i, freeblock = b\<rparr>"
proof (induction n)
  case (Suc n)
  have "unat (of_nat n :: uint) = n" using Suc.prems by (intro unat_of_nat_uint) (simp add: FSSIZE_def)
  then have "sector (of_nat n) = n" using sector_eq [of "of_nat n"] Suc.prems by simp
  then have "wsect (of_nat n) zeroes \<lparr>fsfd = replicate n zeroes, freeinode = i, freeblock = b\<rparr> = \<lparr>fsfd = replicate (Suc n) zeroes, freeinode = i, freeblock = b\<rparr>"
    by (simp add: wsect_def list_update_append) (simp add: replicate_append_same)
  then show ?case using Suc by simp
qed simp

lemma fs_init: "fs_is mkfs_init []"
proof -
  let ?z = "\<lparr>fsfd = replicate FSSIZE zeroes, freeinode = 1, freeblock = of_nat nmeta\<rparr>"
  have i: "mkfs_init = wsect 1 sb_block ?z" unfolding mkfs_init_def zero_fill [OF order_refl] ..
  have ok: "img_ok ?z" and mz: "mview ?z c = zeroes" for c by (simp_all add: img_ok_def mview_def)
  have one: "unat (1 :: uint) < FSSIZE" by (simp add: FSSIZE_def)
  note w = wsect_ok [OF ok one length_sb_block]
  have "unat (freeblock mkfs_init) = nmeta" unfolding i by (simp add: nmeta_eq)
  moreover have "mview mkfs_init b = zeroes" if "nmeta \<le> unat b" for b using that mz unfolding i w(2) by (auto simp: nmeta_eq)
  moreover have "img_ok mkfs_init" "mview mkfs_init 1 = sb_block" "\<And>c. c \<noteq> 1 \<Longrightarrow> mview mkfs_init c = zeroes" "freeinode mkfs_init = 1"
    unfolding i w(2) using w(1) mz by simp_all
  ultimately show ?thesis unfolding fs_is_def mk_ok_def by (simp add: nmeta_eq FSSIZE_def NINODES_def)
qed

definition on_image :: "(uint \<Rightarrow> block) \<Rightarrow> uint \<Rightarrow> ushort \<times> uchar list \<Rightarrow> bool" where
  "on_image D inum f \<longleftrightarrow>
     (let d = inode_view mkfs_sb D inum
      in d_type d = fst f \<and> d_nlink d = 1 \<and> file_ok mkfs_sb D (ino d) \<and> dense D (ino d) (nblk (length (snd f))) \<and> fbytes D (ino d) 0 (length (snd f)) = snd f)"

definition fs_image :: "(uint \<Rightarrow> block) \<Rightarrow> (ushort \<times> uchar list) list \<Rightarrow> bool" where
  "fs_image D fs \<longleftrightarrow> (\<forall>b. length (D b) = BSIZE) \<and> D 1 = sb_block \<and> D 2 = zeroes
     \<and> (\<forall>b. unat b < FSSIZE \<longrightarrow> (used mkfs_sb D b \<longleftrightarrow> unat b < nmeta + blocks_of fs))
     \<and> (\<forall>k<length fs. on_image D (of_nat (k + 1)) (fs ! k)
          \<and> unat (d_size (inode_view mkfs_sb D (of_nat (k + 1)))) = (if k = 0 then (length (snd (fs ! 0)) div BSIZE + 1) * BSIZE else length (snd (fs ! k))))"

lemma fs_finish:
  assumes "fs_is s fs" "0 < length fs" "length (snd (fs ! 0)) < MAXFILE * BSIZE"
  shows "\<exists>u. mkfs_finish 1 s = Done u \<and> fs_image (mview u) fs"
proof -
  let ?n = "length (snd (fs ! 0))" and ?d = "minode s 1"
  have s: "mk_ok s" "length fs < NINODES" "\<And>k. k < length fs \<Longrightarrow> file_is s (of_nat (k + 1)) (fs ! k)" "unat (freeblock s) = nmeta + blocks_of fs"
    "mview s 1 = sb_block" "mview s 2 = zeroes" using assms(1) by (auto simp: fs_is_def)
  have d: "mfile s ?d" "unat (d_size ?d) = ?n" using s(3) [OF assms(2)] by (simp_all add: file_is_def Let_def)
  have one: "unat (1 :: uint) < NINODES" by (simp add: NINODES_def)
  have la: "length (d_addrs (?d\<lparr>d_size := z\<rparr>)) = NDIRECT + 1" for z using file_okD(4) [OF d(1)] by simp
  let ?z = "(d_size ?d div of_nat BSIZE + 1) * of_nat BSIZE"
  obtain t where t: "winode 1 (?d\<lparr>d_size := ?z\<rparr>) s = Done t" "mk_ok t" "minode t = (minode s)(1 := ?d\<lparr>d_size := ?z\<rparr>)" "freeblock t = freeblock s"
    "\<And>c. unat c < 32 \<Longrightarrow> mview t c = mview s c" "\<And>c. 58 \<le> unat c \<Longrightarrow> gview t c = gview s c"
    using winode_ok [OF s(1) one la] by metis
  have M: "MAXFILE * BSIZE = 71680" by (simp add: MAXFILE_def NINDIRECT_def NDIRECT_def BSIZE_def)
  have z: "unat ?z = (?n div BSIZE + 1) * BSIZE"
    using assms(3) d(2) unfolding M by (simp add: unat_word_ariths unat_div BSIZE_def)
  have fb: "unat (freeblock t) \<le> 1000" using t(2) by (simp add: mk_ok_def FSSIZE_def)
  then have "int (unat (freeblock t)) \<le> int 1000" by (simp only: of_nat_le_iff)
  then have si: "sint (freeblock t) = int (unat (freeblock t))" and i8: "int (unat (freeblock t)) < int (BSIZE * 8)" unfolding sint_uint32 by (simp_all add: BSIZE_def)
  let ?u = "wsect 58 (bitmap_of (unat (freeblock t))) t"
  have img: "img_ok t" and b58: "unat (58 :: uint) < FSSIZE" using t(2) by (simp_all add: mk_ok_def FSSIZE_def)
  have mu: "mview ?u = gview t" using wsect_ok(2) [OF img b58 length_bitmap_of] by (simp add: gview_def)
  have rd: "rinode 1 s = Done ?d" using rinode_ok [OF _ one] s(1) by (simp add: mk_ok_def)
  have bm: "sb_bmapstart mkfs_sb = 58" by (simp add: mkfs_sb_eq sample_sb_def)
  have run: "mkfs_finish 1 s = Done ?u" using i8 t(1) by (simp add: mkfs_finish_def rd mkfs_balloc_def si bm bitmap_of_def)
  have lo: "gview t c = mview t c" if "unat c < 58" for c using that by (auto simp: gview_def)
  have iv: "inode_view mkfs_sb (gview t) i = minode t i" if "unat i < NINODES" for i using lo iblock_mkfs(2) [OF that] by (simp add: inode_view_def)
  have us: "used mkfs_sb (gview t) b \<longleftrightarrow> unat b < nmeta + blocks_of fs" if "unat b < FSSIZE" for b using used_gview [OF t(2) that] t(4) s(4) by simp
  have files: "on_image (gview t) (of_nat (k + 1)) (fs ! k) \<and> unat (d_size (inode_view mkfs_sb (gview t) (of_nat (k + 1)))) = (if k = 0 then (?n div BSIZE + 1) * BSIZE else length (snd (fs ! k)))"
    if k: "k < length fs" for k
  proof -
    let ?i = "of_nat (k + 1) :: uint"
    let ?e = "minode s ?i"
    have ki: "unat ?i = k + 1" using unat_inum [of k] k s(2) by simp
    have e: "d_type ?e = fst (fs ! k)" "d_nlink ?e = 1" "unat (d_size ?e) = length (snd (fs ! k))" "length (snd (fs ! k)) \<le> MAXFILE * BSIZE" "mfile s ?e"
      "dense (gview s) (ino ?e) (nblk (length (snd (fs ! k))))" "\<And>q. q < length (snd (fs ! k)) \<Longrightarrow> fbyte (gview s) (ino ?e) q = snd (fs ! k) ! q"
      using s(3) [OF k] by (simp_all add: file_is_def Let_def)
    have "gview t c = gview s c \<and> used mkfs_sb (gview t) c" if "c \<in> fblocks (gview s) (ino ?e)" for c
      using mfile_used [OF e(5) that] t(4,6) used_gview [OF s(1), of c] used_gview [OF t(2), of c] by simp
    then have fd: "file_ok mkfs_sb (gview t) (ino ?e)" "dense (gview t) (ino ?e) (nblk (length (snd (fs ! k))))"
      "\<And>q. q < MAXFILE * BSIZE \<Longrightarrow> fbyte (gview t) (ino ?e) q = fbyte (gview s) (ino ?e) q"
      using file_same [OF e(5), of "gview t"] e(6) by blast+
    have "fbytes (gview t) (ino ?e) 0 (length (snd (fs ! k))) = snd (fs ! k)"
      using fd(3) e(4,7) by (auto simp: fbytes_def intro!: nth_equalityI)
    moreover have "inode_view mkfs_sb (gview t) ?i = (if k = 0 then ?e\<lparr>d_size := ?z\<rparr> else ?e)"
      using iv [of ?i] ki k s(2) word_unat_eq_iff [of ?i 1] by (auto simp: t(3) simp del: of_nat_Suc of_nat_add)
    ultimately show ?thesis using e(1-3) fd(1,2) z unfolding on_image_def Let_def by (auto simp: fbytes_def)
  qed
  have "fs_image (gview t) fs" unfolding fs_image_def using t(2) s(5,6) lo [of 1] lo [of 2] t(5) us files by simp
  then show ?thesis using run mu by auto
qed

lemma mkfs_spec:
  assumes "list_all (arg_ok files) args" "length args + 1 < NINODES" "nmeta + blocks_of (image_files files args) \<le> FSSIZE"
  shows "\<exists>s. mkfs_main files (prog # img # args) = Done s \<and> fs_image (mview s) (image_files files args)"
proof -
  have M: "MAXFILE * BSIZE = 71680" by (simp add: MAXFILE_def NINDIRECT_def NDIRECT_def BSIZE_def)
  have n: "need (nblk 16) = 1" "need (nblk 32) = 1" by (simp_all add: need_def nblk_def BSIZE_def NDIRECT_def)
  obtain s1 where s1: "mkfs_ialloc T_DIR mkfs_init = Done (1, s1)" "fs_is s1 [(T_DIR, [])]" using fs_ialloc [OF fs_init, of T_DIR] by (auto simp: NINODES_def)
  obtain s2 where s2: "iappend 1 (mk_dirent 1 [46]) s1 = Done s2" "fs_is s2 [(T_DIR, mk_dirent 1 [46])]"
    using fs_iappend [OF s1(2), of 0 "mk_dirent 1 [46]"] n M by (auto simp: nmeta_eq FSSIZE_def)
  obtain s3 where s3: "iappend 1 (mk_dirent 1 [46, 46]) s2 = Done s3" "fs_is s3 (image_files files [])"
    using fs_iappend [OF s2(2), of 0 "mk_dirent 1 [46, 46]"] n M by (auto simp: nmeta_eq FSSIZE_def image_files_def root_dir_def)
  obtain s4 where s4: "mkfs_files files args s3 = Done s4" "fs_is s4 (image_files files args)" using fs_mkfs_files [OF s3(2) assms(1)] assms(2,3) by auto
  have "length (snd (image_files files args ! 0)) < MAXFILE * BSIZE" unfolding M using assms(2) by (simp add: image_files_def NINODES_def)
  then obtain s where s: "mkfs_finish 1 s4 = Done s" "fs_image (mview s) (image_files files args)" using fs_finish [OF s4(2)] by (auto simp: image_files_def)
  have "mkfs_main files (prog # img # args) = Done s" using s1(1) s2(1) s3(1) s4(1) s(1) by (simp add: mkfs_main_def ROOTINO_def)
  then show ?thesis using s(2) by blast
qed

lemma superblock_of_image: "superblock_of sb_block = mkfs_sb"
  by (simp add: superblock_of_def sb_block_def zeroes_def BSIZE_def)

lemma image_log:
  assumes "fs_image D fs"
  shows "log_disk 2 30 1000 D" "header_n (D 2) = 0"
proof -
  show h: "header_n (D 2) = 0" using assms by (simp add: fs_image_def header_n_def zeroes_def get32_def BSIZE_def)
  have "superblock_of (D 1) = sample_sb" using assms superblock_of_image by (simp add: fs_image_def mkfs_sb_eq)
  then show "log_disk 2 30 1000 D" using h assms
    by (simp add: log_disk_def fs_image_def header_list_def entries_ok_def log_geom_def sample_sb_def LOGSIZE_def MAXOPBLOCKS_def)
qed

lemma image_read:
  assumes "fs_image D fs" "k < length fs" "0 < k" "length fs < NINODES" "fst (fs ! k) = T_FILE" "length (snd (fs ! k)) \<le> MAXFILE * BSIZE"
  defines "s \<equiv> fs_boot D [inode0\<lparr>i_dev := 1, i_inum := of_nat (k + 1), i_ref := 1\<rparr>]"
  shows "\<exists>t. obind (ilock 0 s) (readi devsw 0 0 (of_nat (length (snd (fs ! k))))) = Done (int (length (snd (fs ! k))), snd (fs ! k), t)"
proof -
  let ?i = "of_nat (k + 1) :: uint" and ?n = "length (snd (fs ! k))"
  let ?d = "inode_view mkfs_sb D ?i"
  note l = image_log [OF assms(1)]
  note b = fs_boot_txn [OF l, where ic = "[inode0\<lparr>i_dev := 1, i_inum := of_nat (k + 1), i_ref := 1\<rparr>]", folded s_def]
  have sb: "sb s = mkfs_sb" "icache s = [inode0\<lparr>i_dev := 1, i_inum := ?i, i_ref := 1\<rparr>]" by (simp_all add: s_def mkfs_sb_eq)
  have d: "d_type ?d = T_FILE" "file_ok mkfs_sb D (ino ?d)" "dense D (ino ?d) (nblk ?n)" "fbytes D (ino ?d) 0 ?n = snd (fs ! k)" "unat (d_size ?d) = ?n"
    using assms(1-3,5) by (simp_all add: fs_image_def on_image_def Let_def)
  have M: "MAXFILE * BSIZE = 71680" by (simp add: MAXFILE_def NINDIRECT_def NDIRECT_def BSIZE_def)
  have i: "unat ?i < unat (sb_ninodes (sb s))" using unat_inum [of k] assms(2,4) by (simp add: sb mkfs_sb_eq sample_sb_def NINODES_def)
  have r: "room (Suc 1) s" by (rule b(6)) simp
  have in0: "i_inum (inode_at s 0) = ?i" "i_dev (inode_at s 0) = 1" "0 < i_ref (inode_at s 0)" "\<not> sl_locked (i_lock (inode_at s 0))" "\<not> i_valid (inode_at s 0)"
    "0 < length (icache s)" by (simp_all add: sb inode0_def initsleeplock_def)
  have ty0: "d_type (inode_view (sb s) (fs_view s) (i_inum (inode_at s 0))) \<noteq> 0" using d(1) by (simp add: in0(1) sb(1) b(2) T_FILE_def del: of_nat_add)
  have h0: "IBLOCK (i_inum (inode_at s 0)) (sb s) \<notin> heldB s" using b(3) by simp
  obtain u v where u: "ilock 0 s = Done u" "txn_to s (fs_view s) 0 v"
    "u = v\<lparr>icache := (icache s)[0 := (load_dinode (inode_view (sb s) (fs_view s) (i_inum (inode_at s 0))) ((inode_at s 0)\<lparr>i_lock := (i_lock (inode_at s 0))\<lparr>sl_locked := True, sl_pid := curpid s\<rparr>\<rparr>))\<lparr>i_valid := True\<rparr>]\<rparr>"
    by (rule ilock_spec [OF b(1) r b(4) i [folded in0(1)] in0(2) h0 in0(6,3,4,5) ty0])
  let ?j = "inode_at u 0"
  have j: "i_addrs ?j = i_addrs (ino ?d)" "i_dev ?j = i_dev (ino ?d)" "i_size ?j = d_size ?d" "i_type ?j = T_FILE" "length (icache u) = 1"
    using d(1) by (simp_all add: u(3) sb b(2) load_dinode_def ino_def del: of_nat_add of_nat_Suc)
  note f = file_addrs [OF j(1,2)]
  have v: "in_txn u" "fs_view u = D" "heldB u = {}" "layout u" "sb u = mkfs_sb" "room 1 u"
    using u(2) b(2-4) txn_to_sb(1) [OF u(2)] layout_txn_to [OF u(2)] room_txn_to [OF u(2), of 1] b(6) [of 1] sb(1) by (auto simp: u(3) txn_to_def)
  have "meta_used mkfs_sb D" using assms(1) unfolding meta_used_def mkfs_layout fs_image_def by (simp add: nmeta_eq FSSIZE_def)
  then have ft: "file_txn u 0" using v d(2) j(5) by (simp add: file_txn_def held_ok_def f)
  have w: "faddr (fs_view u) ?j (q div BSIZE) \<noteq> 0" if "q < unat (i_size ?j)" for q
  proof -
    have "q div BSIZE \<le> nblk q" "q < ?n" using that d(5) j(3) nblk_simps(2) by simp_all
    then have "q div BSIZE < nblk ?n" using nblk_simps(3) [of "BSIZE - q mod BSIZE" q] nblk_mono [of "q + 1" ?n] nblk_simps(3) [of 1 q] by (simp add: BSIZE_def)
    moreover have "q div BSIZE < MAXFILE" using \<open>q < ?n\<close> assms(6) by (simp add: less_mult_imp_div_less)
    ultimately show ?thesis using d(3) by (simp add: dense_def f v(2))
  qed
  have n: "unat (of_nat ?n :: uint) = ?n" using assms(6) unfolding M by (intro unat_of_nat_uint) simp
  have sz: "unat (i_size ?j) \<le> MAXFILE * BSIZE" using d(5) j(3) assms(6) by simp
  have ty: "i_type ?j \<noteq> T_DEV" using j(4) by (simp add: T_FILE_def T_DEV_def)
  have "unat (0 :: uint) + unat (of_nat ?n :: uint) < 2 ^ 32" unfolding n using assms(6) M by simp
  then obtain t where "readi devsw 0 0 (of_nat ?n) u = Done (int ?n, fbytes (fs_view u) ?j (unat (0 :: uint)) ?n, t)"
    using readi_spec [OF ft v(6) ty _ _ sz w, of 0 "of_nat ?n" ?n devsw] n d(5) j(3) by auto
  then have "readi devsw 0 0 (of_nat ?n) u = Done (int ?n, snd (fs ! k), t)" using d(4) by (simp add: fbytes_def f v(2))
  then show ?thesis using u(1) by auto
qed

section \<open>Properties\<close>

text \<open>
  C5. \<^verbatim>\<open>mkfs\<close> builds a consistent file system that holds the given files.  When no name has a slash, every file can be read, is at most 140 blocks long, there are inodes for all
  of them and their blocks fit on the disk, \<^verbatim>\<open>mkfs\<close> succeeds.  The image has the super block and an empty log; the bitmap marks exactly the meta blocks and the blocks of the files;
  inode 1 is a directory with the entries \<^verbatim>\<open>.\<close>, \<^verbatim>\<open>..\<close> and one per file, in order, and the inodes that follow are the files, each with link count 1, its own allocated blocks
  and the contents it has on the host.
\<close>

theorem mkfs_image:
  assumes "list_all (arg_ok files) args" "length args + 1 < NINODES" "nmeta + blocks_of (image_files files args) \<le> FSSIZE"
  shows "\<exists>s. mkfs_main files (prog # img # args) = Done s \<and> superblock_of (mview s 1) = mkfs_sb \<and> log_disk 2 30 FSSIZE (mview s) \<and> header_n (mview s 2) = 0
    \<and> (\<forall>b. unat b < FSSIZE \<longrightarrow> (used mkfs_sb (mview s) b \<longleftrightarrow> unat b < nmeta + blocks_of (image_files files args)))
    \<and> (\<forall>k<length args + 1. on_image (mview s) (of_nat (k + 1)) (image_files files args ! k))
    \<and> unat (d_size (inode_view mkfs_sb (mview s) 1)) = (length (root_dir args) div BSIZE + 1) * BSIZE
    \<and> (\<forall>k<length args. unat (d_size (inode_view mkfs_sb (mview s) (of_nat (k + 2)))) = length (the (files (args ! k))))"
proof -
  obtain s where s: "mkfs_main files (prog # img # args) = Done s" "fs_image (mview s) (image_files files args)" using mkfs_spec [OF assms] by blast
  have n: "length (image_files files args) = length args + 1" by (simp add: image_files_def)
  have z: "unat (d_size (inode_view mkfs_sb (mview s) (of_nat (k + 1)))) = (if k = 0 then (length (root_dir args) div BSIZE + 1) * BSIZE else length (snd (image_files files args ! k)))"
    if "k < length args + 1" for k using s(2) that unfolding fs_image_def n by (simp add: image_files_def)
  have "unat (d_size (inode_view mkfs_sb (mview s) (of_nat (k + 2)))) = length (the (files (args ! k)))" if "k < length args" for k
    using z [of "k + 1"] that by (simp add: image_files_def)
  moreover have "unat (d_size (inode_view mkfs_sb (mview s) 1)) = (length (root_dir args) div BSIZE + 1) * BSIZE" using z [of 0] by simp
  ultimately show ?thesis using s image_log [OF s(2)] superblock_of_image n unfolding fs_image_def by (intro exI [of _ s]) (simp add: FSSIZE_def)
qed

text \<open>
  C4. The kernel reads what \<^verbatim>\<open>mkfs\<close> wrote.  On the image that \<^verbatim>\<open>mkfs\<close> builds, locking the inode of a file and reading as many bytes as the file has on the host returns the bytes
  of the file on the host.
\<close>

theorem mkfs_kernel_reads:
  assumes "list_all (arg_ok files) args" "length args + 1 < NINODES" "nmeta + blocks_of (image_files files args) \<le> FSSIZE" "k < length args" "files (args ! k) = Some bs"
  shows "\<exists>s t. mkfs_main files (prog # img # args) = Done s
    \<and> obind (ilock 0 (fs_boot (mview s) [inode0\<lparr>i_dev := 1, i_inum := of_nat (k + 2), i_ref := 1\<rparr>])) (readi devsw 0 0 (of_nat (length bs))) = Done (int (length bs), bs, t)"
proof -
  obtain s where s: "mkfs_main files (prog # img # args) = Done s" "fs_image (mview s) (image_files files args)" using mkfs_spec [OF assms(1-3)] by blast
  have f: "image_files files args ! (k + 1) = (T_FILE, bs)" "k + 1 < length (image_files files args)" "length (image_files files args) < NINODES"
    using assms(2,4,5) by (simp_all add: image_files_def)
  have "length bs \<le> MAXFILE * BSIZE" using assms(1,4,5) by (auto simp: list_all_length arg_ok_def)
  then show ?thesis using image_read [OF s(2) f(2) _ f(3), of devsw] s(1) f(1) by auto
qed

section \<open>Witnesses\<close>

text \<open>The host has the file \<^verbatim>\<open>_ls\<close>, of three bytes.\<close>

definition sample_host :: "uchar list \<Rightarrow> uchar list option" where
  "sample_host a = (if a = [95, 108, 115] then Some [7, 8, 9] else None)"

lemma sample_host_ok:
  "list_all (arg_ok sample_host) [[95, 108, 115]]" "length [[95, 108, 115 :: uchar]] + 1 < NINODES" "nmeta + blocks_of (image_files sample_host [[95, 108, 115]]) \<le> FSSIZE"
  by (simp_all add: arg_ok_def sample_host_def NINODES_def image_files_def nmeta_eq FSSIZE_def need_def nblk_def BSIZE_def MAXFILE_def NDIRECT_def)

theorem mkfs_image_witness:
  "\<exists>s. mkfs_main sample_host [[], [], [95, 108, 115]] = Done s \<and> superblock_of (mview s 1) = mkfs_sb \<and> on_image (mview s) 2 (T_FILE, [7, 8, 9])
     \<and> used mkfs_sb (mview s) 60 \<and> \<not> used mkfs_sb (mview s) 61"
proof -
  obtain s where s: "mkfs_main sample_host [[], [], [95, 108, 115]] = Done s" "superblock_of (mview s 1) = mkfs_sb"
    "\<forall>b. unat b < FSSIZE \<longrightarrow> (used mkfs_sb (mview s) b \<longleftrightarrow> unat b < nmeta + blocks_of (image_files sample_host [[95, 108, 115]]))"
    "\<forall>k<length [[95, 108, 115 :: uchar]] + 1. on_image (mview s) (of_nat (k + 1)) (image_files sample_host [[95, 108, 115]] ! k)"
    using mkfs_image [OF sample_host_ok, of "[]" "[]"] by blast
  have "image_files sample_host [[95, 108, 115]] ! 1 = (T_FILE, [7, 8, 9])" by (simp add: image_files_def sample_host_def)
  then have "on_image (mview s) 2 (T_FILE, [7, 8, 9])" using s(4) [rule_format, of 1] by simp
  moreover have "blocks_of (image_files sample_host [[95, 108, 115]]) = 2" by (simp add: image_files_def sample_host_def need_def nblk_def BSIZE_def NDIRECT_def)
  then have "used mkfs_sb (mview s) 60" "\<not> used mkfs_sb (mview s) 61" using s(3) by (simp_all add: nmeta_eq FSSIZE_def)
  ultimately show ?thesis using s(1,2) by blast
qed

theorem mkfs_kernel_reads_witness:
  "\<exists>s t. mkfs_main sample_host [[], [], [95, 108, 115]] = Done s
    \<and> obind (ilock 0 (fs_boot (mview s) [inode0\<lparr>i_dev := 1, i_inum := 2, i_ref := 1\<rparr>])) (readi (\<lambda>_. (None, None)) 0 0 3) = Done (3, [7, 8, 9], t)"
  using mkfs_kernel_reads [OF sample_host_ok, of 0 "[7, 8, 9]" "[]" "[]" "\<lambda>_. (None, None)"] by (simp add: sample_host_def)

end
