(* ===== verification/Clock.thy ===== *)
theory Clock
  imports Prelude
begin

text \<open>
  The clock page replacement of \<^verbatim>\<open>src/w11/clock-example.c\<close>.  A pointer to a page table entry is the address of the entry in \<open>ptes\<close>; an index that C leaves out of the array is
  \<open>Panic\<close>.  The lines printed are the results of \<open>clk_print\<close>.  The property says that the ring refines the textbook second-chance queue.
\<close>

section \<open>The clock\<close>

definition CLOCKSIZE :: nat where
  "CLOCKSIZE = 8"

definition CLK_P :: uint where
  "CLK_P = 0x001"

definition CLK_A :: uint where
  "CLK_A = 0x020"

definition CLK_E :: uint where
  "CLK_E = 0x200"

record clk_node =
  vpn :: int
  pte :: nat

record clk =
  clk_queue :: "clk_node list"
  clk_hand :: int
  ptes :: "nat \<Rightarrow> uint"

definition upd_pte :: "nat \<Rightarrow> (uint \<Rightarrow> uint) \<Rightarrow> clk \<Rightarrow> clk" where
  "upd_pte p f s = s\<lparr>ptes := (ptes s)(p := f (ptes s p))\<rparr>"

definition mencrypt :: "int \<Rightarrow> nat \<Rightarrow> clk \<Rightarrow> clk" where
  "mencrypt v p s = (if ptes s p AND CLK_E \<noteq> 0 then s else upd_pte p (\<lambda>x. (x OR CLK_E) AND NOT CLK_P) s)"

definition mdecrypt :: "int \<Rightarrow> nat \<Rightarrow> clk \<Rightarrow> clk" where
  "mdecrypt v p s = (if ptes s p AND CLK_E = 0 then s else upd_pte p (\<lambda>x. (x AND NOT CLK_E) OR CLK_P) s)"

definition set_slot :: "int \<Rightarrow> int \<Rightarrow> nat \<Rightarrow> clk \<Rightarrow> clk" where
  "set_slot i v p s = s\<lparr>clk_queue := (clk_queue s)[nat i := \<lparr>vpn = v, pte = p\<rparr>]\<rparr>"

text \<open>The remainder of C, which takes the sign of the dividend.\<close>

definition crem :: "int \<Rightarrow> int \<Rightarrow> int" where
  "crem a b = (if a < 0 then - ((- a) mod b) else a mod b)"

fun clk_insert_loop :: "nat \<Rightarrow> int \<Rightarrow> nat \<Rightarrow> clk \<Rightarrow> clk outcome" where
  "clk_insert_loop 0 v p s = Panic ''fuel''"
| "clk_insert_loop (Suc fuel) v p s =
     (let s = s\<lparr>clk_hand := crem (clk_hand s + 1) (int CLOCKSIZE)\<rparr>;
          n = clk_queue s ! nat (clk_hand s)
      in if vpn n = -1 then Done (set_slot (clk_hand s) v p s)
         else if ptes s (pte n) AND CLK_A = 0 then Done (set_slot (clk_hand s) v p (mencrypt (vpn n) (pte n) s))
         else clk_insert_loop fuel v p (upd_pte (pte n) (\<lambda>x. x AND NOT CLK_A) s))"

definition clk_insert :: "int \<Rightarrow> nat \<Rightarrow> clk \<Rightarrow> clk outcome" where
  "clk_insert v p s = obind (clk_insert_loop (CLOCKSIZE + 1) v p s) (\<lambda>s. Done (mdecrypt v p s))"

text \<open>The search of \<^verbatim>\<open>clk_remove\<close>: the turns from \<open>i\<close> on, of which there are \<open>k\<close>.\<close>

fun clk_search :: "nat \<Rightarrow> int \<Rightarrow> int \<Rightarrow> clk \<Rightarrow> int outcome" where
  "clk_search 0 i v s = Done (-1)"
| "clk_search (Suc k) i v s =
     (let idx = crem (clk_hand s + i) (int CLOCKSIZE)
      in if idx < 0 then Panic ''undefined: clk_queue index''
         else if vpn (clk_queue s ! nat idx) = v then Done idx
         else clk_search k (i + 1) v s)"

fun clk_shift :: "nat \<Rightarrow> int \<Rightarrow> int \<Rightarrow> clk \<Rightarrow> clk outcome" where
  "clk_shift 0 idx prev_tail s = Panic ''fuel''"
| "clk_shift (Suc fuel) idx prev_tail s =
     (if idx = prev_tail then Done s
      else let next_idx = crem (idx + 1) (int CLOCKSIZE);
               n = clk_queue s ! nat next_idx
           in clk_shift fuel next_idx prev_tail (set_slot idx (vpn n) (pte n) s))"

definition clk_remove :: "int \<Rightarrow> clk \<Rightarrow> clk outcome" where
  "clk_remove v s =
     (let prev_tail = clk_hand s
      in obind (clk_search CLOCKSIZE 0 v s) (\<lambda>match_idx.
           if match_idx = -1 then Done s
           else obind (clk_shift CLOCKSIZE match_idx prev_tail s) (\<lambda>s.
                  let s = s\<lparr>clk_queue := (clk_queue s)[nat prev_tail := (clk_queue s ! nat prev_tail)\<lparr>vpn := -1\<rparr>]\<rparr>
                  in Done (s\<lparr>clk_hand := (if clk_hand s = 0 then int CLOCKSIZE - 1 else clk_hand s - 1)\<rparr>))))"

definition clk_clear :: "clk \<Rightarrow> clk" where
  "clk_clear s = s\<lparr>clk_queue := map (\<lambda>n. n\<lparr>vpn := -1\<rparr>) (clk_queue s), clk_hand := -1\<rparr>"

text \<open>What one line of output shows: the page numbers in the queue and their reference bits.\<close>

fun clk_print_loop :: "nat \<Rightarrow> int \<Rightarrow> clk \<Rightarrow> (int \<times> bool) list" where
  "clk_print_loop 0 i s = []"
| "clk_print_loop (Suc k) i s =
     (let print_idx = crem (i + 1) (int CLOCKSIZE);
          n = clk_queue s ! nat print_idx
      in (if vpn n \<noteq> -1 then [(vpn n, 0 < ptes s (pte n) AND CLK_A)] else []) @ clk_print_loop k print_idx s)"

definition clk_print :: "clk \<Rightarrow> (int \<times> bool) list" where
  "clk_print s = clk_print_loop CLOCKSIZE (clk_hand s) s"

definition do_ref_page :: "int \<Rightarrow> nat \<Rightarrow> clk \<Rightarrow> clk outcome" where
  "do_ref_page v p s =
     (if ptes s p AND CLK_P \<noteq> 0 then Done (upd_pte p (\<lambda>x. x OR CLK_A) s)
      else obind (clk_insert v p s) (\<lambda>s. Done (upd_pte p (\<lambda>x. x OR CLK_A) s)))"

definition do_remove_page :: "int \<Rightarrow> clk \<Rightarrow> clk outcome" where
  "do_remove_page v s = clk_remove v s"

text \<open>
  The program: entry \<open>i\<close> of the page table, at address \<open>i\<close>, is for page \<open>i\<close>, and every page is encrypted at the start; \<^verbatim>\<open>main\<close> uses the first twelve entries.  The calls of
  \<^verbatim>\<open>main\<close> are a list of operations.
\<close>

datatype clk_op = Ref nat | Remove nat | Print

fun run_ops :: "clk_op list \<Rightarrow> clk \<Rightarrow> ((int \<times> bool) list list \<times> clk) outcome" where
  "run_ops [] s = Done ([], s)"
| "run_ops (Ref v # ops) s = obind (do_ref_page (int v) v s) (\<lambda>s. run_ops ops s)"
| "run_ops (Remove v # ops) s = obind (do_remove_page (int v) s) (\<lambda>s. run_ops ops s)"
| "run_ops (Print # ops) s = obind (run_ops ops s) (\<lambda>(out, t). Done (clk_print s # out, t))"

definition clk_start :: clk where
  "clk_start = clk_clear \<lparr>clk_queue = replicate CLOCKSIZE \<lparr>vpn = 0, pte = 0\<rparr>, clk_hand = -1, ptes = (\<lambda>_. 0 OR CLK_E)\<rparr>"

definition clk_main :: "((int \<times> bool) list list \<times> clk) outcome" where
  "clk_main = run_ops
     [Ref 0, Ref 3, Ref 1, Ref 2, Print, Ref 9, Ref 7, Ref 4, Ref 6, Print, Ref 2, Print, Ref 10, Print, Ref 1, Ref 2, Ref 3, Print, Ref 11, Print, Remove 10, Remove 11, Print]
     clk_start"

section \<open>The second-chance queue\<close>

text \<open>Pages in the order of their arrival, the referenced pages and the pages present in memory.\<close>

record second =
  sq :: "nat list"
  sref :: "nat set"
  spres :: "nat set"

text \<open>
  A full queue gives up its first unreferenced page; the referenced pages before it lose their reference bit and go to the end.  If all are referenced, all lose the bit and the
  first one goes.
\<close>

definition sc_insert :: "nat \<Rightarrow> second \<Rightarrow> second" where
  "sc_insert v a =
     (if length (sq a) < CLOCKSIZE then a\<lparr>sq := sq a @ [v]\<rparr>
      else case dropWhile (\<lambda>x. x \<in> sref a) (sq a) of
             z # zs \<Rightarrow> \<lparr>sq = zs @ takeWhile (\<lambda>x. x \<in> sref a) (sq a) @ [v], sref = sref a - set (takeWhile (\<lambda>x. x \<in> sref a) (sq a)), spres = spres a - {z}\<rparr>
           | [] \<Rightarrow> \<lparr>sq = tl (sq a) @ [v], sref = sref a - set (sq a), spres = spres a - {hd (sq a)}\<rparr>)"

definition sc_ref :: "nat \<Rightarrow> second \<Rightarrow> second" where
  "sc_ref v a =
     (let b = (if v \<in> spres a then a else sc_insert v a) in b\<lparr>spres := insert v (spres b), sref := insert v (sref b)\<rparr>)"

definition sc_remove :: "nat \<Rightarrow> second \<Rightarrow> second" where
  "sc_remove v a = a\<lparr>sq := remove1 v (sq a)\<rparr>"

definition sc_print :: "second \<Rightarrow> (int \<times> bool) list" where
  "sc_print a = map (\<lambda>v. (int v, v \<in> sref a)) (sq a)"

fun sc_run :: "clk_op list \<Rightarrow> second \<Rightarrow> (int \<times> bool) list list \<times> second" where
  "sc_run [] a = ([], a)"
| "sc_run (Ref v # ops) a = sc_run ops (sc_ref v a)"
| "sc_run (Remove v # ops) a = sc_run ops (sc_remove v a)"
| "sc_run (Print # ops) a = (let (out, b) = sc_run ops a in (sc_print a # out, b))"

section \<open>The ring in the order of the queue\<close>

definition ring_ok :: "clk \<Rightarrow> bool" where
  "ring_ok s \<longleftrightarrow> length (clk_queue s) = CLOCKSIZE \<and> -1 \<le> clk_hand s \<and> clk_hand s < int CLOCKSIZE"

definition order :: "clk \<Rightarrow> clk_node list" where
  "order s = rotate (nat (clk_hand s + 1)) (clk_queue s)"

lemma length_order [simp]: "ring_ok s \<Longrightarrow> length (order s) = CLOCKSIZE"
  by (simp add: order_def ring_ok_def)

lemma order_frame [simp]: "order (upd_pte p f s) = order s" "ring_ok (upd_pte p f s) = ring_ok s" "order (s\<lparr>ptes := g\<rparr>) = order s" "ring_ok (s\<lparr>ptes := g\<rparr>) = ring_ok s"
  by (simp_all add: order_def ring_ok_def upd_pte_def)

lemma advance:
  fixes q :: "'a list" and h :: int
  assumes "length q = CLOCKSIZE" "-1 \<le> h" "h < int CLOCKSIZE"
  defines "h' \<equiv> crem (h + 1) (int CLOCKSIZE)"
  shows "0 \<le> h'" "h' < int CLOCKSIZE" "q ! nat h' = rotate (nat (h + 1)) q ! 0" "rotate (nat (h' + 1)) (q[nat h' := n]) = tl (rotate (nat (h + 1)) q) @ [n]"
proof -
  define j where "j = nat (h + 1)"
  have j: "h + 1 = int j" using assms(2) by (simp add: j_def)
  have h': "h' = int (j mod CLOCKSIZE)" using assms(2) by (simp add: h'_def crem_def j zmod_int)
  have c: "0 < CLOCKSIZE" by (simp add: CLOCKSIZE_def)
  show "0 \<le> h'" "h' < int CLOCKSIZE" using c by (simp_all add: h')
  show "q ! nat h' = rotate (nat (h + 1)) q ! 0" using assms(1) c nth_rotate [of 0 q j] by (simp add: h' j_def [symmetric])
  have "rotate (nat (h' + 1)) (q[nat h' := n]) = rotate (Suc (j mod CLOCKSIZE)) (q[j mod CLOCKSIZE := n])" by (simp add: h' nat_add_distrib)
  also have "\<dots> = tl (rotate j q) @ [n]"
  proof (rule nth_equalityI)
    fix i assume "i < length (rotate (Suc (j mod CLOCKSIZE)) (q[j mod CLOCKSIZE := n]))"
    then have i: "i < 8" using assms(1) by (simp add: CLOCKSIZE_def)
    have l: "rotate (Suc (j mod CLOCKSIZE)) (q[j mod CLOCKSIZE := n]) ! i = q[j mod 8 := n] ! ((j mod 8 + 1 + i) mod 8)"
      using i assms(1) by (subst nth_rotate) (simp_all add: CLOCKSIZE_def)
    show "rotate (Suc (j mod CLOCKSIZE)) (q[j mod CLOCKSIZE := n]) ! i = (tl (rotate j q) @ [n]) ! i"
    proof (cases "i = 7")
      case True
      then have "(j mod 8 + 1 + i) mod 8 = j mod 8" by simp
      then show ?thesis unfolding l using True assms(1) by (simp add: nth_append CLOCKSIZE_def)
    next
      case False
      have "j mod 8 < 8" by simp
      then have "(j mod 8 + 1 + i) mod 8 = (if j mod 8 + 1 + i < 8 then j mod 8 + 1 + i else j mod 8 + 1 + i - 8)" using i by (subst mod_if) auto
      then have "(j mod 8 + 1 + i) mod 8 \<noteq> j mod 8" using False i by (simp split: if_splits)
      moreover have "(j mod 8 + 1 + i) mod 8 = (j + Suc i) mod 8" using mod_add_left_eq [of j 8 "Suc i"] by simp
      ultimately show ?thesis unfolding l using False i assms(1) nth_rotate [of "Suc i" q j] by (simp add: nth_append nth_tl CLOCKSIZE_def)
    qed
  qed (use assms(1) in \<open>simp add: CLOCKSIZE_def\<close>)
  finally show "rotate (nat (h' + 1)) (q[nat h' := n]) = tl (rotate (nat (h + 1)) q) @ [n]" by (simp add: j_def)
qed

lemma clk_bits [simp]:
  fixes x :: uint
  shows "x AND CLK_P = 0 \<longleftrightarrow> \<not> bit x 0" "x AND CLK_A = 0 \<longleftrightarrow> \<not> bit x 5" "x AND CLK_E = 0 \<longleftrightarrow> \<not> bit x 9" "0 < x AND CLK_A \<longleftrightarrow> bit x 5"
proof -
  have e: "CLK_P = 2 ^ 0" "CLK_A = 2 ^ 5" "CLK_E = 2 ^ 9" by (simp_all add: CLK_P_def CLK_A_def CLK_E_def)
  show "x AND CLK_P = 0 \<longleftrightarrow> \<not> bit x 0" "x AND CLK_A = 0 \<longleftrightarrow> \<not> bit x 5" "x AND CLK_E = 0 \<longleftrightarrow> \<not> bit x 9"
    unfolding e by (rule and_exp_eq_0_iff_not_bit)+
  then show "0 < x AND CLK_A \<longleftrightarrow> bit x 5" by (simp add: word_neq_0_conv [symmetric])
qed

lemma bit_flags: "bit CLK_P n \<longleftrightarrow> n = 0" "bit CLK_A n \<longleftrightarrow> n = 5" "bit CLK_E n \<longleftrightarrow> n = 9"
proof -
  have e: "CLK_P = 2 ^ 0" "CLK_A = 2 ^ 5" "CLK_E = 2 ^ 9" by (simp_all add: CLK_P_def CLK_A_def CLK_E_def)
  show "bit CLK_P n \<longleftrightarrow> n = 0" "bit CLK_A n \<longleftrightarrow> n = 5" "bit CLK_E n \<longleftrightarrow> n = 9" unfolding e bit_exp_iff by auto
qed

lemma set_order:
  assumes "ring_ok s" "order s = n # r"
  defines "h \<equiv> crem (clk_hand s + 1) (int CLOCKSIZE)"
  shows "clk_queue s ! nat h = n" "ring_ok (set_slot h v p (s\<lparr>clk_hand := h\<rparr>))" "order (set_slot h v p (s\<lparr>clk_hand := h\<rparr>)) = r @ [\<lparr>vpn = v, pte = p\<rparr>]"
    "ring_ok (s\<lparr>clk_hand := h\<rparr>)" "order (s\<lparr>clk_hand := h\<rparr>) = r @ [n]"
proof -
  have q: "length (clk_queue s) = CLOCKSIZE" "-1 \<le> clk_hand s" "clk_hand s < int CLOCKSIZE" using assms(1) by (simp_all add: ring_ok_def)
  note a = advance [OF q, folded h_def order_def, unfolded assms(2)]
  show n: "clk_queue s ! nat h = n" using a(3) by simp
  show "ring_ok (set_slot h v p (s\<lparr>clk_hand := h\<rparr>))" "ring_ok (s\<lparr>clk_hand := h\<rparr>)" using q a(1,2) by (simp_all add: ring_ok_def set_slot_def)
  show "order (set_slot h v p (s\<lparr>clk_hand := h\<rparr>)) = r @ [\<lparr>vpn = v, pte = p\<rparr>]" using a(4) by (simp add: order_def set_slot_def)
  show "order (s\<lparr>clk_hand := h\<rparr>) = r @ [n]" using a(4) [of n] n list_update_id [of "clk_queue s" "nat h"] by (simp add: order_def)
qed

abbreviation node :: "nat \<Rightarrow> clk_node" where
  "node v \<equiv> \<lparr>vpn = int v, pte = v\<rparr>"

text \<open>The hand passes referenced pages and clears their bits.\<close>

lemma loop_pass:
  assumes "ring_ok s" "order s = map node ys @ r" "distinct ys" "\<forall>y\<in>set ys. bit (ptes s y) 5"
  shows "\<exists>t. clk_insert_loop (length ys + fuel) v p s = clk_insert_loop fuel v p t \<and> ring_ok t \<and> order t = r @ map node ys
    \<and> ptes t = (\<lambda>x. if x \<in> set ys then ptes s x AND NOT CLK_A else ptes s x)"
  using assms
proof (induction ys arbitrary: s r)
  case Nil
  then show ?case by (intro exI [of _ s]) simp
next
  case (Cons y ys)
  let ?s = "upd_pte y (\<lambda>x. x AND NOT CLK_A) (s\<lparr>clk_hand := crem (clk_hand s + 1) (int CLOCKSIZE)\<rparr>)"
  have o: "order s = node y # (map node ys @ r)" using Cons.prems(2) by simp
  note a = set_order [OF Cons.prems(1) o]
  have run: "clk_insert_loop (length (y # ys) + fuel) v p s = clk_insert_loop (length ys + fuel) v p ?s"
    using a(1) Cons.prems(4) by (simp add: Let_def)
  have s': "ring_ok ?s" "order ?s = map node ys @ (r @ [node y])" using a(4,5) by simp_all
  have b: "\<forall>x\<in>set ys. bit (ptes ?s x) 5" using Cons.prems(3,4) by (auto simp: upd_pte_def)
  obtain t where t: "clk_insert_loop (length ys + fuel) v p ?s = clk_insert_loop fuel v p t" "ring_ok t" "order t = (r @ [node y]) @ map node ys"
    "ptes t = (\<lambda>x. if x \<in> set ys then ptes ?s x AND NOT CLK_A else ptes ?s x)"
    using Cons.IH [OF s' _ b] Cons.prems(3) by auto
  have "ptes t = (\<lambda>x. if x \<in> set (y # ys) then ptes s x AND NOT CLK_A else ptes s x)"
    using Cons.prems(3) by (auto simp: t(4) upd_pte_def fun_eq_iff)
  then show ?case using run t(1-3) by auto
qed

text \<open>It stops at an empty slot or at a page that is not referenced.\<close>

lemma loop_end:
  assumes "ring_ok s" "order s = n # r" "vpn n = -1 \<or> \<not> bit (ptes s (pte n)) 5"
  shows "\<exists>t. clk_insert_loop (Suc fuel) v p s = Done t \<and> ring_ok t \<and> order t = r @ [\<lparr>vpn = v, pte = p\<rparr>] \<and> 0 \<le> clk_hand t
    \<and> ptes t = (if vpn n = -1 \<or> bit (ptes s (pte n)) 9 then ptes s else (ptes s)(pte n := (ptes s (pte n) OR CLK_E) AND NOT CLK_P))"
proof -
  let ?h = "crem (clk_hand s + 1) (int CLOCKSIZE)"
  let ?g = "if vpn n = -1 \<or> bit (ptes s (pte n)) 9 then ptes s else (ptes s)(pte n := (ptes s (pte n) OR CLK_E) AND NOT CLK_P)"
  let ?t = "(set_slot ?h v p (s\<lparr>clk_hand := ?h\<rparr>))\<lparr>ptes := ?g\<rparr>"
  note a = set_order [OF assms(1,2)]
  have h: "0 \<le> ?h" using advance(1) [of "clk_queue s" "clk_hand s"] assms(1) by (simp add: ring_ok_def)
  have "clk_insert_loop (Suc fuel) v p s = Done ?t" using a(1) assms(3) by (auto simp: Let_def set_slot_def mencrypt_def upd_pte_def)
  moreover have "ring_ok ?t" "order ?t = r @ [\<lparr>vpn = v, pte = p\<rparr>]" using a(2,3) by simp_all
  moreover have "0 \<le> clk_hand ?t" "ptes ?t = ?g" using h by (simp_all add: set_slot_def)
  ultimately show ?thesis by blast
qed

definition rel :: "clk \<Rightarrow> second \<Rightarrow> bool" where
  "rel s a \<longleftrightarrow> ring_ok s \<and> (\<exists>es. order s = es @ map node (sq a) \<and> (\<forall>n\<in>set es. vpn n = -1)) \<and> distinct (sq a) \<and> set (sq a) \<subseteq> spres a
     \<and> (\<forall>v. v \<in> sref a \<longleftrightarrow> bit (ptes s v) 5) \<and> (\<forall>v. v \<in> spres a \<longleftrightarrow> bit (ptes s v) 0) \<and> (\<forall>v. bit (ptes s v) 9 \<longleftrightarrow> \<not> bit (ptes s v) 0)"

text \<open>What the loop establishes: the queue holds the new page, which is not in memory yet.\<close>

definition inserted :: "nat \<Rightarrow> clk \<Rightarrow> second \<Rightarrow> bool" where
  "inserted v t b \<longleftrightarrow> ring_ok t \<and> 0 \<le> clk_hand t \<and> (\<exists>es. order t = es @ map node (sq b) \<and> (\<forall>n\<in>set es. vpn n = -1)) \<and> distinct (sq b) \<and> set (sq b) \<subseteq> insert v (spres b) \<and> v \<notin> spres b
     \<and> (\<forall>x. x \<in> sref b \<longleftrightarrow> bit (ptes t x) 5) \<and> (\<forall>x. x \<in> spres b \<longleftrightarrow> bit (ptes t x) 0) \<and> (\<forall>x. bit (ptes t x) 9 \<longleftrightarrow> \<not> bit (ptes t x) 0)"

lemma insert_evict:
  assumes "rel s a" "v \<notin> spres a" "sq a = ys @ z # zs" "length (sq a) = CLOCKSIZE" "\<forall>y\<in>set ys. y \<in> sref a" "z \<notin> sref a"
  shows "\<exists>t. clk_insert_loop (CLOCKSIZE + 1) (int v) v s = Done t \<and> inserted v t \<lparr>sq = zs @ ys @ [v], sref = sref a - set ys, spres = spres a - {z}\<rparr>"
proof -
  have s: "ring_ok s" "distinct (sq a)" "set (sq a) \<subseteq> spres a" "\<And>v. v \<in> sref a \<longleftrightarrow> bit (ptes s v) 5" "\<And>v. v \<in> spres a \<longleftrightarrow> bit (ptes s v) 0"
    "\<And>v. bit (ptes s v) 9 \<longleftrightarrow> \<not> bit (ptes s v) 0" using assms(1) by (auto simp: rel_def)
  obtain es where es: "order s = es @ map node (sq a)" using assms(1) by (auto simp: rel_def)
  have "length (order s) = length (sq a)" using assms(4) s(1) by simp
  then have o: "order s = map node ys @ (node z # map node zs)" using es assms(3) by simp
  obtain m where m: "CLOCKSIZE + 1 = length ys + Suc m" using assms(3,4) by (intro that [of "length zs + 1"]) simp
  obtain u where u: "clk_insert_loop (CLOCKSIZE + 1) (int v) v s = clk_insert_loop (Suc m) (int v) v u" "ring_ok u" "order u = node z # (map node zs @ map node ys)"
    "ptes u = (\<lambda>x. if x \<in> set ys then ptes s x AND NOT CLK_A else ptes s x)"
    using loop_pass [OF s(1) o, of "Suc m" "int v" v] s(2,4) assms(3,5) unfolding m by auto
  have z: "\<not> bit (ptes u z) 5" "ptes u z = ptes s z" using u(4) s(2,4) assms(3,6) by auto
  have zp: "bit (ptes s z) 0" "\<not> bit (ptes s z) 9" using s(3,5,6) assms(3) by auto
  obtain t where t: "clk_insert_loop (Suc m) (int v) v u = Done t" "ring_ok t" "order t = map node (zs @ ys @ [v])" "0 \<le> clk_hand t"
    "ptes t = (ptes u)(z := (ptes s z OR CLK_E) AND NOT CLK_P)"
    using loop_end [OF u(2,3), of m "int v" v] z zp by auto
  have bits: "bit (ptes t x) 5 \<longleftrightarrow> x \<in> sref a - set ys" "bit (ptes t x) 0 \<longleftrightarrow> x \<in> spres a - {z}" "bit (ptes t x) 9 \<longleftrightarrow> \<not> bit (ptes t x) 0" for x
    using s(4-6) zp assms(6) by (auto simp: t(5) u(4) bit_and_iff bit_or_iff bit_not_iff bit_flags)
  have "inserted v t \<lparr>sq = zs @ ys @ [v], sref = sref a - set ys, spres = spres a - {z}\<rparr>"
    using t(2-4) bits s(2,3) assms(2,3) by (auto simp: inserted_def intro!: exI [of _ "[]"])
  then show ?thesis using u(1) t(1) by auto
qed

lemma insert_all:
  assumes "rel s a" "v \<notin> spres a" "sq a = z # zs" "length (sq a) = CLOCKSIZE" "set (sq a) \<subseteq> sref a"
  shows "\<exists>t. clk_insert_loop (CLOCKSIZE + 1) (int v) v s = Done t \<and> inserted v t \<lparr>sq = zs @ [v], sref = sref a - set (sq a), spres = spres a - {z}\<rparr>"
proof -
  have s: "ring_ok s" "distinct (sq a)" "set (sq a) \<subseteq> spres a" "\<And>v. v \<in> sref a \<longleftrightarrow> bit (ptes s v) 5" "\<And>v. v \<in> spres a \<longleftrightarrow> bit (ptes s v) 0"
    "\<And>v. bit (ptes s v) 9 \<longleftrightarrow> \<not> bit (ptes s v) 0" using assms(1) by (auto simp: rel_def)
  obtain es where es: "order s = es @ map node (sq a)" using assms(1) by (auto simp: rel_def)
  have "length (order s) = length (sq a)" using assms(4) s(1) by simp
  then have o: "order s = map node (sq a) @ []" using es by simp
  have m: "CLOCKSIZE + 1 = length (sq a) + Suc 0" using assms(4) by simp
  obtain u where u: "clk_insert_loop (CLOCKSIZE + 1) (int v) v s = clk_insert_loop (Suc 0) (int v) v u" "ring_ok u" "order u = node z # map node zs"
    "ptes u = (\<lambda>x. if x \<in> set (sq a) then ptes s x AND NOT CLK_A else ptes s x)"
    using loop_pass [OF s(1) o s(2), of "Suc 0" "int v" v] s(4) assms(3,5) unfolding m by auto
  have z: "\<not> bit (ptes u z) 5" "bit (ptes u z) 0" "\<not> bit (ptes u z) 9"
    using s(3,5,6) assms(3) by (auto simp: u(4) bit_and_iff bit_not_iff bit_flags)
  obtain t where t: "clk_insert_loop (Suc 0) (int v) v u = Done t" "ring_ok t" "order t = map node (zs @ [v])" "0 \<le> clk_hand t"
    "ptes t = (ptes u)(z := (ptes u z OR CLK_E) AND NOT CLK_P)"
    using loop_end [OF u(2,3), of 0 "int v" v] z by auto
  have bits: "bit (ptes t x) 5 \<longleftrightarrow> x \<in> sref a - set (sq a)" "bit (ptes t x) 0 \<longleftrightarrow> x \<in> spres a - {z}" "bit (ptes t x) 9 \<longleftrightarrow> \<not> bit (ptes t x) 0" for x
    using s(3-6) assms(3) by (auto simp: t(5) u(4) bit_and_iff bit_or_iff bit_not_iff bit_flags)
  have "inserted v t \<lparr>sq = zs @ [v], sref = sref a - set (sq a), spres = spres a - {z}\<rparr>"
    using t(2-4) bits s(2,3) assms(2,3) by (auto simp: inserted_def intro!: exI [of _ "[]"])
  then show ?thesis using u(1) t(1) by auto
qed

lemma insert_free:
  assumes "rel s a" "v \<notin> spres a" "length (sq a) < CLOCKSIZE"
  shows "\<exists>t. clk_insert_loop (CLOCKSIZE + 1) (int v) v s = Done t \<and> inserted v t (a\<lparr>sq := sq a @ [v]\<rparr>)"
proof -
  obtain es where es: "order s = es @ map node (sq a)" "\<forall>n\<in>set es. vpn n = -1" using assms(1) by (auto simp: rel_def)
  have r: "ring_ok s" using assms(1) by (simp add: rel_def)
  have "length (order s) = CLOCKSIZE" using r by simp
  then obtain n es' where n: "es = n # es'" using es(1) assms(3) by (cases es) auto
  obtain t where t: "clk_insert_loop (Suc CLOCKSIZE) (int v) v s = Done t" "ring_ok t" "order t = es' @ map node (sq a @ [v])" "0 \<le> clk_hand t" "ptes t = ptes s"
    using loop_end [OF r, of n "es' @ map node (sq a)" CLOCKSIZE "int v" v] es n by auto
  have "inserted v t (a\<lparr>sq := sq a @ [v]\<rparr>)" using t(2-5) assms(1,2) es(2) n by (auto simp: inserted_def rel_def intro!: exI [of _ es'])
  then show ?thesis using t(1) by simp
qed

lemma clk_insert_rel:
  assumes "rel s a" "v \<notin> spres a"
  defines "b \<equiv> sc_insert v a"
  shows "\<exists>t. clk_insert (int v) v s = Done t \<and> rel t (b\<lparr>spres := insert v (spres b)\<rparr>) \<and> 0 \<le> clk_hand t"
proof -
  obtain es where es: "order s = es @ map node (sq a)" "ring_ok s" using assms(1) by (auto simp: rel_def)
  have le: "length (sq a) \<le> CLOCKSIZE" using length_order [OF es(2)] es(1) by simp
  have "\<exists>t. clk_insert_loop (CLOCKSIZE + 1) (int v) v s = Done t \<and> inserted v t b"
  proof (cases "length (sq a) < CLOCKSIZE")
    case True
    then show ?thesis using insert_free [OF assms(1,2) True] by (simp add: b_def sc_insert_def)
  next
    case False
    let ?R = "\<lambda>x. x \<in> sref a"
    have len: "length (sq a) = CLOCKSIZE" using False le by simp
    show ?thesis
    proof (cases "dropWhile ?R (sq a)")
      case Nil
      obtain z zs where z: "sq a = z # zs" using len by (cases "sq a") (simp_all add: CLOCKSIZE_def)
      have "set (sq a) \<subseteq> sref a" using Nil by (auto simp: dropWhile_eq_Nil_conv)
      moreover have "b = \<lparr>sq = zs @ [v], sref = sref a - set (sq a), spres = spres a - {z}\<rparr>" unfolding b_def sc_insert_def Nil using False z by simp
      ultimately show ?thesis using insert_all [OF assms(1,2) z len] by (simp only:)
    next
      case (Cons z zs)
      have "sq a = takeWhile ?R (sq a) @ z # zs" using takeWhile_dropWhile_id [of ?R "sq a"] Cons by simp
      moreover have "z \<notin> sref a" using Cons hd_dropWhile [of ?R "sq a"] by auto
      ultimately show ?thesis using insert_evict [OF assms(1,2) _ len, of "takeWhile ?R (sq a)" z zs] False Cons set_takeWhileD
        by (fastforce simp: b_def sc_insert_def)
    qed
  qed
  then obtain t where t: "clk_insert_loop (CLOCKSIZE + 1) (int v) v s = Done t" "inserted v t b" by blast
  have "bit (ptes t v) 9" using t(2) unfolding inserted_def by blast
  then have "ptes t v AND CLK_E \<noteq> 0" by simp
  then have "clk_insert (int v) v s = Done (upd_pte v (\<lambda>x. (x AND NOT CLK_E) OR CLK_P) t)" using t(1) by (simp add: clk_insert_def mdecrypt_def)
  moreover have "rel (upd_pte v (\<lambda>x. (x AND NOT CLK_E) OR CLK_P) t) (b\<lparr>spres := insert v (spres b)\<rparr>)"
    using t(2) by (auto simp: rel_def inserted_def upd_pte_def order_def ring_ok_def bit_and_iff bit_or_iff bit_not_iff bit_flags)
  ultimately show ?thesis using t(2) by (auto simp: inserted_def upd_pte_def)
qed

lemma do_ref_page_rel:
  assumes "rel s a"
  shows "\<exists>t. do_ref_page (int v) v s = Done t \<and> rel t (sc_ref v a) \<and> (v \<notin> spres a \<or> 0 \<le> clk_hand s \<longrightarrow> 0 \<le> clk_hand t)"
proof -
  have up: "rel (upd_pte v (\<lambda>x. x OR CLK_A) t) (b\<lparr>spres := insert v (spres b), sref := insert v (sref b)\<rparr>)" if "rel t b" "v \<in> spres b" for t b
    using that by (auto simp: rel_def upd_pte_def order_def ring_ok_def bit_or_iff bit_flags)
  show ?thesis
  proof (cases "v \<in> spres a")
    case True
    then have "ptes s v AND CLK_P \<noteq> 0" using assms by (simp add: rel_def)
    then show ?thesis using up [OF assms True] True by (simp add: do_ref_page_def sc_ref_def) (simp add: upd_pte_def)
  next
    case False
    then have p: "ptes s v AND CLK_P = 0" using assms by (simp add: rel_def)
    obtain t where t: "clk_insert (int v) v s = Done t" "rel t (sc_insert v a\<lparr>spres := insert v (spres (sc_insert v a))\<rparr>)" "0 \<le> clk_hand t"
      using clk_insert_rel [OF assms False] by blast
    have "rel (upd_pte v (\<lambda>x. x OR CLK_A) t) (sc_ref v a)" using up [OF t(2)] False by (simp add: sc_ref_def Let_def insert_absorb)
    then show ?thesis using p t(1,3) by (simp add: do_ref_page_def) (simp add: upd_pte_def)
  qed
qed

section \<open>Removing a page\<close>

text \<open>Position \<open>k\<close> of the queue order is this slot of the ring.\<close>

definition slot :: "clk \<Rightarrow> nat \<Rightarrow> int" where
  "slot s k = (clk_hand s + 1 + int k) mod int CLOCKSIZE"

lemma slot_facts:
  assumes "ring_ok s" "0 \<le> clk_hand s" "k < CLOCKSIZE"
  shows "0 \<le> slot s k" "slot s k < int CLOCKSIZE" "clk_queue s ! nat (slot s k) = order s ! k" "order (set_slot (slot s k) v p s) = (order s)[k := \<lparr>vpn = v, pte = p\<rparr>]"
    "j < CLOCKSIZE \<Longrightarrow> slot s j = slot s k \<longleftrightarrow> j = k" "slot s (CLOCKSIZE - 1) = clk_hand s"
proof -
  define h where "h = nat (clk_hand s + 1)"
  have h: "clk_hand s + 1 = int h" using assms(2) by (simp add: h_def)
  have len: "length (clk_queue s) = 8" using assms(1) by (simp add: ring_ok_def CLOCKSIZE_def)
  have sl: "slot s l = int ((h + l) mod 8)" for l by (simp add: slot_def h CLOCKSIZE_def zmod_int)
  have k: "k < 8" using assms(3) by (simp add: CLOCKSIZE_def)
  have inj: "(h + j) mod 8 = (h + l) mod 8 \<longleftrightarrow> j = l" if "j < 8" "l < 8" for j l
    using that by (simp add: nat_mod_eq_iff) presburger
  show "0 \<le> slot s k" "slot s k < int CLOCKSIZE" by (simp_all add: sl CLOCKSIZE_def)
  show "clk_queue s ! nat (slot s k) = order s ! k" using nth_rotate [of k "clk_queue s" h] len k by (simp add: order_def h_def [symmetric] sl)
  show "j < CLOCKSIZE \<Longrightarrow> slot s j = slot s k \<longleftrightarrow> j = k" using inj k by (simp add: sl CLOCKSIZE_def)
  show "order (set_slot (slot s k) v p s) = (order s)[k := \<lparr>vpn = v, pte = p\<rparr>]"
  proof (rule nth_equalityI)
    fix i assume "i < length (order (set_slot (slot s k) v p s))"
    then have i: "i < 8" using len by (simp add: order_def set_slot_def)
    show "order (set_slot (slot s k) v p s) ! i = (order s)[k := \<lparr>vpn = v, pte = p\<rparr>] ! i"
      using i k len inj [of i k] inj [of k i] by (simp add: order_def set_slot_def h_def [symmetric] sl nth_rotate nth_list_update)
  qed (simp add: order_def set_slot_def)
  show "slot s (CLOCKSIZE - 1) = clk_hand s" using assms(1,2) by (simp add: slot_def ring_ok_def CLOCKSIZE_def)
qed

lemma set_slot_frame [simp]: "clk_hand (set_slot i v p s) = clk_hand s" "ptes (set_slot i v p s) = ptes s" "ring_ok (set_slot i v p s) = ring_ok s" "slot (set_slot i v p s) k = slot s k"
  by (simp_all add: set_slot_def ring_ok_def slot_def)

lemma crem_slot: "ring_ok s \<Longrightarrow> 0 \<le> clk_hand s \<Longrightarrow> crem (slot s k + 1) (int CLOCKSIZE) = slot s (Suc k)"
proof -
  assume s: "ring_ok s" "0 \<le> clk_hand s"
  have "0 \<le> slot s k" by (simp add: slot_def CLOCKSIZE_def)
  then have "crem (slot s k + 1) (int CLOCKSIZE) = (slot s k + 1) mod int CLOCKSIZE" by (simp add: crem_def)
  also have "\<dots> = slot s (Suc k)" unfolding slot_def mod_add_left_eq by (simp add: algebra_simps)
  finally show ?thesis .
qed

lemma clk_shift_spec:
  assumes "ring_ok s" "0 \<le> clk_hand s" "k < CLOCKSIZE" "CLOCKSIZE \<le> k + fuel"
  shows "\<exists>t. clk_shift fuel (slot s k) (clk_hand s) s = Done t \<and> ring_ok t \<and> clk_hand t = clk_hand s \<and> ptes t = ptes s
    \<and> order t = take k (order s) @ drop (Suc k) (order s) @ [last (order s)]"
  using assms
proof (induction fuel arbitrary: s k)
  case (Suc fuel)
  note sl = slot_facts [OF Suc.prems(1-3)]
  have len: "length (order s) = CLOCKSIZE" using Suc.prems(1) by simp
  show ?case
  proof (cases "Suc k = CLOCKSIZE")
    case True
    then have "slot s k = clk_hand s" using sl(6) by (metis diff_Suc_1)
    moreover have "order s = take k (order s) @ [last (order s)]"
      using len True append_butlast_last_id [of "order s"] by (metis butlast_conv_take diff_Suc_1 length_greater_0_conv zero_less_Suc)
    ultimately show ?thesis using Suc.prems(1) len True by (intro exI [of _ s]) simp
  next
    case False
    then have k: "Suc k < CLOCKSIZE" using Suc.prems(3) by simp
    have ne: "slot s k \<noteq> clk_hand s" using sl(6) slot_facts(5) [OF Suc.prems(1-3), of "CLOCKSIZE - 1"] k by auto
    let ?n = "order s ! Suc k"
    let ?s = "set_slot (slot s k) (vpn ?n) (pte ?n) s"
    have n: "clk_queue s ! nat (slot s (Suc k)) = ?n" using slot_facts(3) [OF Suc.prems(1,2) k] .
    have "clk_shift (Suc fuel) (slot s k) (clk_hand s) s = clk_shift fuel (slot ?s (Suc k)) (clk_hand ?s) ?s"
      using ne n crem_slot [OF Suc.prems(1,2)] by (simp add: Let_def)
    moreover obtain t where t: "clk_shift fuel (slot ?s (Suc k)) (clk_hand ?s) ?s = Done t" "ring_ok t" "clk_hand t = clk_hand s" "ptes t = ptes s"
      "order t = take (Suc k) (order ?s) @ drop (Suc (Suc k)) (order ?s) @ [last (order ?s)]"
      using Suc.IH [of ?s "Suc k"] Suc.prems k by auto
    moreover have o: "order ?s = (order s)[k := ?n]" using sl(4) [of "vpn ?n" "pte ?n"] by (cases ?n) simp
    have "order t = take k (order s) @ drop (Suc k) (order s) @ [last (order s)]"
    proof -
      have "take (Suc k) (order ?s) = take k (order s) @ [?n]" unfolding o using len k by (simp add: take_Suc_conv_app_nth)
      moreover have "?n # drop (Suc (Suc k)) (order s) = drop (Suc k) (order s)" using len k by (simp add: Cons_nth_drop_Suc)
      moreover have "last (order ?s) = last (order s)" unfolding o using len k by (subst last_list_update) auto
      moreover have "drop (Suc (Suc k)) (order ?s) = drop (Suc (Suc k)) (order s)" unfolding o by simp
      ultimately show ?thesis unfolding t(5) by (metis append.assoc append_Cons append_Nil)
    qed
    ultimately show ?thesis by auto
  qed
qed (simp add: CLOCKSIZE_def)

lemma search_idx:
  assumes "ring_ok s" "0 \<le> clk_hand s"
  shows "crem (clk_hand s + int i) (int CLOCKSIZE) = slot s ((i + CLOCKSIZE - 1) mod CLOCKSIZE)"
proof -
  have "slot s ((i + 7) mod 8) = (clk_hand s + 1 + int (i + 7)) mod 8" by (simp add: slot_def CLOCKSIZE_def zmod_int mod_simps)
  also have "\<dots> = (clk_hand s + int i + 8) mod 8" by (simp add: algebra_simps)
  also have "\<dots> = (clk_hand s + int i) mod 8" by (rule mod_add_self2)
  finally show ?thesis using assms(2) by (simp add: crem_def CLOCKSIZE_def add.commute)
qed

lemma clk_search_spec:
  assumes "ring_ok s" "0 \<le> clk_hand s" "i + k = CLOCKSIZE"
  shows "(\<forall>j<CLOCKSIZE. vpn (order s ! j) \<noteq> v) \<Longrightarrow> clk_search k (int i) v s = Done (-1)"
    and "m < CLOCKSIZE \<Longrightarrow> vpn (order s ! m) = v \<Longrightarrow> (\<forall>j<CLOCKSIZE. j \<noteq> m \<longrightarrow> vpn (order s ! j) \<noteq> v) \<Longrightarrow> i \<le> (m + 1) mod CLOCKSIZE \<Longrightarrow> clk_search k (int i) v s = Done (slot s m)"
  using assms(3)
proof (induction k arbitrary: i)
  case 0
  { case 1 show ?case by simp }
  { case 2
    have "(m + 1) mod CLOCKSIZE < CLOCKSIZE" by (simp add: CLOCKSIZE_def)
    then show ?case using 2(4,5) by linarith }
next
  case (Suc k)
  have step: "clk_search (Suc k) (int i) v s = (if vpn (order s ! ((i + CLOCKSIZE - 1) mod CLOCKSIZE)) = v then Done (slot s ((i + CLOCKSIZE - 1) mod CLOCKSIZE)) else clk_search k (int (Suc i)) v s)" for i
  proof -
    have j: "(i + CLOCKSIZE - 1) mod CLOCKSIZE < CLOCKSIZE" by (simp add: CLOCKSIZE_def)
    show ?thesis using slot_facts(1,3) [OF assms(1,2) j] search_idx [OF assms(1,2), of i] by (simp add: Let_def add.commute)
  qed
  have j: "(i + CLOCKSIZE - 1) mod CLOCKSIZE < CLOCKSIZE" for i by (simp add: CLOCKSIZE_def)
  { case 1
    then show ?case using Suc.IH(1) [of "Suc i"] j [of i] unfolding step by simp }
  { case 2
    show ?case
    proof (cases "(i + CLOCKSIZE - 1) mod CLOCKSIZE = m")
      case True
      then show ?thesis using 2 unfolding step by simp
    next
      case False
      have "i \<noteq> (m + 1) mod CLOCKSIZE"
      proof
        assume e: "i = (m + 1) mod CLOCKSIZE"
        have "((m + 1) mod 8 + 7) mod 8 = m mod 8" by (simp add: mod_simps)
        then show False using False e 2(1) by (simp add: CLOCKSIZE_def add.commute)
      qed
      then have "Suc i \<le> (m + 1) mod CLOCKSIZE" using 2(4) by simp
      then show ?thesis using Suc.IH(2) [of "Suc i"] 2 j [of i] False unfolding step by simp
    qed }
qed

lemma clk_remove_order:
  assumes "ring_ok s" "0 \<le> clk_hand s" "m < CLOCKSIZE" "vpn (order s ! m) = v" "\<forall>j<CLOCKSIZE. j \<noteq> m \<longrightarrow> vpn (order s ! j) \<noteq> v"
  shows "\<exists>t e. clk_remove v s = Done t \<and> ring_ok t \<and> 0 \<le> clk_hand t \<and> ptes t = ptes s \<and> vpn e = -1 \<and> order t = e # take m (order s) @ drop (Suc m) (order s)"
proof -
  let ?r = "take m (order s) @ drop (Suc m) (order s)"
  note sl = slot_facts [OF assms(1-3)]
  have se: "clk_search CLOCKSIZE 0 v s = Done (slot s m)" using clk_search_spec(2) [OF assms(1,2), of 0 CLOCKSIZE m v] assms(3-5) by simp
  obtain u where u: "clk_shift CLOCKSIZE (slot s m) (clk_hand s) s = Done u" "ring_ok u" "clk_hand u = clk_hand s" "ptes u = ptes s" "order u = ?r @ [last (order s)]"
    using clk_shift_spec [OF assms(1-3), of CLOCKSIZE] by auto
  have len: "length ?r = CLOCKSIZE - 1" using assms(1,3) by simp
  have hu: "0 \<le> clk_hand u" and c: "CLOCKSIZE - 1 < CLOCKSIZE" using assms(2) u(3) by (simp_all add: CLOCKSIZE_def)
  note su = slot_facts [OF u(2) hu c]
  let ?n = "clk_queue u ! nat (clk_hand u)"
  let ?u = "set_slot (clk_hand u) (-1) (pte ?n) u"
  have ou: "order ?u = ?r @ [\<lparr>vpn = -1, pte = pte ?n\<rparr>]" using su(4,6) u(5) len list_update_length [of ?r] by simp
  define h where "h = (if clk_hand u = 0 then int CLOCKSIZE - 1 else clk_hand u - 1)"
  have h: "0 \<le> h" "h < int CLOCKSIZE" using u(2) hu by (auto simp: h_def ring_ok_def CLOCKSIZE_def)
  let ?t = "?u\<lparr>clk_hand := h\<rparr>"
  have run: "clk_remove v s = Done ?t"
  proof -
    have "(clk_queue u)[nat (clk_hand s) := (clk_queue u ! nat (clk_hand s))\<lparr>vpn := -1\<rparr>] = clk_queue ?u" using u(3) by (cases ?n) (simp add: set_slot_def)
    then show ?thesis using se u(1,3) sl(1) by (simp add: clk_remove_def Let_def h_def set_slot_def)
  qed
  have rt: "ring_ok ?t" using u(2) h by (simp add: ring_ok_def set_slot_def)
  have "clk_hand ?u = crem (clk_hand ?t + 1) (int CLOCKSIZE)" using u(2) hu by (auto simp: crem_def h_def ring_ok_def CLOCKSIZE_def)
  moreover have "?t\<lparr>clk_hand := clk_hand ?u\<rparr> = ?u" by (rule clk.equality) simp_all
  moreover have "order ?t = hd (order ?t) # tl (order ?t)" using length_order [OF rt] by (cases "order ?t") (simp_all add: CLOCKSIZE_def)
  ultimately have "order ?u = tl (order ?t) @ [hd (order ?t)]" using set_order(5) [OF rt, of "hd (order ?t)" "tl (order ?t)"] by metis
  then have "order ?t = \<lparr>vpn = -1, pte = pte ?n\<rparr> # ?r" using ou length_order [OF rt] by (cases "order ?t") (simp_all add: CLOCKSIZE_def)
  then show ?thesis using run rt h(1) u(4) by (intro exI [of _ ?t] exI [of _ "\<lparr>vpn = -1, pte = pte ?n\<rparr>"]) simp
qed

lemma do_remove_page_rel:
  assumes "rel s a" "0 \<le> clk_hand s"
  shows "\<exists>t. do_remove_page (int v) s = Done t \<and> rel t (sc_remove v a) \<and> 0 \<le> clk_hand t"
proof -
  obtain es where es: "order s = es @ map node (sq a)" "\<forall>n\<in>set es. vpn n = -1" and r: "ring_ok s" and d: "distinct (sq a)" using assms(1) by (auto simp: rel_def)
  have len: "length es + length (sq a) = CLOCKSIZE" using length_order [OF r] es(1) by simp
  show ?thesis
  proof (cases "v \<in> set (sq a)")
    case False
    have "vpn (order s ! j) \<noteq> int v" if "j < CLOCKSIZE" for j
    proof -
      have "order s ! j \<in> set (order s)" using that length_order [OF r] by simp
      then show ?thesis using es False by auto
    qed
    then have "clk_search CLOCKSIZE 0 (int v) s = Done (-1)" using clk_search_spec(1) [OF r assms(2), of 0 CLOCKSIZE] by simp
    then show ?thesis using assms False by (simp add: do_remove_page_def clk_remove_def sc_remove_def remove1_idem)
  next
    case True
    then obtain xs ys where xy: "sq a = xs @ v # ys" "v \<notin> set xs" by (meson split_list_first)
    let ?m = "length es + length xs"
    have m: "?m < CLOCKSIZE" "order s ! ?m = node v" using len xy(1) es(1) by (auto simp: nth_append)
    have others: "vpn (order s ! j) \<noteq> int v" if "j < CLOCKSIZE" "j \<noteq> ?m" for j
    proof (cases "j < length es")
      case True
      then show ?thesis using es by (auto simp: nth_append)
    next
      case False
      then have j: "j - length es < length (sq a)" "j - length es \<noteq> length xs" using that len by auto
      have "sq a ! length xs = v" using xy(1) by simp
      then have "sq a ! (j - length es) \<noteq> v" using j d nth_eq_iff_index_eq [OF d j(1), of "length xs"] xy(1) by auto
      then show ?thesis using False j(1) es(1) by (simp add: nth_append)
    qed
    obtain t e where t: "clk_remove (int v) s = Done t" "ring_ok t" "0 \<le> clk_hand t" "ptes t = ptes s" "vpn e = -1" "order t = e # take ?m (order s) @ drop (Suc ?m) (order s)"
      using clk_remove_order [OF r assms(2) m(1), of "int v"] m(2) others by auto
    have rm: "remove1 v (sq a) = xs @ ys" using xy by (simp add: remove1_append)
    have "order t = (e # es) @ map node (remove1 v (sq a))" unfolding t(6) rm unfolding es(1) xy(1) by simp
    moreover have "set (remove1 v (sq a)) \<subseteq> spres a" "distinct (remove1 v (sq a))" using assms(1) d set_remove1_subset [of v "sq a"] by (auto simp: rel_def)
    ultimately have "rel t (sc_remove v a)" using assms(1) t(2,4,5) es(2) by (auto simp: rel_def sc_remove_def intro!: exI [of _ "e # es"])
    then show ?thesis using t(1,3) by (simp add: do_remove_page_def)
  qed
qed

section \<open>Properties\<close>

lemma slot_nth:
  assumes "ring_ok s" "k < CLOCKSIZE"
  shows "clk_queue s ! nat (slot s k) = order s ! k" "0 \<le> slot s k" "crem (clk_hand s + 1) (int CLOCKSIZE) = slot s 0" "crem (slot s k + 1) (int CLOCKSIZE) = slot s (Suc k)"
proof -
  define h where "h = nat (clk_hand s + 1)"
  have h: "clk_hand s + 1 = int h" using assms(1) by (simp add: h_def ring_ok_def)
  have "slot s k = int ((h + k) mod CLOCKSIZE)" by (simp add: slot_def h zmod_int)
  then show "clk_queue s ! nat (slot s k) = order s ! k" "0 \<le> slot s k"
    using nth_rotate [of k "clk_queue s" h] assms by (simp_all add: order_def h_def [symmetric] ring_ok_def)
  then have "crem (slot s k + 1) (int CLOCKSIZE) = (slot s k + 1) mod int CLOCKSIZE" by (simp add: crem_def)
  also have "\<dots> = slot s (Suc k)" unfolding slot_def mod_add_left_eq by (simp add: algebra_simps)
  finally show "crem (slot s k + 1) (int CLOCKSIZE) = slot s (Suc k)" .
  show "crem (clk_hand s + 1) (int CLOCKSIZE) = slot s 0" by (simp add: slot_def crem_def h)
qed

definition shown :: "clk \<Rightarrow> clk_node \<Rightarrow> (int \<times> bool) list" where
  "shown s n = (if vpn n \<noteq> -1 then [(vpn n, bit (ptes s (pte n)) 5)] else [])"

lemma clk_print_loop_order:
  assumes "ring_ok s"
  shows "j + k = CLOCKSIZE \<Longrightarrow> crem (i + 1) (int CLOCKSIZE) = slot s j \<Longrightarrow> clk_print_loop k i s = concat (map (shown s) (drop j (order s)))"
proof (induction k arbitrary: i j)
  case 0
  then show ?case using length_order [OF assms] by simp
next
  case (Suc k)
  then have j: "j < CLOCKSIZE" by simp
  note sl = slot_nth [OF assms j]
  have "drop j (order s) = order s ! j # drop (Suc j) (order s)" using j length_order [OF assms] by (simp add: Cons_nth_drop_Suc)
  then show ?case using Suc sl by (simp add: Let_def shown_def)
qed

lemma clk_print_rel: "rel s a \<Longrightarrow> clk_print s = sc_print a"
proof -
  assume r: "rel s a"
  then obtain es where es: "order s = es @ map node (sq a)" "\<forall>n\<in>set es. vpn n = -1" and ok: "ring_ok s" by (auto simp: rel_def)
  have "clk_print s = concat (map (shown s) (order s))"
    unfolding clk_print_def using clk_print_loop_order [OF ok, of 0 CLOCKSIZE "clk_hand s"] slot_nth(3) [OF ok, of 0] by (simp add: CLOCKSIZE_def)
  moreover have "concat (map (shown s) es) = []" using es(2) by (simp add: shown_def)
  moreover have "concat (map (shown s) (map node (sq a))) = sc_print a" using r by (simp add: shown_def sc_print_def rel_def comp_def concat_map_singleton)
  ultimately show ?thesis using es(1) by simp
qed

text \<open>A page is referenced before one is removed: \<^verbatim>\<open>clk_remove\<close> on the cleared clock reads before the array.\<close>

definition starts_ok :: "clk_op list \<Rightarrow> bool" where
  "starts_ok ops \<longleftrightarrow> (case dropWhile (\<lambda>x. x = Print) ops of Remove v # _ \<Rightarrow> False | _ \<Rightarrow> True)"

lemma run_ops_rel:
  assumes "rel s a" "0 \<le> clk_hand s \<or> spres a = {} \<and> starts_ok ops"
  shows "\<exists>t. run_ops ops s = Done (fst (sc_run ops a), t) \<and> rel t (snd (sc_run ops a))"
  using assms
proof (induction ops arbitrary: s a)
  case (Cons x ops)
  show ?case
  proof (cases x)
    case (Ref v)
    obtain u where "do_ref_page (int v) v s = Done u" "rel u (sc_ref v a)" "0 \<le> clk_hand u" using do_ref_page_rel [OF Cons.prems(1), of v] Cons.prems(2) by auto
    then show ?thesis using Cons.IH [of u "sc_ref v a"] Ref by simp
  next
    case (Remove v)
    then have "0 \<le> clk_hand s" using Cons.prems(2) by (simp add: starts_ok_def)
    then obtain u where "do_remove_page (int v) s = Done u" "rel u (sc_remove v a)" "0 \<le> clk_hand u" using do_remove_page_rel [OF Cons.prems(1)] by blast
    then show ?thesis using Cons.IH [of u "sc_remove v a"] Remove by simp
  next
    case Print
    then have "0 \<le> clk_hand s \<or> spres a = {} \<and> starts_ok ops" using Cons.prems(2) by (auto simp: starts_ok_def)
    then obtain t where "run_ops ops s = Done (fst (sc_run ops a), t)" "rel t (snd (sc_run ops a))" using Cons.IH [OF Cons.prems(1)] by blast
    then show ?thesis using Print clk_print_rel [OF Cons.prems(1)] by (simp add: Let_def case_prod_unfold)
  qed
qed simp

lemma clk_start_rel: "rel clk_start \<lparr>sq = [], sref = {}, spres = {}\<rparr>"
  by (auto simp: rel_def clk_start_def clk_clear_def ring_ok_def order_def bit_flags CLOCKSIZE_def)


text \<open>The lines of \<^verbatim>\<open>main\<close>, and the removal that leaves the array.\<close>

lemma remove_first_undefined: "run_ops [Remove 0] clk_start = Panic ''undefined: clk_queue index''"
proof -
  have "clk_search (Suc 7) 0 0 clk_start = Panic ''undefined: clk_queue index''"
    unfolding clk_search.simps(2) by (simp add: clk_start_def clk_clear_def crem_def CLOCKSIZE_def)
  moreover have "Suc 7 = CLOCKSIZE" by (simp add: CLOCKSIZE_def)
  ultimately have "clk_search CLOCKSIZE 0 0 clk_start = Panic ''undefined: clk_queue index''" by (simp only:)
  then show ?thesis by (simp add: do_remove_page_def clk_remove_def)
qed


end
