(* ===== verification/Ide.thy ===== *)
theory Ide
  imports Bio
begin

text \<open>
  The interrupt-driven disk driver (\<^verbatim>\<open>src/xv6/ide.c\<close>), which takes the place of \<^verbatim>\<open>memide.c\<close> on a real disk.  What the driver writes to the ports is recorded in order in \<open>io\<close>; what it reads
  from them (the polled status bytes and the words of a sector) are arguments.  A request is submitted, with \<^verbatim>\<open>idelock\<close> held, and then waited for; the interrupt handler runs in between.
  The property says that the driver with an ATA disk does what the memory disk driver does, request by request in the order of submission.
\<close>

section \<open>The driver\<close>

definition IDE_BSY :: uchar where
  "IDE_BSY = 0x80"

definition IDE_DRDY :: uchar where
  "IDE_DRDY = 0x40"

definition IDE_DF :: uchar where
  "IDE_DF = 0x20"

definition IDE_ERR :: uchar where
  "IDE_ERR = 0x01"

definition IDE_CMD_READ :: uchar where
  "IDE_CMD_READ = 0x20"

definition IDE_CMD_WRITE :: uchar where
  "IDE_CMD_WRITE = 0x30"

definition IDE_CMD_RDMUL :: uchar where
  "IDE_CMD_RDMUL = 0xc4"

definition IDE_CMD_WRMUL :: uchar where
  "IDE_CMD_WRMUL = 0xc5"

definition SECTOR_SIZE :: nat where
  "SECTOR_SIZE = 512"

datatype io_op = Outb ushort uchar | Outsl ushort block

record ide =
  ibufs :: "buf list"
  qnext :: "nat \<Rightarrow> nat option"
  idequeue :: "nat option"
  havedisk1 :: bool
  io :: "io_op list"
  woken :: "nat list"

text \<open>The loop reads the status port until the disk is ready; \<open>Block\<close>: it is not ready in any of the readings.\<close>

fun idewait :: "bool \<Rightarrow> uchar list \<Rightarrow> int outcome" where
  "idewait checkerr [] = Block"
| "idewait checkerr (r # rs) =
     (if r AND (IDE_BSY OR IDE_DRDY) \<noteq> IDE_DRDY then idewait checkerr rs
      else if checkerr \<and> r AND (IDE_DF OR IDE_ERR) \<noteq> 0 then Done (-1)
      else Done 0)"

definition outb :: "ushort \<Rightarrow> uint \<Rightarrow> ide \<Rightarrow> ide" where
  "outb port v s = s\<lparr>io := io s @ [Outb port (ucast v)]\<rparr>"

definition outsl :: "ushort \<Rightarrow> block \<Rightarrow> ide \<Rightarrow> ide" where
  "outsl port d s = s\<lparr>io := io s @ [Outsl port d]\<rparr>"

text \<open>Disk 1 is present if one of a thousand status readings is not zero.\<close>

definition ideinit :: "uchar list \<Rightarrow> uchar list \<Rightarrow> ide \<Rightarrow> ide outcome" where
  "ideinit polls st s =
     obind (idewait False polls) (\<lambda>_.
       let s = outb 0x1f6 (0xe0 OR push_bit 4 1) s;
           s = (if \<exists>r\<in>set (take 1000 st). r \<noteq> 0 then s\<lparr>havedisk1 := True\<rparr> else s)
       in Done (outb 0x1f6 (0xe0 OR push_bit 4 0) s))"

definition sector_per_block :: nat where
  "sector_per_block = BSIZE div SECTOR_SIZE"

definition idestart :: "uchar list \<Rightarrow> nat option \<Rightarrow> ide \<Rightarrow> ide outcome" where
  "idestart polls b s =
     (case b of
        None \<Rightarrow> Panic ''idestart''
      | Some i \<Rightarrow>
          let b = ibufs s ! i
          in if FSSIZE \<le> unat (b_blockno b) then Panic ''incorrect blockno''
             else
               let sector = b_blockno b * of_nat sector_per_block;
                   read_cmd = (if sector_per_block = 1 then IDE_CMD_READ else IDE_CMD_RDMUL);
                   write_cmd = (if sector_per_block = 1 then IDE_CMD_WRITE else IDE_CMD_WRMUL)
               in if 7 < sector_per_block then Panic ''idestart''
                  else
                    obind (idewait False polls) (\<lambda>_.
                      let s = outb 0x3f6 0 s;
                          s = outb 0x1f2 (of_nat sector_per_block) s;
                          s = outb 0x1f3 (sector AND 0xff) s;
                          s = outb 0x1f4 (drop_bit 8 sector AND 0xff) s;
                          s = outb 0x1f5 (drop_bit 16 sector AND 0xff) s;
                          s = outb 0x1f6 (0xe0 OR push_bit 4 (b_dev b AND 1) OR (drop_bit 24 sector AND 0x0f)) s
                      in if b_dirty b then Done (outsl 0x1f0 (b_data b) (outb 0x1f7 (ucast write_cmd) s))
                         else Done (outb 0x1f7 (ucast read_cmd) s)))"

definition upd_ibuf :: "nat \<Rightarrow> (buf \<Rightarrow> buf) \<Rightarrow> ide \<Rightarrow> ide" where
  "upd_ibuf i f s = s\<lparr>ibufs := (ibufs s)[i := f (ibufs s ! i)]\<rparr>"

text \<open>\<open>rd\<close> are the status readings of \<^verbatim>\<open>idewait(1)\<close>, \<open>din\<close> is what \<^verbatim>\<open>insl\<close> reads, \<open>st\<close> are the readings when the next request is started.\<close>

definition ideintr :: "uchar list \<Rightarrow> block \<Rightarrow> uchar list \<Rightarrow> ide \<Rightarrow> ide outcome" where
  "ideintr rd din st s =
     (case idequeue s of
        None \<Rightarrow> Done s
      | Some b \<Rightarrow>
          let s = s\<lparr>idequeue := qnext s b\<rparr>
          in obind (if \<not> b_dirty (ibufs s ! b)
                    then obind (idewait True rd) (\<lambda>r. Done (if 0 \<le> r then upd_ibuf b (\<lambda>x. x\<lparr>b_data := din\<rparr>) s else s))
                    else Done s) (\<lambda>s.
               let s = upd_ibuf b (\<lambda>x. x\<lparr>b_valid := True\<rparr>) s;
                   s = upd_ibuf b (\<lambda>x. x\<lparr>b_dirty := False\<rparr>) s;
                   s = s\<lparr>woken := woken s @ [b]\<rparr>
               in if idequeue s \<noteq> None then idestart st (idequeue s) s else Done s))"

text \<open>\<^verbatim>\<open>for(pp=&idequeue; *pp; pp=&(*pp)->qnext)\<close>: the last buffer of the queue from \<open>b\<close> on.\<close>

fun queue_last :: "nat \<Rightarrow> (nat \<Rightarrow> nat option) \<Rightarrow> nat \<Rightarrow> nat outcome" where
  "queue_last 0 nx b = Panic ''fuel''"
| "queue_last (Suc fuel) nx b = (case nx b of None \<Rightarrow> Done b | Some c \<Rightarrow> queue_last fuel nx c)"

definition append_queue :: "nat \<Rightarrow> ide \<Rightarrow> ide outcome" where
  "append_queue b s =
     (let s = s\<lparr>qnext := (qnext s)(b := None)\<rparr>
      in case idequeue s of
           None \<Rightarrow> Done (s\<lparr>idequeue := Some b\<rparr>)
         | Some h \<Rightarrow> obind (queue_last (length (ibufs s) + 1) (qnext s) h) (\<lambda>l. Done (s\<lparr>qnext := (qnext s)(l := Some b)\<rparr>)))"

text \<open>\<^verbatim>\<open>iderw\<close> up to its wait, and the test of the wait.\<close>

definition iderw_submit :: "int \<Rightarrow> uchar list \<Rightarrow> nat \<Rightarrow> ide \<Rightarrow> ide outcome" where
  "iderw_submit pid st b s =
     (if \<not> holdingsleep pid (b_lock (ibufs s ! b)) then Panic ''iderw: buf not locked''
      else if b_valid (ibufs s ! b) \<and> \<not> b_dirty (ibufs s ! b) then Panic ''iderw: nothing to do''
      else if b_dev (ibufs s ! b) \<noteq> 0 \<and> \<not> havedisk1 s then Panic ''iderw: ide disk 1 not present''
      else
        obind (append_queue b s) (\<lambda>s.
          if idequeue s = Some b then idestart st (Some b) s else Done s))"

definition iderw_wait :: "nat \<Rightarrow> ide \<Rightarrow> unit outcome" where
  "iderw_wait b s = (if \<not> (b_valid (ibufs s ! b) \<and> \<not> b_dirty (ibufs s ! b)) then Block else Done ())"

section \<open>An ATA disk\<close>

text \<open>
  What the standard says of the commands the driver uses.  The task file registers hold the address of a sector, and the words written to the data port after a write command
  become the contents of the sector.
\<close>

record ata =
  areg :: "ushort \<Rightarrow> uchar"
  adisk :: "uint \<Rightarrow> uint \<Rightarrow> block"

definition ata_lba :: "ata \<Rightarrow> uint" where
  "ata_lba a = ucast (areg a 0x1f3) OR push_bit 8 (ucast (areg a 0x1f4)) OR push_bit 16 (ucast (areg a 0x1f5)) OR push_bit 24 (ucast (areg a 0x1f6 AND 0x0f))"

definition ata_drive :: "ata \<Rightarrow> uint" where
  "ata_drive a = ucast (drop_bit 4 (areg a 0x1f6) AND 1)"

fun ata_step :: "ata \<Rightarrow> io_op \<Rightarrow> ata" where
  "ata_step a (Outb p v) = a\<lparr>areg := (areg a)(p := v)\<rparr>"
| "ata_step a (Outsl p d) =
     (if p = 0x1f0 \<and> areg a 0x1f7 = IDE_CMD_WRITE
      then a\<lparr>adisk := (adisk a)(ata_drive a := (adisk a (ata_drive a))(ata_lba a := d))\<rparr> else a)"

definition ata_run :: "io_op list \<Rightarrow> (uint \<Rightarrow> uint \<Rightarrow> block) \<Rightarrow> ata" where
  "ata_run ops D = foldl ata_step \<lparr>areg = (\<lambda>_. 0), adisk = D\<rparr> ops"

text \<open>\<open>dev ops\<close> is what the data port delivers after the port writes \<open>ops\<close>.\<close>

definition ata_disk :: "(io_op list \<Rightarrow> block) \<Rightarrow> (uint \<Rightarrow> uint \<Rightarrow> block) \<Rightarrow> bool" where
  "ata_disk dev D \<longleftrightarrow> (\<forall>ops. dev ops = adisk (ata_run ops D) (ata_drive (ata_run ops D)) (ata_lba (ata_run ops D)))"

section \<open>The queue\<close>

fun path :: "(nat \<Rightarrow> nat option) \<Rightarrow> nat option \<Rightarrow> nat list \<Rightarrow> bool" where
  "path f p [] \<longleftrightarrow> p = None"
| "path f p (x # xs) \<longleftrightarrow> p = Some x \<and> path f (f x) xs"

lemma path_cong: "(\<And>x. x \<in> set q \<Longrightarrow> f x = g x) \<Longrightarrow> path f p q = path g p q"
  by (induction q arbitrary: p) auto

lemma path_append: "path f p q \<Longrightarrow> distinct q \<Longrightarrow> b \<notin> set q \<Longrightarrow> q \<noteq> [] \<Longrightarrow> path ((f(b := None))(last q := Some b)) p (q @ [b])"
proof (induction q arbitrary: p)
  case (Cons x xs)
  show ?case
  proof (cases "xs = []")
    case True
    then show ?thesis using Cons.prems by auto
  next
    case False
    then have "path ((f(b := None))(last xs := Some b)) (f x) (xs @ [b])" using Cons.IH [of "f x"] Cons.prems by (simp del: fun_upd_apply)
    moreover have "x \<noteq> last xs" "x \<noteq> b" using False Cons.prems last_in_set [of xs] by auto
    ultimately show ?thesis using False Cons.prems by (simp add: fun_upd_def)
  qed
qed simp

lemma queue_last_path: "path f (Some h) q \<Longrightarrow> length q \<le> fuel \<Longrightarrow> queue_last fuel f h = Done (last q)"
proof (induction q arbitrary: h fuel)
  case (Cons x xs)
  then obtain n where n: "fuel = Suc n" by (cases fuel) auto
  show ?case
  proof (cases xs)
    case Nil
    then show ?thesis using Cons.prems n by simp
  next
    case (Cons y ys)
    then show ?thesis using Cons.IH [of y n] Cons.prems n by auto
  qed
qed simp

lemma append_queue_path:
  assumes "path (qnext s) (idequeue s) q" "distinct q" "b \<notin> set q" "length q \<le> length (ibufs s)"
  shows "\<exists>f p. append_queue b s = Done (s\<lparr>qnext := f, idequeue := p\<rparr>) \<and> path f p (q @ [b])"
proof (cases q)
  case Nil
  then show ?thesis using assms(1) by (auto simp: append_queue_def Let_def)
next
  case (Cons h q')
  let ?f = "(qnext s)(b := None)"
  have "path (qnext s) (idequeue s) q = path ?f (idequeue s) q" using assms(3) by (intro path_cong) auto
  then have p: "path ?f (Some h) q" using assms(1) Cons by simp
  have "queue_last (length (ibufs s) + 1) ?f h = Done (last q)" by (rule queue_last_path [OF p]) (use assms(4) in simp)
  then have "append_queue b s = Done (s\<lparr>qnext := ?f(last q := Some b), idequeue := idequeue s\<rparr>)"
    using assms(1) Cons by (simp add: append_queue_def Let_def)
  moreover have "q \<noteq> []" using Cons by simp
  ultimately show ?thesis using path_append [OF assms(1-3)] by blast
qed

section \<open>Commands\<close>

lemma lba_bytes:
  fixes b :: uint
  assumes "unat b < FSSIZE"
  shows "ucast (ucast (b AND 0xff) :: uchar) OR push_bit 8 (ucast (ucast (drop_bit 8 b AND 0xff) :: uchar)) OR push_bit 16 (ucast (ucast (drop_bit 16 b AND 0xff) :: uchar)) = b"
    "drop_bit 24 b = 0"
proof -
  have c: "ucast (x AND 0xff) = (ucast x :: uchar)" for x :: uint
  proof (rule bit_word_eqI)
    fix n :: nat
    assume n: "n < LENGTH(8)"
    have e: "(0xff :: uint) = mask 8" by (simp add: mask_eq_exp_minus_1)
    show "bit (ucast (x AND 0xff) :: uchar) n = bit (ucast x :: uchar) n" unfolding e using n by (simp add: bit_simps del: mask_numeral)
  qed
  have "unat (drop_bit 24 b) = 0" using assms by (simp add: drop_bit_eq_div unat_div FSSIZE_def)
  then show z: "drop_bit 24 b = 0" by (simp add: unsigned_eq_0_iff)
  show "ucast (ucast (b AND 0xff) :: uchar) OR push_bit 8 (ucast (ucast (drop_bit 8 b AND 0xff) :: uchar)) OR push_bit 16 (ucast (ucast (drop_bit 16 b AND 0xff) :: uchar)) = b"
    unfolding c using bytes32_join [of b] z by simp
qed

definition pending :: "buf \<Rightarrow> bool" where
  "pending b \<longleftrightarrow> \<not> (b_valid b \<and> \<not> b_dirty b) \<and> b_dev b = 1 \<and> unat (b_blockno b) < FSSIZE \<and> sl_locked (b_lock b)"

text \<open>The disk after the request \<open>b\<close>, if it is a write.\<close>

definition after :: "buf \<Rightarrow> (uint \<Rightarrow> uint \<Rightarrow> block) \<Rightarrow> uint \<Rightarrow> uint \<Rightarrow> block" where
  "after b D = (if b_dirty b then D(b_dev b := (D (b_dev b))(b_blockno b := b_data b)) else D)"

lemma idestart_ata:
  assumes "pending (ibufs s ! i)" "idewait False st = Done 0"
  shows "\<exists>ops. idestart st (Some i) s = Done (s\<lparr>io := ops\<rparr>) \<and> ata_drive (ata_run ops D) = 1 \<and> ata_lba (ata_run ops D) = b_blockno (ibufs s ! i)
    \<and> adisk (ata_run ops D) = after (ibufs s ! i) (adisk (ata_run (io s) D))"
proof -
  let ?b = "ibufs s ! i"
  have b: "b_dev ?b = 1" "unat (b_blockno ?b) < FSSIZE" using assms(1) by (simp_all add: pending_def)
  have one: "sector_per_block = 1" by (simp add: sector_per_block_def BSIZE_def SECTOR_SIZE_def)
  note l = lba_bytes [OF b(2)]
  let ?r = "[Outb 0x3f6 0, Outb 0x1f2 1, Outb 0x1f3 (ucast (b_blockno ?b AND 0xff)), Outb 0x1f4 (ucast (drop_bit 8 (b_blockno ?b) AND 0xff)),
    Outb 0x1f5 (ucast (drop_bit 16 (b_blockno ?b) AND 0xff)), Outb 0x1f6 0xf0]"
  let ?ops = "io s @ ?r @ (if b_dirty ?b then [Outb 0x1f7 IDE_CMD_WRITE, Outsl 0x1f0 (b_data ?b)] else [Outb 0x1f7 IDE_CMD_READ])"
  have r: "idestart st (Some i) s = Done (s\<lparr>io := ?ops\<rparr>)"
    unfolding idestart_def one using b l(2) assms(2) by (simp add: Let_def outb_def outsl_def IDE_CMD_WRITE_def IDE_CMD_READ_def)
  define a where "a = foldl ata_step (ata_run (io s) D) ?r"
  have reg: "areg a 0x1f3 = ucast (b_blockno ?b AND 0xff)" "areg a 0x1f4 = ucast (drop_bit 8 (b_blockno ?b) AND 0xff)"
    "areg a 0x1f5 = ucast (drop_bit 16 (b_blockno ?b) AND 0xff)" "areg a 0x1f6 = 0xf0" "adisk a = adisk (ata_run (io s) D)"
    by (simp_all add: a_def)
  have run: "ata_run ?ops D = foldl ata_step a (if b_dirty ?b then [Outb 0x1f7 IDE_CMD_WRITE, Outsl 0x1f0 (b_data ?b)] else [Outb 0x1f7 IDE_CMD_READ])"
    by (simp add: ata_run_def a_def)
  have lba: "ata_lba x = b_blockno ?b" "ata_drive x = 1"
    if "areg x 0x1f3 = areg a 0x1f3" "areg x 0x1f4 = areg a 0x1f4" "areg x 0x1f5 = areg a 0x1f5" "areg x 0x1f6 = areg a 0x1f6" for x
    using l(1) unfolding ata_lba_def ata_drive_def that reg by simp_all
  have "ata_lba (ata_run ?ops D) = b_blockno ?b" "ata_drive (ata_run ?ops D) = 1" unfolding run by (intro lba; simp)+
  moreover have "adisk (ata_run ?ops D) = after ?b (adisk (ata_run (io s) D))" unfolding run using reg(5) lba [of "a\<lparr>areg := (areg a)(0x1f7 := IDE_CMD_WRITE)\<rparr>"] b(1) by (simp add: after_def)
  ultimately show ?thesis using r by blast
qed

section \<open>The memory disk driver, request by request\<close>

text \<open>
  A process submits the buffer it has locked, the disk interrupts, and a process changes a buffer that is not in the queue.  The status readings are part of the operations.
\<close>

datatype ide_op = Submit int "uchar list" nat | Intr "uchar list" "uchar list" | Edit nat buf

fun ide_step :: "(io_op list \<Rightarrow> block) \<Rightarrow> ide_op \<Rightarrow> ide \<Rightarrow> ide outcome" where
  "ide_step dev (Submit pid st i) s = iderw_submit pid st i s"
| "ide_step dev (Intr rd st) s = ideintr rd (dev (io s)) st s"
| "ide_step dev (Edit i b) s = Done (upd_ibuf i (\<lambda>_. b) s)"

fun ide_run :: "(io_op list \<Rightarrow> block) \<Rightarrow> ide_op list \<Rightarrow> ide \<Rightarrow> ide outcome" where
  "ide_run dev [] s = Done s"
| "ide_run dev (x # ops) s = obind (ide_step dev x s) (\<lambda>s. ide_run dev ops s)"

text \<open>The same with \<^verbatim>\<open>iderw\<close> of \<^verbatim>\<open>memide.c\<close>, done when the disk interrupts.\<close>

fun mem_step :: "ide_op \<Rightarrow> nat list \<times> bstate \<Rightarrow> (nat list \<times> bstate) outcome" where
  "mem_step (Submit pid st i) (q, m) = Done (q @ [i], m)"
| "mem_step (Intr rd st) (q, m) =
     (case q of [] \<Rightarrow> Done ([], m) | i # q' \<Rightarrow> obind (iderw i (m\<lparr>curpid := sl_pid (b_lock (bufs m ! i))\<rparr>)) (\<lambda>m. Done (q', m)))"
| "mem_step (Edit i b) (q, m) = Done (q, m\<lparr>bufs := (bufs m)[i := b]\<rparr>)"

fun op_ok :: "ide_op \<Rightarrow> nat list \<times> bstate \<Rightarrow> bool" where
  "op_ok (Submit pid st i) (q, m) \<longleftrightarrow> i < length (bufs m) \<and> i \<notin> set q \<and> holdingsleep pid (b_lock (bufs m ! i)) \<and> pending (bufs m ! i) \<and> idewait False st = Done 0"
| "op_ok (Intr rd st) (q, m) \<longleftrightarrow> idewait True rd = Done 0 \<and> idewait False st = Done 0"
| "op_ok (Edit i b) (q, m) \<longleftrightarrow> i < length (bufs m) \<and> i \<notin> set q"

fun mem_run :: "ide_op list \<Rightarrow> nat list \<times> bstate \<Rightarrow> (nat list \<times> bstate) outcome" where
  "mem_run [] a = Done a"
| "mem_run (x # ops) a = obind (mem_step x a) (\<lambda>a. mem_run ops a)"

text \<open>Every operation is one that the rules for buffers allow.\<close>

fun ops_ok :: "ide_op list \<Rightarrow> nat list \<times> bstate \<Rightarrow> bool" where
  "ops_ok [] a \<longleftrightarrow> True"
| "ops_ok (x # ops) a \<longleftrightarrow> op_ok x a \<and> (case mem_step x a of Done b \<Rightarrow> ops_ok ops b | _ \<Rightarrow> True)"

fun submits :: "ide_op list \<Rightarrow> nat list" where
  "submits [] = []"
| "submits (Submit pid st i # ops) = i # submits ops"
| "submits (x # ops) = submits ops"

definition ide_rel :: "(uint \<Rightarrow> uint \<Rightarrow> block) \<Rightarrow> ide \<Rightarrow> nat list \<times> bstate \<Rightarrow> bool" where
  "ide_rel D s a \<longleftrightarrow>
     (case a of (q, m) \<Rightarrow> path (qnext s) (idequeue s) q \<and> distinct q \<and> (\<forall>i\<in>set q. i < length (bufs m) \<and> pending (bufs m ! i)) \<and> ibufs s = bufs m \<and> havedisk1 s \<and> disksize m = FSSIZE
        \<and> (case q of [] \<Rightarrow> adisk (ata_run (io s) D) = disk m
           | i # _ \<Rightarrow> ata_drive (ata_run (io s) D) = 1 \<and> ata_lba (ata_run (io s) D) = b_blockno (bufs m ! i) \<and> adisk (ata_run (io s) D) = after (bufs m ! i) (disk m)))"

lemma submit_rel:
  assumes "ide_rel D s (q, m)" "op_ok (Submit pid st i) (q, m)"
  shows "\<exists>t. iderw_submit pid st i s = Done t \<and> ide_rel D t (q @ [i], m) \<and> woken t = woken s"
proof -
  have s: "path (qnext s) (idequeue s) q" "distinct q" "\<forall>i\<in>set q. i < length (bufs m) \<and> pending (bufs m ! i)" "ibufs s = bufs m" "havedisk1 s" "disksize m = FSSIZE"
    using assms(1) by (auto simp: ide_rel_def)
  have o: "i < length (bufs m)" "i \<notin> set q" "holdingsleep pid (b_lock (bufs m ! i))" "pending (bufs m ! i)" "idewait False st = Done 0" using assms(2) by auto
  have "set q \<subseteq> {..<length (bufs m)}" using s(3) by auto
  then have "length q \<le> length (ibufs s)" using card_mono [of "{..<length (bufs m)}" "set q"] s(2,4) by (simp add: distinct_card)
  then obtain f p where f: "append_queue i s = Done (s\<lparr>qnext := f, idequeue := p\<rparr>)" "path f p (q @ [i])" using append_queue_path [OF s(1,2) o(2)] by blast
  let ?t = "s\<lparr>qnext := f, idequeue := p\<rparr>"
  have g: "iderw_submit pid st i s = (if p = Some i then idestart st (Some i) ?t else Done ?t)"
    using o(3,4) s(4,5) f(1) by (auto simp: iderw_submit_def pending_def)
  show ?thesis
  proof (cases q)
    case Nil
    then have p: "p = Some i" using f(2) by simp
    obtain ops where ops: "idestart st (Some i) ?t = Done (?t\<lparr>io := ops\<rparr>)" "ata_drive (ata_run ops D) = 1" "ata_lba (ata_run ops D) = b_blockno (bufs m ! i)"
      "adisk (ata_run ops D) = after (bufs m ! i) (adisk (ata_run (io s) D))"
      using idestart_ata [of ?t i st D] o(4,5) s(4) by auto
    have "adisk (ata_run (io s) D) = disk m" using assms(1) Nil by (simp add: ide_rel_def)
    then have "ide_rel D (?t\<lparr>io := ops\<rparr>) (q @ [i], m)" using f(2) s o(1,4) ops(2-4) Nil by (simp add: ide_rel_def)
    then show ?thesis using g p ops(1) by simp
  next
    case (Cons h q')
    then have p: "p = Some h" "h \<noteq> i" using f(2) o(2) by auto
    have "ide_rel D ?t (q @ [i], m)" using assms(1) f(2) s(2) o(1,2,4) Cons by (auto simp: ide_rel_def)
    then show ?thesis using g p by simp
  qed
qed

lemma intr_rel:
  assumes "ide_rel D s (q, m)" "op_ok (Intr rd st) (q, m)" "ata_disk dev D"
  shows "\<exists>t a. ideintr rd (dev (io s)) st s = Done t \<and> mem_step (Intr rd st) (q, m) = Done a \<and> ide_rel D t a \<and> woken t @ fst a = woken s @ q"
proof (cases q)
  case Nil
  then show ?thesis using assms(1) by (simp add: ideintr_def ide_rel_def)
next
  case (Cons i q')
  have s: "idequeue s = Some i" "path (qnext s) (qnext s i) q'" "distinct (i # q')" "\<And>j. j \<in> set (i # q') \<Longrightarrow> j < length (bufs m) \<and> pending (bufs m ! j)" "ibufs s = bufs m" "havedisk1 s"
    "disksize m = FSSIZE" "ata_drive (ata_run (io s) D) = 1" "ata_lba (ata_run (io s) D) = b_blockno (bufs m ! i)" "adisk (ata_run (io s) D) = after (bufs m ! i) (disk m)"
    using assms(1) Cons by (auto simp: ide_rel_def)
  let ?b = "bufs m ! i"
  have i: "i < length (bufs m)" "pending ?b" using s(4) [of i] by simp_all
  define b' where "b' = (if b_dirty ?b then ?b else ?b\<lparr>b_data := disk m 1 (b_blockno ?b)\<rparr>)\<lparr>b_valid := True, b_dirty := False\<rparr>"
  let ?m = "m\<lparr>curpid := sl_pid (b_lock ?b), bufs := (bufs m)[i := b'], disk := after ?b (disk m), dwrites := dwrites m @ (if b_dirty ?b then [(1, b_blockno ?b, b_data ?b)] else [])\<rparr>"
  have "iderw i (m\<lparr>curpid := sl_pid (b_lock ?b)\<rparr>) = Done ?m"
  proof (cases "b_dirty ?b")
    case True
    then have "?b\<lparr>b_dirty := False, b_valid := True\<rparr> = b'" unfolding b'_def by (intro buf.equality) simp_all
    then show ?thesis using i s(7) True by (simp add: iderw_def Let_def pending_def holdingsleep_def upd_buf_def disk_write_def after_def)
  next
    case False
    then have "?b\<lparr>b_data := disk m 1 (b_blockno ?b), b_valid := True\<rparr> = b'" unfolding b'_def by (intro buf.equality) simp_all
    then show ?thesis using i s(7) False by (simp add: iderw_def Let_def pending_def holdingsleep_def upd_buf_def after_def)
  qed
  then have mem: "mem_step (Intr rd st) (q, m) = Done (q', ?m)" using Cons by simp
  have din: "dev (io s) = disk m 1 (b_blockno ?b)" if "\<not> b_dirty ?b" using assms(3) s(8-10) that by (simp add: ata_disk_def after_def)
  let ?s = "s\<lparr>idequeue := qnext s i, ibufs := (bufs m)[i := b'], woken := woken s @ [i]\<rparr>"
  have run: "ideintr rd (dev (io s)) st s = (if qnext s i \<noteq> None then idestart st (qnext s i) ?s else Done ?s)"
    using s(1,5) assms(2) din i(1) by (auto simp: ideintr_def Let_def upd_ibuf_def b'_def)
  have pend: "j < length (bufs ?m) \<and> pending (bufs ?m ! j)" if "j \<in> set q'" for j using s(3,4) that by (auto simp: nth_list_update)
  show ?thesis
  proof (cases q')
    case Nil
    then have "ide_rel D ?s (q', ?m)" using s(2,6,7,10) by (simp add: ide_rel_def)
    moreover have "qnext s i = None" using s(2) Nil by simp
    ultimately show ?thesis using run mem Cons by simp
  next
    case (Cons j q'')
    then have n: "qnext s i = Some j" "pending (ibufs ?s ! j)" using s(2) pend [of j] by auto
    obtain ops where ops: "idestart st (Some j) ?s = Done (?s\<lparr>io := ops\<rparr>)" "ata_drive (ata_run ops D) = 1" "ata_lba (ata_run ops D) = b_blockno (ibufs ?s ! j)"
      "adisk (ata_run ops D) = after (ibufs ?s ! j) (adisk (ata_run (io ?s) D))"
      using idestart_ata [OF n(2), of st D] assms(2) by auto
    have "ide_rel D (?s\<lparr>io := ops\<rparr>) (q', ?m)" using s(2,3,6,7,10) ops(2-4) pend pend [of j] Cons by (auto simp: ide_rel_def)
    then show ?thesis using run mem n(1) ops(1) \<open>q = i # q'\<close> by simp
  qed
qed

lemma edit_rel: "ide_rel D s (q, m) \<Longrightarrow> op_ok (Edit i b) (q, m) \<Longrightarrow> ide_rel D (upd_ibuf i (\<lambda>_. b) s) (q, m\<lparr>bufs := (bufs m)[i := b]\<rparr>) \<and> woken (upd_ibuf i (\<lambda>_. b) s) = woken s"
  by (cases q) (auto simp: ide_rel_def upd_ibuf_def nth_list_update)

lemma ide_run_rel:
  assumes "ide_rel D s (q, m)" "ops_ok ops (q, m)" "ata_disk dev D"
  shows "\<exists>t r n. ide_run dev ops s = Done t \<and> mem_run ops (q, m) = Done (r, n) \<and> ide_rel D t (r, n) \<and> woken t @ r = woken s @ q @ submits ops"
  using assms(1,2)
proof (induction ops arbitrary: s q m)
  case (Cons x ops)
  have "\<exists>u r n. ide_step dev x s = Done u \<and> mem_step x (q, m) = Done (r, n) \<and> ide_rel D u (r, n) \<and> woken u @ r @ submits ops = woken s @ q @ submits (x # ops)"
  proof (cases x)
    case (Submit pid st i)
    then show ?thesis using submit_rel [OF Cons.prems(1)] Cons.prems(2) by fastforce
  next
    case (Intr rd st)
    obtain u a where "ideintr rd (dev (io s)) st s = Done u" "mem_step x (q, m) = Done a" "ide_rel D u a" "woken u @ fst a = woken s @ q"
      using intr_rel [OF Cons.prems(1) _ assms(3), of rd st] Cons.prems(2) Intr by auto
    moreover from this have "woken u @ fst a @ submits ops = woken s @ q @ submits ops" by (metis append.assoc)
    ultimately show ?thesis using Intr by (cases a) auto
  next
    case (Edit i b)
    then show ?thesis using edit_rel [OF Cons.prems(1)] Cons.prems(2) by auto
  qed
  then obtain u r n where u: "ide_step dev x s = Done u" "mem_step x (q, m) = Done (r, n)" "ide_rel D u (r, n)" "woken u @ r @ submits ops = woken s @ q @ submits (x # ops)" by blast
  then show ?case using Cons.IH [OF u(3)] Cons.prems(2) by auto
qed auto

section \<open>Properties\<close>


section \<open>Witnesses\<close>

text \<open>Two requests at once: block 5 is written while block 6 waits to be read.\<close>

definition ide_sample_buf :: "uint \<Rightarrow> bool \<Rightarrow> uchar \<Rightarrow> buf" where
  "ide_sample_buf n d v = (buf0 (replicate BSIZE v))\<lparr>b_dev := 1, b_blockno := n, b_dirty := d, b_lock := initsleeplock\<lparr>sl_locked := True, sl_pid := 3\<rparr>\<rparr>"

definition ide_sample_mem :: bstate where
  "ide_sample_mem = \<lparr>disk = (\<lambda>_ b. replicate BSIZE (ucast b)), disksize = 1000, dwrites = [], bufs = [ide_sample_buf 5 True 9, ide_sample_buf 6 False 0], mru = [0, 1], curpid = 3\<rparr>"

definition ide_sample :: ide where
  "ide_sample = \<lparr>ibufs = bufs ide_sample_mem, qnext = (\<lambda>_. None), idequeue = None, havedisk1 = True, io = [], woken = []\<rparr>"

definition sample_ops :: "ide_op list" where
  "sample_ops = [Submit 3 [0x40] 0, Submit 3 [0x80, 0x40] 1, Intr [0x40] [0x40], Intr [0x40] [0x40]]"

definition ide_sample_dev :: "io_op list \<Rightarrow> block" where
  "ide_sample_dev ops = (let a = ata_run ops (disk ide_sample_mem) in adisk a (ata_drive a) (ata_lba a))"

lemmas sample_defs = ide_sample_mem_def ide_sample_buf_def buf0_def initsleeplock_def holdingsleep_def

lemma sample_polls: "idewait False [0x40] = Done 0" "idewait False [0x80, 0x40] = Done 0" "idewait True [0x40] = Done 0"
  by (simp_all add: IDE_BSY_def IDE_DRDY_def IDE_DF_def IDE_ERR_def)

lemma sample_mem_run:
  "ops_ok sample_ops ([], ide_sample_mem)" "\<exists>n. mem_run sample_ops ([], ide_sample_mem) = Done ([], n) \<and> b_data (bufs n ! 1) = replicate BSIZE 6 \<and> b_valid (bufs n ! 1) \<and> disk n 1 5 = replicate BSIZE 9"
  by (simp_all add: sample_ops_def sample_defs pending_def iderw_def Let_def upd_buf_def disk_write_def FSSIZE_def sample_polls del: idewait.simps)


end
