(* ===== verification/Umalloc.thy ===== *)
theory Umalloc
  imports Prelude
begin

text \<open>
  The memory allocator of user programs (\<^verbatim>\<open>src/xv6/umalloc.c\<close>).  A header is known by its address; \<open>hptr\<close> and \<open>hsize\<close> are its two fields, and \<open>base\<close> is the address of the static
  header.  A header has eight bytes, and pointer arithmetic on headers is in units of eight.  The kernel's answer to \<^verbatim>\<open>sbrk\<close> is an argument: \<open>k b n\<close> says whether it grants \<open>n\<close> more
  bytes at the break \<open>b\<close>.  The two loops follow pointers through memory, so they are partial functions; \<open>None\<close> is a loop that does not end.
\<close>

section \<open>The allocator\<close>

record um =
  hptr :: "uint \<Rightarrow> uint"
  hsize :: "uint \<Rightarrow> uint"
  base :: uint
  freep :: uint
  brk :: uint

definition set_ptr :: "uint \<Rightarrow> uint \<Rightarrow> um \<Rightarrow> um" where
  "set_ptr h v s = s\<lparr>hptr := (hptr s)(h := v)\<rparr>"

definition set_size :: "uint \<Rightarrow> uint \<Rightarrow> um \<Rightarrow> um" where
  "set_size h v s = s\<lparr>hsize := (hsize s)(h := v)\<rparr>"

definition usbrk :: "(uint \<Rightarrow> uint \<Rightarrow> bool) \<Rightarrow> uint \<Rightarrow> um \<Rightarrow> uint \<times> um" where
  "usbrk k n s = (if k (brk s) n then (brk s, s\<lparr>brk := brk s + n\<rparr>) else (-1, s))"

text \<open>The search of \<^verbatim>\<open>free\<close> for the place of \<open>bp\<close> in the list.\<close>

partial_function (option) free_find :: "um \<Rightarrow> uint \<Rightarrow> uint \<Rightarrow> uint option" where
  "free_find s bp p =
     (if p < bp \<and> bp < hptr s p then Some p
      else if hptr s p \<le> p \<and> (p < bp \<or> bp < hptr s p) then Some p
      else free_find s bp (hptr s p))"

definition free_next :: "uint \<Rightarrow> uint \<Rightarrow> um \<Rightarrow> um" where
  "free_next bp p s =
     (if bp + 8 * hsize s bp = hptr s p
      then let s = set_size bp (hsize s bp + hsize s (hptr s p)) s in set_ptr bp (hptr s (hptr s p)) s
      else set_ptr bp (hptr s p) s)"

definition free_prev :: "uint \<Rightarrow> uint \<Rightarrow> um \<Rightarrow> um" where
  "free_prev bp p s =
     (if p + 8 * hsize s p = bp
      then let s = set_size p (hsize s p + hsize s bp) s in set_ptr p (hptr s bp) s
      else set_ptr p bp s)"

definition free :: "uint \<Rightarrow> um \<Rightarrow> um option" where
  "free ap s =
     (let bp = ap - 8
      in case free_find s bp (freep s) of
           None \<Rightarrow> None
         | Some p \<Rightarrow> Some ((free_prev bp p (free_next bp p s))\<lparr>freep := p\<rparr>))"

text \<open>The result is a header or 0.\<close>

definition morecore :: "(uint \<Rightarrow> uint \<Rightarrow> bool) \<Rightarrow> uint \<Rightarrow> um \<Rightarrow> (uint \<times> um) option" where
  "morecore k nu s =
     (let nu = (if nu < 4096 then 4096 else nu);
          (p, s) = usbrk k (nu * 8) s
      in if p = -1 then Some (0, s)
         else case free (p + 8) (set_size p nu s) of
                None \<Rightarrow> None
              | Some s \<Rightarrow> Some (freep s, s))"

definition carve :: "uint \<Rightarrow> uint \<Rightarrow> uint \<Rightarrow> um \<Rightarrow> uint \<times> um" where
  "carve nunits prevp p s =
     (if hsize s p = nunits then (p + 8, (set_ptr prevp (hptr s p) s)\<lparr>freep := prevp\<rparr>)
      else
        let s = set_size p (hsize s p - nunits) s;
            r = p + 8 * hsize s p
        in (r + 8, (set_size r nunits s)\<lparr>freep := prevp\<rparr>))"

partial_function (option) malloc_loop :: "(uint \<Rightarrow> uint \<Rightarrow> bool) \<Rightarrow> uint \<Rightarrow> uint \<Rightarrow> uint \<Rightarrow> um \<Rightarrow> (uint \<times> um) option" where
  "malloc_loop k nunits prevp p s =
     (if nunits \<le> hsize s p then Some (carve nunits prevp p s)
      else if p = freep s then
        Option.bind (morecore k nunits s) (\<lambda>(p, s).
          if p = 0 then Some (0, s) else malloc_loop k nunits p (hptr s p) s)
      else malloc_loop k nunits p (hptr s p) s)"

definition nunits :: "uint \<Rightarrow> uint" where
  "nunits nbytes = (nbytes + 8 - 1) div 8 + 1"

definition malloc :: "(uint \<Rightarrow> uint \<Rightarrow> bool) \<Rightarrow> uint \<Rightarrow> um \<Rightarrow> (uint \<times> um) option" where
  "malloc k nbytes s =
     (let s = (if freep s = 0 then set_size (base s) 0 ((set_ptr (base s) (base s) s)\<lparr>freep := base s\<rparr>) else s)
      in malloc_loop k (nunits nbytes) (freep s) (hptr s (freep s)) s)"

section \<open>The free list\<close>

text \<open>Following \<open>f\<close> from \<open>x\<close> leads through the list to \<open>y\<close>.\<close>

fun lseg :: "(uint \<Rightarrow> uint) \<Rightarrow> uint \<Rightarrow> uint list \<Rightarrow> uint \<Rightarrow> bool" where
  "lseg f x [] y \<longleftrightarrow> x = y"
| "lseg f x (z # zs) y \<longleftrightarrow> x = z \<and> lseg f (f z) zs y"

lemma lseg_append [simp]: "lseg f x (xs @ ys) y \<longleftrightarrow> (\<exists>z. lseg f x xs z \<and> lseg f z ys y)"
  by (induction xs arbitrary: x) auto

lemma lseg_upd [simp]: "h \<notin> set xs \<Longrightarrow> lseg (f(h := v)) x xs y \<longleftrightarrow> lseg f x xs y"
  by (induction xs arbitrary: x) auto

lemma lseg_cong: "\<forall>a\<in>set xs. f a = g a \<Longrightarrow> lseg f x xs y \<longleftrightarrow> lseg g x xs y"
  by (induction xs arbitrary: x) auto

lemma find_up:
  assumes "lseg (hptr s) x (xs @ p # B) b" "sorted_wrt (<) (xs @ p # B)" "\<forall>y\<in>set xs. y < bp" "p < bp" "\<forall>y\<in>set B. bp < y" "b \<le> p"
  shows "free_find s bp x = Some p"
  using assms(1-3)
proof (induction xs arbitrary: x)
  case Nil
  then have "x = p" "B = [] \<Longrightarrow> hptr s p = b" "\<And>y ys. B = y # ys \<Longrightarrow> hptr s p = y" by auto
  then show ?case using assms(4-6) by (cases B) (auto simp: free_find.simps [of s bp p])
next
  case (Cons y ys)
  let ?z = "hptr s y"
  have x: "x = y" and z: "lseg (hptr s) ?z (ys @ p # B) b" using Cons.prems(1) by auto
  have "?z \<in> set ys \<or> ?z = p" using z by (cases ys) auto
  then have "y < ?z" "?z < bp" using Cons.prems(2,3) assms(4) by auto
  then have "free_find s bp y = free_find s bp ?z" by (subst free_find.simps) auto
  then show ?case using Cons.IH [OF z] Cons.prems(2,3) x by simp
qed

lemma find_wrap:
  assumes "lseg (hptr s) x ys b" "sorted_wrt (<) ys" "\<forall>y\<in>set ys. bp < y" "b < bp"
  shows "free_find s bp x = free_find s bp b"
  using assms(1-3)
proof (induction ys arbitrary: x)
  case (Cons y ys)
  let ?z = "hptr s y"
  have x: "x = y" and z: "lseg (hptr s) ?z ys b" using Cons.prems(1) by auto
  have "?z = b \<or> y < ?z" using z Cons.prems(2) by (cases ys) auto
  then have "free_find s bp y = free_find s bp ?z" using Cons.prems(3) assms(4) by (subst free_find.simps) auto
  then show ?case using Cons.IH [OF z] Cons.prems(2,3) x by simp
qed simp

text \<open>The search ends at the last header below \<open>bp\<close>, wherever it starts.\<close>

lemma free_find_spec:
  assumes "lseg (hptr s) b (A @ p # B) b" "sorted_wrt (<) (A @ p # B)" "hd (A @ [p]) = b" "\<forall>y\<in>set A. y < bp" "p < bp" "\<forall>y\<in>set B. bp < y" "x \<in> set (A @ p # B)"
  shows "free_find s bp x = Some p"
proof -
  have bp: "b \<le> p" "b < bp" using assms(2-5) by (cases A; auto)+
  have up: "free_find s bp x = Some p" if x: "x \<in> set (A @ [p])" for x
  proof -
    obtain A1 xs where A: "A = A1 @ xs" "xs = [] \<and> x = p \<or> (\<exists>ys. xs = x # ys)" using x by (auto dest: split_list)
    have "lseg (hptr s) x (xs @ p # B) b" using assms(1) A by auto
    moreover have "sorted_wrt (<) (xs @ p # B)" "\<forall>y\<in>set xs. y < bp" using assms(2,4) A(1) by (auto simp: sorted_wrt_append)
    ultimately show ?thesis using find_up assms(5,6) bp(1) by blast
  qed
  show ?thesis
  proof (cases "x \<in> set B")
    case True
    then obtain B1 B2 where B: "B = B1 @ x # B2" by (meson split_list)
    have "lseg (hptr s) x (x # B2) b" "sorted_wrt (<) (x # B2)" "\<forall>y\<in>set (x # B2). bp < y" using assms(1,2,6) B by (auto simp: sorted_wrt_append)
    then have "free_find s bp x = free_find s bp b" using find_wrap bp(2) by blast
    then show ?thesis using up [of b] assms(3) by (cases A) auto
  next
    case False
    then show ?thesis using up assms(7) by simp
  qed
qed

section \<open>Blocks\<close>

text \<open>
  \<open>hs\<close> are the headers of the free list, from \<open>base\<close> in the order of their addresses, and \<open>L\<close> those of the blocks in use.  Blocks lie between \<open>lo\<close> and the break and do not overlap.
\<close>

abbreviation heads :: "um \<Rightarrow> uint list \<Rightarrow> uint set \<Rightarrow> uint set" where
  "heads s hs L \<equiv> (set hs - {base s}) \<union> L"

abbreviation bend :: "um \<Rightarrow> uint \<Rightarrow> nat" where
  "bend s h \<equiv> unat h + 8 * unat (hsize s h)"

definition um_inv :: "nat \<Rightarrow> um \<Rightarrow> uint list \<Rightarrow> uint set \<Rightarrow> bool" where
  "um_inv lo s hs L \<longleftrightarrow> hs \<noteq> [] \<and> hd hs = base s \<and> lseg (hptr s) (base s) hs (base s) \<and> sorted_wrt (<) hs \<and> base s \<noteq> 0 \<and> hsize s (base s) = 0
     \<and> unat (base s) < lo \<and> lo \<le> unat (brk s) \<and> unat (brk s) \<le> 2 ^ 31 \<and> set hs \<inter> L = {}
     \<and> (\<forall>h\<in>heads s hs L. 0 < unat (hsize s h) \<and> lo \<le> unat h \<and> bend s h \<le> unat (brk s))
     \<and> (\<forall>g\<in>heads s hs L. \<forall>h\<in>heads s hs L. g < h \<longrightarrow> bend s g \<le> unat h)"

lemma um_invD:
  assumes "um_inv lo s hs L"
  shows "hs \<noteq> []" "hd hs = base s" "lseg (hptr s) (base s) hs (base s)" "sorted_wrt (<) hs" "base s \<noteq> 0" "hsize s (base s) = 0" "unat (base s) < lo" "lo \<le> unat (brk s)"
    "unat (brk s) \<le> 2 ^ 31" "set hs \<inter> L = {}" "h \<in> heads s hs L \<Longrightarrow> 0 < unat (hsize s h)" "h \<in> heads s hs L \<Longrightarrow> lo \<le> unat h" "h \<in> heads s hs L \<Longrightarrow> bend s h \<le> unat (brk s)"
    "g \<in> heads s hs L \<Longrightarrow> h \<in> heads s hs L \<Longrightarrow> g < h \<Longrightarrow> bend s g \<le> unat h"
  using assms unfolding um_inv_def by blast+

text \<open>The end of a block as an address.\<close>

lemma unat_bend:
  assumes "um_inv lo s hs L" "h \<in> insert (base s) (heads s hs L)"
  shows "unat (h + 8 * hsize s h) = bend s h"
proof -
  have le: "bend s h \<le> 2 ^ 31"
  proof (cases "h = base s")
    case True
    then show ?thesis using um_invD(6-9) [OF assms(1)] by simp
  next
    case False
    then show ?thesis using um_invD(13) [OF assms(1), of h] um_invD(9) [OF assms(1)] assms(2) by auto
  qed
  then have "unat (8 * hsize s h) = 8 * unat (hsize s h)" by (simp add: unat_word_ariths)
  then show ?thesis using le by (subst unat_add_uint) simp_all
qed

definition ins :: "uint \<Rightarrow> uint \<Rightarrow> um \<Rightarrow> um" where
  "ins bp p s = set_ptr p bp (set_ptr bp (hptr s p) s)"

definition merge :: "uint \<Rightarrow> um \<Rightarrow> um" where
  "merge x s = set_ptr x (hptr s (hptr s x)) (set_size x (hsize s x + hsize s (hptr s x)) s)"

lemma um_simps [simp]:
  "base (set_ptr h v s) = base s" "brk (set_ptr h v s) = brk s" "freep (set_ptr h v s) = freep s" "hsize (set_ptr h v s) = hsize s" "hptr (set_ptr h v s) = (hptr s)(h := v)"
  "base (set_size h v s) = base s" "brk (set_size h v s) = brk s" "freep (set_size h v s) = freep s" "hptr (set_size h v s) = hptr s" "hsize (set_size h v s) = (hsize s)(h := v)"
  by (simp_all add: set_ptr_def set_size_def)

lemma um_inv_frame [simp]: "um_inv lo (s\<lparr>freep := p\<rparr>) hs L = um_inv lo s hs L"
  by (simp add: um_inv_def)

lemma ins_inv:
  assumes "um_inv lo s (A @ p # B) L" "bp \<in> L" "\<forall>y\<in>set A. y < bp" "p < bp" "\<forall>y\<in>set B. bp < y"
  shows "um_inv lo (ins bp p s) (A @ p # bp # B) (L - {bp})"
proof -
  note d = um_invD [OF assms(1)]
  have nb: "bp \<notin> set (A @ p # B)" using assms(2) d(10) by auto
  then have bb: "bp \<noteq> base s" using d(1,2) by (metis hd_in_set)
  have dist: "p \<notin> set A" "p \<notin> set B" using d(4) by (auto simp: sorted_wrt_append)
  have l: "lseg (hptr s) (base s) A p" "lseg (hptr s) (hptr s p) B (base s)" using d(3) by auto
  have hd: "hd (A @ p # bp # B) = base s" using d(2) by (cases A) auto
  have "lseg (hptr (ins bp p s)) (base s) (A @ p # bp # B) (base s)" using l nb dist assms(4) by (auto simp: ins_def)
  moreover have "sorted_wrt (<) (A @ p # bp # B)" using d(4) assms(3-5) by (auto simp: sorted_wrt_append)
  moreover have h: "heads (ins bp p s) (A @ p # bp # B) (L - {bp}) = heads s (A @ p # B) L" using assms(2) bb by (auto simp: ins_def)
  moreover have "set (A @ p # bp # B) \<inter> (L - {bp}) = {}" using d(10) by auto
  ultimately show ?thesis using d hd unfolding um_inv_def h by (simp add: ins_def)
qed

lemma merge_inv:
  assumes "um_inv lo s (A @ x # y # B) L" "x + 8 * hsize s x = y"
  shows "um_inv lo (merge x s) (A @ x # B) L" "bend (merge x s) x = bend s y" "x \<noteq> base s" "unat (hsize (merge x s) x) = unat (hsize s x) + unat (hsize s y)"
proof -
  note d = um_invD [OF assms(1)]
  have ptr: "hptr s x = y" "lseg (hptr s) (base s) A x" "lseg (hptr s) (hptr s y) B (base s)" using d(3) by auto
  have sw: "x < y" "x \<notin> set A" "x \<notin> set B" "y \<notin> set A" "y \<notin> set B" using d(4) by (auto simp: sorted_wrt_append)
  have nx: "x \<noteq> base s" using assms(2) d(6) sw(1) by auto
  have ny: "y \<noteq> base s"
  proof
    assume "y = base s"
    then show False using d(2,4) sw(1) by (cases A) auto
  qed
  have hx: "x \<in> heads s (A @ x # y # B) L" "y \<in> heads s (A @ x # y # B) L" using nx ny by auto
  have xy: "bend s x = unat y" using unat_bend [OF assms(1), of x] hx(1) assms(2) by simp
  have "unat (hsize s x) + unat (hsize s y) < 2 ^ 32" using d(13) [OF hx(1)] d(13) [OF hx(2)] d(9) by simp
  then have sz: "unat (hsize s x + hsize s y) = unat (hsize s x) + unat (hsize s y)" by (rule unat_add_uint)
  have hm: "hsize (merge x s) = (hsize s)(x := hsize s x + hsize s y)" "hptr (merge x s) = (hptr s)(x := hptr s y)" "base (merge x s) = base s" "brk (merge x s) = brk s"
    using ptr(1) sw(1) by (simp_all add: merge_def)
  show be: "bend (merge x s) x = bend s y" "unat (hsize (merge x s) x) = unat (hsize s x) + unat (hsize s y)" using sz xy by (simp_all add: hm)
  show "x \<noteq> base s" by (rule nx)
  have sub: "heads s (A @ x # B) L = heads s (A @ x # y # B) L - {y}" using d(10) ny sw by auto
  have hd: "hd (A @ x # B) = base s" using d(2) by (cases A) auto
  have l: "lseg (hptr (merge x s)) (base s) (A @ x # B) (base s)" using ptr(2,3) sw by (auto simp: hm)
  have one: "0 < unat (hsize (merge x s) h) \<and> lo \<le> unat h \<and> bend (merge x s) h \<le> unat (brk s)" if "h \<in> heads s (A @ x # y # B) L - {y}" for h
  proof (cases "h = x")
    case True
    then show ?thesis using be d(11,12) [OF hx(1)] d(13) [OF hx(2)] by simp
  next
    case False
    then show ?thesis using d(11-13) [OF DiffD1 [OF that]] by (simp add: hm)
  qed
  have two: "bend (merge x s) g \<le> unat h" if g: "g \<in> heads s (A @ x # y # B) L - {y}" "h \<in> heads s (A @ x # y # B) L - {y}" "g < h" for g h
  proof (cases "g = x")
    case True
    have gh: "h \<in> heads s (A @ x # y # B) L" "x < h" using g True by auto
    have "unat y \<le> unat h" using d(14) [OF hx(1) gh] xy by simp
    then have "y < h" using g(2) by (simp add: word_less_nat_alt word_unat_eq_iff)
    then have "bend s y \<le> unat h" using d(14) [OF hx(2) gh(1)] by simp
    then show ?thesis using be(1) True by simp
  next
    case False
    then show ?thesis using d(14) [OF DiffD1 [OF g(1)] DiffD1 [OF g(2)] g(3)] by (simp add: hm)
  qed
  have "sorted_wrt (<) (A @ x # B)" "set (A @ x # B) \<inter> L = {}" using d(4,10) by (auto simp: sorted_wrt_append)
  moreover have "hsize (merge x s) (base s) = 0" using d(6) nx by (simp add: hm)
  moreover have "A @ x # B \<noteq> []" by simp
  ultimately show "um_inv lo (merge x s) (A @ x # B) L" unfolding um_inv_def hm(3,4) unfolding sub
    using hd l d(5,7-9) one two by blast
qed

text \<open>\<^verbatim>\<open>free\<close> puts the block into the list and joins it with its neighbours where they touch.\<close>

lemma free_steps:
  assumes "bp \<noteq> p" "bp \<noteq> hptr s p" "bp + 8 * hsize s bp = hptr s p \<Longrightarrow> hptr s p \<noteq> p"
  defines "s1 \<equiv> ins bp p s"
  defines "s2 \<equiv> (if bp + 8 * hsize s bp = hptr s p then merge bp s1 else s1)"
  defines "s3 \<equiv> (if p + 8 * hsize s p = bp then merge p s2 else s2)"
  shows "free_prev bp p (free_next bp p s) = s3"
  using assms(1-3) unfolding s3_def s2_def s1_def free_prev_def free_next_def merge_def ins_def
  by (auto simp: set_ptr_def set_size_def Let_def fun_upd_twist)

lemma free_split:
  assumes "um_inv lo s hs L" "bp \<in> L"
  obtains A p B where "hs = A @ p # B" "\<forall>y\<in>set A. y < bp" "p < bp" "\<forall>y\<in>set B. bp < y"
proof -
  note d = um_invD [OF assms(1)]
  let ?A = "takeWhile (\<lambda>y. y < bp) hs" and ?B = "dropWhile (\<lambda>y. y < bp) hs"
  have "base s < bp" using d(7) d(12) [of bp] assms(2) by (simp add: word_less_nat_alt)
  then have ne: "?A \<noteq> []" using d(1,2) by (cases hs) auto
  have "\<forall>y\<in>set ?B. bp < y"
  proof (cases ?B)
    case (Cons z zs)
    have "hs = ?A @ z # zs" using takeWhile_dropWhile_id [of "\<lambda>y. y < bp" hs] Cons by simp
    then have zs: "sorted_wrt (<) (z # zs)" "z \<in> set hs" using d(4) by (metis sorted_wrt_append, metis in_set_conv_decomp)
    have "\<not> z < bp" using hd_dropWhile [of "\<lambda>y. y < bp" hs] Cons by simp
    moreover have "z \<noteq> bp" using zs(2) assms(2) d(10) by auto
    ultimately show ?thesis using zs(1) Cons by auto
  next
    case Nil
    then show ?thesis by (simp only: list.set(1)) simp
  qed
  moreover have "hs = butlast ?A @ last ?A # ?B" using ne takeWhile_dropWhile_id [of "\<lambda>y. y < bp" hs] by (metis append.assoc append_Cons append_Nil append_butlast_last_id)
  moreover have "\<forall>y\<in>set ?A. y < bp" using set_takeWhileD by fastforce
  moreover from this have "\<forall>y\<in>set (butlast ?A). y < bp" "last ?A < bp" using ne by (auto dest: in_set_butlastD)
  ultimately show thesis using that by blast
qed

lemma free_spec:
  assumes "um_inv lo s hs L" "freep s \<in> set hs" "bp \<in> L"
  shows "\<exists>t hs'. free (bp + 8) s = Some t \<and> um_inv lo t hs' (L - {bp}) \<and> freep t \<in> set hs' \<and> base t = base s \<and> brk t = brk s
    \<and> (\<forall>h\<in>L - {bp}. hsize t h = hsize s h) \<and> (\<exists>h\<in>set hs'. unat (hsize s bp) \<le> unat (hsize t h))"
proof -
  obtain A p B where hs: "hs = A @ p # B" "\<forall>y\<in>set A. y < bp" "p < bp" "\<forall>y\<in>set B. bp < y" using free_split [OF assms(1,3)] .
  note inv = assms(1) [unfolded hs(1)]
  note d = um_invD [OF inv]
  have nb: "bp \<notin> set hs" using assms(3) d(10) hs(1) by auto
  have ne: "hd (A @ [p]) = base s" using d(2) by (cases A) auto
  have find: "free_find s bp (freep s) = Some p" using free_find_spec [OF d(3,4) ne hs(2-4)] assms(2) hs(1) by simp
  have q: "hptr s p = (case B of [] \<Rightarrow> base s | y # _ \<Rightarrow> y)" using d(3) by (cases B) auto
  have bb: "base s < bp" using d(7) d(12) [of bp] assms(3) by (simp add: word_less_nat_alt)
  have ub: "unat (bp + 8 * hsize s bp) = bend s bp" using unat_bend [OF inv, of bp] assms(3) by simp
  have B0: "B \<noteq> []" if "bp + 8 * hsize s bp = hptr s p"
  proof
    assume "B = []"
    then have "unat (base s) = bend s bp" using that q ub by simp
    then show False using bb by (simp add: word_less_nat_alt)
  qed
  have st: "free_prev bp p (free_next bp p s) = (let s1 = ins bp p s; s2 = (if bp + 8 * hsize s bp = hptr s p then merge bp s1 else s1)
      in if p + 8 * hsize s p = bp then merge p s2 else s2)"
    unfolding Let_def using hs(3,4) q bb B0 d(4) by (intro free_steps) (auto split: list.splits)
  define s1 where "s1 = ins bp p s"
  have i1: "um_inv lo s1 (A @ p # bp # B) (L - {bp})" "hsize s1 = hsize s" "base s1 = base s" "brk s1 = brk s"
    using ins_inv [OF inv assms(3) hs(2-4)] by (simp_all add: s1_def ins_def)
  define s2 where "s2 = (if bp + 8 * hsize s bp = hptr s p then merge bp s1 else s1)"
  obtain B2 where i2: "um_inv lo s2 (A @ p # bp # B2) (L - {bp})" "unat (hsize s bp) \<le> unat (hsize s2 bp)" "\<And>h. h \<noteq> bp \<Longrightarrow> hsize s2 h = hsize s h" "base s2 = base s" "brk s2 = brk s"
  proof (cases "bp + 8 * hsize s bp = hptr s p")
    case True
    then obtain y B' where B: "B = y # B'" "hptr s p = y" using B0 q by (cases B) auto
    have m: "um_inv lo s1 ((A @ [p]) @ bp # y # B') (L - {bp})" "bp + 8 * hsize s1 bp = y" using i1(1,2) B True by simp_all
    show thesis by (rule that [of B']) (use merge_inv [OF m] True i1 in \<open>simp_all add: s2_def\<close>, simp_all add: merge_def)
  next
    case False
    then show thesis using that [of B] i1 by (simp add: s2_def)
  qed
  define s3 where "s3 = (if p + 8 * hsize s p = bp then merge p s2 else s2)"
  have run: "free (bp + 8) s = Some (s3\<lparr>freep := p\<rparr>)" using find st by (simp add: free_def Let_def s1_def s2_def s3_def)
  show ?thesis
  proof (cases "p + 8 * hsize s p = bp")
    case True
    then have e: "p + 8 * hsize s2 p = bp" using i2(3) hs(3) by auto
    note m = merge_inv [OF i2(1) e]
    have sz: "hsize s3 h = hsize s h" if "h \<in> L - {bp}" for h
    proof -
      have "p \<noteq> h" using that d(10) by auto
      then show ?thesis using that i2(3) [of h] True by (simp add: s3_def merge_def)
    qed
    have "unat (hsize s bp) \<le> unat (hsize s3 p)" using m(4) i2(2) True by (simp add: s3_def)
    then show ?thesis using run m(1) sz i2(4,5) True by (intro exI [of _ "s3\<lparr>freep := p\<rparr>"] exI [of _ "A @ p # B2"]) (simp add: s3_def, simp add: merge_def)
  next
    case False
    then show ?thesis using run i2 by (intro exI [of _ "s3\<lparr>freep := p\<rparr>"] exI [of _ "A @ p # bp # B2"]) (auto simp: s3_def)
  qed
qed

text \<open>
  A cell of eight bytes at \<open>a\<close> that meets the payload of the block at \<open>h\<close>.  No header and no byte at the break is such a cell, so what the allocator writes leaves the payloads of the blocks
  \<open>L\<close> in use alone.
\<close>

definition inside :: "um \<Rightarrow> uint \<Rightarrow> uint \<Rightarrow> bool" where
  "inside s h a \<longleftrightarrow> unat h < unat a \<and> unat a < bend s h"

definition keeps :: "um \<Rightarrow> um \<Rightarrow> uint set \<Rightarrow> bool" where
  "keeps s t L \<longleftrightarrow> (\<forall>h\<in>L. hsize t h = hsize s h \<and> (\<forall>a. inside s h a \<longrightarrow> hptr t a = hptr s a \<and> hsize t a = hsize s a))"

lemma keeps_refl [simp]: "keeps s s L"
  by (simp add: keeps_def)

lemma keeps_trans:
  assumes "keeps s t L" "keeps t u L"
  shows "keeps s u L"
  using assms unfolding keeps_def inside_def by (metis (no_types, lifting))

lemma not_inside:
  assumes "um_inv lo s hs L" "h \<in> L" "g = base s \<or> g = brk s \<or> g \<in> set hs \<union> L"
  shows "\<not> inside s h g"
proof -
  note d = um_invD [OF assms(1)]
  have h: "h \<in> heads s hs L" using assms(2) by simp
  consider "g = base s" | "g = brk s" | "g \<in> heads s hs L" using assms(3) by blast
  then show ?thesis
  proof cases
    case 1
    then show ?thesis using d(7) d(12) [OF h] by (simp add: inside_def)
  next
    case 2
    then show ?thesis using d(13) [OF h] by (simp add: inside_def)
  next
    case 3
    then show ?thesis using d(14) [OF h 3] by (auto simp: inside_def word_less_nat_alt)
  qed
qed

lemma free_keeps:
  assumes "um_inv lo s hs L" "freep s \<in> set hs" "bp \<in> L" "free (bp + 8) s = Some t"
  shows "keeps s t (L - {bp})"
proof -
  obtain A p B where hs: "hs = A @ p # B" "\<forall>y\<in>set A. y < bp" "p < bp" "\<forall>y\<in>set B. bp < y" using free_split [OF assms(1,3)] .
  note d = um_invD [OF assms(1) [unfolded hs(1)]]
  have "hd (A @ [p]) = base s" using d(2) by (cases A) auto
  then have "free_find s bp (freep s) = Some p" using free_find_spec [OF d(3,4) _ hs(2-4)] assms(2) hs(1) by simp
  then have t: "t = (free_prev bp p (free_next bp p s))\<lparr>freep := p\<rparr>" using assms(4) by (simp add: free_def)
  have same: "hptr t a = hptr s a" "hsize t a = hsize s a" if "a \<noteq> bp" "a \<noteq> p" for a
    using that by (auto simp: t free_prev_def free_next_def Let_def)
  have ps: "p \<in> set hs" using hs(1) by simp
  show ?thesis unfolding keeps_def
  proof (intro ballI conjI allI impI)
    fix h a assume h: "h \<in> L - {bp}"
    then have "h \<noteq> p" using ps um_invD(10) [OF assms(1)] by auto
    then show "hsize t h = hsize s h" using h same by auto
    assume i: "inside s h a"
    have "a \<noteq> bp" "a \<noteq> p" using not_inside [OF assms(1), of h] h i assms(3) ps by auto
    then show "hptr t a = hptr s a" "hsize t a = hsize s a" using same by auto
  qed
qed

section \<open>Allocation\<close>

lemma nunits_facts:
  assumes "unat nbytes \<le> 2 ^ 30"
  shows "unat (nunits nbytes) = (unat nbytes + 7) div 8 + 1" "unat nbytes + 8 \<le> 8 * unat (nunits nbytes)" "0 < unat (nunits nbytes)" "8 * unat (nunits nbytes) \<le> 2 ^ 30 + 16"
proof -
  have a: "unat (nbytes + 7) = unat nbytes + 7" using assms by (subst unat_add_uint) simp_all
  have d: "unat ((nbytes + 7) div 8) = (unat nbytes + 7) div 8" using a by (simp add: unat_div)
  have "nunits nbytes = (nbytes + 7) div 8 + 1" by (simp add: nunits_def add.commute)
  then show n: "unat (nunits nbytes) = (unat nbytes + 7) div 8 + 1" using d assms by (simp only:) (subst unat_add_uint; simp)
  show "unat nbytes + 8 \<le> 8 * unat (nunits nbytes)" "0 < unat (nunits nbytes)" "8 * unat (nunits nbytes) \<le> 2 ^ 30 + 16" unfolding n using assms by simp_all
qed

text \<open>The block \<open>v\<close> is large enough; its end is cut off.\<close>

lemma cut_inv:
  assumes "um_inv lo s hs L" "v \<in> heads s hs L" "n < hsize s v" "0 < unat n"
  defines "r \<equiv> v + 8 * (hsize s v - n)"
  defines "t \<equiv> set_size r n (set_size v (hsize s v - n) s)"
  shows "um_inv lo t hs (insert r L)" "r \<notin> heads s hs L"
proof -
  note d = um_invD [OF assms(1)]
  have m: "unat (hsize s v - n) = unat (hsize s v) - unat n" "unat n < unat (hsize s v)" using assms(3) by (simp_all add: unat_sub word_less_nat_alt word_le_nat_alt)
  have bv: "bend s v \<le> 2 ^ 31" "lo \<le> unat v" using d(9) d(12,13) [OF assms(2)] by simp_all
  then have e: "unat (8 * (hsize s v - n)) = 8 * (unat (hsize s v) - unat n)" using m unfolding unat_word_ariths(2) by simp
  have r: "unat r = unat v + 8 * (unat (hsize s v) - unat n)" unfolding r_def using bv e by (subst unat_add_uint) simp_all
  have rv: "unat v < unat r" "unat r + 8 * unat n = bend s v" using r m(2) by simp_all
  have nr: "g \<noteq> r" if "g \<in> heads s hs L" for g
  proof
    assume g: "g = r"
    then have "v < g" using rv(1) by (simp add: word_less_nat_alt)
    then show False using d(14) [OF assms(2) that] g rv(2) assms(4) by simp
  qed
  then show "r \<notin> heads s hs L" by blast
  have vr: "v \<noteq> r" "r \<noteq> base s" using rv(1) bv(2) d(7) by auto
  then have "r \<notin> set hs" using nr by auto
  have sz: "hsize t = (hsize s)(v := hsize s v - n, r := n)" "base t = base s" "brk t = brk s" "hptr t = hptr s" by (simp_all add: t_def)
  have vb: "v \<noteq> base s" using bv(2) d(7) by auto
  have be: "bend t v = unat r" "bend t r = bend s v" "\<And>g. g \<noteq> v \<Longrightarrow> g \<noteq> r \<Longrightarrow> bend t g = bend s g" using vr(1) r rv(2) m by (simp_all add: sz)
  have hd: "heads t hs (insert r L) = insert r (heads s hs L)" using vr(2) sz(2) by auto
  have one: "0 < unat (hsize t h) \<and> lo \<le> unat h \<and> bend t h \<le> unat (brk s)" if "h \<in> insert r (heads s hs L)" for h
  proof (cases "h = r")
    case True
    then show ?thesis using assms(4) be(2) d(13) [OF assms(2)] bv(2) rv(1) by (simp add: sz)
  next
    case False
    then have h: "h \<in> heads s hs L" using that by blast
    show ?thesis
    proof (cases "h = v")
      case True
      then show ?thesis using be(1) m bv(2) d(13) [OF assms(2)] rv(2) False by (simp add: sz)
    next
      case nv: False
      then show ?thesis using be(3) [OF nv False] d(11-13) [OF h] False by (simp add: sz)
    qed
  qed
  have two: "bend t g \<le> unat h" if gh: "g \<in> insert r (heads s hs L)" "h \<in> insert r (heads s hs L)" "g < h" for g h
  proof -
    have old: "bend s g' \<le> unat h'" if "g' \<in> heads s hs L" "h' \<in> heads s hs L" "g' < h'" for g' h' using d(14) [OF that] .
    consider "g = r" | "g = v" "h = r" | "g = v" "h \<noteq> r" | "g \<noteq> r" "g \<noteq> v" "h = r" | "g \<noteq> r" "g \<noteq> v" "h \<noteq> r" by blast
    then show ?thesis
    proof cases
      case 1
      then have "h \<in> heads s hs L" "v < h" using gh rv(1) by (auto simp: word_less_nat_alt)
      then show ?thesis using old [OF assms(2)] be(2) 1 by simp
    next
      case 3
      then have "h \<in> heads s hs L" using gh(2) by blast
      then show ?thesis using old [OF assms(2), of h] gh(3) be(1) rv 3 by simp
    next
      case 4
      then have g: "g \<in> heads s hs L" using gh(1) by blast
      have "g < v"
      proof (rule ccontr)
        assume "\<not> g < v"
        then have "v < g" using 4(2) by simp
        then show False using old [OF assms(2) g] gh(3) 4(3) rv(2) by (simp add: word_less_nat_alt)
      qed
      then show ?thesis using old [OF g assms(2)] be(3) [OF 4(2,1)] rv(1) 4(3) by simp
    next
      case 5
      then show ?thesis using gh old [of g h] be(3) [OF 5(2,1)] by auto
    qed (use be(1) in simp)
  qed
  have "set hs \<inter> insert r L = {}" using d(10) \<open>r \<notin> set hs\<close> by auto
  moreover have "hsize t (base s) = 0" using d(6) vb vr(2) by (simp add: sz)
  ultimately show "um_inv lo t hs (insert r L)" unfolding um_inv_def hd unfolding sz(2-4) using d(1-5,7-9) one two by blast
qed

lemma carve_spec:
  assumes "um_inv lo s (A @ pr # v # B) L" "n \<le> hsize s v" "0 < unat n"
  shows "\<exists>r t hs'. carve n pr v s = (r + 8, t) \<and> um_inv lo t hs' (insert r L) \<and> r \<notin> L \<and> hsize t r = n \<and> freep t \<in> set hs' \<and> base t = base s \<and> brk t = brk s \<and> keeps s t L"
proof -
  note d = um_invD [OF assms(1)]
  have ptr: "hptr s pr = v" "lseg (hptr s) (base s) A pr" "lseg (hptr s) (hptr s v) B (base s)" using d(3) by auto
  have sw: "pr < v" "v \<notin> set A" "v \<notin> set B" "pr \<notin> set A" "pr \<notin> set B" using d(4) by (auto simp: sorted_wrt_append)
  have vb: "v \<noteq> base s" using d(6) assms(2,3) by (auto simp: word_le_nat_alt)
  have hv: "v \<in> heads s (A @ pr # v # B) L" using vb by auto
  have vL: "v \<notin> L" using d(10) by auto
  have out: "\<not> inside s h v" "\<not> inside s h pr" if "h \<in> L" for h using not_inside [OF assms(1) that] by simp_all
  show ?thesis
  proof (cases "hsize s v = n")
    case True
    let ?t = "(set_ptr pr (hptr s v) s)\<lparr>freep := pr\<rparr>"
    have h: "heads s (A @ pr # B) (insert v L) = heads s (A @ pr # v # B) L" using vb sw by auto
    have l: "lseg (hptr ?t) (base s) (A @ pr # B) (base s)" using ptr sw by auto
    have "sorted_wrt (<) (A @ pr # B)" "set (A @ pr # B) \<inter> insert v L = {}" "hd (A @ pr # B) = base s" "A @ pr # B \<noteq> []"
      using d(2,4,10) sw by (auto simp: sorted_wrt_append hd_append)
    moreover have "base ?t = base s" "brk ?t = brk s" "hsize ?t = hsize s" by simp_all
    ultimately have "um_inv lo ?t (A @ pr # B) (insert v L)" using l d(5-9,11-14) unfolding um_inv_def by (simp only: h) blast
    moreover have "keeps s ?t L" using out(2) by (auto simp: keeps_def)
    ultimately show ?thesis using True vL by (intro exI [of _ v] exI [of _ ?t] exI [of _ "A @ pr # B"]) (simp add: carve_def)
  next
    case False
    then have lt: "n < hsize s v" using assms(2) by simp
    let ?r = "v + 8 * (hsize s v - n)"
    let ?t = "(set_size ?r n (set_size v (hsize s v - n) s))\<lparr>freep := pr\<rparr>"
    note c = cut_inv [OF assms(1) hv lt assms(3)]
    have sz: "hsize ?t h = hsize s h" if "h \<in> L" for h using that c(2) vL by auto
    have "keeps s ?t L" unfolding keeps_def
    proof (intro ballI conjI allI impI)
      fix h a assume h: "h \<in> L" and i: "inside s h a"
      have "inside ?t h a" using i sz [OF h] by (simp add: inside_def)
      then have "a \<noteq> ?r" using not_inside [OF c(1), of h ?r] h by (auto simp: inside_def)
      moreover have "a \<noteq> v" using out(1) [OF h] i by auto
      ultimately show "hsize ?t a = hsize s a" by simp
      show "hptr ?t a = hptr s a" by simp
    qed (use sz in simp)
    then show ?thesis using False c by (intro exI [of _ ?r] exI [of _ ?t] exI [of _ "A @ pr # v # B"]) (auto simp: carve_def Let_def)
  qed
qed

lemma loop_skip:
  assumes "lseg (hptr s) p us q" "\<forall>u\<in>set us. hsize s u < n \<and> u \<noteq> freep s"
  shows "malloc_loop k n pr p s = malloc_loop k n (last (pr # us)) q s"
  using assms
proof (induction us arbitrary: pr p)
  case (Cons u us)
  have p: "p = u" "\<not> n \<le> hsize s u" "u \<noteq> freep s" "lseg (hptr s) (hptr s u) us q" "\<forall>u\<in>set us. hsize s u < n \<and> u \<noteq> freep s" using Cons.prems by auto
  then have "malloc_loop k n pr p s = malloc_loop k n u (hptr s u) s" by (subst malloc_loop.simps) simp
  also have "\<dots> = malloc_loop k n (last (u # us)) q s" by (rule Cons.IH [OF p(4,5)])
  finally show ?case by simp
qed simp

text \<open>The search goes once around the list, from the header after \<^verbatim>\<open>freep\<close> to \<^verbatim>\<open>freep\<close> itself.\<close>

lemma loop_found:
  assumes "um_inv lo s hs L" "freep s \<in> set hs" "h \<in> set hs" "n \<le> hsize s h" "0 < unat n"
  obtains A pr v B where "hs = A @ pr # v # B" "n \<le> hsize s v" "malloc_loop k n (freep s) (hptr s (freep s)) s = Some (carve n pr v s)"
proof -
  note d = um_invD [OF assms(1)]
  let ?x = "freep s"
  obtain A B where hs: "hs = A @ ?x # B" using assms(2) by (meson split_list)
  have dist: "distinct hs" using d(4) by (simp add: strict_sorted_iff)
  have l: "lseg (hptr s) (hptr s ?x) (B @ A @ [?x]) (hptr s ?x)" using d(3) by (subst (asm) hs) auto
  have "\<exists>y\<in>set (B @ A @ [?x]). n \<le> hsize s y" using assms(3,4) by (subst (asm) hs) auto
  then obtain us v ws where v: "B @ A @ [?x] = us @ v # ws" "n \<le> hsize s v" "\<forall>u\<in>set us. \<not> n \<le> hsize s u" by (rule split_list_first_propE)
  have ux: "?x \<notin> set us"
  proof
    assume x: "?x \<in> set us"
    have "distinct (B @ A @ [?x])" using dist by (subst (asm) hs) auto
    then have "distinct (us @ v # ws)" "last (us @ v # ws) = ?x" unfolding v(1) [symmetric] by simp_all
    then show False using x by (cases ws rule: rev_cases) auto
  qed
  have lu: "lseg (hptr s) (hptr s ?x) us v" using l unfolding v(1) by auto
  have "\<forall>u\<in>set us. hsize s u < n \<and> u \<noteq> ?x" using v(3) ux by (auto simp: not_le)
  then have "malloc_loop k n ?x (hptr s ?x) s = malloc_loop k n (last (?x # us)) v s" by (rule loop_skip [OF lu])
  also have "\<dots> = Some (carve n (last (?x # us)) v s)" using v(2) by (subst malloc_loop.simps) simp
  finally have run: "malloc_loop k n ?x (hptr s ?x) s = Some (carve n (last (?x # us)) v s)" .
  have vb: "v \<noteq> hd hs" using d(2,6) v(2) assms(5) by (auto simp: word_le_nat_alt)
  have "\<exists>C D. hs = C @ last (?x # us) # v # D"
  proof -
    consider B2 where "B = us @ v # B2" | A1 A2 where "us = B @ A1" "A @ [?x] = A1 @ v # A2"
    proof -
      obtain zs where "B = us @ zs \<and> zs @ A @ [?x] = v # ws \<or> B @ zs = us \<and> A @ [?x] = zs @ v # ws" using v(1) unfolding append_eq_append_conv2 by blast
      then show thesis using that by (cases zs) auto
    qed
    then show ?thesis
    proof cases
      case 1
      then have "hs = (A @ butlast (?x # us)) @ last (?x # us) # v # B2" using hs by (metis append.assoc append_Cons append_Nil append_butlast_last_id list.discI)
      then show ?thesis by blast
    next
      case 2
      have ne: "A1 \<noteq> []" using vb 2(2) hs by (cases A) auto
      have "hs = (A @ [?x]) @ B" using hs by simp
      also have "\<dots> = (A1 @ v # A2) @ B" by (simp only: 2(2))
      also have "\<dots> = butlast A1 @ last A1 # v # (A2 @ B)" using ne by (metis append.assoc append_Cons append_Nil append_butlast_last_id)
      finally show ?thesis using ne 2(1) by auto
    qed
  qed
  then show thesis using that run v(2) by blast
qed

lemma loop_none:
  assumes "um_inv lo s hs L" "freep s \<in> set hs" "\<forall>h\<in>set hs. \<not> n \<le> hsize s h"
  shows "malloc_loop k n (freep s) (hptr s (freep s)) s = Option.bind (morecore k n s) (\<lambda>(p, s). if p = 0 then Some (0, s) else malloc_loop k n p (hptr s p) s)"
proof -
  note d = um_invD [OF assms(1)]
  let ?x = "freep s"
  obtain A B where hs: "hs = A @ ?x # B" using assms(2) by (meson split_list)
  have dist: "distinct hs" using d(4) by (simp add: strict_sorted_iff)
  have l: "lseg (hptr s) (hptr s ?x) (B @ A) ?x" using d(3) by (subst (asm) hs) auto
  have all: "\<forall>u\<in>set (B @ A). hsize s u < n \<and> u \<noteq> ?x"
  proof
    fix u assume u: "u \<in> set (B @ A)"
    then have "u \<in> set hs" by (subst hs) auto
    moreover have "u \<noteq> ?x" using u dist by (subst (asm) hs) auto
    ultimately show "hsize s u < n \<and> u \<noteq> ?x" using assms(3) by (simp add: not_le)
  qed
  have "malloc_loop k n ?x (hptr s ?x) s = malloc_loop k n (last (?x # B @ A)) ?x s" by (rule loop_skip [OF l all])
  also have "\<dots> = Option.bind (morecore k n s) (\<lambda>(p, s). if p = 0 then Some (0, s) else malloc_loop k n p (hptr s p) s)"
    using assms(2,3) by (subst malloc_loop.simps) simp
  finally show ?thesis .
qed

text \<open>The kernel never lets a program grow into its half of the address space.\<close>

definition kernel_ok :: "(uint \<Rightarrow> uint \<Rightarrow> bool) \<Rightarrow> bool" where
  "kernel_ok k \<longleftrightarrow> (\<forall>b n. k b n \<longrightarrow> unat n < 2 ^ 31 \<longrightarrow> unat b + unat n \<le> 2 ^ 31)"

lemma grow_inv:
  assumes "um_inv lo s hs L" "unat (brk s) + unat m \<le> 2 ^ 31"
  shows "um_inv lo (s\<lparr>brk := brk s + m\<rparr>) hs L"
proof -
  note d = um_invD [OF assms(1)]
  have b: "unat (brk s + m) = unat (brk s) + unat m" using assms(2) by (intro unat_add_uint) simp
  have "\<forall>h\<in>heads s hs L. bend s h \<le> unat (brk s) + unat m" using d(13) by (meson le_add1 le_trans)
  then show ?thesis using d(1-12,14) assms(2) unfolding um_inv_def by (simp add: b)
qed

lemma core_inv:
  assumes "um_inv lo s hs L" "unat (brk s) + 8 * unat nu \<le> 2 ^ 31" "0 < unat nu"
  shows "um_inv lo (set_size (brk s) nu (s\<lparr>brk := brk s + nu * 8\<rparr>)) hs (insert (brk s) L)" "brk s \<notin> heads s hs L"
proof -
  note d = um_invD [OF assms(1)]
  let ?t = "set_size (brk s) nu (s\<lparr>brk := brk s + nu * 8\<rparr>)"
  have n: "unat (nu * 8) = 8 * unat nu" using assms(2) by (simp add: unat_word_ariths)
  have b: "unat (brk s + nu * 8) = unat (brk s) + 8 * unat nu" using assms(2) n by (subst unat_add_uint) simp_all
  have lt: "unat h < unat (brk s)" if "h \<in> heads s hs L" for h using d(11,13) [OF that] by linarith
  then show nb: "brk s \<notin> heads s hs L" by blast
  have bb: "brk s \<noteq> base s" using d(7,8) by auto
  then have ns: "brk s \<notin> set hs" using nb by auto
  have hd: "heads s hs (insert (brk s) L) = insert (brk s) (heads s hs L)" using bb by auto
  have be: "bend ?t h = bend s h" if "h \<in> heads s hs L" for h using that nb by (auto simp del: Un_iff)
  have one: "0 < unat (hsize ?t h) \<and> lo \<le> unat h \<and> bend ?t h \<le> unat (brk ?t)" if "h \<in> insert (brk s) (heads s hs L)" for h
  proof (cases "h = brk s")
    case True
    then show ?thesis using assms(3) d(8) b by simp
  next
    case False
    then have h: "h \<in> heads s hs L" using that by blast
    show ?thesis using d(11-13) [OF h] be [OF h] False b by simp
  qed
  have two: "bend ?t g \<le> unat h" if gh: "g \<in> insert (brk s) (heads s hs L)" "h \<in> insert (brk s) (heads s hs L)" "g < h" for g h
  proof -
    have hb: "h = brk s \<or> h \<in> heads s hs L" using gh(2) by (rule insertE) simp_all
    have "unat h \<le> unat (brk s)" using hb lt [of h] by (cases "h = brk s") simp_all
    then have "g \<noteq> brk s" using gh(3) by (auto simp: word_less_nat_alt)
    then have g: "g \<in> heads s hs L" using gh(1) by simp
    show ?thesis using hb
    proof
      assume "h = brk s"
      then show ?thesis using d(13) [OF g] be [OF g] by simp
    next
      assume "h \<in> heads s hs L"
      then show ?thesis using d(14) [OF g _ gh(3)] be [OF g] by simp
    qed
  qed
  have "set hs \<inter> insert (brk s) L = {}" "hsize ?t (base s) = 0" "base ?t = base s" "hptr ?t = hptr s" "lo \<le> unat (brk ?t)" "unat (brk ?t) \<le> 2 ^ 31"
    using ns d(6,8,10) bb b assms(2) by auto
  then show "um_inv lo ?t hs (insert (brk s) L)" unfolding um_inv_def using hd one two d(1-5,7) by (simp only: ) blast
qed

lemma morecore_spec:
  assumes "um_inv lo s hs L" "freep s \<in> set hs" "kernel_ok k" "8 * unat n \<le> 2 ^ 30 + 16"
  shows "(morecore k n s = Some (0, s) \<and> \<not> k (brk s) ((if n < 4096 then 4096 else n) * 8)) \<or> (\<exists>t hs' h. morecore k n s = Some (freep t, t) \<and> freep t \<noteq> 0 \<and> um_inv lo t hs' L \<and> freep t \<in> set hs' \<and> h \<in> set hs' \<and> n \<le> hsize t h
    \<and> base t = base s \<and> unat (brk s) \<le> unat (brk t) \<and> keeps s t L)"
proof -
  note d = um_invD [OF assms(1)]
  define nu where "nu = (if n < 4096 then 4096 else n)"
  have nu: "n \<le> nu" "0 < unat nu" "unat (nu * 8) = 8 * unat nu" "8 * unat nu < 2 ^ 31"
    using assms(4) unfolding nu_def by (auto simp: unat_word_ariths word_less_nat_alt word_le_nat_alt)
  show ?thesis
  proof (cases "k (brk s) (nu * 8)")
    case False
    then show ?thesis by (simp add: morecore_def usbrk_def nu_def [symmetric])
  next
    case True
    let ?u = "set_size (brk s) nu (s\<lparr>brk := brk s + nu * 8\<rparr>)"
    have fit: "unat (brk s) + 8 * unat nu \<le> 2 ^ 31" using assms(3) True nu(3,4) unfolding kernel_ok_def by metis
    note c = core_inv [OF assms(1) fit nu(2)]
    have ne: "brk s \<noteq> -1"
    proof
      assume "brk s = -1"
      then have "0x80000001 \<le> brk s" by simp
      then have "unat (0x80000001 :: uint) \<le> unat (brk s)" by (simp only: word_le_nat_alt)
      then show False using d(9) by simp
    qed
    have fu: "freep ?u \<in> set hs" "brk s \<in> insert (brk s) L" using assms(2) by simp_all
    obtain t hs' where t: "free (brk s + 8) ?u = Some t" "um_inv lo t hs' (insert (brk s) L - {brk s})" "freep t \<in> set hs'" "base t = base ?u" "brk t = brk ?u"
      "\<forall>h\<in>insert (brk s) L - {brk s}. hsize t h = hsize ?u h" "\<exists>h\<in>set hs'. unat (hsize ?u (brk s)) \<le> unat (hsize t h)"
      using free_spec [OF c(1) fu] by blast
    have L: "insert (brk s) L - {brk s} = L" using c(2) by auto
    have run: "morecore k n s = Some (freep t, t)" using True ne t(1) by (simp add: morecore_def usbrk_def nu_def [symmetric])
    obtain h where h: "h \<in> set hs'" "n \<le> hsize t h" using t(7) nu(1) by (auto simp: word_le_nat_alt)
    note e = um_invD [OF t(2)]
    have "freep t \<noteq> 0"
    proof
      assume z: "freep t = 0"
      then have "0 \<in> heads t hs' (insert (brk s) L - {brk s})" using t(3) e(5) by auto
      then show False using e(7) e(12) [of 0] by simp
    qed
    moreover have "unat (brk s) \<le> unat (brk t)"
    proof -
      have "unat (brk s + nu * 8) = unat (brk s) + unat (nu * 8)" using fit nu(3) by (intro unat_add_uint) simp
      then show ?thesis using t(5) by simp
    qed
    moreover have "keeps s t L"
    proof (rule keeps_trans)
      show "keeps s ?u L" using not_inside [OF assms(1), of _ "brk s"] c(2) by (auto simp: keeps_def)
      show "keeps ?u t L" using free_keeps [OF c(1) fu t(1)] unfolding L .
    qed
    moreover have "base t = base s" using t(4) by simp
    ultimately show ?thesis using run t(2,3) h unfolding L by blast
  qed
qed

abbreviation request :: "uint \<Rightarrow> uint" where
  "request n \<equiv> (if n < 4096 then 4096 else n) * 8"

lemma loop_spec:
  assumes "um_inv lo s hs L" "freep s \<in> set hs" "kernel_ok k" "8 * unat n \<le> 2 ^ 30 + 16" "0 < unat n"
  shows "(malloc_loop k n (freep s) (hptr s (freep s)) s = Some (0, s) \<and> \<not> k (brk s) (request n))
    \<or> (\<exists>r t hs'. malloc_loop k n (freep s) (hptr s (freep s)) s = Some (r + 8, t) \<and> um_inv lo t hs' (insert r L) \<and> r \<notin> L \<and> hsize t r = n \<and> freep t \<in> set hs'
        \<and> base t = base s \<and> unat (brk s) \<le> unat (brk t) \<and> keeps s t L)"
proof -
  have found: "\<exists>r t hs'. malloc_loop k n (freep u) (hptr u (freep u)) u = Some (r + 8, t) \<and> um_inv lo t hs' (insert r L) \<and> r \<notin> L \<and> hsize t r = n \<and> freep t \<in> set hs'
      \<and> base t = base u \<and> brk t = brk u \<and> keeps u t L"
    if u: "um_inv lo u hs0 L" "freep u \<in> set hs0" "h \<in> set hs0" "n \<le> hsize u h" for u hs0 h
  proof -
    obtain A pr v B where l: "hs0 = A @ pr # v # B" "n \<le> hsize u v" "malloc_loop k n (freep u) (hptr u (freep u)) u = Some (carve n pr v u)"
      using loop_found [OF u assms(5)] .
    show ?thesis using carve_spec [OF u(1) [unfolded l(1)] l(2) assms(5)] l(3) by force
  qed
  show ?thesis
  proof (cases "\<exists>h\<in>set hs. n \<le> hsize s h")
    case True
    then show ?thesis using found [OF assms(1,2)] by force
  next
    case False
    then have run: "malloc_loop k n (freep s) (hptr s (freep s)) s = Option.bind (morecore k n s) (\<lambda>(p, s). if p = 0 then Some (0, s) else malloc_loop k n p (hptr s p) s)"
      using loop_none [OF assms(1,2)] by blast
    from morecore_spec [OF assms(1-4)] show ?thesis
    proof
      assume "morecore k n s = Some (0, s) \<and> \<not> k (brk s) (request n)"
      then show ?thesis using run by simp
    next
      assume "\<exists>t hs' h. morecore k n s = Some (freep t, t) \<and> freep t \<noteq> 0 \<and> um_inv lo t hs' L \<and> freep t \<in> set hs' \<and> h \<in> set hs' \<and> n \<le> hsize t h
        \<and> base t = base s \<and> unat (brk s) \<le> unat (brk t) \<and> keeps s t L"
      then obtain u hs0 h where m: "morecore k n s = Some (freep u, u)" "freep u \<noteq> 0" "um_inv lo u hs0 L" "freep u \<in> set hs0" "h \<in> set hs0" "n \<le> hsize u h"
        "base u = base s" "unat (brk s) \<le> unat (brk u)" "keeps s u L" by blast
      obtain r t hs' where f: "malloc_loop k n (freep u) (hptr u (freep u)) u = Some (r + 8, t)" "um_inv lo t hs' (insert r L)" "r \<notin> L" "hsize t r = n" "freep t \<in> set hs'"
        "base t = base u" "brk t = brk u" "keeps u t L" using found [OF m(3-6)] by blast
      have "malloc_loop k n (freep s) (hptr s (freep s)) s = Some (r + 8, t)" using run m(1,2) f(1) by simp
      then show ?thesis using f m(7,8) keeps_trans [OF m(9) f(8)] by (intro disjI2 exI [of _ r] exI [of _ t] exI [of _ hs']) simp
    qed
  qed
qed

section \<open>A program and its heap\<close>

text \<open>
  What a program does to its heap: it allocates, it frees what it has allocated, it grows its break on its own, and it stores anything in the blocks it has (\<open>live\<close> gives the size asked for each).
  The first allocation finds \<open>freep\<close> zero and the static header below the break.
\<close>

definition fresh :: "um \<Rightarrow> bool" where
  "fresh s \<longleftrightarrow> freep s = 0 \<and> base s \<noteq> 0 \<and> unat (base s) + 8 \<le> unat (brk s) \<and> unat (brk s) \<le> 2 ^ 31"

definition payload :: "uint \<Rightarrow> uint \<Rightarrow> nat set" where
  "payload p m = {unat p ..< unat p + unat m}"

definition cell :: "uint \<Rightarrow> nat set" where
  "cell a = {unat a ..< unat a + 8}"

inductive uses :: "um \<Rightarrow> (uint \<rightharpoonup> uint) \<Rightarrow> bool" where
  start: "fresh s \<Longrightarrow> uses s Map.empty"
| alloc: "uses s live \<Longrightarrow> kernel_ok k \<Longrightarrow> unat n \<le> 2 ^ 30 \<Longrightarrow> malloc k n s = Some (p, t) \<Longrightarrow> uses t (if p = 0 then live else live(p \<mapsto> n))"
| release: "uses s live \<Longrightarrow> p \<in> dom live \<Longrightarrow> free p s = Some t \<Longrightarrow> uses t (live(p := None))"
| grow: "uses s live \<Longrightarrow> kernel_ok k \<Longrightarrow> unat n \<le> 2 ^ 30 \<Longrightarrow> usbrk k n s = (p, t) \<Longrightarrow> uses t live"
| store: "uses s live \<Longrightarrow> \<forall>a. f a \<noteq> hptr s a \<or> g a \<noteq> hsize s a \<longrightarrow> (\<exists>p m. live p = Some m \<and> cell a \<inter> payload p m \<noteq> {}) \<Longrightarrow> uses (s\<lparr>hptr := f, hsize := g\<rparr>) live"

definition um_ok :: "um \<Rightarrow> (uint \<rightharpoonup> uint) \<Rightarrow> uint list \<Rightarrow> uint set \<Rightarrow> bool" where
  "um_ok s live hs L \<longleftrightarrow> um_inv (unat (base s) + 8) s hs L \<and> freep s \<in> set hs \<and> (\<forall>p m. live p = Some m \<longrightarrow> p - 8 \<in> L \<and> unat m + 8 \<le> 8 * unat (hsize s (p - 8)))"

lemma um_okD:
  assumes "um_ok s live hs L" "live p = Some m"
  shows "p - 8 \<in> L" "unat m + 8 \<le> 8 * unat (hsize s (p - 8))" "unat p = unat (p - 8) + 8" "p \<noteq> 0"
proof -
  show h: "p - 8 \<in> L" "unat m + 8 \<le> 8 * unat (hsize s (p - 8))" using assms by (auto simp: um_ok_def)
  note d = um_invD [OF conjunct1 [OF assms(1) [unfolded um_ok_def]]]
  have "bend s (p - 8) \<le> 2 ^ 31" using d(9) d(13) [of "p - 8"] h(1) by simp
  then have "unat (p - 8) + 8 < 2 ^ 32" using h(2) by simp
  then have "unat (p - 8 + 8) = unat (p - 8) + 8" using unat_add_uint [of "p - 8" 8] by simp
  then show "unat p = unat (p - 8) + 8" by simp
  then show "p \<noteq> 0" by auto
qed

lemma live_inside:
  assumes "um_ok s live hs L" "live p = Some m" "cell a \<inter> payload p m \<noteq> {}"
  shows "inside s (p - 8) a"
  using um_okD(2,3) [OF assms(1,2)] assms(3) by (auto simp: inside_def cell_def payload_def)

lemma live_range:
  assumes "um_ok s live hs L" "live p = Some m"
  shows "payload p m \<subseteq> {unat (base s) + 8 ..< unat (brk s)}"
proof -
  note d = um_invD [OF conjunct1 [OF assms(1) [unfolded um_ok_def]]] and o = um_okD [OF assms]
  have h: "p - 8 \<in> heads s hs L" using o(1) by simp
  show ?thesis using d(12) [OF h] d(13) [OF h] o(2,3) by (auto simp: payload_def)
qed

lemma live_disjoint:
  assumes "um_ok s live hs L" "live p = Some m" "live q = Some n" "p \<noteq> q"
  shows "payload p m \<inter> payload q n = {}"
proof -
  note d = um_invD [OF conjunct1 [OF assms(1) [unfolded um_ok_def]]] and p = um_okD [OF assms(1,2)] and q = um_okD [OF assms(1,3)]
  have h: "p - 8 \<in> heads s hs L" "q - 8 \<in> heads s hs L" using p(1) q(1) by simp_all
  have "p - 8 \<noteq> q - 8" using assms(4) by simp
  then consider "p - 8 < q - 8" | "q - 8 < p - 8" by (meson linorder_neqE)
  then show ?thesis
  proof cases
    case 1
    then show ?thesis using d(14) [OF h 1] p(2,3) q(3) by (auto simp: payload_def)
  next
    case 2
    then show ?thesis using d(14) [OF h(2,1) 2] q(2,3) p(3) by (auto simp: payload_def)
  qed
qed

lemma keeps_ok:
  assumes "um_ok s live hs L" "keeps s t L'" "um_inv (unat (base t) + 8) t hs' L''" "freep t \<in> set hs'" "\<forall>p m. live' p = Some m \<longrightarrow> live p = Some m \<and> p - 8 \<in> L' \<inter> L''"
  shows "um_ok t live' hs' L''"
proof -
  have "p - 8 \<in> L'' \<and> unat m + 8 \<le> 8 * unat (hsize t (p - 8))" if "live' p = Some m" for p m
  proof -
    have l: "live p = Some m" "p - 8 \<in> L'" "p - 8 \<in> L''" using assms(5) that by blast+
    then show ?thesis using um_okD(2) [OF assms(1) l(1)] assms(2) by (simp add: keeps_def)
  qed
  then show ?thesis using assms(3,4) by (simp add: um_ok_def)
qed

text \<open>Allocation and release, with what they leave alone.\<close>

abbreviation untouched :: "um \<Rightarrow> um \<Rightarrow> (uint \<rightharpoonup> uint) \<Rightarrow> bool" where
  "untouched s t live \<equiv> \<forall>q m a. live q = Some m \<and> cell a \<inter> payload q m \<noteq> {} \<longrightarrow> hptr t a = hptr s a \<and> hsize t a = hsize s a"

lemma keeps_untouched:
  assumes "um_ok s live hs L" "keeps s t L'" "\<forall>p m. live' p = Some m \<longrightarrow> live p = Some m \<and> p - 8 \<in> L'"
  shows "untouched s t live'"
proof (intro allI impI)
  fix q m a assume a: "live' q = Some m \<and> cell a \<inter> payload q m \<noteq> {}"
  then have "live q = Some m" "q - 8 \<in> L'" using assms(3) by blast+
  moreover have "inside s (q - 8) a" using live_inside [OF assms(1)] a assms(3) by blast
  ultimately show "hptr t a = hptr s a \<and> hsize t a = hsize s a" using assms(2) by (auto simp: keeps_def)
qed

definition heap_init :: "um \<Rightarrow> um" where
  "heap_init s = (if freep s = 0 then set_size (base s) 0 ((set_ptr (base s) (base s) s)\<lparr>freep := base s\<rparr>) else s)"

abbreviation heap_ok :: "um \<Rightarrow> (uint \<rightharpoonup> uint) \<Rightarrow> bool" where
  "heap_ok s live \<equiv> fresh s \<and> live = Map.empty \<or> (\<exists>hs L. um_ok s live hs L)"

lemma heap_init_ok:
  assumes "heap_ok s live"
  shows "\<exists>hs L. um_ok (heap_init s) live hs L" "untouched s (heap_init s) live" "brk (heap_init s) = brk s" "base (heap_init s) = base s"
proof -
  have nz: "heap_init s = s" if "um_ok s live hs L" for hs L
  proof -
    note d = um_invD [OF conjunct1 [OF that [unfolded um_ok_def]]]
    have "freep s = base s \<or> freep s \<in> heads s hs L" using that by (auto simp: um_ok_def)
    then have "freep s \<noteq> 0"
    proof
      assume "freep s \<in> heads s hs L"
      then have "0 < unat (freep s)" using d(12) [of "freep s"] by linarith
      then show ?thesis by auto
    qed (use d(5) in simp)
    then show ?thesis by (simp add: heap_init_def)
  qed
  have new: "um_ok (heap_init s) Map.empty [base s] {}" if "fresh s"
    using that by (auto simp: um_ok_def um_inv_def heap_init_def fresh_def)
  show "\<exists>hs L. um_ok (heap_init s) live hs L" using assms nz new by metis
  show "untouched s (heap_init s) live" using assms nz by auto
  show "brk (heap_init s) = brk s" "base (heap_init s) = base s" by (simp_all add: heap_init_def)
qed

lemma malloc_ok:
  assumes "heap_ok s live" "kernel_ok k" "unat n \<le> 2 ^ 30"
  shows "\<exists>p t. malloc k n s = Some (p, t) \<and> untouched s t live \<and> base t = base s
    \<and> (p = 0 \<and> \<not> k (brk s) (request (nunits n)) \<and> heap_ok t live \<or> p \<noteq> 0 \<and> live p = None \<and> (\<exists>hs L. um_ok t (live(p \<mapsto> n)) hs L))"
proof -
  note i = heap_init_ok [OF assms(1)] and nf = nunits_facts [OF assms(3)]
  let ?s = "heap_init s" and ?n = "nunits n"
  obtain hs L where ok: "um_ok ?s live hs L" using i(1) by blast
  have inv: "um_inv (unat (base s) + 8) ?s hs L" "freep ?s \<in> set hs" using ok i(4) by (simp_all add: um_ok_def)
  have run: "malloc k n s = malloc_loop k ?n (freep ?s) (hptr ?s (freep ?s)) ?s" by (simp add: malloc_def heap_init_def Let_def)
  from loop_spec [OF inv assms(2) nf(4,3)] show ?thesis
  proof
    assume "malloc_loop k ?n (freep ?s) (hptr ?s (freep ?s)) ?s = Some (0, ?s) \<and> \<not> k (brk ?s) (request ?n)"
    then show ?thesis using run i by (intro exI [of _ 0] exI [of _ ?s]) simp
  next
    assume "\<exists>r t hs'. malloc_loop k ?n (freep ?s) (hptr ?s (freep ?s)) ?s = Some (r + 8, t) \<and> um_inv (unat (base s) + 8) t hs' (insert r L) \<and> r \<notin> L \<and> hsize t r = ?n \<and> freep t \<in> set hs'
        \<and> base t = base ?s \<and> unat (brk ?s) \<le> unat (brk t) \<and> keeps ?s t L"
    then obtain r t hs' where r: "malloc k n s = Some (r + 8, t)" "um_inv (unat (base t) + 8) t hs' (insert r L)" "r \<notin> L" "hsize t r = ?n" "freep t \<in> set hs'"
      "base t = base s" "keeps ?s t L" using run i(4) by auto
    have none: "live (r + 8) = None" using um_okD(1) [OF ok, of "r + 8"] r(3) by (cases "live (r + 8)") auto
    have "um_ok t live hs' (insert r L)" using keeps_ok [OF ok r(7,2,5)] um_okD(1) [OF ok] by blast
    then have ok2: "um_ok t (live(r + 8 \<mapsto> n)) hs' (insert r L)" using r(4) nf(2) by (auto simp: um_ok_def)
    have "untouched ?s t live" using keeps_untouched [OF ok r(7)] um_okD(1) [OF ok] by blast
    then have "untouched s t live" using i(2) by metis
    moreover have "r + 8 \<noteq> 0" using um_okD(4) [OF ok2, of "r + 8"] by simp
    ultimately show ?thesis using r(1,6) none ok2 by blast
  qed
qed

lemma free_ok:
  assumes "heap_ok s live" "p \<in> dom live"
  shows "\<exists>t. free p s = Some t \<and> untouched s t (live(p := None)) \<and> base t = base s \<and> (\<exists>hs L. um_ok t (live(p := None)) hs L)"
proof -
  obtain hs L m where ok: "um_ok s live hs L" and m: "live p = Some m" using assms by auto
  note o = um_okD [OF ok m]
  have inv: "um_inv (unat (base s) + 8) s hs L" "freep s \<in> set hs" using ok by (simp_all add: um_ok_def)
  obtain t hs' where t: "free p s = Some t" "um_inv (unat (base t) + 8) t hs' (L - {p - 8})" "freep t \<in> set hs'" "base t = base s"
    using free_spec [OF inv o(1)] by auto
  have k: "keeps s t (L - {p - 8})" using free_keeps [OF inv o(1)] t(1) by simp
  have others: "live q = Some m' \<and> q - 8 \<in> L - {p - 8}" if "(live(p := None)) q = Some m'" for q m'
    using that um_okD(1) [OF ok, of q m'] by (auto split: if_splits)
  have "um_ok t (live(p := None)) hs' (L - {p - 8})" using keeps_ok [OF ok k t(2,3)] others by blast
  then show ?thesis using t(1,4) keeps_untouched [OF ok k] others by blast
qed

lemma uses_ok: "uses s live \<Longrightarrow> heap_ok s live"
proof (induction rule: uses.induct)
  case (alloc s live k n p t)
  show ?case using malloc_ok [OF alloc.IH alloc.hyps(2,3)] alloc.hyps(4) by auto
next
  case (release s live p t)
  obtain u where "free p s = Some u" "\<exists>hs L. um_ok u (live(p := None)) hs L" using free_ok [OF release.IH release.hyps(2)] by blast
  then show ?case using release.hyps(3) by (metis option.inject)
next
  case (grow s live k n p t)
  show ?case
  proof (cases "k (brk s) n")
    case True
    have "unat n < 2 ^ 31" using grow.hyps(3) by simp
    then have fit: "unat (brk s) + unat n \<le> 2 ^ 31" using grow.hyps(2) True unfolding kernel_ok_def by blast
    have t: "t = s\<lparr>brk := brk s + n\<rparr>" using grow.hyps(4) True by (auto simp: usbrk_def)
    have "unat (brk s + n) = unat (brk s) + unat n" using fit by (intro unat_add_uint) simp
    then have "fresh s \<Longrightarrow> fresh t" using fit by (simp add: fresh_def t)
    moreover have "um_ok s live hs L \<Longrightarrow> um_ok t live hs L" for hs L using grow_inv [OF _ fit] by (simp add: um_ok_def t)
    ultimately show ?thesis using grow.IH by blast
  next
    case False
    then show ?thesis using grow.IH grow.hyps(4) by (simp add: usbrk_def)
  qed
next
  case (store s live f g)
  let ?t = "s\<lparr>hptr := f, hsize := g\<rparr>"
  show ?case
  proof (cases "live = Map.empty")
    case True
    then have "f = hptr s" "g = hsize s" using store.hyps(2) by auto
    then show ?thesis using store.IH by simp
  next
    case False
    then obtain hs L where ok: "um_ok s live hs L" using store.IH by blast
    have inv: "um_inv (unat (base s) + 8) s hs L" using ok by (simp add: um_ok_def)
    note d = um_invD [OF inv]
    have same: "f a = hptr s a \<and> g a = hsize s a" if "a = base s \<or> a = brk s \<or> a \<in> set hs \<union> L" for a
      using store.hyps(2) live_inside [OF ok] not_inside [OF inv _ that] um_okD(1) [OF ok] by blast
    have l: "lseg f (base s) hs (base s)" using lseg_cong [of hs f "hptr s"] same d(3) by blast
    have h: "g h = hsize s h" if "h \<in> heads s hs L" for h using same that by blast
    have "um_inv (unat (base s) + 8) ?t hs L" using inv l same h unfolding um_inv_def by simp
    moreover have "g (p - 8) = hsize s (p - 8)" if "live p = Some m" for p m using same um_okD(1) [OF ok that] by blast
    ultimately have "um_ok ?t live hs L" using ok by (auto simp: um_ok_def)
    then show ?thesis by blast
  qed
qed simp

text \<open>
  C14.  The allocator under any program that allocates up to a gigabyte at a time, frees what it has allocated, grows its break and stores anything it likes in its blocks: \<open>malloc\<close> always returns.
  It returns 0 only if the kernel refuses the memory; otherwise the block of \<open>n\<close> bytes is new, lies between the static header and the break and meets no block the program still has.
  \<open>free\<close> of any of them returns.  Neither changes a byte of the other blocks.
\<close>

theorem malloc_disjoint:
  assumes "uses s live" "kernel_ok k" "unat n \<le> 2 ^ 30"
  shows "(\<exists>p t. malloc k n s = Some (p, t) \<and> untouched s t live
      \<and> (if p = 0 then \<not> k (brk s) (request (nunits n))
         else live p = None \<and> payload p n \<subseteq> {unat (base s) + 8 ..< unat (brk t)} \<and> (\<forall>q m. live q = Some m \<longrightarrow> payload p n \<inter> payload q m = {})))
    \<and> (\<forall>p\<in>dom live. \<exists>t. free p s = Some t \<and> untouched s t (live(p := None)))"
proof -
  note ok = uses_ok [OF assms(1)]
  obtain p t where t: "malloc k n s = Some (p, t)" "untouched s t live" "base t = base s"
    "p = 0 \<and> \<not> k (brk s) (request (nunits n)) \<and> heap_ok t live \<or> p \<noteq> 0 \<and> live p = None \<and> (\<exists>hs L. um_ok t (live(p \<mapsto> n)) hs L)"
    using malloc_ok [OF ok assms(2,3)] by blast
  have "if p = 0 then \<not> k (brk s) (request (nunits n))
         else live p = None \<and> payload p n \<subseteq> {unat (base s) + 8 ..< unat (brk t)} \<and> (\<forall>q m. live q = Some m \<longrightarrow> payload p n \<inter> payload q m = {})"
  proof (cases "p = 0")
    case False
    then obtain hs L where u: "um_ok t (live(p \<mapsto> n)) hs L" "live p = None" using t(4) by blast
    have "payload p n \<inter> payload q m = {}" if "live q = Some m" for q m using live_disjoint [OF u(1), of p n q m] u(2) that by (cases "p = q") simp_all
    then show ?thesis using live_range [OF u(1), of p n] u(2) False t(3) by simp
  qed (use t(4) in simp)
  moreover have "\<forall>p\<in>dom live. \<exists>t. free p s = Some t \<and> untouched s t (live(p := None))" using free_ok [OF ok] by blast
  ultimately show ?thesis using t(1,2) by blast
qed

definition um0 :: um where
  "um0 = \<lparr>hptr = (\<lambda>_. 0), hsize = (\<lambda>_. 0), base = 0x1000, freep = 0, brk = 0x2000\<rparr>"

abbreviation below_kernel :: "uint \<Rightarrow> uint \<Rightarrow> bool" where
  "below_kernel b n \<equiv> unat b + unat n \<le> 2 ^ 31"

lemma um0_alloc: "\<exists>t. malloc below_kernel 100 um0 = Some (0x9F98, t)"
  by (simp add: um0_def malloc_def nunits_def Let_def malloc_loop.simps morecore_def usbrk_def free_def free_find.simps free_next_def free_prev_def carve_def set_ptr_def set_size_def)

theorem malloc_disjoint_witness:
  "\<exists>s live. uses s live \<and> live 0x9F98 = Some 100 \<and> (\<exists>p t. malloc below_kernel 200 s = Some (p, t) \<and> (p \<noteq> 0 \<longrightarrow> payload p 200 \<inter> payload 0x9F98 100 = {})) \<and> (\<exists>t. free 0x9F98 s = Some t)"
proof -
  have k: "kernel_ok below_kernel" by (simp add: kernel_ok_def)
  have "uses um0 Map.empty" by (rule start) (simp add: fresh_def um0_def)
  then obtain s where u: "uses s [0x9F98 \<mapsto> 100]" using alloc [OF _ k, of um0 Map.empty 100] um0_alloc by fastforce
  show ?thesis using malloc_disjoint [OF u k, of 200] u by (intro exI [of _ s] exI [of _ "[0x9F98 \<mapsto> 100]"]) (auto split: if_splits)
qed

end
