(* ===== verification/Ulib.thy ===== *)
theory Ulib
  imports ShellRun Console Grep
begin

text \<open>
  The library of user programs: \<^verbatim>\<open>ulib.c\<close> over byte memory, with loops that stop at a NUL byte as partial functions, and \<^verbatim>\<open>printf.c\<close>, whose result is the list of bytes it
  writes one after the other.  \<^verbatim>\<open>strchr\<close>, \<^verbatim>\<open>strlen\<close> and \<^verbatim>\<open>gets\<close> are in \<open>Shell\<close> and \<open>ShellRun\<close>.  The programs \<^verbatim>\<open>cat.c\<close>, \<^verbatim>\<open>wc.c\<close>, \<^verbatim>\<open>echo.c\<close> and
  \<^verbatim>\<open>kill.c\<close> follow, as functions of what the system calls answer.
\<close>

section \<open>ulib.c\<close>

partial_function (option) strcpy :: "cmem \<Rightarrow> uint \<Rightarrow> uint \<Rightarrow> cmem option" where
  "strcpy m s t =
     (let m' = m(s := m t)
      in if m t \<noteq> 0 then strcpy m' (s + 1) (t + 1) else Some m')"

partial_function (option) strcmp :: "cmem \<Rightarrow> uint \<Rightarrow> uint \<Rightarrow> int option" where
  "strcmp m p q =
     (if m p \<noteq> 0 \<and> m p = m q then strcmp m (p + 1) (q + 1)
      else Some (Word.uint (m p) - Word.uint (m q)))"

definition umemset :: "cmem \<Rightarrow> uint \<Rightarrow> uint \<Rightarrow> uint \<Rightarrow> cmem" where
  "umemset m dst c n = stosb m dst (ucast c) (unat n)"

definition umemmove :: "cmem \<Rightarrow> uint \<Rightarrow> uint \<Rightarrow> int \<Rightarrow> cmem" where
  "umemmove m vdst vsrc n = copy_forward m vdst vsrc (nat n)"

text \<open>A string without its NUL.\<close>

fun atoi_loop :: "uint \<Rightarrow> uchar list \<Rightarrow> uint" where
  "atoi_loop n [] = n"
| "atoi_loop n (c # s) = (if byte (CHR ''0'') \<le> c \<and> c \<le> byte (CHR ''9'') then atoi_loop (n * 10 + ucast c - 48) s else n)"

definition atoi :: "uchar list \<Rightarrow> uint" where
  "atoi s = atoi_loop 0 s"

text \<open>\<^verbatim>\<open>stat\<close> in terms of the system calls.\<close>

definition ustat :: "(uchar list \<Rightarrow> 's \<Rightarrow> int \<times> 's) \<Rightarrow> (int \<Rightarrow> 's \<Rightarrow> (int \<times> 'st) \<times> 's) \<Rightarrow> (int \<Rightarrow> 's \<Rightarrow> 's) \<Rightarrow> uchar list \<Rightarrow> 's \<Rightarrow> (int \<times> 'st option) \<times> 's" where
  "ustat open_call fstat_call close_call n s =
     (let (fd, s) = open_call n s
      in if fd < 0 then ((- 1, None), s)
         else let ((r, st), s) = fstat_call fd s in ((r, Some st), close_call fd s))"

section \<open>printf.c\<close>

definition udigits :: "uchar list" where
  "udigits = bytes ''0123456789ABCDEF''"

definition uprintint :: "uint \<Rightarrow> nat \<Rightarrow> bool \<Rightarrow> uchar list" where
  "uprintint xx base sign =
     (let neg = (sign \<and> sint xx < 0);
          x = (if neg then - xx else xx);
          buf = print_digits udigits base (unat x)
      in rev (if neg then buf @ [byte (CHR ''-'')] else buf))"

text \<open>The second argument is whether \<^verbatim>\<open>state\<close> is a percent sign; \<open>args\<close> are the words from \<^verbatim>\<open>ap\<close> on and \<open>str_at\<close> gives the string at an address.\<close>

fun printf_loop :: "(uint \<Rightarrow> uchar list) \<Rightarrow> bool \<Rightarrow> uchar list \<Rightarrow> uint list \<Rightarrow> uchar list" where
  "printf_loop str_at state [] args = []"
| "printf_loop str_at False (c # fmt) args =
     (if c = byte (CHR ''%'') then printf_loop str_at True fmt args else c # printf_loop str_at False fmt args)"
| "printf_loop str_at True (c # fmt) args =
     (if c = byte (CHR ''d'') then uprintint (hd args) 10 True @ printf_loop str_at False fmt (tl args)
      else if c = byte (CHR ''x'') \<or> c = byte (CHR ''p'') then uprintint (hd args) 16 False @ printf_loop str_at False fmt (tl args)
      else if c = byte (CHR ''s'')
           then (if hd args = 0 then bytes ''(null)'' else str_at (hd args)) @ printf_loop str_at False fmt (tl args)
      else if c = byte (CHR ''c'') then ucast (hd args) # printf_loop str_at False fmt (tl args)
      else if c = byte (CHR ''%'') then c # printf_loop str_at False fmt args
      else byte (CHR ''%'') # c # printf_loop str_at False fmt args)"

definition uprintf :: "(uint \<Rightarrow> uchar list) \<Rightarrow> uchar list \<Rightarrow> uint list \<Rightarrow> uchar list" where
  "uprintf str_at fmt args = printf_loop str_at False fmt args"

text \<open>The calls of \<^verbatim>\<open>write\<close>: \<^verbatim>\<open>putc\<close> writes one byte at a time.\<close>

definition printf :: "(uint \<Rightarrow> uchar list) \<Rightarrow> nat \<Rightarrow> uchar list \<Rightarrow> uint list \<Rightarrow> (nat \<times> uchar list) list" where
  "printf str_at fd fmt args = map (\<lambda>c. (fd, [c])) (uprintf str_at fmt args)"

section \<open>cat.c, wc.c and kill.c\<close>

text \<open>
  What \<^verbatim>\<open>read\<close> finds on a descriptor: pieces as for \<^verbatim>\<open>grep\<close>, and then the end of the file or, if the flag is set, an error.  The functions give the calls of \<^verbatim>\<open>write\<close> and
  whether the program has exited.  \<open>written\<close> is the answer of \<^verbatim>\<open>write\<close>; arguments are addresses of strings.
\<close>

type_synonym input = "uchar list list \<times> bool"

definition read_input :: "nat \<Rightarrow> input \<Rightarrow> uchar list option \<times> input" where
  "read_input n inp =
     (case inp of (pieces, err) \<Rightarrow>
        if pieces = [] then (if err then None else Some [], inp)
        else let (got, rest) = read_piece n pieces in (Some got, (rest, err)))"

lemma read_input_shorter:
  assumes "read_input n inp = (Some got, inp')" "got \<noteq> []"
  shows "length (concat (fst inp')) < length (concat (fst inp))"
  using assms by (cases inp) (auto simp: read_input_def read_piece_def split: list.splits if_splits)

function cat :: "(uint \<Rightarrow> uchar list) \<Rightarrow> (uchar list \<Rightarrow> int) \<Rightarrow> input \<Rightarrow> (nat \<times> uchar list) list \<times> bool" where
  "cat str_at written inp =
     (case read_input 512 inp of
        (None, _) \<Rightarrow> (printf str_at 1 (bytes ''cat: read error'' @ [10]) [], True)
      | (Some got, inp') \<Rightarrow>
          if got = [] then ([], False)
          else if written got \<noteq> int (length got) then ((1, got) # printf str_at 1 (bytes ''cat: write error'' @ [10]) [], True)
          else let (ws, ex) = cat str_at written inp' in ((1, got) # ws, ex))"
  by pat_completeness auto
termination by (relation "measure (\<lambda>(str_at, written, inp). length (concat (fst inp)))") (auto dest: read_input_shorter [OF sym])

declare cat.simps [simp del]

definition cat_main :: "(uint \<Rightarrow> uchar list) \<Rightarrow> (uchar list \<Rightarrow> int) \<Rightarrow> (uchar list \<Rightarrow> input option) \<Rightarrow> input \<Rightarrow> uint list \<Rightarrow> (nat \<times> uchar list) list" where
  "cat_main str_at written opened stdin args =
     (if args = [] then fst (cat str_at written stdin)
      else fst (foldl (\<lambda>(ws, ex) a.
             if ex then (ws, ex)
             else case opened (str_at a) of
                    None \<Rightarrow> (ws @ printf str_at 1 (bytes ''cat: cannot open %s'' @ [10]) [a], True)
                  | Some inp \<Rightarrow> let (vs, ex) = cat str_at written inp in (ws @ vs, ex)) ([], False) args))"

record wc_state =
  wl :: uint
  ww :: uint
  wchars :: uint
  inword :: bool

definition wc_byte :: "uchar \<Rightarrow> wc_state \<Rightarrow> wc_state" where
  "wc_byte b s =
     (let s = s\<lparr>wchars := wchars s + 1\<rparr>;
          s = (if b = 10 then s\<lparr>wl := wl s + 1\<rparr> else s)
      in if strchr [0x20, 13, 9, 10, 11] b \<noteq> None then s\<lparr>inword := False\<rparr>
         else if \<not> inword s then s\<lparr>ww := ww s + 1, inword := True\<rparr>
         else s)"

function wc_loop :: "input \<Rightarrow> wc_state \<Rightarrow> wc_state option" where
  "wc_loop inp s =
     (case read_input 512 inp of
        (None, _) \<Rightarrow> None
      | (Some got, inp') \<Rightarrow> if got = [] then Some s else wc_loop inp' (fold wc_byte got s))"
  by pat_completeness auto
termination by (relation "measure (\<lambda>(inp, s). length (concat (fst inp)))") (auto dest: read_input_shorter [OF sym])

declare wc_loop.simps [simp del]

definition wc :: "(uint \<Rightarrow> uchar list) \<Rightarrow> input \<Rightarrow> uint \<Rightarrow> (nat \<times> uchar list) list \<times> bool" where
  "wc str_at inp name =
     (case wc_loop inp \<lparr>wl = 0, ww = 0, wchars = 0, inword = False\<rparr> of
        None \<Rightarrow> (printf str_at 1 (bytes ''wc: read error'' @ [10]) [], True)
      | Some s \<Rightarrow> (printf str_at 1 (bytes ''%d %d %d %s'' @ [10]) [wl s, ww s, wchars s, name], False))"

text \<open>\<open>noname\<close> is the address of the string that \<^verbatim>\<open>main\<close> gives as the name of the standard input.\<close>

definition wc_main :: "(uint \<Rightarrow> uchar list) \<Rightarrow> uint \<Rightarrow> (uchar list \<Rightarrow> input option) \<Rightarrow> input \<Rightarrow> uint list \<Rightarrow> (nat \<times> uchar list) list" where
  "wc_main str_at noname opened stdin args =
     (if args = [] then fst (wc str_at stdin noname)
      else fst (foldl (\<lambda>(ws, ex) a.
             if ex then (ws, ex)
             else case opened (str_at a) of
                    None \<Rightarrow> (ws @ printf str_at 1 (bytes ''wc: cannot open %s'' @ [10]) [a], True)
                  | Some inp \<Rightarrow> let (vs, ex) = wc str_at inp a in (ws @ vs, ex)) ([], False) args))"

text \<open>The writes of \<^verbatim>\<open>kill\<close> and the numbers it gives to the system call.\<close>

definition kill_main :: "(uint \<Rightarrow> uchar list) \<Rightarrow> uint list \<Rightarrow> (nat \<times> uchar list) list \<times> uint list" where
  "kill_main str_at args =
     (if args = [] then (printf str_at 2 (bytes ''usage: kill pid...'' @ [10]) [], [])
      else ([], map (\<lambda>a. atoi (str_at a)) args))"

section \<open>Numerals\<close>

lemma distinct_udigits: "distinct udigits" "length udigits = 16"
  by (simp_all add: udigits_def)

lemma print_digits_facts:
  assumes "2 \<le> b" "b \<le> length ds" "distinct ds"
  shows "print_digits ds b x \<noteq> [] \<and> set (print_digits ds b x) \<subseteq> set (take b ds) \<and> (length (print_digits ds b x) \<noteq> 1 \<longrightarrow> last (print_digits ds b x) \<noteq> ds ! 0 \<and> b ^ (length (print_digits ds b x) - 1) \<le> x)"
proof (induction x rule: less_induct)
  case (less x)
  have m: "x mod b < b" using assms(1) by simp
  then have hd: "ds ! (x mod b) \<in> set (take b ds)" using assms(2) by (auto simp: in_set_conv_nth)
  show ?case
  proof (cases "x div b = 0")
    case True
    then show ?thesis using hd by (simp add: print_digits.simps [of ds b x])
  next
    case False
    then have "x div b < x" using assms(1) by (intro div_less_dividend) (auto intro: Nat.gr0I)
    note IH = less.IH [OF this]
    let ?q = "print_digits ds b (x div b)"
    have e: "print_digits ds b x = ds ! (x mod b) # ?q" using False assms(1) by (simp add: print_digits.simps [of ds b x])
    have lead: "last ?q \<noteq> ds ! 0 \<and> b ^ (length ?q - 1) \<le> x div b"
    proof (cases "length ?q = 1")
      case True
      have "x div b div b = 0"
      proof (rule ccontr)
        assume "x div b div b \<noteq> 0"
        then have "?q = ds ! (x div b mod b) # print_digits ds b (x div b div b)" using assms(1) by (simp add: print_digits.simps [of ds b "x div b"])
        then show False using True by (simp add: print_digits.simps [of ds b "x div b div b"])
      qed
      then have q: "?q = [ds ! (x div b)]" "x div b < b" using assms(1) by (simp_all add: print_digits.simps [of ds b "x div b"] div_eq_0_iff)
      have "ds ! (x div b) \<noteq> ds ! 0" using nth_eq_iff_index_eq [OF assms(3), of "x div b" 0] q(2) False assms(2) by fastforce
      then show ?thesis using False q(1) by simp
    next
      case False
      then show ?thesis using IH by blast
    qed
    have "b ^ length ?q \<le> x"
    proof -
      have "b ^ length ?q = b * b ^ (length ?q - 1)" using IH by (cases ?q) auto
      also have "\<dots> \<le> b * (x div b)" using lead by simp
      also have "\<dots> \<le> x" by simp
      finally show ?thesis .
    qed
    then show ?thesis using IH hd lead by (simp add: e)
  qed
qed

text \<open>The numeral of a number in a base: its value is the number, and there is no superfluous zero in front.\<close>

definition numeral_of :: "nat \<Rightarrow> nat \<Rightarrow> uchar list \<Rightarrow> bool" where
  "numeral_of b x ds \<longleftrightarrow> ds \<noteq> [] \<and> set ds \<subseteq> set (take b udigits) \<and> numeral_value udigits b ds = x \<and> (length ds \<noteq> 1 \<longrightarrow> hd ds \<noteq> byte (CHR ''0''))"

lemma numeral_printed:
  assumes "2 \<le> b" "b \<le> 16"
  shows "numeral_of b x (rev (print_digits udigits b x))"
  using print_digits_facts [of b udigits x] print_digits_value [of udigits b x] assms distinct_udigits
  by (auto simp: numeral_of_def hd_rev) (simp add: udigits_def)

lemma print_digits_length:
  assumes "2 \<le> b" "b \<le> 16" "x < b ^ k" "0 < k"
  shows "length (print_digits udigits b x) \<le> k"
proof (rule ccontr)
  let ?n = "length (print_digits udigits b x)"
  assume n: "\<not> ?n \<le> k"
  then have "b ^ (?n - 1) \<le> x" using print_digits_facts [of b udigits x] assms distinct_udigits by auto
  moreover have "b ^ k \<le> b ^ (?n - 1)" using n assms(1) by (intro power_increasing) simp_all
  ultimately show False using assms(3) by simp
qed

lemma uprintint_dec:
  "\<exists>ds. uprintint xx 10 True = (if sint xx < 0 then [byte (CHR ''-'')] else []) @ ds \<and> numeral_of 10 (nat (abs (sint xx))) ds \<and> length ds \<le> 10"
proof -
  let ?x = "if sint xx < 0 then - xx else xx"
  have v: "unat ?x = nat (abs (sint xx))"
  proof (cases "sint xx < 0")
    case True
    then have "unat (- xx) = nat (- sint xx)" using uint_minus32 [OF True] by linarith
    then show ?thesis using True by simp
  next
    case False
    then have "sint xx = uint xx" using sint_uint32 [of xx] uint_bounded [of xx] by (simp split: if_splits)
    then show ?thesis using False by simp
  qed
  have "length (print_digits udigits 10 (unat ?x)) \<le> 10"
  proof (rule print_digits_length)
    show "unat ?x < 10 ^ 10" using unsigned_less [where 'a = nat, of ?x] by simp
  qed simp_all
  moreover have "uprintint xx 10 True = (if sint xx < 0 then [byte (CHR ''-'')] else []) @ rev (print_digits udigits 10 (unat ?x))" by (simp add: uprintint_def Let_def)
  ultimately show ?thesis using numeral_printed [of 10 "unat ?x"] unfolding v by auto
qed

lemma uprintint_hex: "numeral_of 16 (unat xx) (uprintint xx 16 False) \<and> length (uprintint xx 16 False) \<le> 8"
proof -
  have "length (print_digits udigits 16 (unat xx)) \<le> 8"
  proof (rule print_digits_length)
    show "unat xx < 16 ^ 8" using unsigned_less [where 'a = nat, of xx] by simp
  qed simp_all
  then show ?thesis using numeral_printed [of 16 "unat xx"] by (simp add: uprintint_def)
qed

section \<open>What printf prints\<close>

text \<open>A format as a list of directives, with the argument each takes.\<close>

datatype directive = Lit uchar | Dec uint | Hex uchar uint | Str uint | Chr uint | Percent | Unknown uchar

primrec directive_ok :: "directive \<Rightarrow> bool" where
  "directive_ok (Lit c) \<longleftrightarrow> c \<noteq> byte (CHR ''%'') \<and> c \<noteq> 0"
| "directive_ok (Dec v) \<longleftrightarrow> True"
| "directive_ok (Hex c v) \<longleftrightarrow> c = byte (CHR ''x'') \<or> c = byte (CHR ''p'')"
| "directive_ok (Str v) \<longleftrightarrow> True"
| "directive_ok (Chr v) \<longleftrightarrow> True"
| "directive_ok Percent \<longleftrightarrow> True"
| "directive_ok (Unknown c) \<longleftrightarrow> c \<notin> set (bytes ''dxpsc%'') \<and> c \<noteq> 0"

primrec fmt_of :: "directive \<Rightarrow> uchar list" where
  "fmt_of (Lit c) = [c]"
| "fmt_of (Dec v) = bytes ''%d''"
| "fmt_of (Hex c v) = [byte (CHR ''%''), c]"
| "fmt_of (Str v) = bytes ''%s''"
| "fmt_of (Chr v) = bytes ''%c''"
| "fmt_of Percent = bytes ''%%''"
| "fmt_of (Unknown c) = [byte (CHR ''%''), c]"

primrec args_of :: "directive \<Rightarrow> uint list" where
  "args_of (Lit c) = []"
| "args_of (Dec v) = [v]"
| "args_of (Hex c v) = [v]"
| "args_of (Str v) = [v]"
| "args_of (Chr v) = [v]"
| "args_of Percent = []"
| "args_of (Unknown c) = []"

primrec renders :: "(uint \<Rightarrow> uchar list) \<Rightarrow> directive \<Rightarrow> uchar list \<Rightarrow> bool" where
  "renders str_at (Lit c) bs \<longleftrightarrow> bs = [c]"
| "renders str_at (Dec v) bs \<longleftrightarrow> (\<exists>ds. bs = (if sint v < 0 then [byte (CHR ''-'')] else []) @ ds \<and> numeral_of 10 (nat (abs (sint v))) ds \<and> length bs \<le> 16)"
| "renders str_at (Hex c v) bs \<longleftrightarrow> numeral_of 16 (unat v) bs \<and> length bs \<le> 16"
| "renders str_at (Str v) bs \<longleftrightarrow> bs = (if v = 0 then bytes ''(null)'' else str_at v)"
| "renders str_at (Chr v) bs \<longleftrightarrow> bs = [ucast v]"
| "renders str_at Percent bs \<longleftrightarrow> bs = bytes ''%''"
| "renders str_at (Unknown c) bs \<longleftrightarrow> bs = [byte (CHR ''%''), c]"

lemma printf_directive:
  assumes "directive_ok d"
  shows "\<exists>bs. renders str_at d bs \<and> (\<forall>fmt args. printf_loop str_at False (fmt_of d @ fmt) (args_of d @ args) = bs @ printf_loop str_at False fmt args)"
proof (cases d)
  case (Dec v)
  have "length (uprintint v 10 True) \<le> 16" using uprintint_dec [of v] by auto
  then show ?thesis using Dec uprintint_dec [of v] by (intro exI [of _ "uprintint v 10 True"]) auto
next
  case (Hex c v)
  then show ?thesis using assms uprintint_hex [of v] by (intro exI [of _ "uprintint v 16 False"]) auto
qed (use assms in auto)



section \<open>Reading numbers\<close>

text \<open>\<^verbatim>\<open>atoi\<close> reads back what \<^verbatim>\<open>printf\<close> prints for a number that is not negative.\<close>

lemma atoi_loop_numeral:
  assumes "set ds \<subseteq> set (take 10 udigits)"
  shows "atoi_loop (of_nat n) ds = of_nat (foldl (\<lambda>n c. n * 10 + digit_value udigits c) n ds)"
  using assms
proof (induction ds arbitrary: n)
  case (Cons c ds)
  have "c \<in> set (take 10 udigits)" using Cons.prems by simp
  then have c: "byte (CHR ''0'') \<le> c" "c \<le> byte (CHR ''9'')" "ucast c = (of_nat (digit_value udigits c) + 48 :: uint)"
    by (auto simp: udigits_def digit_value_def)
  then have "atoi_loop (of_nat n) (c # ds) = atoi_loop (of_nat (n * 10 + digit_value udigits c)) ds" by simp
  also have "\<dots> = of_nat (foldl (\<lambda>n c. n * 10 + digit_value udigits c) (n * 10 + digit_value udigits c) ds)" using Cons.prems by (intro Cons.IH) simp
  finally show ?case by simp
qed simp

lemma atoi_printint:
  assumes "0 \<le> sint x"
  shows "atoi (uprintint x 10 True) = x"
proof -
  obtain ds where d: "uprintint x 10 True = ds" "numeral_of 10 (nat (sint x)) ds" using uprintint_dec [of x] assms by auto
  then have "atoi ds = of_nat (nat (sint x))" using atoi_loop_numeral [of ds 0] by (simp add: atoi_def numeral_of_def numeral_value_def)
  then show ?thesis using d(1) assms by simp
qed

section \<open>Counting\<close>

definition is_space :: "uchar \<Rightarrow> bool" where
  "is_space b \<longleftrightarrow> b \<in> {0x20, 13, 9, 10, 11}"

text \<open>The positions where a word begins.\<close>

definition word_starts :: "uchar list \<Rightarrow> nat set" where
  "word_starts d = {i. i < length d \<and> \<not> is_space (d ! i) \<and> (i = 0 \<or> is_space (d ! (i - 1)))}"

lemma word_starts_filter: "word_starts d = set (filter (\<lambda>i. \<not> is_space (d ! i) \<and> (i = 0 \<or> is_space (d ! (i - 1)))) [0..<length d])"
  by (auto simp: word_starts_def)

lemma word_starts_snoc:
  "word_starts (d @ [b]) = word_starts d \<union> (if \<not> is_space b \<and> (d = [] \<or> is_space (last d)) then {length d} else {})"
proof -
  have "filter (\<lambda>i. \<not> is_space ((d @ [b]) ! i) \<and> (i = 0 \<or> is_space ((d @ [b]) ! (i - 1)))) [0..<length d]
      = filter (\<lambda>i. \<not> is_space (d ! i) \<and> (i = 0 \<or> is_space (d ! (i - 1)))) [0..<length d]"
    by (rule filter_cong) (auto simp: nth_append less_imp_diff_less)
  moreover have "(d @ [b]) ! (length d - 1) = last d" if "d \<noteq> []" using that by (simp add: nth_append last_conv_nth)
  ultimately show ?thesis unfolding word_starts_filter by (cases "d = []") auto
qed

lemma wc_byte_alt:
  "wc_byte b s = s\<lparr>wl := wl s + (if b = 10 then 1 else 0), ww := ww s + (if \<not> is_space b \<and> \<not> inword s then 1 else 0), wchars := wchars s + 1, inword := \<not> is_space b\<rparr>"
proof -
  have s: "strchr [0x20, 13, 9, 10, 11] b \<noteq> None \<longleftrightarrow> is_space b" using strchr_iff [of "[0x20, 13, 9, 10, 11]" b] by (simp add: is_space_def)
  show ?thesis unfolding wc_byte_def s Let_def by (auto simp: is_space_def)
qed

lemma wc_fold:
  "fold wc_byte d \<lparr>wl = 0, ww = 0, wchars = 0, inword = False\<rparr>
     = \<lparr>wl = of_nat (count_list d 10), ww = of_nat (card (word_starts d)), wchars = of_nat (length d), inword = (d \<noteq> [] \<and> \<not> is_space (last d))\<rparr>"
proof (induction d rule: rev_induct)
  case Nil
  then show ?case by (simp add: word_starts_def)
next
  case (snoc b d)
  have f: "finite (word_starts d)" "length d \<notin> word_starts d" by (simp_all add: word_starts_def)
  have c: "card (word_starts (d @ [b])) = card (word_starts d) + (if \<not> is_space b \<and> (d = [] \<or> is_space (last d)) then 1 else 0)"
    using f by (simp add: word_starts_snoc)
  have "fold wc_byte (d @ [b]) \<lparr>wl = 0, ww = 0, wchars = 0, inword = False\<rparr> = wc_byte b (fold wc_byte d \<lparr>wl = 0, ww = 0, wchars = 0, inword = False\<rparr>)" by simp
  then show ?case unfolding snoc.IH wc_byte_alt c by auto
qed

lemma wc_loop_fold:
  assumes "[] \<notin> set pieces"
  shows "wc_loop (pieces, False) s = Some (fold wc_byte (concat pieces) s)"
  using assms
proof (induction "length (concat pieces)" arbitrary: pieces s rule: less_induct)
  case less
  show ?case
  proof (cases pieces)
    case Nil
    then show ?thesis by (simp add: wc_loop.simps read_input_def)
  next
    case (Cons p ps)
    define rest where "rest = (if length p \<le> 512 then ps else drop 512 p # ps)"
    have p: "p \<noteq> []" "[] \<notin> set rest" "concat pieces = take 512 p @ concat rest" using less.prems Cons by (auto simp: rest_def)
    then have l: "length (concat rest) < length (concat pieces)" by simp
    have "wc_loop (pieces, False) s = wc_loop (rest, False) (fold wc_byte (take 512 p) s)"
      using p(1) Cons by (subst wc_loop.simps) (auto simp: read_input_def read_piece_def rest_def)
    then show ?thesis using less.hyps [OF l p(2)] p(3) by simp
  qed
qed

text \<open>
  C34.  \<^verbatim>\<open>wc\<close> on any input of less than two gigabytes, whichever way the calls of \<^verbatim>\<open>read\<close> cut it into pieces: it prints the number of newlines, the number of words, that is of
  the positions where a byte that is no white space follows the beginning or white space, the number of bytes and the name.
\<close>

theorem wc_counts:
  assumes "[] \<notin> set pieces" "concat pieces = d" "length d < 2 ^ 31" "name \<noteq> 0"
  shows "\<exists>l w c. wc str_at (pieces, False) name = (map (\<lambda>b. (1, [b])) (l @ [0x20] @ w @ [0x20] @ c @ [0x20] @ str_at name @ [10]), False)
    \<and> numeral_of 10 (count_list d 10) l \<and> numeral_of 10 (card (word_starts d)) w \<and> numeral_of 10 (length d) c"
proof -
  let ?l = "count_list d 10" and ?w = "card (word_starts d)" and ?c = "length d"
  have "word_starts d \<subseteq> {..<length d}" by (auto simp: word_starts_def)
  then have "?w \<le> length d" using card_mono [of "{..<length d}" "word_starts d"] by simp
  moreover have "?l \<le> length d" by (rule count_le_length)
  ultimately have small: "?l < 2 ^ 31" "?w < 2 ^ 31" using assms(3) by simp_all
  have num: "numeral_of 10 n (uprintint (of_nat n) 10 True)" if "n < 2 ^ 31" for n
  proof -
    have "unat (of_nat n :: uint) = n" using that by (simp add: unat_of_nat)
    then have "sint (of_nat n :: uint) = int n" using that sint_uint32 [of "of_nat n"] by (simp add: uint_nat)
    then show ?thesis using uprintint_dec [of "of_nat n"] by auto
  qed
  have "wc str_at (pieces, False) name = (printf str_at 1 (bytes ''%d %d %d %s'' @ [10]) [of_nat ?l, of_nat ?w, of_nat ?c, name], False)"
    unfolding wc_def wc_loop_fold [OF assms(1)] assms(2) wc_fold by simp
  then show ?thesis using num [OF small(1)] num [OF small(2)] num [OF assms(3)] assms(4)
    by (intro exI [of _ "uprintint (of_nat ?l) 10 True"] exI [of _ "uprintint (of_nat ?w) 10 True"] exI [of _ "uprintint (of_nat ?c) 10 True"]) (simp add: printf_def uprintf_def)
qed

theorem wc_counts_witness:
  "\<exists>w. numeral_of 10 3 w \<and> (\<exists>l c. wc (\<lambda>_. bytes ''f'') ([bytes ''a b'', bytes ''c d'' @ [10]], False) 0x1000
     = (map (\<lambda>b. (1, [b])) (l @ [0x20] @ w @ [0x20] @ c @ [0x20] @ bytes ''f'' @ [10]), False) \<and> numeral_of 10 1 l \<and> numeral_of 10 7 c)"
proof -
  let ?d = "bytes ''a bc d'' @ [10]"
  have s: "word_starts ?d = {0, 2, 5}" by (auto simp: word_starts_filter is_space_def upt_rec)
  have "concat [bytes ''a b'', bytes ''c d'' @ [10]] = ?d" by simp
  moreover have "card {0, 2, 5 :: nat} = 3" "count_list ?d 10 = 1" "length ?d = 7" by simp_all
  ultimately show ?thesis using wc_counts [of "[bytes ''a b'', bytes ''c d'' @ [10]]" ?d "0x1000" "\<lambda>_. bytes ''f''"] unfolding s by (simp only:) force
qed

section \<open>Strings and copies\<close>

text \<open>\<^verbatim>\<open>strcpy\<close> ends, leaves the string at its destination and writes nothing past its NUL; \<^verbatim>\<open>strcmp\<close> ends and is zero on equal strings only.\<close>

lemma strcpy_copies:
  assumes "cstring_at m t zs" "length zs < 2 ^ 32 - 1" "\<And>i j. i \<le> length zs \<Longrightarrow> j \<le> length zs \<Longrightarrow> s + of_nat i \<noteq> t + of_nat j"
  shows "\<exists>m'. strcpy m s t = Some m' \<and> cstring_at m' s zs \<and> (\<forall>x. length zs < unat (x - s) \<longrightarrow> m' x = m x)"
  using assms
proof (induction zs arbitrary: m s t)
  case Nil
  then show ?case by (auto simp: strcpy.simps [of m s t] Let_def)
next
  case (Cons c cs)
  define m1 where "m1 = m(s := m t)"
  have sep: "s + 1 + of_nat i \<noteq> t + 1 + of_nat j" if "i \<le> length cs" "j \<le> length cs" for i j
    using Cons.prems(3) [of "Suc i" "Suc j"] that by (simp add: algebra_simps)
  have "cstring_at m1 (t + 1) cs"
    using Cons.prems(1) Cons.prems(3) [of 0 "Suc j" for j] by (simp add: m1_def cstring_at_upd algebra_simps)
  then obtain m' where m': "strcpy m1 (s + 1) (t + 1) = Some m'" "cstring_at m' (s + 1) cs" "\<And>x. length cs < unat (x - (s + 1)) \<Longrightarrow> m' x = m1 x"
    using Cons.IH [of m1 "t + 1" "s + 1"] Cons.prems(2) sep by auto
  have "strcpy m s t = Some m'" using m'(1) Cons.prems(1) by (simp add: strcpy.simps [of m s t] m1_def Let_def)
  moreover have "m' s = c" using m'(3) [of s] Cons.prems(1,2) unat_pred_self [of s] by (simp add: m1_def)
  moreover have "m' x = m x" if "Suc (length cs) < unat (x - s)" for x
  proof -
    have "x \<noteq> s" using that by auto
    then show ?thesis using m'(3) [of x] that unat_diff_Suc [of x s] by (simp add: m1_def)
  qed
  ultimately show ?case using m'(2) Cons.prems(1) by auto
qed

lemma strcmp_decides:
  assumes "cstring_at m p xs" "cstring_at m q ys"
  shows "\<exists>r. strcmp m p q = Some r \<and> (r = 0 \<longleftrightarrow> xs = ys)"
  using assms
proof (induction xs arbitrary: p q ys)
  case Nil
  then show ?case by (cases ys) (auto simp: strcmp.simps [of m p q] uint_0_iff dest: word_uint_eqI)
next
  case (Cons x xs)
  then show ?case by (cases ys) (auto simp: strcmp.simps [of m p q] uint_0_iff dest: word_uint_eqI)
qed

text \<open>\<^verbatim>\<open>cat\<close> writes what it reads, in order.\<close>

lemma cat_copies:
  assumes "[] \<notin> set pieces" "\<And>bs. written bs = int (length bs)"
  shows "\<exists>ws. cat str_at written (pieces, False) = (map (Pair 1) ws, False) \<and> concat ws = concat pieces"
  using assms(1)
proof (induction "length (concat pieces)" arbitrary: pieces rule: less_induct)
  case less
  show ?case
  proof (cases pieces)
    case Nil
    then show ?thesis by (simp add: cat.simps read_input_def)
  next
    case (Cons p ps)
    define rest where "rest = (if length p \<le> 512 then ps else drop 512 p # ps)"
    have p: "p \<noteq> []" "[] \<notin> set rest" "concat pieces = take 512 p @ concat rest" using less.prems Cons by (auto simp: rest_def)
    then have l: "length (concat rest) < length (concat pieces)" by simp
    obtain ws where ws: "cat str_at written (rest, False) = (map (Pair 1) ws, False)" "concat ws = concat rest" using less.hyps [OF l p(2)] by blast
    have "read_input 512 (pieces, False) = (Some (take 512 p), (rest, False))" using Cons by (simp add: read_input_def read_piece_def rest_def)
    then have "cat str_at written (pieces, False) = (map (Pair 1) (take 512 p # ws), False)"
      using p(1) ws(1) by (subst cat.simps) (simp add: assms(2))
    then show ?thesis using p(3) ws(2) by (intro exI [of _ "take 512 p # ws"]) simp
  qed
qed

end
