(* ===== verification/Spec2Isabelle.thy ===== *)
theory Spec2Isabelle
  imports Trap ProcTable ShellRun FSData Grep Mkfs Clock Ide Umalloc Ulib
begin

text \<open>
  A verification development for the xv6 teaching kernel under \<^verbatim>\<open>src/xv6\<close>, its shell, its user library and some of its user programs.

  \<^bold>\<open>The program and its parts.\<close>  The kernel is a set of layers.  At the bottom are the locks, the C string routines, the physical page allocator and the page
  tables.  The file system stands on the in-memory disk (\<^verbatim>\<open>memide.c\<close>): the buffer cache, the write-ahead log over the cache, and over the log blocks, inodes,
  directories and paths.  Pipes and the console are ring buffers shared between processes and interrupt handlers.  The process table, the file table and the
  system calls tie these together; the trap handler dispatches to them.  In user space the shell turns lines into trees of system calls.

  \<^bold>\<open>How the code is modelled.\<close>  Every function of a modelled part is a HOL function of the same name, composed as the code composes it.  C integers are words of
  their width (\<^verbatim>\<open>uint\<close> is \<open>32 word\<close>); signed comparisons go through \<open>sint\<close>.  Structures are records.  A pointer into a static table (buffers, inodes, files,
  processes) is an index, a pointer into memory an address of the flat byte memory \<open>cmem\<close>; on-disk structures are byte lists accessed at their offsets.  A kernel
  \<^verbatim>\<open>panic\<close> is the value \<open>Panic\<close>, a call that has to sleep is \<open>Block\<close>, anything else is \<open>Done\<close>.  The state grows by record extension as the layers do:
  \<open>bstate\<close> (cache and disk), \<open>lstate\<close> (log), \<open>fstate\<close> (super block and inode cache), \<open>kstate\<close> (memory, console, pipes, files, processes).

  \<^bold>\<open>The theories.\<close>
  \<^item> \<open>Prelude\<close>: the integer types of \<^verbatim>\<open>types.h\<close>, the result type \<open>outcome\<close> with its bind, byte memory, records in blocks of bytes, and shared lemmas.
  \<^item> \<open>CString\<close>: \<^verbatim>\<open>string.c\<close>, \<^verbatim>\<open>stosb\<close>/\<^verbatim>\<open>stosl\<close> of \<^verbatim>\<open>x86.h\<close>.  \<open>memset\<close> fills exactly its region on both code paths, \<open>memmove\<close> copies overlapping regions, \<open>safestrcpy\<close>
    terminates inside its buffer.
  \<^item> \<open>Locks\<close>: \<^verbatim>\<open>spinlock.c\<close>, \<^verbatim>\<open>sleeplock.c\<close>.  Mutual exclusion for every interleaving of the CPUs, and nesting of \<^verbatim>\<open>pushcli\<close>/\<^verbatim>\<open>popcli\<close>.
  \<^item> \<open>Ring\<close>: the locale of ring buffers with free-running counters, interpreted by pipes and by the console.
  \<^item> \<open>Pipe\<close>: \<^verbatim>\<open>pipe.c\<close>.  A pipe is a bounded FIFO channel under all interleavings, also when its counters wrap; end of file; outcomes of a write.
  \<^item> \<open>Console\<close>, \<open>Kbd\<close>: \<^verbatim>\<open>console.c\<close>, \<^verbatim>\<open>uart.c\<close>, \<^verbatim>\<open>kbd.c\<close>.  The interrupt handler refines a line discipline; reads return one line; printed numbers read back.
  \<^item> \<open>Bio\<close>, \<open>Log\<close>: \<^verbatim>\<open>bio.c\<close>, \<^verbatim>\<open>memide.c\<close>, \<^verbatim>\<open>log.c\<close>.  The cache is coherent; a commit that is cut off after any of its sector writes is recovered to all of the
    transaction or none of it, recovery may itself be cut off and repeated, and \<^verbatim>\<open>begin_op\<close> reserves enough log space.
  \<^item> \<open>FS\<close>, \<open>FSBlocks\<close>, \<open>FSInode\<close>, \<open>FSData\<close>: \<^verbatim>\<open>fs.c\<close>.  \<open>FS\<close> has all the operations; the others prove the block allocator correct, the reference counting of the
    inode cache, the inodes on disk, and the contents of files through \<^verbatim>\<open>bmap\<close>, \<^verbatim>\<open>readi\<close> and \<^verbatim>\<open>writei\<close>.  They rest on the lemmas of \<open>Log\<close> for one logged update.
  \<^item> \<open>Kalloc\<close>, \<open>VM\<close>: \<^verbatim>\<open>kalloc.c\<close>, \<^verbatim>\<open>vm.c\<close>.  Pages are handed out once; the kernel half of every page table; growing and copying an address space.
  \<^item> \<open>Kernel\<close>, \<open>Sched\<close>, \<open>Proc\<close>, \<open>ProcTable\<close>: \<^verbatim>\<open>proc.c\<close>.  \<^verbatim>\<open>wait\<close> misses no exit, and parent pointers never dangle, under every interleaving.
  \<^item> \<open>File\<close>, \<open>Syscall\<close>, \<open>SysFile\<close>, \<open>Exec\<close>, \<open>Trap\<close>: \<^verbatim>\<open>file.c\<close>, \<^verbatim>\<open>syscall.c\<close>, \<^verbatim>\<open>sysproc.c\<close>, \<^verbatim>\<open>sysfile.c\<close>, \<^verbatim>\<open>exec.c\<close>, \<^verbatim>\<open>trap.c\<close>.  Checked arguments cannot fault the kernel;
    a refused call changes nothing.
  \<^item> \<open>Shell\<close>, \<open>ShellPrint\<close>, \<open>ShellRun\<close>: \<^verbatim>\<open>sh.c\<close>.  The parser terminates, inverts printing in the shell's grammar, and the shell executes what the command means.
  \<^item> \<open>Grep\<close>: \<^verbatim>\<open>grep.c\<close>.  The matcher decides the language of its pattern, and the lines printed are the ones that match.
  \<^item> \<open>Ide\<close>: \<^verbatim>\<open>ide.c\<close>.  With an ATA disk the interrupt-driven driver does what the memory disk driver of \<open>Bio\<close> does.
  \<^item> \<open>Mkfs\<close>: \<^verbatim>\<open>mkfs.c\<close>.  The image it builds is a consistent file system with the files of the host, and the kernel's \<^verbatim>\<open>readi\<close> reads them from it.
  \<^item> \<open>Clock\<close>: \<^verbatim>\<open>w11/clock-example.c\<close>.  The clock ring refines the second-chance queue.
  \<^item> \<open>Umalloc\<close>: \<^verbatim>\<open>umalloc.c\<close>.  Under every program that uses its blocks properly \<^verbatim>\<open>malloc\<close> and \<^verbatim>\<open>free\<close> return, the blocks in use are disjoint and their contents are left alone.
  \<^item> \<open>Ulib\<close>: \<^verbatim>\<open>ulib.c\<close>, \<^verbatim>\<open>printf.c\<close>, \<^verbatim>\<open>cat.c\<close>, \<^verbatim>\<open>wc.c\<close>, \<^verbatim>\<open>kill.c\<close>.  What \<^verbatim>\<open>printf\<close> prints for any format, \<^verbatim>\<open>atoi\<close> reads printed numbers back, string routines, the counts of
    \<^verbatim>\<open>wc\<close>.

  \<^bold>\<open>Interfaces.\<close>  The buffer cache's contract towards the log is a locale of \<open>Bio\<close> with the laws of \<^verbatim>\<open>bread\<close>, \<^verbatim>\<open>bwrite\<close> and \<^verbatim>\<open>brelse\<close>, interpreted on the model of
  \<^verbatim>\<open>bio.c\<close>; \<open>Log\<close> uses only its facts.  Ring buffers are a locale of \<open>Ring\<close>.  Transactions of the file system are described by \<open>txn_to\<close> of \<open>FSBlocks\<close>, steps on a file by \<open>ext_step\<close>
  of \<open>FSData\<close>.

  \<^bold>\<open>Bounds and fuel.\<close>  Loops with a counter recurse on it.  The loops over page ranges in \<open>VM\<close> carry the number of pages plus two as fuel, \<^verbatim>\<open>readi\<close> and \<^verbatim>\<open>writei\<close> the number of
  bytes plus one, since every chunk is at least one byte; the theorems prove that they return, so the fuel is enough.  The shell's parser takes four times the length of the line
  plus a constant, and \<open>parsecmd_terminates\<close> shows that this is enough for every line.  Search loops of \<^verbatim>\<open>string.c\<close> and \<^verbatim>\<open>ulib.c\<close> that may run past a string are partial functions, and so are
  the loops of \<^verbatim>\<open>umalloc.c\<close>, which \<open>malloc_disjoint\<close> proves to return.  \<^verbatim>\<open>iappend\<close> of \<^verbatim>\<open>mkfs.c\<close> has the number of bytes plus one, the clock hand \<^verbatim>\<open>CLOCKSIZE\<close> plus one, since a
  full turn clears every reference bit, and the walk to the end of the disk queue the number of buffers plus one.

  \<^bold>\<open>Concurrency.\<close>  Spin locks, pipes, the console, log reservations, the inode cache and the process table are proved for all interleavings of their critical sections.  The rest of
  the kernel is modelled for one CPU between two sleeps.

  \<^bold>\<open>Not modelled.\<close>  Assembly (boot, traps, context switch), which only moves registers, is represented by the saved trap frames and contexts.  The interrupt controllers, the table of
  processors and the segment and interrupt descriptor tables are device registers and processor state without effect on the modelled state.  Test programs and the remaining user
  programs are clients of the system calls; the programs for the host under \<^verbatim>\<open>src/w1\<close> to \<^verbatim>\<open>src/w13\<close> use the host's libraries.
\<close>

section \<open>The allocator on the kernel\<close>

text \<open>
  What the allocator of user programs relies on, \<open>kernel_ok\<close> of \<open>Umalloc\<close>, holds of the kernel: \<^verbatim>\<open>growproc\<close> does not grant memory that reaches into the kernel's half of the address
  space.
\<close>

lemma growproc_kernel_ok:
  "kernel_ok (\<lambda>b n. b < KERNBASE \<and> (\<exists>s t. p_sz (myproc s) = b \<and> growproc (sint n) s = Done (0, t)))"
  unfolding kernel_ok_def
proof (intro allI impI, elim conjE exE)
  fix b n :: uint and s t assume b: "b < KERNBASE" "p_sz (myproc s) = b" and g: "growproc (sint n) s = Done (0, t)" and n: "unat n < 2 ^ 31"
  have b31: "unat b < 2 ^ 31" using b(1) by (simp add: word_less_nat_alt KERNBASE_def)
  then have sum: "unat (b + n) = unat b + unat n" using n by (intro unat_add_uint) simp
  have "int (unat n) < int (2 ^ 31)" using n by (simp only: of_nat_less_iff)
  then have si: "sint n = int (unat n)" unfolding sint_uint32 by simp
  have "\<not> KERNBASE \<le> b + n" if "0 < unat n"
  proof
    assume "KERNBASE \<le> b + n"
    then have a: "allocuvm d b (b + n) u = Done (0, u)" for d and u :: kmem by (simp add: allocuvm_def)
    have "0 < sint n" using si that by linarith
    then have "growproc (sint n) s = Done (- 1, s)" unfolding growproc_def Let_def b(2) by (simp add: on_vm_def a)
    then show False using g by simp
  qed
  then show "unat b + unat n \<le> 2 ^ 31" using sum b31 by (cases "unat n = 0") (auto simp: word_le_nat_alt KERNBASE_def)
qed
end
